(* ===== verification/Prelude.thy ===== *)
theory Prelude
  imports Main "HOL-Library.Word" "HOL-Library.Monad_Syntax"
begin

text \<open>
  Shared vocabulary of the development: the C integer types, the error numbers of
  \<^verbatim>\<open>kernel/include/common/errno.h\<close>, the rounding macros of
  \<^verbatim>\<open>kernel/include/common/macro.h\<close>, the failure monad in which every operation that can
  hit \<^verbatim>\<open>BUG\<close>/\<^verbatim>\<open>BUG_ON\<close> or leave the bounds of an object is written, and the generic
  simulation interface used by the concurrent components.

  An operation of the kernel is a function into \<open>'a option\<close>.  \<open>None\<close> stands for "the code
  does not return": a failed \<^verbatim>\<open>BUG_ON\<close> (which spins forever), a spin on a lock that nobody
  can release, or an access that is undefined in C (a NULL dereference, an index outside
  an array).  Error codes are ordinary results, as in the C code.
\<close>

unbundle bit_operations_syntax

named_theorems lock_simps \<open>sequential behaviour of the spin locks\<close>
named_theorems geom_simps \<open>arithmetic of pages, orders and indices\<close>

section \<open>C types and constants\<close>

type_synonym u64 = "64 word"
type_synonym u32 = "32 word"
type_synonym s32 = int

definition EPERM :: int where "EPERM = 1"
definition EAGAIN :: int where "EAGAIN = 11"
definition ENOMEM :: int where "ENOMEM = 12"
definition EACCES :: int where "EACCES = 13"
definition EEXIST :: int where "EEXIST = 17"
definition EINVAL :: int where "EINVAL = 22"
definition ECAPBILITY :: int where "ECAPBILITY = 200"
definition ENOMAPPING :: int where "ENOMAPPING = 203"

lemmas errno_defs = EPERM_def EAGAIN_def ENOMEM_def EACCES_def EEXIST_def EINVAL_def
  ECAPBILITY_def ENOMAPPING_def

definition ROUND_DOWN :: "u64 \<Rightarrow> u64 \<Rightarrow> u64" where
  "ROUND_DOWN x n = x AND NOT (n - 1)"

definition ROUND_UP :: "u64 \<Rightarrow> u64 \<Rightarrow> u64" where
  "ROUND_UP x n = (x + n - 1) AND NOT (n - 1)"

definition KBASE :: u64 where "KBASE = 0xFFFFFF0000000000"
definition phys_to_virt :: "u64 \<Rightarrow> u64" where "phys_to_virt pa = pa + KBASE"
definition virt_to_phys :: "u64 \<Rightarrow> u64" where "virt_to_phys va = va - KBASE"

lemma phys_virt_inverse [simp]:
  "virt_to_phys (phys_to_virt pa) = pa" "phys_to_virt (virt_to_phys va) = va"
  by (simp_all add: phys_to_virt_def virt_to_phys_def)

lemma round_down_bits: "x AND NOT (2 ^ n - 1) = push_bit n (drop_bit n x)" for x :: u64
  unfolding mask_eq_exp_minus_1 [symmetric]
  by (rule bit_word_eqI) (auto simp: bit_simps)

lemma unat_round_down:
  fixes x :: u64
  shows "unat (x AND NOT (2 ^ n - 1)) = unat x div 2 ^ n * 2 ^ n"
proof -
  have "unat x < 2 ^ LENGTH(64)" by (rule unsigned_less)
  then have u: "unat x < 2 ^ 64" by simp
  have "unat (push_bit n (drop_bit n x)) = take_bit 64 (push_bit n (drop_bit n (unat x)))"
    using u by (simp add: unsigned_push_bit_eq unsigned_drop_bit_eq take_bit_nat_eq_self)
  also have "push_bit n (drop_bit n (unat x)) = unat x div 2 ^ n * 2 ^ n"
    by (simp add: push_bit_eq_mult drop_bit_eq_div)
  also have "take_bit 64 \<dots> = unat x div 2 ^ n * 2 ^ n"
  proof -
    have "unat x div 2 ^ n * 2 ^ n \<le> unat x" by simp
    also note u
    finally show ?thesis by (rule take_bit_nat_eq_self)
  qed
  finally show ?thesis by (simp only: round_down_bits)
qed

lemma ROUND_DOWN_page: "unat (ROUND_DOWN x 4096) = unat x div 4096 * 4096"
  using unat_round_down [of x 12] by (simp add: ROUND_DOWN_def)

lemma ROUND_UP_page:
  assumes "unat x + 4095 < 2 ^ 64"
  shows "unat (ROUND_UP x 4096) = (unat x + 4095) div 4096 * 4096"
proof -
  have "unat (x + 4095) = unat x + 4095" using assms by (simp add: unat_word_ariths)
  then show ?thesis using unat_round_down [of "x + 4095" 12] by (simp add: ROUND_UP_def add_diff_eq [symmetric])
qed

definition DIV_ROUND_UP :: "nat \<Rightarrow> nat \<Rightarrow> nat" where
  "DIV_ROUND_UP n d = (n + d - 1) div d"

section \<open>The failure monad\<close>

text \<open>\<^verbatim>\<open>BUG_ON(c)\<close>: the kernel prints a message and spins when \<open>c\<close> holds.\<close>

definition BUG_ON :: "bool \<Rightarrow> unit option" where
  "BUG_ON c = (if c then None else Some ())"

lemma BUG_ON_simps [simp]: "BUG_ON True = None" "BUG_ON False = Some ()"
  by (simp_all add: BUG_ON_def)

lemma BUG_ON_Some [simp]: "BUG_ON c = Some u \<longleftrightarrow> \<not> c"
  by (simp add: BUG_ON_def)

text \<open>Reading an array cell: undefined outside the array.\<close>

definition nth_opt :: "'a list \<Rightarrow> nat \<Rightarrow> 'a option" where
  "nth_opt xs i = (if i < length xs then Some (xs ! i) else None)"

lemma nth_opt_Some: "nth_opt xs i = Some x \<longleftrightarrow> i < length xs \<and> xs ! i = x"
  by (auto simp: nth_opt_def)

lemma nth_opt_in [simp]: "i < length xs \<Longrightarrow> nth_opt xs i = Some (xs ! i)"
  by (simp add: nth_opt_def)

lemma nth_opt_out [simp]: "length xs \<le> i \<Longrightarrow> nth_opt xs i = None"
  by (simp add: nth_opt_def)

text \<open>Writing an array cell: undefined outside the array.\<close>

definition upd_opt :: "'a list \<Rightarrow> nat \<Rightarrow> 'a \<Rightarrow> 'a list option" where
  "upd_opt xs i v = (if i < length xs then Some (xs[i := v]) else None)"

lemma upd_opt_Some: "upd_opt xs i v = Some ys \<longleftrightarrow> i < length xs \<and> ys = xs[i := v]"
  by (auto simp: upd_opt_def)

lemma upd_opt_in [simp]: "i < length xs \<Longrightarrow> upd_opt xs i v = Some (xs[i := v])"
  by (simp add: upd_opt_def)

lemma upd_opt_out [simp]: "length xs \<le> i \<Longrightarrow> upd_opt xs i v = None"
  by (simp add: upd_opt_def)

lemmas bind_Some_iff = Option.bind_eq_Some_conv

section \<open>Forward simulation\<close>

text \<open>
  The interface between a concurrent implementation and its specification: every concrete
  step is matched by finitely many abstract steps.
\<close>

locale forward_simulation =
  fixes cinit :: "'c \<Rightarrow> bool" and cstep :: "'c \<Rightarrow> 'c \<Rightarrow> bool"
    and ainit :: "'a \<Rightarrow> bool" and astep :: "'a \<Rightarrow> 'a \<Rightarrow> bool"
    and rel :: "'c \<Rightarrow> 'a \<Rightarrow> bool"
  assumes sim_init: "cinit c \<Longrightarrow> \<exists>a. ainit a \<and> rel c a"
    and sim_step: "rel c a \<Longrightarrow> cstep c c' \<Longrightarrow> \<exists>a'. astep\<^sup>*\<^sup>* a a' \<and> rel c' a'"
begin

lemma sim_steps:
  assumes "cstep\<^sup>*\<^sup>* c c'" and "rel c a"
  shows "\<exists>a'. astep\<^sup>*\<^sup>* a a' \<and> rel c' a'"
  using assms
proof (induction rule: rtranclp_induct)
  case base
  then show ?case by blast
next
  case (step y z)
  then obtain b where "astep\<^sup>*\<^sup>* a b" and "rel y b" by blast
  moreover from sim_step [OF \<open>rel y b\<close> step.hyps(2)]
  obtain b' where "astep\<^sup>*\<^sup>* b b'" and "rel z b'" by blast
  ultimately show ?case by (meson rtranclp_trans)
qed

lemma reachable_sim:
  assumes "cinit c0" and "cstep\<^sup>*\<^sup>* c0 c"
  shows "\<exists>a0 a. ainit a0 \<and> astep\<^sup>*\<^sup>* a0 a \<and> rel c a"
  using sim_init [OF assms(1)] sim_steps [OF assms(2)] by blast

end

section \<open>Shared lemmas on words and lists\<close>

lemma unat_less_2p: "unat (w :: 'a::len word) < 2 ^ LENGTH('a)"
  by (rule unsigned_less)

lemma unat_of_nat_lt [simp]: "n < 2 ^ LENGTH('a) \<Longrightarrow> unat (of_nat n :: 'a::len word) = n"
  by (simp add: unat_of_nat take_bit_nat_eq_self)

lemma of_nat_word_eq_0_iff:
  "n < 2 ^ LENGTH('a) \<Longrightarrow> (of_nat n :: 'a::len word) = 0 \<longleftrightarrow> n = 0"
  by (auto dest: arg_cong [where f = unat] simp: unat_of_nat_lt)

lemma of_nat_word_inj:
  "m < 2 ^ LENGTH('a) \<Longrightarrow> n < 2 ^ LENGTH('a) \<Longrightarrow>
   (of_nat m :: 'a::len word) = of_nat n \<longleftrightarrow> m = n"
  by (auto dest: arg_cong [where f = unat] simp: unat_of_nat_lt)

lemma length_distinct_bound: "distinct xs \<Longrightarrow> set xs \<subseteq> {..<n} \<Longrightarrow> length xs \<le> n"
  using card_mono [of "{..<n}" "set xs"] by (simp add: distinct_card)

end
