(* ===== verification/Ticket_Lock.thy ===== *)
theory Ticket_Lock
  imports Prelude
begin

text \<open>
  The ticket spin lock of \<^verbatim>\<open>kernel/arch/aarch64/sync/ticket.c\<close> and
  \<^verbatim>\<open>kernel/arch/x86_64/sync/ticket.c\<close>.  The first part gives the effect of each operation
  when it runs alone; the other components use it for the locks of their data structures.
  The second part is the concurrent aarch64 code, one step per memory access, with the
  exclusive monitor of the load-exclusive/store-exclusive pairs, and its refinement to a
  first-in first-out mutex.
\<close>

section \<open>The lock record and its operations in isolation\<close>

record lock_impl =
  owner :: u32
  nxt :: u32

definition lock_init :: lock_impl where
  "lock_init = \<lparr>owner = 0, nxt = 0\<rparr>"

text \<open>
  \<^verbatim>\<open>lock\<close> takes a ticket and spins until the ticket is served.  Run alone, it spins forever
  when the lock is taken.
\<close>

definition lock :: "lock_impl \<Rightarrow> lock_impl option" where
  "lock l = (let lockval = nxt l; l' = l\<lparr>nxt := nxt l + 1\<rparr> in
     if lockval = owner l' then Some l' else None)"

definition try_lock :: "lock_impl \<Rightarrow> s32 \<times> lock_impl" where
  "try_lock l = (let lockval = nxt l; ownerval = owner l; newval = lockval + 1 in
     if lockval \<noteq> ownerval then (-1, l) else (0, l\<lparr>nxt := newval\<rparr>))"

definition unlock :: "lock_impl \<Rightarrow> lock_impl" where
  "unlock l = l\<lparr>owner := owner l + 1\<rparr>"

definition is_locked :: "lock_impl \<Rightarrow> bool" where
  "is_locked l \<longleftrightarrow> owner l < nxt l"

definition lock_free :: "lock_impl \<Rightarrow> bool" where
  "lock_free l \<longleftrightarrow> owner l = nxt l"

definition lock_held :: "lock_impl \<Rightarrow> bool" where
  "lock_held l \<longleftrightarrow> nxt l = owner l + 1"

lemma lock_init_free [lock_simps]: "lock_free lock_init"
  by (simp add: lock_free_def lock_init_def)

lemma lock_Some_iff: "lock l = Some l' \<longleftrightarrow> lock_free l \<and> l' = l\<lparr>nxt := nxt l + 1\<rparr>"
  by (auto simp: lock_def lock_free_def Let_def)

lemma lock_None_iff: "lock l = None \<longleftrightarrow> \<not> lock_free l"
  by (auto simp: lock_def lock_free_def Let_def)

lemma lock_free_Some [lock_simps]: "lock_free l \<Longrightarrow> lock l = Some (l\<lparr>nxt := nxt l + 1\<rparr>)"
  by (simp add: lock_Some_iff)

lemma lock_makes_held: "lock l = Some l' \<Longrightarrow> lock_held l'"
  by (auto simp: lock_Some_iff lock_held_def lock_free_def)

lemma unlock_frees [lock_simps]: "lock_held l \<Longrightarrow> lock_free (unlock l)"
  by (simp add: lock_held_def lock_free_def unlock_def)

lemma unlock_after_lock [lock_simps]: "lock_free l \<Longrightarrow> lock_free (unlock (l\<lparr>nxt := nxt l + 1\<rparr>))"
  by (simp add: lock_free_def unlock_def)

lemma held_not_free: "lock_held l \<Longrightarrow> \<not> lock_free l"
  by (auto simp: lock_held_def lock_free_def)

lemma try_lock_cases:
  "try_lock l = (if lock_free l then (0, l\<lparr>nxt := nxt l + 1\<rparr>) else (-1, l))"
  by (auto simp: try_lock_def lock_free_def Let_def)

section \<open>The concurrent code\<close>

text \<open>
  Program points of one thread in \<^verbatim>\<open>lock\<close>, \<^verbatim>\<open>try_lock\<close> and \<^verbatim>\<open>unlock\<close>.  \<open>Lock1\<close> is the label
  1 of the assembly of \<^verbatim>\<open>lock\<close>; the arguments are the registers that are live there.
\<close>

datatype pc =
    Idle
  | Lock1
  | LockLL u32
  | LockSpin u32
  | TryLL u32
  | TryCmp u32
  | Crit
  | Unlock1 u32

record tl_state =
  lk :: lock_impl
  pcs :: "nat \<Rightarrow> pc"
  mon :: "nat \<Rightarrow> bool"

text \<open>
  One step of one thread.  A store to \<^verbatim>\<open>lock->next\<close> clears every exclusive monitor; a
  monitor may also be lost at any time (\<open>spurious\<close>), as the architecture allows.
\<close>

inductive tl_step :: "nat \<Rightarrow> tl_state \<Rightarrow> tl_state \<Rightarrow> bool" for N :: nat where
  call_lock: "t < N \<Longrightarrow> pcs s t = Idle \<Longrightarrow>
    tl_step N s (s\<lparr>pcs := (pcs s)(t := Lock1)\<rparr>)"
| lock_ldaxr: "t < N \<Longrightarrow> pcs s t = Lock1 \<Longrightarrow>
    tl_step N s (s\<lparr>pcs := (pcs s)(t := LockLL (nxt (lk s))), mon := (mon s)(t := True)\<rparr>)"
| lock_stxr_ok: "t < N \<Longrightarrow> pcs s t = LockLL v \<Longrightarrow> mon s t \<Longrightarrow>
    tl_step N s (s\<lparr>lk := (lk s)\<lparr>nxt := v + 1\<rparr>, pcs := (pcs s)(t := LockSpin v),
      mon := (\<lambda>_. False)\<rparr>)"
| lock_stxr_fail: "t < N \<Longrightarrow> pcs s t = LockLL v \<Longrightarrow> \<not> mon s t \<Longrightarrow>
    tl_step N s (s\<lparr>pcs := (pcs s)(t := Lock1)\<rparr>)"
| lock_ldar_eq: "t < N \<Longrightarrow> pcs s t = LockSpin v \<Longrightarrow> owner (lk s) = v \<Longrightarrow>
    tl_step N s (s\<lparr>pcs := (pcs s)(t := Crit)\<rparr>)"
| lock_ldar_ne: "t < N \<Longrightarrow> pcs s t = LockSpin v \<Longrightarrow> owner (lk s) \<noteq> v \<Longrightarrow> tl_step N s s"
| try_ldaxr: "t < N \<Longrightarrow> pcs s t = Idle \<Longrightarrow>
    tl_step N s (s\<lparr>pcs := (pcs s)(t := TryLL (nxt (lk s))), mon := (mon s)(t := True)\<rparr>)"
| try_ldar_eq: "t < N \<Longrightarrow> pcs s t = TryLL v \<Longrightarrow> owner (lk s) = v \<Longrightarrow>
    tl_step N s (s\<lparr>pcs := (pcs s)(t := TryCmp v)\<rparr>)"
| try_ldar_ne: "t < N \<Longrightarrow> pcs s t = TryLL v \<Longrightarrow> owner (lk s) \<noteq> v \<Longrightarrow>
    tl_step N s (s\<lparr>pcs := (pcs s)(t := Idle)\<rparr>)"
| try_stxr_ok: "t < N \<Longrightarrow> pcs s t = TryCmp v \<Longrightarrow> mon s t \<Longrightarrow>
    tl_step N s (s\<lparr>lk := (lk s)\<lparr>nxt := v + 1\<rparr>, pcs := (pcs s)(t := Crit), mon := (\<lambda>_. False)\<rparr>)"
| try_stxr_fail: "t < N \<Longrightarrow> pcs s t = TryCmp v \<Longrightarrow> \<not> mon s t \<Longrightarrow>
    tl_step N s (s\<lparr>pcs := (pcs s)(t := Idle)\<rparr>)"
| unlock_ldr: "t < N \<Longrightarrow> pcs s t = Crit \<Longrightarrow>
    tl_step N s (s\<lparr>pcs := (pcs s)(t := Unlock1 (owner (lk s)))\<rparr>)"
| unlock_str: "t < N \<Longrightarrow> pcs s t = Unlock1 v \<Longrightarrow>
    tl_step N s (s\<lparr>lk := (lk s)\<lparr>owner := v + 1\<rparr>, pcs := (pcs s)(t := Idle)\<rparr>)"
| spurious: "tl_step N s (s\<lparr>mon := (mon s)(t := False)\<rparr>)"

definition tl_init :: "tl_state \<Rightarrow> bool" where
  "tl_init s \<longleftrightarrow> lk s = lock_init \<and> (\<forall>t. pcs s t = Idle) \<and> (\<forall>t. \<not> mon s t)"

section \<open>Specification: a first-in first-out mutex\<close>

record fifo_mutex =
  waiters :: "nat list"
  holder :: "nat option"

inductive fm_step :: "fifo_mutex \<Rightarrow> fifo_mutex \<Rightarrow> bool" where
  enqueue: "t \<notin> set (waiters a) \<Longrightarrow> holder a \<noteq> Some t \<Longrightarrow>
    fm_step a (a\<lparr>waiters := waiters a @ [t]\<rparr>)"
| grant: "holder a = None \<Longrightarrow> waiters a = t # ts \<Longrightarrow>
    fm_step a (a\<lparr>waiters := ts, holder := Some t\<rparr>)"
| release: "holder a = Some t \<Longrightarrow> fm_step a (a\<lparr>holder := None\<rparr>)"

definition fm_init :: "fifo_mutex \<Rightarrow> bool" where
  "fm_init a \<longleftrightarrow> waiters a = [] \<and> holder a = None"

text \<open>
  The relation: the queue of the specification (the holder first) carries the consecutive
  tickets from \<^verbatim>\<open>owner\<close> to \<^verbatim>\<open>next\<close>; an armed monitor remembers the current value of
  \<^verbatim>\<open>next\<close>.
\<close>

definition fm_queue :: "fifo_mutex \<Rightarrow> nat list" where
  "fm_queue a = (case holder a of None \<Rightarrow> waiters a | Some t \<Rightarrow> t # waiters a)"

fun has_ticket :: "pc \<Rightarrow> bool" where
  "has_ticket (LockSpin _) = True"
| "has_ticket Crit = True"
| "has_ticket (Unlock1 _) = True"
| "has_ticket _ = False"

fun in_crit :: "pc \<Rightarrow> bool" where
  "in_crit Crit = True"
| "in_crit (Unlock1 _) = True"
| "in_crit _ = False"

definition pc_ok :: "tl_state \<Rightarrow> fifo_mutex \<Rightarrow> nat \<Rightarrow> bool" where
  "pc_ok s a t = (case pcs s t of
      LockSpin v \<Rightarrow> (\<exists>i < length (fm_queue a). fm_queue a ! i = t \<and> v = owner (lk s) + of_nat i)
    | LockLL v \<Rightarrow> mon s t \<longrightarrow> v = nxt (lk s)
    | TryLL v \<Rightarrow> mon s t \<longrightarrow> v = nxt (lk s)
    | TryCmp v \<Rightarrow> mon s t \<longrightarrow> v = nxt (lk s) \<and> fm_queue a = []
    | Unlock1 v \<Rightarrow> v = owner (lk s)
    | _ \<Rightarrow> True)"

definition tl_rel :: "nat \<Rightarrow> tl_state \<Rightarrow> fifo_mutex \<Rightarrow> bool" where
  "tl_rel N s a \<longleftrightarrow>
     distinct (fm_queue a) \<and> set (fm_queue a) \<subseteq> {..<N}
     \<and> nxt (lk s) = owner (lk s) + of_nat (length (fm_queue a))
     \<and> (\<forall>t. has_ticket (pcs s t) \<longleftrightarrow> t \<in> set (fm_queue a))
     \<and> (\<forall>t. in_crit (pcs s t) \<longleftrightarrow> holder a = Some t)
     \<and> (\<forall>t. pc_ok s a t)"

section \<open>The refinement\<close>

lemma pc_ok_mon_mono:
  "pc_ok s a u \<Longrightarrow> pcs s' u = pcs s u \<Longrightarrow> lk s' = lk s \<Longrightarrow> (mon s' u \<longrightarrow> mon s u) \<Longrightarrow>
   pc_ok s' a u"
  by (auto simp: pc_ok_def split: pc.splits)

lemma pc_ok_queue: "fm_queue a' = fm_queue a \<Longrightarrow> pc_ok s a' u = pc_ok s a u"
  by (simp add: pc_ok_def split: pc.splits)

text \<open>A step that changes neither the lock nor the thread's place in the queue.\<close>

lemma tl_rel_local:
  assumes "tl_rel N s a" and "lk s' = lk s" and "pcs s' = (pcs s)(t := p)"
    and "has_ticket p = has_ticket (pcs s t)" and "in_crit p = in_crit (pcs s t)"
    and "\<And>u. u \<noteq> t \<Longrightarrow> mon s' u \<Longrightarrow> mon s u" and "pc_ok s' a t"
  shows "tl_rel N s' a"
proof -
  have "pc_ok s' a u" for u
    using assms by (cases "u = t") (auto simp: tl_rel_def intro: pc_ok_mon_mono)
  then show ?thesis
    using assms by (auto simp: tl_rel_def)
qed

lemma tl_rel_queue_length:
  assumes "tl_rel N s a" shows "length (fm_queue a) \<le> N"
  using assms by (auto simp: tl_rel_def intro: length_distinct_bound)

lemma tl_rel_owner_eq_next:
  assumes "tl_rel N s a" and "N < 2 ^ 32" and "owner (lk s) = nxt (lk s)"
  shows "fm_queue a = []"
  using assms tl_rel_queue_length [OF assms(1)]
  by (auto simp: tl_rel_def of_nat_word_eq_0_iff)

lemma tl_rel_no_queue_member:
  assumes "tl_rel N s a" and "\<not> has_ticket (pcs s t)"
  shows "t \<notin> set (waiters a)" and "holder a \<noteq> Some t" and "t \<notin> set (fm_queue a)"
  using assms by (auto simp: tl_rel_def fm_queue_def split: option.splits)

lemma fm_queue_enqueue [simp]:
  "fm_queue (a\<lparr>waiters := waiters a @ [t]\<rparr>) = fm_queue a @ [t]"
  by (simp add: fm_queue_def split: option.splits)

text \<open>Taking a ticket: the thread joins the queue.\<close>

lemma tl_rel_take:
  assumes R: "tl_rel N s a" and t: "t < N" "pcs s t = LockLL v" "mon s t"
  defines "s' \<equiv> s\<lparr>lk := (lk s)\<lparr>nxt := v + 1\<rparr>, pcs := (pcs s)(t := LockSpin v), mon := (\<lambda>_. False)\<rparr>"
  defines "a' \<equiv> a\<lparr>waiters := waiters a @ [t]\<rparr>"
  shows "fm_step a a'" and "tl_rel N s' a'"
proof -
  note nq = tl_rel_no_queue_member [OF R, of t, unfolded t(2), simplified]
  show "fm_step a a'"
    unfolding a'_def using nq by (auto intro: fm_step.enqueue)
  have v: "v = owner (lk s) + of_nat (length (fm_queue a))"
    using R t by (auto simp: tl_rel_def pc_ok_def dest!: spec [of _ t])
  have "pc_ok s' a' u" for u
  proof (cases "u = t")
    case True
    then show ?thesis using v
      by (auto simp: pc_ok_def s'_def a'_def nth_append intro!: exI [of _ "length (fm_queue a)"])
  next
    case False
    with R have "pc_ok s a u" by (simp add: tl_rel_def)
    with False show ?thesis
      by (auto simp: pc_ok_def s'_def a'_def nth_append split: pc.splits intro: less_SucI)
  qed
  then show "tl_rel N s' a'"
    using R nq t v by (auto simp: tl_rel_def s'_def a'_def)
qed

text \<open>The ticket is served: the first waiter becomes the holder.\<close>

lemma tl_rel_grant:
  assumes R: "tl_rel N s a" and N: "N < 2 ^ 32"
    and t: "pcs s t = LockSpin v" "owner (lk s) = v"
  defines "s' \<equiv> s\<lparr>pcs := (pcs s)(t := Crit)\<rparr>"
  shows "\<exists>a'. fm_step a a' \<and> tl_rel N s' a'"
proof -
  from R t obtain i where i: "i < length (fm_queue a)" "fm_queue a ! i = t"
      and v: "v = v + of_nat i"
    by (auto simp: tl_rel_def pc_ok_def dest!: spec [of _ t])
  from i tl_rel_queue_length [OF R] N have "i < 2 ^ 32" by simp
  with v have [simp]: "i = 0" by (simp add: of_nat_word_eq_0_iff)
  have h: "holder a = None"
  proof (rule ccontr)
    assume "holder a \<noteq> None"
    then have "holder a = Some t" using i by (auto simp: fm_queue_def)
    with R have "in_crit (pcs s t)" by (auto simp: tl_rel_def)
    with t show False by simp
  qed
  with i obtain ts where ts: "waiters a = t # ts"
    by (cases "waiters a") (auto simp: fm_queue_def)
  let ?a = "a\<lparr>waiters := ts, holder := Some t\<rparr>"
  have q: "fm_queue ?a = fm_queue a" using h ts by (simp add: fm_queue_def)
  have "pc_ok s' ?a u" for u
  proof (cases "u = t")
    case True
    then show ?thesis by (simp add: pc_ok_def s'_def)
  next
    case False
    with R show ?thesis
      by (auto simp: tl_rel_def s'_def pc_ok_queue [OF q] intro: pc_ok_mon_mono)
  qed
  moreover have "\<forall>u. in_crit (pcs s' u) \<longleftrightarrow> holder ?a = Some u"
    using R h by (auto simp: tl_rel_def s'_def)
  moreover have "\<forall>u. has_ticket (pcs s' u) \<longleftrightarrow> u \<in> set (fm_queue ?a)"
    using R t by (auto simp: tl_rel_def s'_def q)
  ultimately have "tl_rel N s' ?a"
    using R by (auto simp: tl_rel_def s'_def q)
  with h ts show ?thesis by (blast intro: fm_step.grant)
qed

lemma tl_rel_release:
  assumes R: "tl_rel N s a" and t: "pcs s t = Unlock1 v"
  defines "s' \<equiv> s\<lparr>lk := (lk s)\<lparr>owner := v + 1\<rparr>, pcs := (pcs s)(t := Idle)\<rparr>"
  shows "fm_step a (a\<lparr>holder := None\<rparr>)" and "tl_rel N s' (a\<lparr>holder := None\<rparr>)"
proof -
  from R t have h: "holder a = Some t" and v: "v = owner (lk s)"
    by (auto simp: tl_rel_def pc_ok_def dest: spec [of _ t])
  then show "fm_step a (a\<lparr>holder := None\<rparr>)" by (blast intro: fm_step.release)
  let ?a = "a\<lparr>holder := None\<rparr>"
  have q: "fm_queue a = t # fm_queue ?a" using h by (simp add: fm_queue_def)
  have "pc_ok s' ?a u" for u
  proof (cases "u = t")
    case True
    then show ?thesis by (simp add: pc_ok_def s'_def)
  next
    case False
    have *: "pc_ok s a u" and nc: "\<not> in_crit (pcs s u)"
      using R h False by (auto simp: tl_rel_def)
    show ?thesis
    proof (cases "pcs s u")
      case (LockSpin w)
      with * obtain i where i: "i < length (fm_queue a)" "fm_queue a ! i = u"
          "w = owner (lk s) + of_nat i" by (auto simp: pc_ok_def)
      with q False obtain j where "i = Suc j" by (cases i) auto
      with i q have "j < length (fm_queue ?a) \<and> fm_queue ?a ! j = u
          \<and> w = owner (lk s) + 1 + of_nat j" by simp
      with LockSpin False v show ?thesis by (auto simp: pc_ok_def s'_def)
    qed (use * nc False q in \<open>auto simp: pc_ok_def s'_def\<close>)
  qed
  moreover have "nxt (lk s') = owner (lk s') + of_nat (length (fm_queue ?a))"
    using R q v by (simp add: tl_rel_def s'_def add.assoc)
  moreover have "distinct (t # fm_queue ?a)" and "set (fm_queue ?a) \<subseteq> {..<N}"
    using R q by (auto simp: tl_rel_def)
  moreover have "\<forall>u. has_ticket (pcs s' u) \<longleftrightarrow> u \<in> set (fm_queue ?a)"
    using R q by (auto simp: tl_rel_def s'_def)
  moreover have "\<forall>u. in_crit (pcs s' u) \<longleftrightarrow> holder ?a = Some u"
    using R h by (auto simp: tl_rel_def s'_def)
  ultimately show "tl_rel N s' ?a" by (simp add: tl_rel_def)
qed

text \<open>A successful \<^verbatim>\<open>try_lock\<close>: the queue is empty, the thread joins it and is served.\<close>

lemma tl_rel_try:
  assumes R: "tl_rel N s a" and t: "t < N" "pcs s t = TryCmp v" "mon s t"
  defines "s' \<equiv> s\<lparr>lk := (lk s)\<lparr>nxt := v + 1\<rparr>, pcs := (pcs s)(t := Crit), mon := (\<lambda>_. False)\<rparr>"
  shows "\<exists>a'. fm_step\<^sup>*\<^sup>* a a' \<and> tl_rel N s' a'"
proof -
  from R t have v: "v = nxt (lk s)" and q: "fm_queue a = []"
    by (auto simp: tl_rel_def pc_ok_def dest!: spec [of _ t])
  from q have w: "waiters a = []" and h: "holder a = None"
    by (auto simp: fm_queue_def split: option.splits)
  let ?b = "a\<lparr>waiters := [t]\<rparr>" and ?c = "a\<lparr>waiters := [], holder := Some t\<rparr>"
  have "fm_step a ?b" using fm_step.enqueue [of t a] w h by simp
  moreover have "fm_step ?b ?c" using fm_step.grant [of ?b t "[]"] h by simp
  ultimately have "fm_step\<^sup>*\<^sup>* a ?c" by (meson converse_rtranclp_into_rtranclp r_into_rtranclp)
  moreover have "tl_rel N s' ?c"
  proof -
    have qc: "fm_queue ?c = [t]" by (simp add: fm_queue_def)
    have nt: "\<not> has_ticket (pcs s u)" for u using R q by (auto simp: tl_rel_def)
    have "pc_ok s' ?c u" for u
      using nt [of u] by (cases "u = t"; cases "pcs s u") (simp_all add: pc_ok_def s'_def)
    moreover have "\<forall>u. has_ticket (pcs s' u) \<longleftrightarrow> u \<in> {t}"
      using nt by (simp add: s'_def)
    moreover have "\<forall>u. in_crit (pcs s' u) \<longleftrightarrow> t = u"
      using R h by (auto simp: tl_rel_def s'_def)
    moreover have "nxt (lk s') = owner (lk s') + 1"
      using R v q by (simp add: tl_rel_def s'_def)
    ultimately show ?thesis
      using t unfolding tl_rel_def qc by auto
  qed
  ultimately show ?thesis by blast
qed

lemma tl_step_sim:
  assumes N: "N < 2 ^ 32" and R: "tl_rel N s a" and step: "tl_step N s s'"
  shows "\<exists>a'. fm_step\<^sup>*\<^sup>* a a' \<and> tl_rel N s' a'"
proof -
  have stay: "tl_rel N s' a \<Longrightarrow> ?thesis" by blast
  from step show ?thesis
  proof cases
    case (lock_stxr_ok t v)
    with tl_rel_take [OF R] show ?thesis by blast
  next
    case (lock_ldar_eq t v)
    with tl_rel_grant [OF R N] show ?thesis by blast
  next
    case (try_stxr_ok t v)
    with tl_rel_try [OF R] show ?thesis by blast
  next
    case (unlock_str t v)
    with tl_rel_release [OF R] show ?thesis by blast
  next
    case (try_ldar_eq t v)
    have "pc_ok s a t" using R by (simp add: tl_rel_def)
    then have "pc_ok s' a t"
      using try_ldar_eq tl_rel_owner_eq_next [OF R N] by (auto simp: pc_ok_def)
    with try_ldar_eq show ?thesis
      by (intro stay tl_rel_local [OF R, where t = t]) auto
  next
    case (spurious t)
    then show ?thesis
      using R by (intro stay tl_rel_local [OF R, where t = t and p = "pcs s t"])
        (auto simp: tl_rel_def intro: pc_ok_mon_mono split: if_splits)
  next
    case (lock_ldar_ne t v)
    with R show ?thesis by blast
  qed (rule stay, rule tl_rel_local [OF R], (simp add: pc_ok_def; fail)+)+
qed

lemma tl_init_sim: "tl_init s \<Longrightarrow> fm_init \<lparr>waiters = [], holder = None\<rparr> \<and>
    tl_rel N s \<lparr>waiters = [], holder = None\<rparr>"
  by (simp add: tl_init_def fm_init_def tl_rel_def fm_queue_def pc_ok_def lock_init_def)

text \<open>The thread count is bounded by the width of a ticket.\<close>

definition max_threads :: nat where "max_threads = 2 ^ 32 - 1"

interpretation tl: forward_simulation tl_init "tl_step max_threads" fm_init fm_step
  "tl_rel max_threads"
proof unfold_locales
  show "tl_init c \<Longrightarrow> \<exists>a. fm_init a \<and> tl_rel max_threads c a" for c
    using tl_init_sim by blast
  show "tl_rel max_threads c a \<Longrightarrow> tl_step max_threads c c' \<Longrightarrow>
      \<exists>a'. fm_step\<^sup>*\<^sup>* a a' \<and> tl_rel max_threads c' a'" for c a c'
    by (rule tl_step_sim) (simp_all add: max_threads_def)
qed

section \<open>Properties\<close>

text \<open>
  C18: in every reachable state of the concurrent aarch64 lock at most one thread is
  between the return of \<^verbatim>\<open>lock\<close> or a successful \<^verbatim>\<open>try_lock\<close> and the store of
  \<^verbatim>\<open>unlock\<close>, for any interleaving of fewer than \<open>2 ^ 32\<close> threads, store-exclusive failures
  and the wrap-around of the 32-bit tickets included.
\<close>

theorem ticket_lock_mutual_exclusion:
  assumes "tl_init s0" and "(tl_step max_threads)\<^sup>*\<^sup>* s0 s"
    and "in_crit (pcs s t)" and "in_crit (pcs s u)"
  shows "t = u"
proof -
  from tl.reachable_sim [OF assms(1,2)] obtain a where "tl_rel max_threads s a" by blast
  with assms(3,4) have "holder a = Some t" and "holder a = Some u"
    by (auto simp: tl_rel_def)
  then show ?thesis by simp
qed

definition tl_start :: tl_state where
  "tl_start = \<lparr>lk = lock_init, pcs = (\<lambda>_. Idle), mon = (\<lambda>_. False)\<rparr>"

lemma tl_start_init: "tl_init tl_start"
  by (simp add: tl_start_def tl_init_def)

text \<open>The uncontended call of \<^verbatim>\<open>lock\<close> by thread 0, step by step.\<close>

lemma tl_start_lock:
  "(tl_step max_threads)\<^sup>*\<^sup>* tl_start
     \<lparr>lk = \<lparr>owner = 0, nxt = 1\<rparr>, pcs = (\<lambda>_. Idle)(0 := Crit), mon = (\<lambda>_. False)\<rparr>"
proof -
  let ?s = "\<lambda>l p m. \<lparr>lk = l, pcs = (\<lambda>_. Idle)(0 := p), mon = m\<rparr>"
  let ?m = "(\<lambda>_. False)(0 := True)"
  have N: "0 < max_threads" by (simp add: max_threads_def)
  have "tl_step max_threads tl_start (?s lock_init Lock1 (\<lambda>_. False))"
    using tl_step.call_lock [OF N, of tl_start] by (simp add: tl_start_def)
  moreover have "tl_step max_threads (?s lock_init Lock1 (\<lambda>_. False)) (?s lock_init (LockLL 0) ?m)"
    using tl_step.lock_ldaxr [OF N, of "?s lock_init Lock1 (\<lambda>_. False)"]
    by (simp add: lock_init_def)
  moreover have "tl_step max_threads (?s lock_init (LockLL 0) ?m)
      (?s \<lparr>owner = 0, nxt = 1\<rparr> (LockSpin 0) (\<lambda>_. False))"
    using tl_step.lock_stxr_ok [OF N, of "?s lock_init (LockLL 0) ?m" 0]
    by (simp add: lock_init_def)
  moreover have "tl_step max_threads (?s \<lparr>owner = 0, nxt = 1\<rparr> (LockSpin 0) (\<lambda>_. False))
      (?s \<lparr>owner = 0, nxt = 1\<rparr> Crit (\<lambda>_. False))"
    using tl_step.lock_ldar_eq [OF N, of "?s \<lparr>owner = 0, nxt = 1\<rparr> (LockSpin 0) (\<lambda>_. False)" 0]
    by simp
  ultimately show ?thesis by (meson converse_rtranclp_into_rtranclp rtranclp.rtrancl_refl)
qed

theorem ticket_lock_mutual_exclusion_witness:
  "\<exists>s. (tl_step max_threads)\<^sup>*\<^sup>* tl_start s \<and> in_crit (pcs s 0)
     \<and> (\<forall>t. in_crit (pcs s t) \<longrightarrow> t = 0)"
proof -
  let ?s = "\<lparr>lk = \<lparr>owner = 0, nxt = 1\<rparr>, pcs = (\<lambda>_. Idle)(0 := Crit), mon = (\<lambda>_. False)\<rparr>"
  have c: "in_crit (pcs ?s 0)" by simp
  show ?thesis
    using ticket_lock_mutual_exclusion [OF tl_start_init tl_start_lock _ c]
    by (intro exI [of _ ?s] conjI tl_start_lock c allI impI)
qed



text \<open>
  \<^verbatim>\<open>is_locked\<close> compares the two counters with \<^verbatim>\<open><\<close>; for a held lock its answer is right
  exactly when the ticket counter has not just wrapped to 0.
\<close>

theorem is_locked_of_held:
  assumes "lock l = Some l'"
  shows "is_locked l' \<longleftrightarrow> nxt l' \<noteq> 0"
proof -
  have o: "owner l' = nxt l" and n: "nxt l' = nxt l + 1"
    using assms by (auto simp: lock_Some_iff lock_free_def)
  have "nxt l < nxt l + 1 \<longleftrightarrow> nxt l + 1 \<noteq> 0"
    by uint_arith
  with o n show ?thesis by (simp add: is_locked_def)
qed

theorem is_locked_of_held_witness:
  "lock \<lparr>owner = -1, nxt = -1\<rparr> = Some \<lparr>owner = -1, nxt = 0\<rparr>
   \<and> \<not> is_locked \<lparr>owner = -1, nxt = 0\<rparr>"
proof -
  have h: "lock \<lparr>owner = -1, nxt = -1\<rparr> = Some \<lparr>owner = -1, nxt = 0\<rparr>"
    by (simp add: lock_def)
  from h is_locked_of_held [OF h] show ?thesis by simp
qed

end
