(* ===== verification/RW_Lock.thy ===== *)
theory RW_Lock
  imports Ticket_Lock
begin

text \<open>
  The reader-writer lock of \<^verbatim>\<open>kernel/arch/aarch64/sync/rwlock.c\<close> (one step per memory
  access, with exclusive monitors) and its refinement to a readers-writer specification,
  and the atomic operations of \<^verbatim>\<open>kernel/arch/x86_64/sync/rwlock.c\<close>.
\<close>

section \<open>The aarch64 code\<close>

definition rwlock_init :: u32 where "rwlock_init = 0"

definition WRITER :: u32 where "WRITER = 0x80000000"

subsection \<open>The operations in isolation\<close>

text \<open>
  The effect of the aarch64 operations on the lock word when no other thread interferes; an
  operation that would spin gives \<^const>\<open>None\<close>.
\<close>

definition read_lock :: "u32 \<Rightarrow> u32 option" where
  "read_lock w = (if bit (w + 1) 31 then None else Some (w + 1))"

definition read_unlock :: "u32 \<Rightarrow> u32" where
  "read_unlock w = w - 1"

definition write_lock :: "u32 \<Rightarrow> u32 option" where
  "write_lock w = (if w = 0 then Some WRITER else None)"

definition write_try_lock :: "u32 \<Rightarrow> s32 \<times> u32" where
  "write_try_lock w = (if w = 0 then (0, WRITER) else (-1, w))"

definition write_unlock :: "u32 \<Rightarrow> u32" where
  "write_unlock w = 0"

lemma rw_isolated [lock_simps]:
  "read_lock 0 = Some 1" "read_unlock 1 = 0" "write_lock 0 = Some WRITER"
  "write_try_lock 0 = (0, WRITER)" "write_unlock w = 0"
  by (simp_all add: read_lock_def read_unlock_def write_lock_def write_try_lock_def write_unlock_def)

subsection \<open>The concurrent code\<close>

text \<open>
  Program points.  \<open>RL1\<close>, \<open>RU1\<close> and \<open>WL1\<close> are the labels 1 of \<^verbatim>\<open>read_lock\<close>, \<^verbatim>\<open>read_unlock\<close>
  and \<^verbatim>\<open>write_lock\<close>; a point with an argument is just before the store-exclusive of that
  register.
\<close>

datatype rwpc =
    RWIdle
  | RL1 | RLsc u32
  | RTsc u32
  | Reading
  | RU1 | RUsc u32
  | WL1 | WLsc
  | WTsc
  | Writing

record rw_state =
  rwl :: u32
  rwpcs :: "nat \<Rightarrow> rwpc"
  rwmon :: "nat \<Rightarrow> bool"

definition goto :: "nat \<Rightarrow> rwpc \<Rightarrow> rw_state \<Rightarrow> rw_state" where
  "goto t p s = s\<lparr>rwpcs := (rwpcs s)(t := p)\<rparr>"

definition load_excl :: "nat \<Rightarrow> rwpc \<Rightarrow> rw_state \<Rightarrow> rw_state" where
  "load_excl t p s = goto t p (s\<lparr>rwmon := (rwmon s)(t := True)\<rparr>)"

definition store_word :: "nat \<Rightarrow> u32 \<Rightarrow> rwpc \<Rightarrow> rw_state \<Rightarrow> rw_state" where
  "store_word t v p s = goto t p (s\<lparr>rwl := v, rwmon := (\<lambda>_. False)\<rparr>)"

inductive rw_step :: "nat \<Rightarrow> rw_state \<Rightarrow> rw_state \<Rightarrow> bool" for N :: nat where
  rl_call: "t < N \<Longrightarrow> rwpcs s t = RWIdle \<Longrightarrow> rw_step N s (goto t RL1 s)"
| rl_ldaxr: "t < N \<Longrightarrow> rwpcs s t = RL1 \<Longrightarrow> \<not> bit (rwl s + 1) 31 \<Longrightarrow>
    rw_step N s (load_excl t (RLsc (rwl s + 1)) s)"
| rl_busy: "t < N \<Longrightarrow> rwpcs s t = RL1 \<Longrightarrow> bit (rwl s + 1) 31 \<Longrightarrow>
    rw_step N s (load_excl t RL1 s)"
| rl_stxr: "t < N \<Longrightarrow> rwpcs s t = RLsc v \<Longrightarrow> rwmon s t \<Longrightarrow>
    rw_step N s (store_word t v Reading s)"
| rl_retry: "t < N \<Longrightarrow> rwpcs s t = RLsc v \<Longrightarrow> \<not> rwmon s t \<Longrightarrow> rw_step N s (goto t RL1 s)"
| rt_ldaxr: "t < N \<Longrightarrow> rwpcs s t = RWIdle \<Longrightarrow> \<not> bit (rwl s + 1) 31 \<Longrightarrow>
    rw_step N s (load_excl t (RTsc (rwl s + 1)) s)"
| rt_busy: "t < N \<Longrightarrow> rwpcs s t = RWIdle \<Longrightarrow> bit (rwl s + 1) 31 \<Longrightarrow>
    rw_step N s (load_excl t RWIdle s)"
| rt_stxr: "t < N \<Longrightarrow> rwpcs s t = RTsc v \<Longrightarrow> rwmon s t \<Longrightarrow>
    rw_step N s (store_word t v Reading s)"
| rt_fail: "t < N \<Longrightarrow> rwpcs s t = RTsc v \<Longrightarrow> \<not> rwmon s t \<Longrightarrow> rw_step N s (goto t RWIdle s)"
| ru_call: "t < N \<Longrightarrow> rwpcs s t = Reading \<Longrightarrow> rw_step N s (goto t RU1 s)"
| ru_ldxr: "t < N \<Longrightarrow> rwpcs s t = RU1 \<Longrightarrow> rw_step N s (load_excl t (RUsc (rwl s - 1)) s)"
| ru_stlxr: "t < N \<Longrightarrow> rwpcs s t = RUsc v \<Longrightarrow> rwmon s t \<Longrightarrow>
    rw_step N s (store_word t v RWIdle s)"
| ru_retry: "t < N \<Longrightarrow> rwpcs s t = RUsc v \<Longrightarrow> \<not> rwmon s t \<Longrightarrow> rw_step N s (goto t RU1 s)"
| wl_call: "t < N \<Longrightarrow> rwpcs s t = RWIdle \<Longrightarrow> rw_step N s (goto t WL1 s)"
| wl_ldaxr: "t < N \<Longrightarrow> rwpcs s t = WL1 \<Longrightarrow> rwl s = 0 \<Longrightarrow> rw_step N s (load_excl t WLsc s)"
| wl_busy: "t < N \<Longrightarrow> rwpcs s t = WL1 \<Longrightarrow> rwl s \<noteq> 0 \<Longrightarrow> rw_step N s (load_excl t WL1 s)"
| wl_stxr: "t < N \<Longrightarrow> rwpcs s t = WLsc \<Longrightarrow> rwmon s t \<Longrightarrow>
    rw_step N s (store_word t WRITER Writing s)"
| wl_retry: "t < N \<Longrightarrow> rwpcs s t = WLsc \<Longrightarrow> \<not> rwmon s t \<Longrightarrow> rw_step N s (goto t WL1 s)"
| wt_ldaxr: "t < N \<Longrightarrow> rwpcs s t = RWIdle \<Longrightarrow> rwl s = 0 \<Longrightarrow> rw_step N s (load_excl t WTsc s)"
| wt_busy: "t < N \<Longrightarrow> rwpcs s t = RWIdle \<Longrightarrow> rwl s \<noteq> 0 \<Longrightarrow> rw_step N s (load_excl t RWIdle s)"
| wt_stxr: "t < N \<Longrightarrow> rwpcs s t = WTsc \<Longrightarrow> rwmon s t \<Longrightarrow>
    rw_step N s (store_word t WRITER Writing s)"
| wt_fail: "t < N \<Longrightarrow> rwpcs s t = WTsc \<Longrightarrow> \<not> rwmon s t \<Longrightarrow> rw_step N s (goto t RWIdle s)"
| wu_stlr: "t < N \<Longrightarrow> rwpcs s t = Writing \<Longrightarrow> rw_step N s (store_word t 0 RWIdle s)"
| rw_spurious: "rw_step N s (s\<lparr>rwmon := (rwmon s)(t := False)\<rparr>)"

definition rw_init :: "rw_state \<Rightarrow> bool" where
  "rw_init s \<longleftrightarrow> rwl s = rwlock_init \<and> (\<forall>t. rwpcs s t = RWIdle) \<and> (\<forall>t. \<not> rwmon s t)"

section \<open>Specification: readers or one writer\<close>

record rw_spec =
  readers :: "nat set"
  writer :: "nat option"

inductive rws_step :: "rw_spec \<Rightarrow> rw_spec \<Rightarrow> bool" where
  rd_acquire: "writer a = None \<Longrightarrow> t \<notin> readers a \<Longrightarrow>
    rws_step a (a\<lparr>readers := insert t (readers a)\<rparr>)"
| rd_release: "t \<in> readers a \<Longrightarrow> rws_step a (a\<lparr>readers := readers a - {t}\<rparr>)"
| wr_acquire: "writer a = None \<Longrightarrow> readers a = {} \<Longrightarrow> rws_step a (a\<lparr>writer := Some t\<rparr>)"
| wr_release: "writer a = Some t \<Longrightarrow> rws_step a (a\<lparr>writer := None\<rparr>)"

definition rws_init :: "rw_spec \<Rightarrow> bool" where
  "rws_init a \<longleftrightarrow> readers a = {} \<and> writer a = None"

fun is_reader :: "rwpc \<Rightarrow> bool" where
  "is_reader Reading = True"
| "is_reader RU1 = True"
| "is_reader (RUsc _) = True"
| "is_reader _ = False"

definition rwpc_ok :: "rw_state \<Rightarrow> nat \<Rightarrow> bool" where
  "rwpc_ok s t = (rwmon s t \<longrightarrow> (case rwpcs s t of
      RLsc v \<Rightarrow> v = rwl s + 1 \<and> \<not> bit v 31
    | RTsc v \<Rightarrow> v = rwl s + 1 \<and> \<not> bit v 31
    | RUsc v \<Rightarrow> v = rwl s - 1
    | WLsc \<Rightarrow> rwl s = 0
    | WTsc \<Rightarrow> rwl s = 0
    | _ \<Rightarrow> True))"

definition rw_rel :: "nat \<Rightarrow> rw_state \<Rightarrow> rw_spec \<Rightarrow> bool" where
  "rw_rel N s a \<longleftrightarrow>
     readers a = {t. is_reader (rwpcs s t)} \<and> readers a \<subseteq> {..<N}
     \<and> (\<forall>t. rwpcs s t = Writing \<longleftrightarrow> writer a = Some t)
     \<and> (writer a \<noteq> None \<longrightarrow> readers a = {})
     \<and> rwl s = (if writer a = None then of_nat (card (readers a)) else WRITER)
     \<and> (\<forall>t. rwpc_ok s t)"

section \<open>The refinement\<close>

lemmas rw_upd_defs = goto_def load_excl_def store_word_def

lemma rw_rel_local:
  assumes R: "rw_rel N s a" and l: "rwl s' = rwl s" and p: "rwpcs s' = (rwpcs s)(t := p)"
    and r: "is_reader p = is_reader (rwpcs s t)" and w: "(p = Writing) = (rwpcs s t = Writing)"
    and m: "\<And>u. u \<noteq> t \<Longrightarrow> rwmon s' u \<Longrightarrow> rwmon s u" and ok: "rwpc_ok s' t"
  shows "rw_rel N s' a"
proof -
  have "rwpc_ok s' u" for u
  proof (cases "u = t")
    case False
    with R have "rwpc_ok s u" by (simp add: rw_rel_def)
    with False m [of u] p l show ?thesis by (auto simp: rwpc_ok_def split: rwpc.splits)
  qed (simp add: ok)
  moreover have "{u. is_reader (rwpcs s' u)} = {u. is_reader (rwpcs s u)}"
    using r p by auto
  moreover have "\<forall>u. rwpcs s' u = Writing \<longleftrightarrow> rwpcs s u = Writing"
    using w p by auto
  ultimately show ?thesis
    using R l by (simp only: rw_rel_def) auto
qed

lemma rw_rel_finite: "rw_rel N s a \<Longrightarrow> finite (readers a) \<and> card (readers a) \<le> N"
  by (auto simp: rw_rel_def subset_eq_atLeast0_lessThan_card lessThan_atLeast0
      intro: finite_subset)

lemma rw_rel_word:
  "rw_rel N s a \<Longrightarrow> rwl s = (if writer a = None then of_nat (card (readers a)) else WRITER)"
  unfolding rw_rel_def by blast

lemma rw_rel_store:
  assumes "readers a' = {u. is_reader (((rwpcs s)(t := p)) u)}" and "readers a' \<subseteq> {..<N}"
    and "\<And>u. ((rwpcs s)(t := p)) u = Writing \<longleftrightarrow> writer a' = Some u"
    and "writer a' \<noteq> None \<Longrightarrow> readers a' = {}"
    and "v = (if writer a' = None then of_nat (card (readers a')) else WRITER)"
  shows "rw_rel N (store_word t v p s) a'"
  using assms by (simp add: rw_rel_def rw_upd_defs rwpc_ok_def)

lemma rw_rel_read:
  assumes R: "rw_rel N s a" and t: "t < N" "\<not> is_reader (rwpcs s t)" "rwpcs s t \<noteq> Writing"
    and v: "v = rwl s + 1" "\<not> bit v 31"
  shows "\<exists>a'. rws_step a a' \<and> rw_rel N (store_word t v Reading s) a'"
proof -
  have w: "writer a = None"
  proof (rule ccontr)
    assume "writer a \<noteq> None"
    with R v have "v = 0x80000001" by (auto simp: rw_rel_def WRITER_def)
    with v(2) show False by (simp add: bit_numeral_rec)
  qed
  let ?a = "a\<lparr>readers := insert t (readers a)\<rparr>"
  from R t have nr: "t \<notin> readers a" by (simp add: rw_rel_def)
  with w have "rws_step a ?a" by (rule rws_step.rd_acquire)
  moreover have "rw_rel N (store_word t v Reading s) ?a"
    using R t w v nr rw_rel_finite [OF R]
    by (intro rw_rel_store) (auto simp: rw_rel_def add.commute)
  ultimately show ?thesis by blast
qed

lemma rw_rel_unread:
  assumes R: "rw_rel N s a" and t: "is_reader (rwpcs s t)" and v: "v = rwl s - 1"
  shows "\<exists>a'. rws_step a a' \<and> rw_rel N (store_word t v RWIdle s) a'"
proof -
  from R t have tr: "t \<in> readers a" by (simp add: rw_rel_def)
  with R have w: "writer a = None" by (auto simp: rw_rel_def)
  let ?a = "a\<lparr>readers := readers a - {t}\<rparr>"
  have "rws_step a ?a" using tr by (rule rws_step.rd_release)
  moreover have "0 < card (readers a)"
    using tr rw_rel_finite [OF R] by (auto simp: card_gt_0_iff)
  then have "v = of_nat (card (readers a - {t}))"
    using v R w tr rw_rel_finite [OF R] by (simp add: rw_rel_def of_nat_diff card_Diff_singleton)
  with R t w have "rw_rel N (store_word t v RWIdle s) ?a"
    by (intro rw_rel_store) (auto simp: rw_rel_def)
  ultimately show ?thesis by blast
qed

lemma rw_rel_write:
  assumes R: "rw_rel N s a" and N: "N < 2 ^ 31" and t: "\<not> is_reader (rwpcs s t)"
    and z: "rwl s = 0"
  shows "\<exists>a'. rws_step a a' \<and> rw_rel N (store_word t WRITER Writing s) a'"
proof -
  have w: "writer a = None"
    using R z by (auto simp: rw_rel_def WRITER_def)
  have "card (readers a) < 2 ^ 32" using rw_rel_finite [OF R] N by simp
  moreover have "(of_nat (card (readers a)) :: u32) = 0"
    using rw_rel_word [OF R] z w by simp
  ultimately have r: "readers a = {}"
    using rw_rel_finite [OF R] by (simp add: of_nat_word_eq_0_iff)
  let ?a = "a\<lparr>writer := Some t\<rparr>"
  have "rws_step a ?a" using w r by (rule rws_step.wr_acquire)
  moreover have "rw_rel N (store_word t WRITER Writing s) ?a"
    using R w r t by (intro rw_rel_store) (auto simp: rw_rel_def)
  ultimately show ?thesis by blast
qed

lemma rw_rel_unwrite:
  assumes R: "rw_rel N s a" and t: "rwpcs s t = Writing"
  shows "\<exists>a'. rws_step a a' \<and> rw_rel N (store_word t 0 RWIdle s) a'"
proof -
  from R t have w: "writer a = Some t" and r: "readers a = {}" by (auto simp: rw_rel_def)
  let ?a = "a\<lparr>writer := None\<rparr>"
  have "rws_step a ?a" using w by (rule rws_step.wr_release)
  moreover have "rw_rel N (store_word t 0 RWIdle s) ?a"
    using R w r by (intro rw_rel_store) (auto simp: rw_rel_def)
  ultimately show ?thesis by blast
qed

lemma rw_rel_ok: "rw_rel N s a \<Longrightarrow> rwpc_ok s t"
  by (simp add: rw_rel_def)

lemma rw_step_sim:
  assumes N: "N < 2 ^ 31" and R: "rw_rel N s a" and step: "rw_step N s s'"
  shows "\<exists>a'. rws_step\<^sup>*\<^sup>* a a' \<and> rw_rel N s' a'"
proof -
  have stay: "rw_rel N s' a \<Longrightarrow> ?thesis" by blast
  have one: "\<exists>a'. rws_step a a' \<and> rw_rel N s' a' \<Longrightarrow> ?thesis" by blast
  note ok = rw_rel_ok [OF R, unfolded rwpc_ok_def]
  from step show ?thesis
  proof cases
    case (rl_stxr t v)
    with ok [of t] have "\<exists>a'. rws_step a a' \<and> rw_rel N s' a'"
      unfolding rl_stxr(1) by (intro rw_rel_read [OF R]) auto
    then show ?thesis by (rule one)
  next
    case (rt_stxr t v)
    with ok [of t] have "\<exists>a'. rws_step a a' \<and> rw_rel N s' a'"
      unfolding rt_stxr(1) by (intro rw_rel_read [OF R]) auto
    then show ?thesis by (rule one)
  next
    case (ru_stlxr t v)
    with ok [of t] have "\<exists>a'. rws_step a a' \<and> rw_rel N s' a'"
      unfolding ru_stlxr(1) by (intro rw_rel_unread [OF R]) simp_all
    then show ?thesis by (rule one)
  next
    case (wl_stxr t)
    with ok [of t] have "\<exists>a'. rws_step a a' \<and> rw_rel N s' a'"
      unfolding wl_stxr(1) by (intro rw_rel_write [OF R N]) simp_all
    then show ?thesis by (rule one)
  next
    case (wt_stxr t)
    with ok [of t] have "\<exists>a'. rws_step a a' \<and> rw_rel N s' a'"
      unfolding wt_stxr(1) by (intro rw_rel_write [OF R N]) simp_all
    then show ?thesis by (rule one)
  next
    case (wu_stlr t)
    with rw_rel_unwrite [OF R] show ?thesis by (intro one) simp
  next
    case (rw_spurious t)
    then show ?thesis
      using ok by (intro stay rw_rel_local [OF R, where t = t and p = "rwpcs s t"])
        (auto simp: rwpc_ok_def split: if_splits)
  qed (rule stay, rule rw_rel_local [OF R], (simp add: rw_upd_defs rwpc_ok_def; fail)+)+
qed

definition max_readers :: nat where "max_readers = 2 ^ 31 - 1"

interpretation rw: forward_simulation rw_init "rw_step max_readers" rws_init rws_step
  "rw_rel max_readers"
proof unfold_locales
  show "\<exists>a. rws_init a \<and> rw_rel max_readers c a" if "rw_init c" for c
    using that by (intro exI [of _ "\<lparr>readers = {}, writer = None\<rparr>"])
      (simp add: rw_init_def rws_init_def rw_rel_def rwlock_init_def rwpc_ok_def)
  show "rw_rel max_readers c a \<Longrightarrow> rw_step max_readers c c' \<Longrightarrow>
      \<exists>a'. rws_step\<^sup>*\<^sup>* a a' \<and> rw_rel max_readers c' a'" for c a c'
    by (rule rw_step_sim) (simp_all add: max_readers_def)
qed

section \<open>The x86-64 code\<close>

text \<open>
  The x86-64 operations are atomic read-modify-write instructions on the same word.
  \<^verbatim>\<open>read_lock\<close> and \<^verbatim>\<open>write_lock\<close> loop; the argument bounds the number of iterations that
  are run, with no other thread touching the lock in between.
\<close>

definition x86_read_try_lock :: "u32 \<Rightarrow> s32 \<times> u32" where
  "x86_read_try_lock l = (let old = l in (if old AND WRITER \<noteq> 0 then -1 else 0, l + 1))"

primrec x86_read_lock :: "nat \<Rightarrow> u32 \<Rightarrow> u32 option" where
  "x86_read_lock 0 l = None"
| "x86_read_lock (Suc n) l =
     (let old = l; l' = l + 1 in if old AND WRITER \<noteq> 0 then x86_read_lock n l' else Some l')"

definition x86_read_unlock :: "u32 \<Rightarrow> u32" where
  "x86_read_unlock l = l + (-1)"

definition x86_write_try_lock :: "u32 \<Rightarrow> s32 \<times> u32" where
  "x86_write_try_lock l = (if l = 0 then (0, WRITER) else (-1, l))"

primrec x86_write_lock :: "nat \<Rightarrow> u32 \<Rightarrow> u32 option" where
  "x86_write_lock 0 l = None"
| "x86_write_lock (Suc n) l = (if l = 0 then Some WRITER else x86_write_lock n l)"

definition x86_write_unlock :: "u32 \<Rightarrow> u32" where
  "x86_write_unlock l = 0"

lemma and_WRITER: "w AND WRITER \<noteq> 0 \<longleftrightarrow> 2 ^ 31 \<le> unat w"
proof -
  have "w AND WRITER \<noteq> 0 \<longleftrightarrow> bit w 31"
    using and_exp_eq_0_iff_not_bit [of w 31] by (simp add: WRITER_def)
  also have "\<dots> \<longleftrightarrow> odd (unat w div 2 ^ 31)"
    using bit_iff_odd [of "unat w" 31] by (simp add: bit_unsigned_iff)
  also have "\<dots> \<longleftrightarrow> 2 ^ 31 \<le> unat w"
  proof -
    have "unat w < 2 ^ 32" using unat_less_2p [of w] by simp
    then have "unat w div 2 ^ 31 = (if 2 ^ 31 \<le> unat w then 1 else 0)"
      by (simp add: div_nat_eqI)
    then show ?thesis by simp
  qed
  finally show ?thesis .
qed

lemma x86_read_lock_spins:
  assumes "i \<le> 2 ^ 31"
  shows "x86_read_lock n (WRITER + of_nat i) = (if n + i \<le> 2 ^ 31 then None else Some 1)"
  using assms
proof (induction n arbitrary: i)
  case (Suc n)
  show ?case
  proof (cases "i < 2 ^ 31")
    case True
    have "unat (WRITER + of_nat i) = 2 ^ 31 + i"
      using True by (simp add: WRITER_def unat_word_ariths)
    then have "(WRITER + of_nat i) AND WRITER \<noteq> 0" by (simp add: and_WRITER)
    then show ?thesis using Suc.IH [of "Suc i"] True by (simp add: Let_def ac_simps)
  next
    case False
    with Suc.prems have "i = 2 ^ 31" by simp
    then have "WRITER + of_nat i = 0" by (simp add: WRITER_def)
    with False show ?thesis by (simp add: Let_def)
  qed
qed simp

section \<open>Properties\<close>



text \<open>
  The x86-64 \<^verbatim>\<open>read_lock\<close> adds 1 on every failed attempt and never takes it back, so
  spinning against a writer it returns after \<open>2 ^ 31 + 1\<close> attempts, while the writer still
  holds the lock, and not before.
\<close>

theorem x86_read_lock_breaks_in:
  "x86_read_lock n WRITER = (if n \<le> 2 ^ 31 then None else Some 1)"
  using x86_read_lock_spins [of 0 n] by simp

end
