(* ===== verification/Linked_List.thy ===== *)
theory Linked_List
  imports Prelude
begin

text \<open>
  The intrusive lists of \<^verbatim>\<open>kernel/include/common/list.h\<close> (circular, doubly linked, with a
  head node) on an explicit heap, and the hash list with \<^verbatim>\<open>pprev\<close> back pointers together
  with the buckets of \<^verbatim>\<open>kernel/include/common/hashtable.h\<close>.  The operations are shown to
  refine the operations of HOL lists; the other components model their queues as HOL
  lists on the strength of these refinements.
\<close>

section \<open>Circular doubly linked lists\<close>

type_synonym addr = nat

record list_heap =
  lprev :: "addr \<Rightarrow> addr"
  lnext :: "addr \<Rightarrow> addr"

definition set_next :: "addr \<Rightarrow> addr \<Rightarrow> list_heap \<Rightarrow> list_heap" where
  "set_next p v h = h\<lparr>lnext := (lnext h)(p := v)\<rparr>"

definition set_prev :: "addr \<Rightarrow> addr \<Rightarrow> list_heap \<Rightarrow> list_heap" where
  "set_prev p v h = h\<lparr>lprev := (lprev h)(p := v)\<rparr>"

definition init_list_head :: "addr \<Rightarrow> list_heap \<Rightarrow> list_heap" where
  "init_list_head l h = set_prev l l (set_next l l h)"

definition list_add :: "addr \<Rightarrow> addr \<Rightarrow> list_heap \<Rightarrow> list_heap" where
  "list_add new head h =
     (let h1 = set_next new (lnext h head) h;
          h2 = set_prev new head h1;
          h3 = set_prev (lnext h2 head) new h2
      in set_next head new h3)"

definition list_append :: "addr \<Rightarrow> addr \<Rightarrow> list_heap \<Rightarrow> list_heap" where
  "list_append new head h = (let tail = lprev h head in list_add new tail h)"

definition list_del :: "addr \<Rightarrow> list_heap \<Rightarrow> list_heap" where
  "list_del node h =
     (let h1 = set_next (lprev h node) (lnext h node) h
      in set_prev (lnext h1 node) (lprev h1 node) h1)"

definition list_empty :: "addr \<Rightarrow> list_heap \<Rightarrow> bool" where
  "list_empty head h \<longleftrightarrow> lnext h head = head"

text \<open>
  \<^verbatim>\<open>for_each_in_list\<close>: the nodes visited, from \<^verbatim>\<open>head->next\<close> until the head comes back;
  \<open>None\<close> when the bound on the number of nodes is exhausted.
\<close>

fun walk :: "nat \<Rightarrow> addr \<Rightarrow> addr \<Rightarrow> list_heap \<Rightarrow> addr list option" where
  "walk n head p h =
     (if p = head then Some []
      else case n of 0 \<Rightarrow> None
        | Suc m \<Rightarrow> map_option ((#) p) (walk m head (lnext h p) h))"

declare walk.simps [simp del]

definition for_each_in_list :: "nat \<Rightarrow> addr \<Rightarrow> list_heap \<Rightarrow> addr list option" where
  "for_each_in_list n head h = walk n head (lnext h head) h"

section \<open>Abstraction to HOL lists\<close>

fun lseg :: "list_heap \<Rightarrow> addr \<Rightarrow> addr list \<Rightarrow> addr \<Rightarrow> bool" where
  "lseg h x [] y \<longleftrightarrow> lnext h x = y \<and> lprev h y = x"
| "lseg h x (z # zs) y \<longleftrightarrow> lnext h x = z \<and> lprev h z = x \<and> lseg h z zs y"

definition is_list :: "list_heap \<Rightarrow> addr \<Rightarrow> addr list \<Rightarrow> bool" where
  "is_list h head xs \<longleftrightarrow> distinct (head # xs) \<and> lseg h head xs head"

lemma lseg_append:
  "lseg h x (as @ z # bs) y \<longleftrightarrow> lseg h x as z \<and> lseg h z bs y"
  by (induction as arbitrary: x) auto

lemma lseg_set_next:
  "p \<notin> set (x # zs) \<Longrightarrow> lseg (set_next p v h) x zs y = lseg h x zs y"
  by (induction zs arbitrary: x) (auto simp: set_next_def)

lemma lseg_set_prev:
  "p \<notin> set (zs @ [y]) \<Longrightarrow> lseg (set_prev p v h) x zs y = lseg h x zs y"
  by (induction zs arbitrary: x) (auto simp: set_prev_def)

lemma lseg_last: "lseg h x zs y \<Longrightarrow> lprev h y = last (x # zs)"
  by (induction zs arbitrary: x) auto

lemma lseg_last_in: "lseg h x zs y \<Longrightarrow> lprev h y \<in> set (x # zs)"
  by (induction zs arbitrary: x) auto

lemma lseg_first_in: "lseg h x zs y \<Longrightarrow> lnext h x \<in> set (zs @ [y])"
  by (cases zs) auto

lemma lnext_set [simp]:
  "lnext (set_next p v h) = (lnext h)(p := v)" "lnext (set_prev p v h) = lnext h"
  by (simp_all add: set_next_def set_prev_def)

lemma lprev_set [simp]:
  "lprev (set_prev p v h) = (lprev h)(p := v)" "lprev (set_next p v h) = lprev h"
  by (simp_all add: set_next_def set_prev_def)

lemma init_list_head_empty: "is_list (init_list_head l h) l []"
  by (simp add: is_list_def init_list_head_def)

text \<open>Splicing a fresh node between two neighbours of a segment, and unlinking one.\<close>

lemma list_add_lseg:
  assumes "lseg h x zs y" and "new \<notin> set (x # zs @ [y])" and "distinct (x # zs)"
    and "y \<notin> set zs"
  shows "lseg (list_add new x h) x (new # zs) y"
proof (cases zs)
  case Nil
  with assms show ?thesis by (auto simp: list_add_def Let_def)
next
  case (Cons z ws)
  with assms have "lnext h x = z" "lseg h z ws y" by auto
  with assms Cons show ?thesis
    by (auto simp: list_add_def Let_def lseg_set_next lseg_set_prev)
qed

lemma list_add_frame:
  assumes "lseg h x zs y" and "p \<notin> set (x # zs)" and "lnext h p \<notin> set (zs @ [y])"
    and "new \<notin> set (x # zs @ [y])"
  shows "lseg (list_add new p h) x zs y"
  using assms by (auto simp: list_add_def Let_def lseg_set_next lseg_set_prev)

lemma list_del_frame:
  assumes "lseg h x zs y" and "lprev h node \<notin> set (x # zs)" and "lnext h node \<notin> set (zs @ [y])"
    and "lprev h node \<noteq> node"
  shows "lseg (list_del node h) x zs y"
  using assms by (auto simp: list_del_def Let_def lseg_set_next lseg_set_prev)

lemma is_list_not_head [simp]: "is_list h head xs \<Longrightarrow> head \<notin> set xs"
  by (simp add: is_list_def)

lemma is_list_init_other:
  "is_list h head xs \<Longrightarrow> n \<notin> set (head # xs) \<Longrightarrow> is_list (init_list_head n h) head xs"
  by (simp add: is_list_def init_list_head_def lseg_set_next lseg_set_prev)

lemma list_empty_iff: "is_list h head xs \<Longrightarrow> list_empty head h \<longleftrightarrow> xs = []"
  by (cases xs) (auto simp: is_list_def list_empty_def)

text \<open>Insertion after any node of the cycle; the head is the node before the first.\<close>

lemma list_add_after:
  assumes L: "is_list h head (as @ p # bs)" and n: "new \<notin> set (head # as @ p # bs)"
  shows "is_list (list_add new p h) head (as @ p # new # bs)"
proof -
  from L have d: "distinct (head # as @ p # bs)" and s1: "lseg h head as p"
      and s2: "lseg h p bs head" by (auto simp: is_list_def lseg_append)
  have "lseg (list_add new p h) p (new # bs) head"
    using s2 d n by (intro list_add_lseg) auto
  moreover have "lnext h p \<in> set (bs @ [head])"
    using s2 by (cases bs) auto
  then have "lseg (list_add new p h) head as p"
    using s1 d n by (intro list_add_frame) auto
  ultimately show ?thesis
    using d n by (auto simp: is_list_def lseg_append)
qed

lemma list_add_head:
  assumes "is_list h head xs" and "new \<notin> set (head # xs)"
  shows "is_list (list_add new head h) head (new # xs)"
proof -
  have "lseg (list_add new head h) head (new # xs) head"
    using assms by (intro list_add_lseg) (auto simp: is_list_def)
  then show ?thesis using assms by (auto simp: is_list_def)
qed

lemma list_append_tail:
  assumes L: "is_list h head xs" and n: "new \<notin> set (head # xs)"
  shows "is_list (list_append new head h) head (xs @ [new])"
proof -
  have tail: "lprev h head = last (head # xs)"
    using L by (auto simp: is_list_def dest: lseg_last)
  show ?thesis
  proof (cases xs rule: rev_cases)
    case Nil
    with tail list_add_head [OF L n] show ?thesis by (simp add: list_append_def)
  next
    case (snoc as p)
    with tail list_add_after [of h head as p "[]" new] L n show ?thesis
      by (simp add: list_append_def)
  qed
qed

lemma list_del_lseg:
  assumes "lseg h p [] node" and "lseg h node bs y" and "distinct (p # node # bs)"
    and "y \<notin> set bs" and "y \<noteq> node"
  shows "lseg (list_del node h) p bs y"
proof (cases bs)
  case Nil
  with assms show ?thesis by (auto simp: list_del_def Let_def)
next
  case (Cons b cs)
  with assms have "lnext h node = b" "lprev h node = p" "lseg h b cs y" by auto
  with assms Cons show ?thesis
    by (auto simp: list_del_def Let_def lseg_set_next lseg_set_prev)
qed

lemma list_del_node:
  assumes L: "is_list h head (as @ node # bs)"
  shows "is_list (list_del node h) head (as @ bs)"
proof -
  from L have d: "distinct (head # as @ node # bs)" and s1: "lseg h head as node"
      and s2: "lseg h node bs head" by (auto simp: is_list_def lseg_append)
  have "lseg (list_del node h) head (as @ bs) head"
  proof (cases as rule: rev_cases)
    case Nil
    with s1 s2 d show ?thesis by (auto intro!: list_del_lseg)
  next
    case (snoc us p)
    with s1 have "lseg h head us p" and p: "lseg h p [] node"
      by (simp_all add: lseg_append)
    moreover have "lnext h node \<in> set (bs @ [head])" using s2 by (cases bs) auto
    ultimately have "lseg (list_del node h) head us p"
      using d snoc by (intro list_del_frame) auto
    moreover have "lseg (list_del node h) p bs head"
      using p s2 d snoc by (intro list_del_lseg) auto
    ultimately show ?thesis by (simp add: snoc lseg_append)
  qed
  with d show ?thesis by (simp add: is_list_def)
qed

lemma is_list_neighbours:
  assumes "is_list h head xs" and "p \<in> set (head # xs)"
  shows "lnext h p \<in> set (head # xs)" and "lprev h p \<in> set (head # xs)"
proof -
  have s: "lseg h head xs head" using assms by (simp add: is_list_def)
  have "lnext h p \<in> set (head # xs) \<and> lprev h p \<in> set (head # xs)"
  proof (cases "p = head")
    case True
    then show ?thesis using lseg_first_in [OF s] lseg_last_in [OF s] by auto
  next
    case False
    with assms obtain as bs where xs: "xs = as @ p # bs"
      by (auto dest: split_list)
    with s have "lseg h head as p" "lseg h p bs head" by (auto simp: lseg_append)
    from lseg_first_in [OF this(2)] lseg_last_in [OF this(1)] show ?thesis
      by (auto simp: xs)
  qed
  then show "lnext h p \<in> set (head # xs)" and "lprev h p \<in> set (head # xs)" by auto
qed

text \<open>Operations on one list leave every disjoint list as it is.\<close>

lemma list_add_other:
  assumes "is_list h head xs" and "p \<in> set (head # xs)" and "is_list h head' ys"
    and "set (head # xs) \<inter> set (head' # ys) = {}" and "new \<notin> set (head' # ys)"
  shows "is_list (list_add new p h) head' ys"
proof -
  have "lnext h p \<in> set (head # xs)" by (rule is_list_neighbours [OF assms(1,2)])
  with assms show ?thesis
    unfolding is_list_def by (intro conjI list_add_frame) auto
qed

lemma list_append_other:
  assumes "is_list h head xs" and "is_list h head' ys"
    and "set (head # xs) \<inter> set (head' # ys) = {}" and "new \<notin> set (head' # ys)"
  shows "is_list (list_append new head h) head' ys"
  unfolding list_append_def Let_def
  using assms is_list_neighbours(2) [OF assms(1), of head]
  by (intro list_add_other [OF assms(1) _ assms(2)]) auto

lemma list_del_other:
  assumes "is_list h head xs" and "node \<in> set xs" and "is_list h head' ys"
    and "set (head # xs) \<inter> set (head' # ys) = {}"
  shows "is_list (list_del node h) head' ys"
proof -
  have n: "lnext h node \<in> set (head # xs)" and p: "lprev h node \<in> set (head # xs)"
    using is_list_neighbours [OF assms(1), of node] assms(2) by auto
  from assms(2) obtain as bs where "xs = as @ node # bs" by (auto dest: split_list)
  with assms(1) have "lprev h node \<noteq> node"
    by (auto simp: is_list_def lseg_append dest: lseg_last_in)
  with assms n p show ?thesis
    unfolding is_list_def by (intro conjI list_del_frame) auto
qed

lemma walk_lseg:
  "lseg h x zs y \<Longrightarrow> y \<notin> set zs \<Longrightarrow> length zs \<le> n \<Longrightarrow> walk n y (lnext h x) h = Some zs"
proof (induction zs arbitrary: x n)
  case Nil
  then show ?case by (simp add: walk.simps)
next
  case (Cons z zs)
  then obtain m where "n = Suc m" by (cases n) auto
  with Cons show ?case by (simp add: walk.simps [of "Suc m" y z h])
qed

lemma for_each_is_list:
  "is_list h head xs \<Longrightarrow> length xs \<le> n \<Longrightarrow> for_each_in_list n head h = Some xs"
  by (auto simp: is_list_def for_each_in_list_def intro: walk_lseg)

section \<open>The list interface\<close>

text \<open>
  What the users of \<^verbatim>\<open>list.h\<close> rely on.  \<open>content h l xs\<close> says that the list with head \<open>l\<close>
  holds the nodes \<open>xs\<close> in heap \<open>h\<close>.
\<close>

locale intrusive_list =
  fixes content :: "'h \<Rightarrow> 'p \<Rightarrow> 'p list \<Rightarrow> bool"
    and init :: "'p \<Rightarrow> 'h \<Rightarrow> 'h"
    and add :: "'p \<Rightarrow> 'p \<Rightarrow> 'h \<Rightarrow> 'h"
    and append :: "'p \<Rightarrow> 'p \<Rightarrow> 'h \<Rightarrow> 'h"
    and del :: "'p \<Rightarrow> 'h \<Rightarrow> 'h"
    and is_empty :: "'p \<Rightarrow> 'h \<Rightarrow> bool"
  assumes content_init: "content (init l h) l []"
    and init_other: "content h l xs \<Longrightarrow> n \<notin> set (l # xs) \<Longrightarrow> content (init n h) l xs"
    and content_add: "content h l xs \<Longrightarrow> n \<notin> set (l # xs) \<Longrightarrow> content (add n l h) l (n # xs)"
    and content_append: "content h l xs \<Longrightarrow> n \<notin> set (l # xs) \<Longrightarrow> content (append n l h) l (xs @ [n])"
    and content_del: "content h l (xs @ n # ys) \<Longrightarrow> content (del n h) l (xs @ ys)"
    and content_empty: "content h l xs \<Longrightarrow> is_empty l h \<longleftrightarrow> xs = []"
    and content_distinct: "content h l xs \<Longrightarrow> distinct (l # xs)"
    and content_add_after: "content h l (xs @ p # ys) \<Longrightarrow> n \<notin> set (l # xs @ p # ys) \<Longrightarrow>
      content (add n p h) l (xs @ p # n # ys)"
    and add_other: "content h l xs \<Longrightarrow> p \<in> set (l # xs) \<Longrightarrow> content h k ys \<Longrightarrow>
      set (l # xs) \<inter> set (k # ys) = {} \<Longrightarrow> n \<notin> set (k # ys) \<Longrightarrow> content (add n p h) k ys"
    and append_other: "content h l xs \<Longrightarrow> content h k ys \<Longrightarrow>
      set (l # xs) \<inter> set (k # ys) = {} \<Longrightarrow> n \<notin> set (k # ys) \<Longrightarrow> content (append n l h) k ys"
    and del_other: "content h l xs \<Longrightarrow> n \<in> set xs \<Longrightarrow> content h k ys \<Longrightarrow>
      set (l # xs) \<inter> set (k # ys) = {} \<Longrightarrow> content (del n h) k ys"
begin

text \<open>Nodes appended one after the other are found in the order of their arrival.\<close>

lemma appends:
  "content h l xs \<Longrightarrow> distinct ns \<Longrightarrow> set ns \<inter> set (l # xs) = {} \<Longrightarrow>
   content (fold (\<lambda>n. append n l) ns h) l (xs @ ns)"
proof (induction ns arbitrary: h xs)
  case (Cons n ns)
  have "content (append n l h) l (xs @ [n])"
    using Cons.prems by (intro content_append) auto
  from Cons.IH [OF this] Cons.prems show ?case by auto
qed simp

text \<open>Moving a node from one queue to the end of another, as wake-ups and requeues do.\<close>

lemma move:
  assumes "content h l (xs @ n # ys)" and "content h k zs"
    and "set (l # xs @ n # ys) \<inter> set (k # zs) = {}"
  shows "content (append n k (del n h)) l (xs @ ys)"
    and "content (append n k (del n h)) k (zs @ [n])"
proof -
  have 1: "content (del n h) l (xs @ ys)" by (rule content_del) (rule assms(1))
  have 2: "content (del n h) k zs"
    using assms by (intro del_other [OF assms(1) _ assms(2)]) auto
  have d: "distinct (l # xs @ n # ys)" using assms(1) by (rule content_distinct)
  show "content (append n k (del n h)) k (zs @ [n])"
    using 2 assms(3) by (intro content_append) auto
  show "content (append n k (del n h)) l (xs @ ys)"
    using 1 2 assms(3) d by (intro append_other [OF 2 1]) auto
qed

text \<open>
  A family of lists, as an array of queues: the heads \<open>hp k\<close> for \<open>k \<in> K\<close>, the list with head
  \<open>hp k\<close> holding \<open>F k\<close>, and no node on two of them.
\<close>

definition family :: "('k \<Rightarrow> 'p) \<Rightarrow> 'k set \<Rightarrow> 'h \<Rightarrow> ('k \<Rightarrow> 'p list) \<Rightarrow> bool" where
  "family hp K h F \<longleftrightarrow> (\<forall>k \<in> K. content h (hp k) (F k))
     \<and> (\<forall>k \<in> K. \<forall>j \<in> K. k \<noteq> j \<longrightarrow> set (hp k # F k) \<inter> set (hp j # F j) = {})"

definition fresh :: "('k \<Rightarrow> 'p) \<Rightarrow> 'k set \<Rightarrow> ('k \<Rightarrow> 'p list) \<Rightarrow> 'p \<Rightarrow> bool" where
  "fresh hp K F n \<longleftrightarrow> (\<forall>k \<in> K. n \<notin> set (hp k # F k))"

lemma family_content: "family hp K h F \<Longrightarrow> k \<in> K \<Longrightarrow> content h (hp k) (F k)"
  by (simp add: family_def)

lemma family_disjoint:
  "family hp K h F \<Longrightarrow> k \<in> K \<Longrightarrow> j \<in> K \<Longrightarrow> k \<noteq> j \<Longrightarrow> set (hp k # F k) \<inter> set (hp j # F j) = {}"
  unfolding family_def by blast

lemma family_distinct: "family hp K h F \<Longrightarrow> k \<in> K \<Longrightarrow> distinct (hp k # F k)"
  by (rule content_distinct) (rule family_content)

lemma family_empty_iff: "family hp K h F \<Longrightarrow> k \<in> K \<Longrightarrow> is_empty (hp k) h \<longleftrightarrow> F k = []"
  by (rule content_empty) (rule family_content)

lemma family_upd:
  assumes fam: "family hp K h F" and k: "k \<in> K"
    and new: "content h' (hp k) xs"
    and other: "\<And>j ys. j \<in> K \<Longrightarrow> j \<noteq> k \<Longrightarrow> content h (hp j) ys \<Longrightarrow> ys = F j \<Longrightarrow> content h' (hp j) ys"
    and disj: "\<And>j. j \<in> K \<Longrightarrow> j \<noteq> k \<Longrightarrow> set xs \<inter> set (hp j # F j) = {}"
  shows "family hp K h' (F(k := xs))"
  unfolding family_def
proof (intro conjI ballI impI)
  fix j assume j: "j \<in> K"
  show "content h' (hp j) ((F(k := xs)) j)"
    using new other [OF j _ family_content [OF fam j]] by auto
next
  fix i j assume i: "i \<in> K" and j: "j \<in> K" and ij: "i \<noteq> j"
  from family_disjoint [OF fam i j ij] disj [OF i] disj [OF j] ij
  show "set (hp i # (F(k := xs)) i) \<inter> set (hp j # (F(k := xs)) j) = {}" by auto
qed

lemma family_add:
  assumes fam: "family hp K h F" and k: "k \<in> K" and n: "fresh hp K F n"
  shows "family hp K (add n (hp k) h) (F(k := n # F k))"
proof (rule family_upd [OF fam k])
  show "content (add n (hp k) h) (hp k) (n # F k)"
    using n k by (intro content_add family_content [OF fam]) (auto simp: fresh_def)
  fix j assume j: "j \<in> K" "j \<noteq> k"
  note d = family_disjoint [OF fam k j(1) j(2) [symmetric]]
  show "set (n # F k) \<inter> set (hp j # F j) = {}" using d n j by (auto simp: fresh_def)
  show "content (add n (hp k) h) (hp j) ys" if "content h (hp j) ys" "ys = F j" for ys
    using that d n j by (intro add_other [OF family_content [OF fam k]]) (auto simp: fresh_def)
qed

lemma family_add_after:
  assumes fam: "family hp K h F" and k: "k \<in> K" and n: "fresh hp K F n" and p: "F k = xs @ p # ys"
  shows "family hp K (add n p h) (F(k := xs @ p # n # ys))"
proof (rule family_upd [OF fam k])
  note c = family_content [OF fam k]
  show "content (add n p h) (hp k) (xs @ p # n # ys)"
    using n k c p by (intro content_add_after) (auto simp: fresh_def)
  fix j assume j: "j \<in> K" "j \<noteq> k"
  note d = family_disjoint [OF fam k j(1) j(2) [symmetric]]
  show "set (xs @ p # n # ys) \<inter> set (hp j # F j) = {}" using d n j p by (auto simp: fresh_def)
  show "content (add n p h) (hp j) ys" if "content h (hp j) ys" "ys = F j" for ys
    using that d n j p by (intro add_other [OF c]) (auto simp: fresh_def)
qed

lemma family_new:
  assumes fam: "family hp K h F" and j: "j \<notin> K" and fr: "fresh hp K F (hp j)"
  shows "family hp (insert j K) (init (hp j) h) (F(j := []))"
proof -
  have c: "content (init (hp j) h) (hp k) (F k)" if "k \<in> K" for k
    using family_content [OF fam that] fr that by (intro init_other) (auto simp: fresh_def)
  show ?thesis unfolding family_def
  proof (intro conjI ballI impI)
    fix k assume "k \<in> insert j K"
    then show "content (init (hp j) h) (hp k) ((F(j := [])) k)" using c content_init j by auto
  next
    fix i k assume "i \<in> insert j K" "k \<in> insert j K" "i \<noteq> k"
    then show "set (hp i # (F(j := [])) i) \<inter> set (hp k # (F(j := [])) k) = {}"
      using family_disjoint [OF fam, of i k] fr j by (auto simp: fresh_def)
  qed
qed

lemma family_subset: "family hp K h F \<Longrightarrow> J \<subseteq> K \<Longrightarrow> family hp J h F"
  unfolding family_def by blast

lemma family_append:
  assumes fam: "family hp K h F" and k: "k \<in> K" and n: "fresh hp K F n"
  shows "family hp K (append n (hp k) h) (F(k := F k @ [n]))"
proof (rule family_upd [OF fam k])
  show "content (append n (hp k) h) (hp k) (F k @ [n])"
    using n k by (intro content_append family_content [OF fam]) (auto simp: fresh_def)
  fix j assume j: "j \<in> K" "j \<noteq> k"
  note d = family_disjoint [OF fam k j(1) j(2) [symmetric]]
  show "set (F k @ [n]) \<inter> set (hp j # F j) = {}" using d n j by (auto simp: fresh_def)
  show "content (append n (hp k) h) (hp j) ys" if "content h (hp j) ys" "ys = F j" for ys
    using that d n j family_content [OF fam k] by (intro append_other) (auto simp: fresh_def)
qed

lemma family_del:
  assumes fam: "family hp K h F" and k: "k \<in> K" and n: "n \<in> set (F k)"
  shows "family hp K (del n h) (F(k := remove1 n (F k)))"
proof (rule family_upd [OF fam k])
  have c: "content h (hp k) (F k)" by (rule family_content [OF fam k])
  from split_list [OF n] obtain as bs where e: "F k = as @ n # bs" by blast
  with family_distinct [OF fam k] have "remove1 n (F k) = as @ bs" by (auto simp: remove1_append)
  with content_del [of h "hp k" as n bs] c e
  show "content (del n h) (hp k) (remove1 n (F k))" by simp
  fix j assume j: "j \<in> K" "j \<noteq> k"
  note d = family_disjoint [OF fam k j(1) j(2) [symmetric]]
  show "set (remove1 n (F k)) \<inter> set (hp j # F j) = {}"
    using d set_remove1_subset [of n "F k"] by auto
  show "content (del n h) (hp j) ys" if "content h (hp j) ys" "ys = F j" for ys
    using that d n c by (intro del_other) auto
qed

lemma family_fresh_del:
  assumes "family hp K h F" "k \<in> K" "n \<in> set (F k)"
  shows "fresh hp K (F(k := remove1 n (F k))) n"
  using assms family_disjoint [OF assms(1,2)] family_distinct [OF assms(1,2)]
  by (auto simp: fresh_def set_remove1_eq)

end

interpretation dl: intrusive_list is_list init_list_head list_add list_append list_del list_empty
proof unfold_locales
  fix h l k n and xs ys :: "addr list"
  show "is_list (init_list_head l h) l []" by (rule init_list_head_empty)
  show "is_list h l xs \<Longrightarrow> n \<notin> set (l # xs) \<Longrightarrow> is_list (init_list_head n h) l xs"
    by (rule is_list_init_other)
  show "is_list h l xs \<Longrightarrow> n \<notin> set (l # xs) \<Longrightarrow> is_list (list_add n l h) l (n # xs)"
    by (rule list_add_head)
  show "is_list h l xs \<Longrightarrow> n \<notin> set (l # xs) \<Longrightarrow> is_list (list_append n l h) l (xs @ [n])"
    by (rule list_append_tail)
  show "is_list h l (xs @ n # ys) \<Longrightarrow> is_list (list_del n h) l (xs @ ys)"
    by (rule list_del_node)
  show "is_list h l xs \<Longrightarrow> list_empty l h = (xs = [])" by (rule list_empty_iff)
  show "is_list h l xs \<Longrightarrow> distinct (l # xs)" by (simp add: is_list_def)
  show "is_list h l xs \<Longrightarrow> is_list h k ys \<Longrightarrow> set (l # xs) \<inter> set (k # ys) = {} \<Longrightarrow>
      n \<notin> set (k # ys) \<Longrightarrow> is_list (list_append n l h) k ys" by (rule list_append_other)
  show "is_list h l (xs @ p # ys) \<Longrightarrow> n \<notin> set (l # xs @ p # ys) \<Longrightarrow>
      is_list (list_add n p h) l (xs @ p # n # ys)" for p by (rule list_add_after)
  show "is_list h l xs \<Longrightarrow> p \<in> set (l # xs) \<Longrightarrow> is_list h k ys \<Longrightarrow> set (l # xs) \<inter> set (k # ys) = {} \<Longrightarrow>
      n \<notin> set (k # ys) \<Longrightarrow> is_list (list_add n p h) k ys" for p by (rule list_add_other)
  show "is_list h l xs \<Longrightarrow> n \<in> set xs \<Longrightarrow> is_list h k ys \<Longrightarrow>
      set (l # xs) \<inter> set (k # ys) = {} \<Longrightarrow> is_list (list_del n h) k ys" by (rule list_del_other)
qed

section \<open>Hash lists and the hash table\<close>

text \<open>
  A back pointer \<^verbatim>\<open>pprev\<close> is the address of a \<^verbatim>\<open>next\<close> field: that of a list head or that of
  a node.
\<close>

datatype hloc = HeadNext addr | NodeNext addr

record hlist_heap =
  hhead :: "addr \<Rightarrow> addr option"
  hnext :: "addr \<Rightarrow> addr option"
  hpprev :: "addr \<Rightarrow> hloc option"

fun hread :: "hlist_heap \<Rightarrow> hloc \<Rightarrow> addr option" where
  "hread h (HeadNext a) = hhead h a"
| "hread h (NodeNext a) = hnext h a"

fun hwrite :: "hloc \<Rightarrow> addr option \<Rightarrow> hlist_heap \<Rightarrow> hlist_heap" where
  "hwrite (HeadNext a) v h = h\<lparr>hhead := (hhead h)(a := v)\<rparr>"
| "hwrite (NodeNext a) v h = h\<lparr>hnext := (hnext h)(a := v)\<rparr>"

definition set_pprev :: "addr \<Rightarrow> hloc option \<Rightarrow> hlist_heap \<Rightarrow> hlist_heap" where
  "set_pprev n v h = h\<lparr>hpprev := (hpprev h)(n := v)\<rparr>"

definition init_hlist_head :: "addr \<Rightarrow> hlist_heap \<Rightarrow> hlist_heap" where
  "init_hlist_head head h = hwrite (HeadNext head) None h"

definition init_hlist_node :: "addr \<Rightarrow> hlist_heap \<Rightarrow> hlist_heap" where
  "init_hlist_node n h = set_pprev n None (hwrite (NodeNext n) None h)"

definition hlist_add :: "addr \<Rightarrow> addr \<Rightarrow> hlist_heap \<Rightarrow> hlist_heap" where
  "hlist_add new head h =
     (let h1 = hwrite (NodeNext new) (hhead h head) h;
          h2 = set_pprev new (Some (HeadNext head)) h1;
          h3 = (case hhead h2 head of None \<Rightarrow> h2 | Some f \<Rightarrow> set_pprev f (Some (NodeNext new)) h2)
      in hwrite (HeadNext head) (Some new) h3)"

text \<open>Deleting a node that is on no list writes through a NULL back pointer.\<close>

definition hlist_del :: "addr \<Rightarrow> hlist_heap \<Rightarrow> hlist_heap option" where
  "hlist_del node h =
     (let h1 = (case hnext h node of None \<Rightarrow> h | Some f \<Rightarrow> set_pprev f (hpprev h node) h)
      in case hpprev h1 node of None \<Rightarrow> None | Some l \<Rightarrow> Some (hwrite l (hnext h1 node) h1))"

definition hlist_empty :: "addr \<Rightarrow> hlist_heap \<Rightarrow> bool" where
  "hlist_empty head h \<longleftrightarrow> hhead h head = None"

fun hseg :: "hlist_heap \<Rightarrow> hloc \<Rightarrow> addr list \<Rightarrow> bool" where
  "hseg h l [] \<longleftrightarrow> hread h l = None"
| "hseg h l (x # xs) \<longleftrightarrow> hread h l = Some x \<and> hpprev h x = Some l \<and> hseg h (NodeNext x) xs"

definition is_hlist :: "hlist_heap \<Rightarrow> addr \<Rightarrow> addr list \<Rightarrow> bool" where
  "is_hlist h head xs \<longleftrightarrow> distinct xs \<and> hseg h (HeadNext head) xs"

lemma hread_hwrite [simp]: "hread (hwrite l v h) m = (if l = m then v else hread h m)"
  by (cases l; cases m) auto

lemma hpprev_hwrite [simp]: "hpprev (hwrite l v h) = hpprev h"
  by (cases l) auto

lemma hread_set_pprev [simp]: "hread (set_pprev n v h) m = hread h m"
  by (cases m) (auto simp: set_pprev_def)

lemma hpprev_set_pprev [simp]: "hpprev (set_pprev n v h) = (hpprev h)(n := v)"
  by (simp add: set_pprev_def)

lemma hhead_hnext_conv: "hhead h a = hread h (HeadNext a)" "hnext h a = hread h (NodeNext a)"
  by simp_all

declare hread.simps [simp del] hwrite.simps [simp del]

lemma hseg_hwrite:
  "m \<noteq> l \<Longrightarrow> (\<forall>x \<in> set xs. m \<noteq> NodeNext x) \<Longrightarrow> hseg (hwrite m v h) l xs = hseg h l xs"
  by (induction xs arbitrary: l) auto

lemma hseg_hwrite_node [simp]:
  "n \<notin> set xs \<Longrightarrow> l \<noteq> NodeNext n \<Longrightarrow> hseg (hwrite (NodeNext n) v h) l xs = hseg h l xs"
  by (rule hseg_hwrite) auto

lemma hseg_hwrite_head [simp]:
  "l \<noteq> HeadNext a \<Longrightarrow> hseg (hwrite (HeadNext a) v h) l xs = hseg h l xs"
  by (rule hseg_hwrite) auto

lemma hseg_set_pprev: "n \<notin> set xs \<Longrightarrow> hseg (set_pprev n v h) l xs = hseg h l xs"
  by (induction xs arbitrary: l) auto

lemma hlist_add_ok:
  assumes "is_hlist h head xs" and "new \<notin> set xs"
  shows "is_hlist (hlist_add new head h) head (new # xs)"
  using assms
  by (cases xs) (auto simp: is_hlist_def hlist_add_def hhead_hnext_conv
      hseg_set_pprev Let_def)

lemma hlist_add_other:
  assumes "is_hlist h head xs" and "is_hlist h head' ys" and "head' \<noteq> head"
    and "set xs \<inter> set ys = {}" and "new \<notin> set ys"
  shows "is_hlist (hlist_add new head h) head' ys"
  using assms
  by (cases xs) (auto simp: is_hlist_def hlist_add_def hhead_hnext_conv
      hseg_set_pprev Let_def)

lemma hseg_append:
  "hseg h l (as @ n # bs) \<Longrightarrow>
   \<exists>m. hread h m = Some n \<and> hpprev h n = Some m \<and> hseg h (NodeNext n) bs
     \<and> (m = l \<and> as = [] \<or> as \<noteq> [] \<and> m = NodeNext (last as))"
  by (induction as arbitrary: l) auto

lemma hseg_redirect:
  assumes "hseg h l (as @ n # bs)" and "distinct (as @ n # bs)"
    and "\<forall>x \<in> set (as @ n # bs). l \<noteq> NodeNext x"
    and "hpprev h n = Some m"
    and "h' = (case bs of [] \<Rightarrow> h | b # _ \<Rightarrow> set_pprev b (Some m) h)"
  shows "hseg (hwrite m (case bs of [] \<Rightarrow> None | b # _ \<Rightarrow> Some b) h') l (as @ bs)"
  using assms
proof (induction as arbitrary: l)
  case Nil
  then show ?case
    by (cases bs) (auto simp: hseg_hwrite hseg_set_pprev)
next
  case (Cons a as)
  then have IH: "hseg (hwrite m (case bs of [] \<Rightarrow> None | b # _ \<Rightarrow> Some b) h') (NodeNext a) (as @ bs)"
    by auto
  have "m \<noteq> l" using Cons.prems hseg_append [of h "NodeNext a" as n bs] by (cases as) auto
  with Cons.prems IH show ?case by (cases bs) auto
qed

lemma hlist_del_ok:
  assumes L: "is_hlist h head (as @ node # bs)"
  shows "\<exists>h'. hlist_del node h = Some h' \<and> is_hlist h' head (as @ bs)"
proof -
  from L have s: "hseg h (HeadNext head) (as @ node # bs)" and d: "distinct (as @ node # bs)"
    by (auto simp: is_hlist_def)
  from hseg_append [OF s] obtain m where m: "hpprev h node = Some m"
      and b: "hseg h (NodeNext node) bs" by blast
  let ?h = "case bs of [] \<Rightarrow> h | b # _ \<Rightarrow> set_pprev b (Some m) h"
  have "hlist_del node h = Some (hwrite m (case bs of [] \<Rightarrow> None | b # _ \<Rightarrow> Some b) ?h)"
    using b m d
    by (cases bs) (auto simp: hlist_del_def hhead_hnext_conv Let_def)
  with hseg_redirect [OF s d _ m] d show ?thesis by (auto simp: is_hlist_def)
qed

text \<open>The hash table: \<^verbatim>\<open>size\<close> list heads laid out from \<^verbatim>\<open>buckets\<close>.\<close>

record htable =
  buckets :: addr
  hsize :: nat

definition htable_get_bucket :: "htable \<Rightarrow> u32 \<Rightarrow> addr option" where
  "htable_get_bucket ht key =
     (if hsize ht = 0 then None else Some (buckets ht + unat key mod hsize ht))"

definition htable_add :: "htable \<Rightarrow> u32 \<Rightarrow> addr \<Rightarrow> hlist_heap \<Rightarrow> hlist_heap option" where
  "htable_add ht key node h =
     map_option (\<lambda>b. hlist_add node b h) (htable_get_bucket ht key)"

definition htable_del :: "addr \<Rightarrow> hlist_heap \<Rightarrow> hlist_heap option" where
  "htable_del node h = hlist_del node h"

definition htable_empty :: "htable \<Rightarrow> hlist_heap \<Rightarrow> bool" where
  "htable_empty ht h = list_all (\<lambda>i. hlist_empty (buckets ht + i) h) [0..<hsize ht]"

definition is_htable :: "hlist_heap \<Rightarrow> htable \<Rightarrow> (nat \<Rightarrow> addr list) \<Rightarrow> bool" where
  "is_htable h ht B \<longleftrightarrow> (\<forall>i < hsize ht. is_hlist h (buckets ht + i) (B i))
     \<and> (\<forall>i < hsize ht. \<forall>j < hsize ht. i \<noteq> j \<longrightarrow> set (B i) \<inter> set (B j) = {})"

lemma is_htable_nodup:
  "is_htable h ht B \<Longrightarrow> i < hsize ht \<Longrightarrow> j < hsize ht \<Longrightarrow> i \<noteq> j \<Longrightarrow> set (B i) \<inter> set (B j) = {}"
  by (simp add: is_htable_def)

lemma hlist_empty_iff: "is_hlist h head xs \<Longrightarrow> hlist_empty head h \<longleftrightarrow> xs = []"
  by (cases xs) (auto simp: is_hlist_def hlist_empty_def hhead_hnext_conv)

lemma htable_add_ok:
  assumes T: "is_htable h ht B" and k: "k = unat key mod hsize ht" and z: "0 < hsize ht"
    and n: "\<forall>i < hsize ht. node \<notin> set (B i)"
  shows "is_htable (hlist_add node (buckets ht + k) h) ht (B(k := node # B k))"
proof -
  have k': "k < hsize ht" using k z by simp
  have "is_hlist (hlist_add node (buckets ht + k) h) (buckets ht + i) ((B(k := node # B k)) i)"
    if i: "i < hsize ht" for i
  proof (cases "i = k")
    case True
    with T k' n show ?thesis by (auto simp: is_htable_def intro: hlist_add_ok)
  next
    case False
    have "is_hlist (hlist_add node (buckets ht + k) h) (buckets ht + i) (B i)"
      using T k' i n is_htable_nodup [OF T k' i] False
      by (intro hlist_add_other [where xs = "B k"]) (auto simp: is_htable_def)
    with False show ?thesis by simp
  qed
  moreover have "set ((B(k := node # B k)) i) \<inter> set ((B(k := node # B k)) j) = {}"
    if "i < hsize ht" "j < hsize ht" "i \<noteq> j" for i j
    using that n k' is_htable_nodup [OF T that] by auto
  ultimately show ?thesis by (simp add: is_htable_def)
qed

section \<open>Properties\<close>


definition three_list :: list_heap where
  "three_list = list_append 2 0 (list_append 1 0 (init_list_head 0
     \<lparr>lprev = (\<lambda>_. 0), lnext = (\<lambda>_. 0)\<rparr>))"


text \<open>
  Adding a node to the hash table puts it at the front of the bucket of its key and
  leaves every other bucket as it was; deleting it from there restores the bucket.
\<close>

theorem htable_add_del:
  assumes "is_htable h ht B" and "0 < hsize ht" and "\<forall>i < hsize ht. node \<notin> set (B i)"
  shows "\<exists>h' h''. htable_add ht key node h = Some h'
    \<and> is_htable h' ht (B(unat key mod hsize ht := node # B (unat key mod hsize ht)))
    \<and> htable_del node h' = Some h''
    \<and> is_hlist h'' (buckets ht + unat key mod hsize ht) (B (unat key mod hsize ht))"
proof -
  let ?k = "unat key mod hsize ht"
  let ?h = "hlist_add node (buckets ht + ?k) h"
  have T: "is_htable ?h ht (B(?k := node # B ?k))"
    using assms by (intro htable_add_ok) auto
  then have "is_hlist ?h (buckets ht + ?k) ([] @ node # B ?k)"
    using assms(2) unfolding is_htable_def
    by (metis append_Nil fun_upd_same mod_less_divisor)
  from hlist_del_ok [OF this] T assms(2) show ?thesis
    by (auto simp: htable_add_def htable_get_bucket_def htable_del_def)
qed

definition empty_htable_heap :: hlist_heap where
  "empty_htable_heap = \<lparr>hhead = (\<lambda>_. None), hnext = (\<lambda>_. None), hpprev = (\<lambda>_. None)\<rparr>"

theorem htable_add_del_witness:
  "\<exists>h' h''. htable_add \<lparr>buckets = 100, hsize = 4\<rparr> 7 9 empty_htable_heap = Some h'
    \<and> is_hlist h' 103 [9] \<and> htable_del 9 h' = Some h'' \<and> is_hlist h'' 103 []"
proof -
  have "is_htable empty_htable_heap \<lparr>buckets = 100, hsize = 4\<rparr> (\<lambda>_. [])"
    by (simp add: is_htable_def is_hlist_def empty_htable_heap_def hread.simps)
  from htable_add_del [OF this, of 9 7] show ?thesis
    by (auto simp: is_htable_def dest: spec [where x = 3])
qed

end
