(* ===== verification/Bitmap.thy ===== *)
theory Bitmap
  imports Prelude
begin

text \<open>
  The bit maps of \<^verbatim>\<open>kernel/include/common/bitops.h\<close>: arrays of 64-bit words.  An access outside
  the array is undefined.  The searches are proved against their specification, the least
  position from the start on whose bit has the wanted value.
\<close>

section \<open>Model\<close>

definition BITS_PER_LONG :: nat where "BITS_PER_LONG = 64"

definition BITS_TO_LONGS :: "nat \<Rightarrow> nat" where
  "BITS_TO_LONGS nr = DIV_ROUND_UP nr BITS_PER_LONG"

definition bmp_set :: "nat \<Rightarrow> u64 list \<Rightarrow> u64 list option" where
  "bmp_set nr p = do {
     w \<leftarrow> nth_opt p (nr div BITS_PER_LONG);
     upd_opt p (nr div BITS_PER_LONG) (w OR push_bit (nr mod BITS_PER_LONG) 1) }"

definition bmp_get :: "nat \<Rightarrow> u64 list \<Rightarrow> bool option" where
  "bmp_get nr p = do {
     w \<leftarrow> nth_opt p (nr div BITS_PER_LONG);
     Some (drop_bit (nr mod BITS_PER_LONG) w AND 1 = 1) }"

definition bmp_clear :: "nat \<Rightarrow> u64 list \<Rightarrow> u64 list option" where
  "bmp_clear nr p = do {
     w \<leftarrow> nth_opt p (nr div BITS_PER_LONG);
     upd_opt p (nr div BITS_PER_LONG) (w AND NOT (push_bit (nr mod BITS_PER_LONG) 1)) }"

text \<open>
  \<^verbatim>\<open>__builtin_ctzl\<close>: the number of trailing zero bits.  For 0 the source returns the size of the
  type in bytes, which the searches never use.
\<close>

function ctz_from :: "nat \<Rightarrow> u64 \<Rightarrow> nat" where
  "ctz_from n w = (if n < 64 \<and> \<not> bit w n then ctz_from (n + 1) w else n)"
  by auto

termination by (relation "measure (\<lambda>(n, _). 64 - n)") auto

declare ctz_from.simps [simp del]

definition ctzl :: "u64 \<Rightarrow> nat" where
  "ctzl w = (if w = 0 then 8 else ctz_from 0 w)"

function find_loop :: "u64 list \<Rightarrow> nat \<Rightarrow> u64 \<Rightarrow> nat \<Rightarrow> u64 \<Rightarrow> nat option" where
  "find_loop p sz invert start tmp =
     (if tmp = 0 then
        if start + BITS_PER_LONG \<ge> sz then Some sz
        else do {
          w \<leftarrow> nth_opt p ((start + BITS_PER_LONG) div BITS_PER_LONG);
          find_loop p sz invert (start + BITS_PER_LONG) (w XOR invert) }
      else Some (min (start + ctzl tmp) sz))"
  by auto

termination by (relation "measure (\<lambda>(_, sz, _, start, _). sz - start)") (auto simp: BITS_PER_LONG_def)

declare find_loop.simps [simp del]

definition find_next :: "u64 list \<Rightarrow> nat \<Rightarrow> nat \<Rightarrow> u64 \<Rightarrow> nat option" where
  "find_next p sz start invert =
     (if sz \<le> start then Some sz
      else do {
        w \<leftarrow> nth_opt p (start div BITS_PER_LONG);
        let tmp = (w XOR invert) AND NOT (push_bit (start mod BITS_PER_LONG) 1 - 1);
        find_loop p sz invert (start div BITS_PER_LONG * BITS_PER_LONG) tmp })"

definition find_next_zero_bit :: "u64 list \<Rightarrow> nat \<Rightarrow> nat \<Rightarrow> nat option" where
  "find_next_zero_bit p sz start = find_next p sz start (NOT 0)"

definition find_next_bit :: "u64 list \<Rightarrow> nat \<Rightarrow> nat \<Rightarrow> nat option" where
  "find_next_bit p sz start = find_next p sz start 0"

section \<open>Specification\<close>

definition bmp_bit :: "u64 list \<Rightarrow> nat \<Rightarrow> bool" where
  "bmp_bit p n \<longleftrightarrow> bit (p ! (n div 64)) (n mod 64)"

definition in_bmp :: "nat \<Rightarrow> u64 list \<Rightarrow> bool" where
  "in_bmp n p \<longleftrightarrow> n div 64 < length p"

lemma in_bmp_iff: "in_bmp n p \<longleftrightarrow> n < 64 * length p"
  by (auto simp: in_bmp_def less_mult_imp_div_less mult.commute div_less_iff_less_mult)

lemma bmp_get_ok: "in_bmp n p \<Longrightarrow> bmp_get n p = Some (bmp_bit p n)"
  by (auto simp: bmp_get_def in_bmp_def bmp_bit_def BITS_PER_LONG_def and_one_eq
      bit_iff_odd_drop_bit odd_iff_mod_2_eq_one)

lemma bmp_get_out: "\<not> in_bmp n p \<Longrightarrow> bmp_get n p = None"
  by (simp add: bmp_get_def in_bmp_def BITS_PER_LONG_def)

lemma bmp_bit_upd:
  assumes "in_bmp n p" "in_bmp m p"
    and "\<And>i. i < 64 \<Longrightarrow> bit w i \<longleftrightarrow> (if i = n mod 64 then v else bit (p ! (n div 64)) i)"
  shows "bmp_bit (p[n div 64 := w]) m \<longleftrightarrow> (if m = n then v else bmp_bit p m)"
proof (cases "m div 64 = n div 64")
  case True
  then have "m = n \<longleftrightarrow> m mod 64 = n mod 64" by (metis div_mult_mod_eq)
  with True assms show ?thesis by (simp add: bmp_bit_def in_bmp_def)
next
  case False
  then have "m \<noteq> n" by auto
  with False show ?thesis by (simp add: bmp_bit_def)
qed

lemma bmp_set_ok:
  assumes "in_bmp n p"
  shows "\<exists>q. bmp_set n p = Some q \<and> length q = length p
    \<and> (\<forall>m. in_bmp m p \<longrightarrow> bmp_bit q m = (m = n \<or> bmp_bit p m))"
proof -
  let ?q = "p[n div 64 := p ! (n div 64) OR push_bit (n mod 64) 1]"
  have "bmp_set n p = Some ?q" using assms by (simp add: bmp_set_def in_bmp_def BITS_PER_LONG_def)
  moreover have "bmp_bit ?q m = (m = n \<or> bmp_bit p m)" if "in_bmp m p" for m
    using bmp_bit_upd [OF assms that, of "p ! (n div 64) OR push_bit (n mod 64) 1" True]
    by (simp add: bit_simps)
  ultimately show ?thesis by simp
qed

lemma bmp_clear_ok:
  assumes "in_bmp n p"
  shows "\<exists>q. bmp_clear n p = Some q \<and> length q = length p
    \<and> (\<forall>m. in_bmp m p \<longrightarrow> bmp_bit q m = (m \<noteq> n \<and> bmp_bit p m))"
proof -
  let ?w = "p ! (n div 64) AND NOT (push_bit (n mod 64) 1)"
  have "bmp_clear n p = Some (p[n div 64 := ?w])"
    using assms by (simp add: bmp_clear_def in_bmp_def BITS_PER_LONG_def)
  moreover have "bmp_bit (p[n div 64 := ?w]) m = (m \<noteq> n \<and> bmp_bit p m)" if "in_bmp m p" for m
    using bmp_bit_upd [OF assms that, of ?w False] by (simp add: bit_simps)
  ultimately show ?thesis by simp
qed

lemma ctz_from_spec:
  assumes "n \<le> m" "m < 64" "bit w m"
  shows "bit w (ctz_from n w) \<and> n \<le> ctz_from n w \<and> ctz_from n w < 64
    \<and> (\<forall>i. n \<le> i \<and> i < ctz_from n w \<longrightarrow> \<not> bit w i)"
  using assms
proof (induction n w rule: ctz_from.induct)
  case (1 n w)
  show ?case
  proof (cases "bit w n")
    case True
    then show ?thesis using 1(2,3) by (auto simp: ctz_from.simps [of n])
  next
    case False
    then have "n \<noteq> m" using 1(4) by auto
    with False 1(2,3) have m: "n + 1 \<le> m" "n < 64 \<and> \<not> bit w n" by auto
    have "ctz_from n w = ctz_from (n + 1) w" using m by (simp add: ctz_from.simps [of n])
    moreover have "i = n \<or> n + 1 \<le> i" if "n \<le> i" for i using that by auto
    ultimately show ?thesis using 1(1) [OF m(2) m(1) 1(3,4)] False by (metis Suc_eq_plus1 Suc_leD)
  qed
qed

lemma ctzl_spec:
  assumes "w \<noteq> 0"
  shows "bit w (ctzl w)" and "ctzl w < 64" and "i < ctzl w \<Longrightarrow> \<not> bit w i"
proof -
  have "\<exists>m. bit w m"
  proof (rule ccontr)
    assume "\<not> ?thesis"
    then have "w = 0" by (intro bit_word_eqI) simp
    with assms show False ..
  qed
  then obtain m where "bit w m" ..
  moreover from this have "m < 64" using bit_imp_le_length [of w m] by simp
  ultimately have "bit w (ctz_from 0 w) \<and> ctz_from 0 w < 64 \<and> (\<forall>i < ctz_from 0 w. \<not> bit w i)"
    using ctz_from_spec [of 0 m w] by simp
  then show "bit w (ctzl w)" "ctzl w < 64" "i < ctzl w \<Longrightarrow> \<not> bit w i"
    using assms by (simp_all add: ctzl_def)
qed

text \<open>A position counts when its bit differs from that of \<open>invert\<close>.\<close>

definition hit :: "u64 list \<Rightarrow> u64 \<Rightarrow> nat \<Rightarrow> bool" where
  "hit p invert n \<longleftrightarrow> bit (p ! (n div 64) XOR invert) (n mod 64)"

definition first_from :: "(nat \<Rightarrow> bool) \<Rightarrow> nat \<Rightarrow> nat \<Rightarrow> nat \<Rightarrow> bool" where
  "first_from P start sz r \<longleftrightarrow> start \<le> r \<and> r \<le> sz \<and> (r < sz \<longrightarrow> P r) \<and> (\<forall>i. start \<le> i \<and> i < r \<longrightarrow> \<not> P i)"

lemma word_bits:
  fixes start i :: nat
  assumes "start mod 64 = 0" "i < 64"
  shows "(start + i) div 64 = start div 64" and "(start + i) mod 64 = i"
proof -
  from assms(1) obtain q where "start = 64 * q" by blast
  with assms(2) show "(start + i) div 64 = start div 64" "(start + i) mod 64 = i" by simp_all
qed

lemma find_loop_spec:
  assumes "start mod 64 = 0" and "lo < 64" and "start + lo \<le> sz" and "sz \<le> 64 * length p"
    and "\<And>i. i < 64 \<Longrightarrow> bit tmp i \<longleftrightarrow> lo \<le> i \<and> hit p invert (start + i)"
  shows "\<exists>r. find_loop p sz invert start tmp = Some r \<and> first_from (hit p invert) (start + lo) sz r"
  using assms
proof (induction p sz invert start tmp arbitrary: lo rule: find_loop.induct)
  case (1 p sz invert start tmp)
  show ?case
  proof (cases "tmp = 0")
    case False
    note c = ctzl_spec [OF False]
    have l: "lo \<le> ctzl tmp" "hit p invert (start + ctzl tmp)" using c(1,2) 1(6) by auto
    have "\<not> hit p invert i" if i: "start + lo \<le> i" "i < start + ctzl tmp" for i
    proof -
      have "i = start + (i - start)" "i - start < ctzl tmp" "lo \<le> i - start" using i by auto
      then show ?thesis using c(3) [of "i - start"] 1(6) [of "i - start"] c(2) by auto
    qed
    then have "first_from (hit p invert) (start + lo) sz (min (start + ctzl tmp) sz)"
      using l 1(4) by (auto simp: first_from_def min_def)
    moreover have "find_loop p sz invert start tmp = Some (min (start + ctzl tmp) sz)"
      using False by (subst find_loop.simps) simp
    ultimately show ?thesis by simp
  next
    case True
    have none: "\<not> hit p invert i" if "start + lo \<le> i" "i < start + 64" for i
    proof -
      have "i = start + (i - start)" "i - start < 64" "lo \<le> i - start" using that by auto
      then show ?thesis using True 1(6) [of "i - start"] by auto
    qed
    show ?thesis
    proof (cases "start + 64 \<ge> sz")
      case big: True
      then have "first_from (hit p invert) (start + lo) sz sz" using none 1(4) by (auto simp: first_from_def)
      moreover have "find_loop p sz invert start tmp = Some sz"
        using True big by (subst find_loop.simps) (simp add: BITS_PER_LONG_def)
      ultimately show ?thesis by simp
    next
      case False
      let ?w = "p ! (start div 64 + 1)"
      from 1(2) obtain q where "start = 64 * q" by blast
      then have in_p: "start div 64 + 1 < length p" using False 1(5) by simp
      then have e: "find_loop p sz invert start tmp = find_loop p sz invert (start + 64) (?w XOR invert)"
        using True False by (subst find_loop.simps) (simp add: BITS_PER_LONG_def div_add_self2)
      have "\<exists>r. find_loop p sz invert (start + BITS_PER_LONG) (?w XOR invert) = Some r
          \<and> first_from (hit p invert) (start + BITS_PER_LONG + 0) sz r"
      proof (rule 1(1))
        show "bit (?w XOR invert) i \<longleftrightarrow> 0 \<le> i \<and> hit p invert (start + BITS_PER_LONG + i)" if "i < 64" for i
          using word_bits [of "start + 64" i] that 1(2) by (simp add: hit_def BITS_PER_LONG_def div_add_self2)
      qed (use True False 1 in_p in \<open>auto simp: BITS_PER_LONG_def\<close>)
      then obtain r where r: "find_loop p sz invert (start + 64) (?w XOR invert) = Some r"
        "first_from (hit p invert) (start + 64) sz r" by (auto simp: BITS_PER_LONG_def)
      have "\<not> hit p invert i" if "start + lo \<le> i" "i < r" for i
        using that none [of i] r(2) by (cases "i < start + 64") (auto simp: first_from_def)
      with r(2) 1(3) have "first_from (hit p invert) (start + lo) sz r" by (simp add: first_from_def)
      with e r(1) show ?thesis by simp
    qed
  qed
qed

lemma find_next_spec:
  assumes "start \<le> sz" and "sz \<le> 64 * length p"
  shows "\<exists>r. find_next p sz start invert = Some r \<and> first_from (hit p invert) start sz r"
proof (cases "sz \<le> start")
  case True
  with assms show ?thesis by (auto simp: find_next_def first_from_def)
next
  case False
  let ?s = "start div 64 * 64" and ?lo = "start mod 64"
  let ?t = "(p ! (start div 64) XOR invert) AND NOT (push_bit ?lo 1 - 1)"
  have in_p: "start div 64 < length p"
    using False assms(2) by (intro less_mult_imp_div_less) simp
  have b: "bit ?t i \<longleftrightarrow> ?lo \<le> i \<and> hit p invert (?s + i)" if i: "i < 64" for i
  proof -
    have "push_bit ?lo 1 - 1 = (mask ?lo :: u64)" by (simp add: mask_eq_exp_minus_1)
    then show ?thesis using word_bits [of ?s i] i by (auto simp: hit_def bit_simps)
  qed
  have "\<exists>r. find_loop p sz invert ?s ?t = Some r \<and> first_from (hit p invert) (?s + ?lo) sz r"
    by (rule find_loop_spec) (use assms b in auto)
  then show ?thesis using False in_p by (simp add: find_next_def BITS_PER_LONG_def)
qed

lemma hit_zero: "hit p (- 1) = (\<lambda>n. \<not> bmp_bit p n)"
  by (simp add: fun_eq_iff hit_def bmp_bit_def bit_simps)

lemma hit_one: "hit p 0 = bmp_bit p"
  by (simp add: fun_eq_iff hit_def bmp_bit_def bit_simps)

lemma find_next_zero_bit_ok:
  assumes "start \<le> sz" and "sz \<le> 64 * length p"
  shows "\<exists>r. find_next_zero_bit p sz start = Some r \<and> first_from (\<lambda>n. \<not> bmp_bit p n) start sz r"
  using find_next_spec [OF assms, of "NOT 0"] by (simp add: find_next_zero_bit_def hit_zero)

section \<open>Properties\<close>



end
