(* ===== verification/Buddy.thy ===== *)
theory Buddy
  imports Linked_List Ticket_Lock
begin

text \<open>
  The buddy page allocator of \<^verbatim>\<open>kernel/mm/buddy.c\<close>.  A \<^verbatim>\<open>struct page\<close> is named by its index in
  the metadata array \<^verbatim>\<open>zone->first_page\<close>; \<open>meta\<close> is the memory of that array, and an index
  from \<open>page_num\<close> on is memory that follows it, which the code may read but must not write.
  The free lists are intrusive lists in a list heap: the head of the list of order \<open>k\<close> is
  the address \<open>k\<close>, the \<^verbatim>\<open>list_node\<close> of page \<open>i\<close> is the address \<open>BUDDY_MAX_ORDER + i\<close>.

  The invariant says that the free blocks and the blocks in use tile the zone, and that two
  free buddies never stay unmerged.
\<close>

section \<open>Model\<close>

definition BUDDY_MAX_ORDER :: nat where "BUDDY_MAX_ORDER = 14"
definition BUDDY_PAGE_SHIFT :: nat where "BUDDY_PAGE_SHIFT = 12"
definition BUDDY_PAGE_SIZE :: u64 where "BUDDY_PAGE_SIZE = push_bit BUDDY_PAGE_SHIFT 1"

definition PG_head :: nat where "PG_head = 0"
definition PG_buddy :: nat where "PG_buddy = 1"

record page =
  flags :: u64
  order :: nat
  slab :: u64

record global_mem =
  page_num :: nat
  page_size :: u64
  start_addr :: u64
  end_addr :: u64
  nr_free :: "nat \<Rightarrow> u64"
  meta :: "nat \<Rightarrow> page"
  lists :: list_heap
  buddy_lock :: lock_impl

definition list_head :: "nat \<Rightarrow> addr" where "list_head k = k"
definition list_node :: "nat \<Rightarrow> addr" where "list_node i = BUDDY_MAX_ORDER + i"

definition set_page_order_buddy :: "nat \<Rightarrow> nat \<Rightarrow> global_mem \<Rightarrow> global_mem" where
  "set_page_order_buddy i k z = z\<lparr>meta := (meta z)(i := (meta z i)\<lparr>order := k,
     flags := flags (meta z i) OR push_bit PG_buddy 1\<rparr>)\<rparr>"

definition clear_page_order_buddy :: "nat \<Rightarrow> global_mem \<Rightarrow> global_mem" where
  "clear_page_order_buddy i z = z\<lparr>meta := (meta z)(i := (meta z i)\<lparr>order := 0,
     flags := flags (meta z i) AND NOT (push_bit PG_buddy 1)\<rparr>)\<rparr>"

definition get_order :: "global_mem \<Rightarrow> nat \<Rightarrow> nat" where
  "get_order z i = order (meta z i)"

definition get_buddy_page :: "nat \<Rightarrow> nat \<Rightarrow> nat" where
  "get_buddy_page i k = i XOR push_bit k 1"

definition get_merge_page :: "nat \<Rightarrow> nat \<Rightarrow> nat" where
  "get_merge_page i k = unset_bit k i"

definition check_buddy :: "global_mem \<Rightarrow> nat \<Rightarrow> nat \<Rightarrow> bool" where
  "check_buddy z i k \<longleftrightarrow> flags (meta z i) AND push_bit PG_buddy 1 \<noteq> 0 \<and> order (meta z i) = k"

text \<open>\<^verbatim>\<open>list_add(&page->list_node, &list->list_head); list->nr_free++\<close> and its inverse.\<close>

definition put_free :: "nat \<Rightarrow> nat \<Rightarrow> global_mem \<Rightarrow> global_mem" where
  "put_free i k z = z\<lparr>lists := list_add (list_node i) (list_head k) (lists z),
     nr_free := (nr_free z)(k := nr_free z k + 1)\<rparr>"

definition take_free :: "nat \<Rightarrow> nat \<Rightarrow> global_mem \<Rightarrow> global_mem" where
  "take_free i k z = z\<lparr>lists := list_del (list_node i) (lists z),
     nr_free := (nr_free z)(k := nr_free z k - 1)\<rparr>"

function split :: "nat \<Rightarrow> nat \<Rightarrow> nat \<Rightarrow> nat \<Rightarrow> global_mem \<Rightarrow> global_mem" where
  "split page low_order high_order sz z =
     (if high_order > low_order then
        let high = high_order - 1; half = sz div 2
        in split page low_order high half
             (set_page_order_buddy (page + half) high (put_free (page + half) high z))
      else z)"
  by auto

termination by (relation "measure (\<lambda>(_, _, high, _, _). high)") auto

declare split.simps [simp del]

definition take_page :: "nat \<Rightarrow> nat \<Rightarrow> global_mem \<Rightarrow> nat \<times> global_mem" where
  "take_page k current z =
     (let page = lnext (lists z) (list_head current) - BUDDY_MAX_ORDER;
          z1 = clear_page_order_buddy page (take_free page current z);
          z2 = split page k current (2 ^ current) z1
      in (page, z2\<lparr>meta := (meta z2)(page := (meta z2 page)\<lparr>order := k,
            flags := flags (meta z2 page) OR push_bit PG_head 1\<rparr>)\<rparr>))"

function alloc_from :: "nat \<Rightarrow> nat \<Rightarrow> global_mem \<Rightarrow> nat option \<times> global_mem" where
  "alloc_from k current z =
     (if current < BUDDY_MAX_ORDER then
        if list_empty (list_head current) (lists z) then alloc_from k (current + 1) z
        else let (page, z') = take_page k current z in (Some page, z')
      else (None, z))"
  by auto

termination by (relation "measure (\<lambda>(_, current, _). BUDDY_MAX_ORDER - current)") auto

declare alloc_from.simps [simp del]

definition alloc_page :: "nat \<Rightarrow> global_mem \<Rightarrow> nat option \<times> global_mem" where
  "alloc_page k z = alloc_from k k z"

definition buddy_get_pages :: "nat \<Rightarrow> global_mem \<Rightarrow> (nat option \<times> global_mem) option" where
  "buddy_get_pages k z =
     (if k \<ge> BUDDY_MAX_ORDER then None
      else do {
        l \<leftarrow> lock (buddy_lock z);
        let (page, z') = alloc_page k (z\<lparr>buddy_lock := l\<rparr>);
        Some (page, z'\<lparr>buddy_lock := unlock (buddy_lock z')\<rparr>)
      })"

text \<open>
  The merge loop of \<^verbatim>\<open>buddy_free_pages\<close>.  A buddy that lies behind the metadata array and
  looks like a free one makes the code unlink a node that is on no list.  A page outside
  the zone, or one whose order is not below \<open>BUDDY_MAX_ORDER\<close>, makes it write outside its
  arrays.
\<close>

function merge :: "nat \<Rightarrow> nat \<Rightarrow> global_mem \<Rightarrow> (nat \<times> nat \<times> global_mem) option" where
  "merge page k z =
     (if k < BUDDY_MAX_ORDER - 1 then
        let buddy = get_buddy_page page k
        in if \<not> check_buddy z buddy k then Some (page, k, z)
           else if buddy \<ge> page_num z then None
           else merge (get_merge_page page k) (k + 1)
                  (clear_page_order_buddy buddy (take_free buddy k z))
      else Some (page, k, z))"
  by auto

termination by (relation "measure (\<lambda>(_, k, _). BUDDY_MAX_ORDER - k)") auto

declare merge.simps [simp del]

definition buddy_free_pages :: "nat \<Rightarrow> global_mem \<Rightarrow> global_mem option" where
  "buddy_free_pages page z = (if page \<ge> page_num z then None else do {
     let k = get_order z page;
     l \<leftarrow> lock (buddy_lock z);
     let z1 = z\<lparr>buddy_lock := l, meta := (meta z)(page := (meta z page)\<lparr>
                flags := flags (meta z page) AND NOT (push_bit PG_head 1)\<rparr>)\<rparr>;
     (p, k', z2) \<leftarrow> merge page k z1;
     if k' \<ge> BUDDY_MAX_ORDER then None
     else let z3 = put_free p k' (set_page_order_buddy p k' z2)
       in Some (z3\<lparr>buddy_lock := unlock (buddy_lock z3)\<rparr>)
   })"

fun init_pages :: "nat list \<Rightarrow> global_mem \<Rightarrow> global_mem option" where
  "init_pages [] z = Some z"
| "init_pages (i # is) z = do {
     z' \<leftarrow> buddy_free_pages i (z\<lparr>lists := init_list_head (list_node i) (lists z)\<rparr>);
     init_pages is z'
   }"

definition init_buddy :: "u64 \<Rightarrow> nat \<Rightarrow> global_mem \<Rightarrow> global_mem option" where
  "init_buddy first_page_vaddr n z =
     (let z1 = z\<lparr>buddy_lock := lock_init, page_num := n, page_size := BUDDY_PAGE_SIZE,
                 start_addr := first_page_vaddr,
                 end_addr := first_page_vaddr + of_nat n * BUDDY_PAGE_SIZE\<rparr>;
          z2 = z1\<lparr>lists := fold (\<lambda>k. init_list_head (list_head k)) [0..<BUDDY_MAX_ORDER] (lists z1),
                  nr_free := (\<lambda>k. if k < BUDDY_MAX_ORDER then 0 else nr_free z1 k)\<rparr>;
          z3 = z2\<lparr>meta := (\<lambda>i. if i < n then \<lparr>flags = 0, order = 0, slab = 0\<rparr> else meta z2 i)\<rparr>
      in init_pages [0..<n] z3)"

definition page_to_virt :: "global_mem \<Rightarrow> nat option \<Rightarrow> u64" where
  "page_to_virt z page = (case page of None \<Rightarrow> 0
     | Some i \<Rightarrow> start_addr z + of_nat i * BUDDY_PAGE_SIZE)"

definition virt_to_page :: "global_mem \<Rightarrow> u64 \<Rightarrow> nat option" where
  "virt_to_page z address =
     (if address < start_addr z \<or> address > end_addr z then None
      else Some (unat (drop_bit BUDDY_PAGE_SHIFT (address - start_addr z))))"

section \<open>Geometry of blocks\<close>

lemma xor_mult: "(2 ^ k * m) XOR push_bit k 1 = 2 ^ k * (m XOR 1)" for m :: nat
  by (metis push_bit_eq_mult push_bit_xor mult.commute)

lemma unset_mult: "unset_bit k (2 ^ k * m) = 2 ^ k * (2 * (m div 2))" for m :: nat
proof -
  have "unset_bit k (push_bit k m) = push_bit k (unset_bit 0 m)"
    unfolding unset_bit_nat_def push_bit_or push_bit_xor push_bit_push_bit by simp
  then show ?thesis by (simp add: unset_bit_0 push_bit_eq_mult mult.commute)
qed

lemma buddy_cases [consumes 1, case_names left right]:
  assumes "2 ^ k dvd i"
  obtains "get_buddy_page i k = i + 2 ^ k" "get_merge_page i k = i" "2 ^ Suc k dvd i"
  | "get_buddy_page i k = i - 2 ^ k" "get_merge_page i k = i - 2 ^ k" "2 ^ Suc k dvd i - 2 ^ k" "2 ^ k \<le> i"
proof -
  from assms obtain m where i: "i = 2 ^ k * m" by blast
  have b: "get_buddy_page i k = 2 ^ k * (m XOR 1)" "get_merge_page i k = 2 ^ k * (2 * (m div 2))"
    by (simp_all only: i get_buddy_page_def get_merge_page_def xor_mult unset_mult)
  show ?thesis
  proof (cases "even m")
    case True
    then have "m XOR 1 = m + 1" by (simp only: xor_one_eq) simp
    with True have "2 ^ k * (2 * (m div 2)) = i" "2 ^ k * (m XOR 1) = i + 2 ^ k"
      by (simp_all add: i)
    with b that(1) True show ?thesis by (simp add: i)
  next
    case False
    then obtain n where n: "m = 2 * n + 1" using oddE by blast
    then have "m XOR 1 = 2 * n" by (simp only: xor_one_eq) simp
    with n have "2 ^ k * (2 * (m div 2)) = i - 2 ^ k" "2 ^ k * (m XOR 1) = i - 2 ^ k"
      by (simp_all add: i)
    with b that(2) n show ?thesis by (simp add: i)
  qed
qed

lemma buddy_left:
  assumes "2 ^ Suc k dvd i"
  shows "get_buddy_page i k = i + 2 ^ k"
proof -
  have "2 ^ k dvd i" using assms by (rule dvd_trans [rotated]) simp
  then show ?thesis
  proof (cases rule: buddy_cases)
    case right
    then have "2 ^ Suc k dvd i - (i - 2 ^ k)" using assms dvd_diff_nat by blast
    with right(4) have "(2 :: nat) ^ Suc k dvd 2 ^ k" by simp
    then have "(2 :: nat) ^ Suc k \<le> 2 ^ k" by (rule dvd_imp_le) simp
    then show ?thesis by simp
  qed
qed

definition blk :: "nat \<times> nat \<Rightarrow> nat set" where
  "blk b = {fst b..<fst b + 2 ^ snd b}"

definition fits :: "nat \<Rightarrow> nat \<times> nat \<Rightarrow> bool" where
  "fits N b \<longleftrightarrow> snd b < BUDDY_MAX_ORDER \<and> 2 ^ snd b dvd fst b \<and> fst b + 2 ^ snd b \<le> N"

text \<open>\<open>B\<close> is a set of aligned blocks that partitions the first \<open>N\<close> pages.\<close>

definition tiles :: "nat \<Rightarrow> (nat \<times> nat) set \<Rightarrow> bool" where
  "tiles N B \<longleftrightarrow> (\<forall>b \<in> B. fits N b) \<and> (\<forall>b \<in> B. \<forall>c \<in> B. b \<noteq> c \<longrightarrow> blk b \<inter> blk c = {})
     \<and> \<Union> (blk ` B) = {..<N}"

lemma blk_nonempty [simp]: "i \<in> blk (i, k)"
  by (simp add: blk_def)

lemma blk_Suc: "blk (i, Suc k) = blk (i, k) \<union> blk (i + 2 ^ k, k)"
  by (auto simp: blk_def)

lemma blk_halves: "blk (i, k) \<inter> blk (i + 2 ^ k, k) = {}"
  by (auto simp: blk_def)

lemma tiles_fits: "tiles N B \<Longrightarrow> b \<in> B \<Longrightarrow> fits N b"
  by (simp add: tiles_def)

lemma tiles_disjoint: "tiles N B \<Longrightarrow> b \<in> B \<Longrightarrow> c \<in> B \<Longrightarrow> b \<noteq> c \<Longrightarrow> blk b \<inter> blk c = {}"
  unfolding tiles_def by blast

lemma tiles_start:
  "tiles N B \<Longrightarrow> (i, k) \<in> B \<Longrightarrow> (i, k') \<in> B \<Longrightarrow> k = k'"
  using tiles_disjoint [of N B "(i, k)" "(i, k')"] blk_nonempty [of i] by blast

lemma tiles_replace:
  assumes T: "tiles N (C \<union> B)" and "C \<inter> B = {}" and f: "\<forall>d \<in> D. fits N d"
    and d: "\<forall>b \<in> D. \<forall>c \<in> D. b \<noteq> c \<longrightarrow> blk b \<inter> blk c = {}"
    and u: "\<Union> (blk ` D) = \<Union> (blk ` C)"
  shows "tiles N (D \<union> B)"
proof -
  have CB: "\<Union> (blk ` C) \<inter> blk b = {}" if "b \<in> B" for b
    using that assms(2) tiles_disjoint [OF T] by blast
  have x: "blk d \<inter> blk b = {}" if "d \<in> D" "b \<in> B" for d b
    using CB [OF that(2)] that(1) u by blast
  have "blk b \<inter> blk c = {}" if m: "b \<in> D \<union> B" "c \<in> D \<union> B" "b \<noteq> c" for b c
  proof -
    consider "b \<in> D" "c \<in> D" | "b \<in> D" "c \<in> B" | "b \<in> B" "c \<in> D" | "b \<in> B" "c \<in> B"
      using m by blast
    then show ?thesis
      using d x [of b c] x [of c b] tiles_disjoint [OF T, of b c] m(3)
      by cases (simp_all add: Int_commute)
  qed
  moreover have "\<Union> (blk ` (D \<union> B)) = {..<N}" using T u by (simp add: tiles_def image_Un)
  moreover have "\<forall>b \<in> D \<union> B. fits N b" using f tiles_fits [OF T] by blast
  ultimately show ?thesis unfolding tiles_def by blast
qed

lemma tiles_split:
  assumes "tiles N (insert (i, Suc k) B)" and "(i, Suc k) \<notin> B"
  shows "tiles N (insert (i, k) (insert (i + 2 ^ k, k) B))"
proof -
  have f: "fits N (i, Suc k)" using tiles_fits [OF assms(1)] by simp
  then have "2 ^ k dvd i" by (auto simp: fits_def elim: dvd_mult_right)
  with f have "\<forall>d \<in> {(i, k), (i + 2 ^ k, k)}. fits N d" by (auto simp: fits_def)
  then have "tiles N ({(i, k), (i + 2 ^ k, k)} \<union> B)"
    using assms blk_halves [of i k]
    by - (rule tiles_replace [of N "{(i, Suc k)}" B], auto simp: blk_Suc)
  then show ?thesis by simp
qed

lemma buddy_merge_blk:
  assumes "2 ^ k dvd i"
  shows "2 ^ Suc k dvd get_merge_page i k" and "2 ^ k dvd get_buddy_page i k"
    and "blk (get_merge_page i k, Suc k) = blk (i, k) \<union> blk (get_buddy_page i k, k)"
proof -
  have "2 ^ Suc k dvd get_merge_page i k \<and> 2 ^ k dvd get_buddy_page i k
    \<and> blk (get_merge_page i k, Suc k) = blk (i, k) \<union> blk (get_buddy_page i k, k)"
    using assms
  proof (cases rule: buddy_cases)
    case left
    with assms show ?thesis by (simp add: blk_Suc)
  next
    case right
    have "i - 2 ^ k + 2 ^ k = i" using right(4) by simp
    moreover have "2 ^ k dvd i - 2 ^ k" using assms by (simp add: dvd_diff_nat)
    ultimately show ?thesis using right by (simp only: blk_Suc Un_commute simp_thms)
  qed
  then show "2 ^ Suc k dvd get_merge_page i k" "2 ^ k dvd get_buddy_page i k"
    "blk (get_merge_page i k, Suc k) = blk (i, k) \<union> blk (get_buddy_page i k, k)" by auto
qed

lemma tiles_merge:
  assumes T: "tiles N (insert (i, k) (insert (get_buddy_page i k, k) B))"
    and n: "(i, k) \<notin> B" "(get_buddy_page i k, k) \<notin> B" and k: "Suc k < BUDDY_MAX_ORDER"
  shows "tiles N (insert (get_merge_page i k, Suc k) B)"
proof -
  have f: "fits N (i, k)" "fits N (get_buddy_page i k, k)" using tiles_fits [OF T] by auto
  then have a: "2 ^ k dvd i" by (simp add: fits_def)
  note b = buddy_merge_blk [OF a]
  from a have "get_merge_page i k + 2 ^ Suc k \<le> N"
    by (cases rule: buddy_cases) (use f in \<open>auto simp: fits_def\<close>)
  with b k have "fits N (get_merge_page i k, Suc k)
      \<and> blk (get_merge_page i k, Suc k) = blk (i, k) \<union> blk (get_buddy_page i k, k)"
    by (simp add: fits_def)
  then have "tiles N ({(get_merge_page i k, Suc k)} \<union> B)"
    using T n by - (rule tiles_replace [of N "{(i, k), (get_buddy_page i k, k)}" B], auto)
  then show ?thesis by simp
qed

section \<open>The invariant of the zone\<close>

definition free_blocks :: "(nat \<Rightarrow> nat list) \<Rightarrow> (nat \<times> nat) set" where
  "free_blocks F = {(i, k). k < BUDDY_MAX_ORDER \<and> i \<in> set (F k)}"

text \<open>\<open>F k\<close> is the free list of order \<open>k\<close> and \<open>U\<close> the set of the blocks that are in use.\<close>

definition zone_inv :: "global_mem \<Rightarrow> (nat \<Rightarrow> nat list) \<Rightarrow> (nat \<times> nat) set \<Rightarrow> bool" where
  "zone_inv z F U \<longleftrightarrow>
     tiles (page_num z) (free_blocks F \<union> U) \<and> free_blocks F \<inter> U = {}
     \<and> dl.family list_head {..<BUDDY_MAX_ORDER} (lists z) (\<lambda>k. map list_node (F k))
     \<and> (\<forall>k < BUDDY_MAX_ORDER. nr_free z k = of_nat (length (F k)))
     \<and> (\<forall>i < page_num z. \<forall>k. check_buddy z i k \<longleftrightarrow> k < BUDDY_MAX_ORDER \<and> i \<in> set (F k))
     \<and> (\<forall>k < BUDDY_MAX_ORDER - 1. \<forall>i \<in> set (F k). get_buddy_page i k \<notin> set (F k))"

definition keeps :: "(nat \<times> nat) set \<Rightarrow> global_mem \<Rightarrow> global_mem \<Rightarrow> bool" where
  "keeps A z z' \<longleftrightarrow> page_num z' = page_num z \<and> page_size z' = page_size z
     \<and> start_addr z' = start_addr z \<and> end_addr z' = end_addr z \<and> buddy_lock z' = buddy_lock z
     \<and> (\<forall>j. page_num z \<le> j \<or> j \<in> fst ` A \<longrightarrow> meta z' j = meta z j)"

lemma keeps_refl [simp]: "keeps A z z"
  by (simp add: keeps_def)

lemma keeps_trans: "keeps A z z' \<Longrightarrow> keeps A z' z'' \<Longrightarrow> keeps A z z''"
  by (auto simp: keeps_def)

lemma flag_set: "(w OR push_bit n 1) AND push_bit n 1 \<noteq> (0 :: u64) \<longleftrightarrow> n < 64"
  by (auto simp: bit_eq_iff [where ?'a = "64 word"] bit_simps)

lemma flag_clear: "(w AND NOT (push_bit n 1)) AND push_bit n 1 = (0 :: u64)"
  by (auto simp: bit_eq_iff [where ?'a = "64 word"] bit_simps)

lemma flag_other:
  "m \<noteq> n \<Longrightarrow> (w OR push_bit m 1) AND push_bit n 1 = (w :: u64) AND push_bit n 1"
  "m \<noteq> n \<Longrightarrow> (w AND NOT (push_bit m 1)) AND push_bit n 1 = (w :: u64) AND push_bit n 1"
  by (auto simp: bit_eq_iff [where ?'a = "64 word"] bit_simps)

lemma head_flag_buddy:
  "(w OR push_bit PG_head 1) AND push_bit PG_buddy 1 = (w :: u64) AND push_bit PG_buddy 1"
  "(w AND NOT (push_bit PG_head 1)) AND push_bit PG_buddy 1 = (w :: u64) AND push_bit PG_buddy 1"
  by (rule flag_other, simp add: PG_head_def PG_buddy_def)+

lemma check_buddy_set [simp]:
  "check_buddy (set_page_order_buddy i k z) j k' = (if j = i then k' = k else check_buddy z j k')"
  using flag_set [of "flags (meta z i)" PG_buddy]
  by (auto simp: check_buddy_def set_page_order_buddy_def PG_buddy_def)

lemma check_buddy_clear [simp]:
  "check_buddy (clear_page_order_buddy i z) j k' \<longleftrightarrow> j \<noteq> i \<and> check_buddy z j k'"
  using flag_clear [of "flags (meta z i)" PG_buddy]
  by (auto simp: check_buddy_def clear_page_order_buddy_def)

lemma check_buddy_lists [simp]:
  "check_buddy (put_free i k z) = check_buddy z" "check_buddy (take_free i k z) = check_buddy z"
  by (simp_all add: fun_eq_iff check_buddy_def put_free_def take_free_def)

lemma zone_fields [simp]:
  "page_num (put_free i k z) = page_num z" "page_num (take_free i k z) = page_num z"
  "page_num (set_page_order_buddy i k z) = page_num z"
  "page_num (clear_page_order_buddy i z) = page_num z"
  "lists (set_page_order_buddy i k z) = lists z" "lists (clear_page_order_buddy i z) = lists z"
  "nr_free (set_page_order_buddy i k z) = nr_free z" "nr_free (clear_page_order_buddy i z) = nr_free z"
  "meta (put_free i k z) = meta z" "meta (take_free i k z) = meta z"
  by (simp_all add: put_free_def take_free_def set_page_order_buddy_def clear_page_order_buddy_def)

lemma keeps_put:
  "i < page_num z \<Longrightarrow> i \<notin> fst ` A \<Longrightarrow> keeps A z (set_page_order_buddy i k (put_free i k z))"
  "i < page_num z \<Longrightarrow> i \<notin> fst ` A \<Longrightarrow> keeps A z (put_free i k (set_page_order_buddy i k z))"
  by (auto simp: keeps_def put_free_def set_page_order_buddy_def)

lemma keeps_take:
  "i < page_num z \<Longrightarrow> i \<notin> fst ` A \<Longrightarrow> keeps A z (clear_page_order_buddy i (take_free i k z))"
  by (auto simp: keeps_def take_free_def clear_page_order_buddy_def)

lemma put_set_commute: "put_free i k (set_page_order_buddy i k z) = set_page_order_buddy i k (put_free i k z)"
  by (simp add: put_free_def set_page_order_buddy_def)

lemma buddy_involution [simp]: "get_buddy_page (get_buddy_page i k) k = i"
  by (simp add: get_buddy_page_def xor.assoc)

lemma buddy_neq [simp]: "get_buddy_page i k \<noteq> i"
proof
  assume "get_buddy_page i k = i"
  then have "bit (get_buddy_page i k) k = bit i k" by simp
  then show False by (simp add: get_buddy_page_def bit_simps)
qed

lemma list_node_eq [simp]: "list_node i = list_node j \<longleftrightarrow> i = j"
  by (simp add: list_node_def)

lemma inj_list_node [simp]: "inj_on list_node X"
  by (simp add: inj_on_def)

lemma map_list_node_remove1:
  "map list_node (remove1 i xs) = remove1 (list_node i) (map list_node xs)"
  by (induction xs) auto

lemma free_blocks_put:
  "k < BUDDY_MAX_ORDER \<Longrightarrow> free_blocks (F(k := i # F k)) = insert (i, k) (free_blocks F)"
  by (auto simp: free_blocks_def)

lemma free_blocks_take:
  "k < BUDDY_MAX_ORDER \<Longrightarrow> distinct (F k) \<Longrightarrow>
   free_blocks (F(k := remove1 i (F k))) = free_blocks F - {(i, k)}"
  by (auto simp: free_blocks_def)

lemma zone_invI:
  assumes "tiles (page_num z) (free_blocks F \<union> U)" and "free_blocks F \<inter> U = {}"
    and "dl.family list_head {..<BUDDY_MAX_ORDER} (lists z) (\<lambda>k. map list_node (F k))"
    and "\<And>k. k < BUDDY_MAX_ORDER \<Longrightarrow> nr_free z k = of_nat (length (F k))"
    and "\<And>i k. i < page_num z \<Longrightarrow> check_buddy z i k \<longleftrightarrow> k < BUDDY_MAX_ORDER \<and> i \<in> set (F k)"
    and "\<And>i k. k < BUDDY_MAX_ORDER - 1 \<Longrightarrow> i \<in> set (F k) \<Longrightarrow> get_buddy_page i k \<notin> set (F k)"
  shows "zone_inv z F U"
  unfolding zone_inv_def using assms by blast

lemma zone_inv_family:
  "zone_inv z F U \<Longrightarrow> dl.family list_head {..<BUDDY_MAX_ORDER} (lists z) (\<lambda>k. map list_node (F k))"
  by (simp add: zone_inv_def)

lemma zone_inv_distinct: "zone_inv z F U \<Longrightarrow> k < BUDDY_MAX_ORDER \<Longrightarrow> distinct (F k)"
  using dl.family_distinct [OF zone_inv_family, of z F U k] by (simp add: distinct_map)

lemma zone_inv_retile:
  "zone_inv z F U \<Longrightarrow> tiles (page_num z) (free_blocks F \<union> U') \<Longrightarrow> free_blocks F \<inter> U' = {} \<Longrightarrow>
   zone_inv z F U'"
  by (simp add: zone_inv_def)

lemma zone_inv_cong:
  "zone_inv z F U \<Longrightarrow> page_num z' = page_num z \<Longrightarrow> lists z' = lists z \<Longrightarrow> nr_free z' = nr_free z \<Longrightarrow>
   (\<And>i k. i < page_num z \<Longrightarrow> check_buddy z' i k = check_buddy z i k) \<Longrightarrow> zone_inv z' F U"
  by (simp add: zone_inv_def)

lemma zone_inv_tiles: "zone_inv z F U \<Longrightarrow> tiles (page_num z) (free_blocks F \<union> U)"
  by (simp add: zone_inv_def)

lemma zone_inv_check:
  "zone_inv z F U \<Longrightarrow> i < page_num z \<Longrightarrow> check_buddy z i k \<longleftrightarrow> k < BUDDY_MAX_ORDER \<and> i \<in> set (F k)"
  by (simp add: zone_inv_def)

lemma fits_less: "fits N (i, k) \<Longrightarrow> i < N"
proof -
  assume "fits N (i, k)"
  then have "i + 2 ^ k \<le> N" by (simp add: fits_def)
  moreover have "0 < (2 :: nat) ^ k" by simp
  ultimately show "i < N" by linarith
qed

text \<open>The first page of a block in use is on no free list.\<close>

lemma used_not_free:
  assumes "zone_inv z F U" and "(i, k) \<in> U" and "k' < BUDDY_MAX_ORDER"
  shows "i \<notin> set (F k')"
proof
  assume "i \<in> set (F k')"
  with assms(3) have f: "(i, k') \<in> free_blocks F" by (simp add: free_blocks_def)
  then have "k = k'" using tiles_start [OF zone_inv_tiles [OF assms(1)], of i k k'] assms(2) by simp
  with f assms show False by (auto simp: zone_inv_def)
qed

lemma used_fresh:
  assumes "zone_inv z F U" and "(i, k) \<in> U"
  shows "dl.fresh list_head {..<BUDDY_MAX_ORDER} (\<lambda>k. map list_node (F k)) (list_node i)"
  using used_not_free [OF assms]
  by (auto simp: dl.fresh_def list_head_def) (simp add: list_node_def)

section \<open>The operations keep the invariant\<close>

lemma zone_inv_put:
  assumes Z: "zone_inv z F (insert (i, k) U)" and new: "(i, k) \<notin> U" and k: "k < BUDDY_MAX_ORDER"
    and b: "k < BUDDY_MAX_ORDER - 1 \<Longrightarrow> get_buddy_page i k \<notin> set (F k)"
  shows "zone_inv (set_page_order_buddy i k (put_free i k z)) (F(k := i # F k)) U"
proof -
  have nf: "i \<notin> set (F k')" if "k' < BUDDY_MAX_ORDER" for k'
    using used_not_free [OF Z, of i k k'] that by simp
  let ?F = "F(k := i # F k)" and ?z = "set_page_order_buddy i k (put_free i k z)"
  have fam: "dl.family list_head {..<BUDDY_MAX_ORDER} (list_add (list_node i) (list_head k) (lists z))
      ((\<lambda>k. map list_node (F k))(k := list_node i # map list_node (F k)))"
    using zone_inv_family [OF Z] k used_fresh [OF Z, of i k] by (intro dl.family_add) auto
  have e: "(\<lambda>k. map list_node (F k))(k := list_node i # map list_node (F k))
      = (\<lambda>j. map list_node (?F j))" by (simp add: fun_eq_iff)
  show ?thesis
  proof (rule zone_invI)
    show "tiles (page_num ?z) (free_blocks ?F \<union> U)" "free_blocks ?F \<inter> U = {}"
      using Z new by (auto simp: zone_inv_def free_blocks_put [OF k])
    show "dl.family list_head {..<BUDDY_MAX_ORDER} (lists ?z) (\<lambda>k. map list_node (?F k))"
      using fam unfolding e by (simp add: put_free_def)
    show "nr_free ?z j = of_nat (length (?F j))" if "j < BUDDY_MAX_ORDER" for j
      using that Z by (simp add: zone_inv_def put_free_def)
    show "check_buddy ?z j k' \<longleftrightarrow> k' < BUDDY_MAX_ORDER \<and> j \<in> set (?F k')"
      if "j < page_num ?z" for j k'
      using that zone_inv_check [OF Z, of j k'] nf [of k'] k by (cases "j = i") auto
    show "get_buddy_page j k' \<notin> set (?F k')" if "k' < BUDDY_MAX_ORDER - 1" "j \<in> set (?F k')" for j k'
      using that Z b by (auto simp: zone_inv_def split: if_splits)
  qed
qed

lemma zone_inv_take:
  assumes Z: "zone_inv z F U" and k: "k < BUDDY_MAX_ORDER" and i: "i \<in> set (F k)"
  shows "zone_inv (clear_page_order_buddy i (take_free i k z)) (F(k := remove1 i (F k)))
    (insert (i, k) U)"
proof -
  let ?F = "F(k := remove1 i (F k))"
  note d = zone_inv_distinct [OF Z]
  have ik: "(i, k) \<in> free_blocks F" using k i by (simp add: free_blocks_def)
  have nf: "i \<notin> set (F k')" if "k' < BUDDY_MAX_ORDER" "k' \<noteq> k" for k'
    using tiles_start [OF zone_inv_tiles [OF Z], of i k k'] ik that
    by (auto simp: free_blocks_def)
  let ?z = "clear_page_order_buddy i (take_free i k z)"
  have fam: "dl.family list_head {..<BUDDY_MAX_ORDER} (list_del (list_node i) (lists z))
      ((\<lambda>k. map list_node (F k))(k := remove1 (list_node i) (map list_node (F k))))"
    using zone_inv_family [OF Z] k i by (intro dl.family_del) auto
  have e: "(\<lambda>k. map list_node (F k))(k := remove1 (list_node i) (map list_node (F k)))
      = (\<lambda>j. map list_node (?F j))" by (simp add: fun_eq_iff map_list_node_remove1)
  have l: "length (F k) = Suc (length (remove1 i (F k)))"
    using i by (simp add: length_remove1) (metis Suc_pred length_pos_if_in_set)
  have fb: "free_blocks ?F = free_blocks F - {(i, k)}"
    by (rule free_blocks_take) (simp_all add: k d)
  show ?thesis
  proof (rule zone_invI)
    show "tiles (page_num ?z) (free_blocks ?F \<union> insert (i, k) U)"
    proof -
      have "free_blocks F - {(i, k)} \<union> insert (i, k) U = free_blocks F \<union> U" using ik by blast
      with zone_inv_tiles [OF Z] show ?thesis by (simp only: fb zone_fields)
    qed
    show "free_blocks ?F \<inter> insert (i, k) U = {}"
      using Z by (auto simp: fb zone_inv_def)
    show "dl.family list_head {..<BUDDY_MAX_ORDER} (lists ?z) (\<lambda>k. map list_node (?F k))"
      using fam unfolding e by (simp add: take_free_def)
    show "nr_free ?z j = of_nat (length (?F j))" if "j < BUDDY_MAX_ORDER" for j
      using that Z l by (simp add: zone_inv_def take_free_def)
    show "check_buddy ?z j k' \<longleftrightarrow> k' < BUDDY_MAX_ORDER \<and> j \<in> set (?F k')"
      if "j < page_num ?z" for j k'
      using that zone_inv_check [OF Z, of j k'] nf [of k'] d [OF k] by (cases "j = i") auto
    show "get_buddy_page j k' \<notin> set (?F k')" if "k' < BUDDY_MAX_ORDER - 1" "j \<in> set (?F k')" for j k'
      using that Z d [OF k] by (auto simp: zone_inv_def split: if_splits)
  qed
qed

lemma zone_inv_halve:
  assumes Z: "zone_inv z F (insert (i, Suc h) A)" and new: "(i, Suc h) \<notin> A"
  shows "zone_inv (set_page_order_buddy (i + 2 ^ h) h (put_free (i + 2 ^ h) h z))
      (F(h := (i + 2 ^ h) # F h)) (insert (i, h) A)" (is "zone_inv ?z ?F _")
    and "keeps (insert (i, low) A) z (set_page_order_buddy (i + 2 ^ h) h (put_free (i + 2 ^ h) h z))"
    and "(i, h) \<notin> A"
proof -
  let ?p = "i + 2 ^ h" and ?B = "free_blocks F \<union> A"
  have T: "tiles (page_num z) (insert (i, Suc h) ?B)" using zone_inv_tiles [OF Z] by simp
  have nB: "(i, Suc h) \<notin> ?B" using Z new by (auto simp: zone_inv_def)
  note T' = tiles_split [OF T nB]
  have out: "(j, k') \<notin> ?B" if "j = i \<or> j = ?p" for j k'
    using tiles_disjoint [OF T, of "(i, Suc h)" "(j, k')"] that nB
    by (cases "(j, k') = (i, Suc h)") (auto simp: blk_def)
  have "free_blocks F \<inter> A = {}" using Z by (simp add: zone_inv_def)
  then have Z1: "zone_inv z F (insert (?p, h) (insert (i, h) A))"
    using zone_inv_retile [OF Z, of "insert (?p, h) (insert (i, h) A)"] T' out
    by (auto simp: insert_commute)
  have fi: "fits (page_num z) (i, Suc h)" "fits (page_num z) (?p, h)"
    using tiles_fits [OF T] tiles_fits [OF T'] by auto
  then have "get_buddy_page i h = ?p" by (intro buddy_left) (simp add: fits_def)
  then have b: "get_buddy_page ?p h = i" by (metis buddy_involution)
  have hm: "h < BUDDY_MAX_ORDER" using fi by (simp add: fits_def)
  have "i \<notin> set (F h)" using out hm by (auto simp: free_blocks_def)
  then show "zone_inv ?z ?F (insert (i, h) A)"
    using out by (intro zone_inv_put [OF Z1] hm) (auto simp: b)
  have "?p \<notin> fst ` insert (i, low) A" using out by force
  then show "keeps (insert (i, low) A) z ?z" by (rule keeps_put(1) [OF fits_less [OF fi(2)]])
  show "(i, h) \<notin> A" using out by blast
qed

lemma zone_inv_split:
  assumes "zone_inv z F (insert (i, high) A)" and "(i, high) \<notin> A" and "low \<le> high"
  shows "\<exists>F'. zone_inv (split i low high (2 ^ high) z) F' (insert (i, low) A)
    \<and> keeps (insert (i, low) A) z (split i low high (2 ^ high) z) \<and> (i, low) \<notin> A"
  using assms
proof (induction "high - low" arbitrary: high z F)
  case 0
  then show ?case by (auto simp: split.simps)
next
  case (Suc d)
  then obtain h where h: "high = Suc h" "low \<le> h" by (cases high) auto
  let ?z = "set_page_order_buddy (i + 2 ^ h) h (put_free (i + 2 ^ h) h z)"
  note H = zone_inv_halve [OF Suc.prems(1) [unfolded h(1)] Suc.prems(2) [unfolded h(1)]]
  have e: "split i low high (2 ^ high) z = split i low h (2 ^ h) ?z"
    using h by (subst split.simps) (simp add: Let_def)
  have d: "d = h - low" using Suc.hyps(2) h by simp
  from Suc.hyps(1) [OF d H(1) H(3) h(2)] show ?case
    unfolding e using keeps_trans [OF H(2)] by blast
qed

text \<open>Writing the order and the head flag of a page in use changes nothing on the free lists.\<close>

lemma zone_inv_mark:
  assumes Z: "zone_inv z F U" and i: "(i, k) \<in> U"
    and f: "flags p AND push_bit PG_buddy 1 = flags (meta z i) AND push_bit PG_buddy 1"
  shows "zone_inv (z\<lparr>meta := (meta z)(i := p)\<rparr>) F U"
proof (rule zone_inv_cong [OF Z])
  have "fits (page_num z) (i, k)" using tiles_fits [OF zone_inv_tiles [OF Z]] i by blast
  then have "\<not> check_buddy z i k'" for k'
    using used_not_free [OF Z i] zone_inv_check [OF Z fits_less] by blast
  then have "flags p AND push_bit PG_buddy 1 = 0" using f by (auto simp: check_buddy_def)
  then show "check_buddy (z\<lparr>meta := (meta z)(i := p)\<rparr>) j k' = check_buddy z j k'" for j k'
    using \<open>\<And>k'. \<not> check_buddy z i k'\<close> [of k'] by (auto simp: check_buddy_def)
qed simp_all

definition used_ok :: "global_mem \<Rightarrow> (nat \<times> nat) set \<Rightarrow> bool" where
  "used_ok z A \<longleftrightarrow> (\<forall>(i, k) \<in> A. get_order z i = k)"

lemma used_ok_keeps: "keeps B z z' \<Longrightarrow> A \<subseteq> B \<Longrightarrow> used_ok z A \<Longrightarrow> used_ok z' A"
  unfolding used_ok_def
proof (intro ballI, clarify)
  fix i k assume K: "keeps B z z'" and "A \<subseteq> B" and u: "\<forall>(i, k) \<in> A. get_order z i = k"
    and ik: "(i, k) \<in> A"
  then have "i \<in> fst ` B" by (metis fst_conv image_eqI subsetD)
  with K have "meta z' i = meta z i" by (simp add: keeps_def)
  with u ik show "get_order z' i = k" by (auto simp: get_order_def)
qed

definition tail_clear :: "global_mem \<Rightarrow> bool" where
  "tail_clear z \<longleftrightarrow> (\<forall>i \<ge> page_num z. \<forall>k. \<not> check_buddy z i k)"

lemma tail_clear_keeps: "keeps A z z' \<Longrightarrow> tail_clear z \<Longrightarrow> tail_clear z'"
  by (auto simp: tail_clear_def keeps_def check_buddy_def)

lemma lnext_head:
  assumes "zone_inv z F U" "k < BUDDY_MAX_ORDER" "F k = i # is"
  shows "lnext (lists z) (list_head k) = list_node i"
  using dl.family_content [OF zone_inv_family [OF assms(1)], of k] assms(2,3)
  by (auto simp: is_list_def)

lemma take_page_ok:
  assumes Z: "zone_inv z F A" and k: "k \<le> c" "c < BUDDY_MAX_ORDER" and ne: "F c \<noteq> []"
    and u: "used_ok z A"
  shows "\<exists>i z' F'. take_page k c z = (i, z') \<and> zone_inv z' F' (insert (i, k) A)
    \<and> keeps A z z' \<and> used_ok z' (insert (i, k) A) \<and> (i, k) \<notin> A"
proof -
  obtain i "is" where F: "F c = i # is" using ne by (cases "F c") auto
  have p: "lnext (lists z) (list_head c) - BUDDY_MAX_ORDER = i"
    using lnext_head [OF Z k(2) F] by (simp add: list_node_def)
  let ?z1 = "clear_page_order_buddy i (take_free i c z)"
  have Z1: "zone_inv ?z1 (F(c := remove1 i (F c))) (insert (i, c) A)"
    by (rule zone_inv_take [OF Z k(2)]) (simp add: F)
  have ic: "(i, c) \<in> free_blocks F" using F k by (simp add: free_blocks_def)
  then have nA: "(i, j) \<notin> A" for j
    using tiles_start [OF zone_inv_tiles [OF Z], of i c j] Z by (auto simp: zone_inv_def)
  have "i < page_num z" using tiles_fits [OF zone_inv_tiles [OF Z], of "(i, c)"] ic fits_less by blast
  then have K1: "keeps A z ?z1" by (rule keeps_take) (use nA in force)
  let ?z2 = "split i k c (2 ^ c) ?z1"
  let ?p = "(meta ?z2 i)\<lparr>order := k, flags := flags (meta ?z2 i) OR push_bit PG_head 1\<rparr>"
  from zone_inv_split [OF Z1 nA k(1)] obtain F' where
    Z2: "zone_inv ?z2 F' (insert (i, k) A)" and K2: "keeps (insert (i, k) A) ?z1 ?z2" by blast
  have Z3: "zone_inv (?z2\<lparr>meta := (meta ?z2)(i := ?p)\<rparr>) F' (insert (i, k) A)"
    by (rule zone_inv_mark [OF Z2, of i k]) (simp_all add: head_flag_buddy del: push_bit_of_1)
  have "keeps A ?z1 ?z2" using K2 by (auto simp: keeps_def)
  with K1 have K: "keeps A z ?z2" by (rule keeps_trans)
  have "keeps A ?z2 (?z2\<lparr>meta := (meta ?z2)(i := ?p)\<rparr>)"
    using nA \<open>i < page_num z\<close> K by (auto simp: keeps_def)
  with K have K': "keeps A z (?z2\<lparr>meta := (meta ?z2)(i := ?p)\<rparr>)" by (rule keeps_trans)
  have "used_ok (?z2\<lparr>meta := (meta ?z2)(i := ?p)\<rparr>) (insert (i, k) A)"
    using used_ok_keeps [OF K' subset_refl u] by (auto simp: used_ok_def get_order_def)
  with Z3 K' nA show ?thesis by (auto simp: take_page_def p Let_def)
qed

lemma alloc_from_ok:
  assumes "zone_inv z F A" and "used_ok z A" and "k \<le> c"
  shows "\<exists>r z'. alloc_from k c z = (r, z')
    \<and> (case r of None \<Rightarrow> z' = z \<and> (\<forall>k' < BUDDY_MAX_ORDER. c \<le> k' \<longrightarrow> F k' = [])
        | Some i \<Rightarrow> (\<exists>F'. zone_inv z' F' (insert (i, k) A)) \<and> keeps A z z'
            \<and> used_ok z' (insert (i, k) A) \<and> (i, k) \<notin> A)"
  using assms
proof (induction "BUDDY_MAX_ORDER - c" arbitrary: c)
  case 0
  then show ?case by (subst alloc_from.simps) simp
next
  case (Suc d)
  then have c: "c < BUDDY_MAX_ORDER" by simp
  have e: "list_empty (list_head c) (lists z) \<longleftrightarrow> F c = []"
    using dl.family_empty_iff [OF zone_inv_family [OF Suc.prems(1)], of c] c by simp
  show ?case
  proof (cases "F c = []")
    case True
    have s: "alloc_from k c z = alloc_from k (c + 1) z"
      using c e True by (subst alloc_from.simps) simp
    have "c \<le> k' \<longleftrightarrow> k' = c \<or> c + 1 \<le> k'" for k' by arith
    with True have a: "(\<forall>k' < BUDDY_MAX_ORDER. c \<le> k' \<longrightarrow> F k' = [])
        \<longleftrightarrow> (\<forall>k' < BUDDY_MAX_ORDER. c + 1 \<le> k' \<longrightarrow> F k' = [])" by auto
    have d: "d = BUDDY_MAX_ORDER - (c + 1)" and kc: "k \<le> c + 1"
      using Suc.hyps(2) Suc.prems(3) by simp_all
    show ?thesis unfolding s a by (rule Suc.hyps(1) [OF d Suc.prems(1,2) kc])
  next
    case False
    from take_page_ok [OF Suc.prems(1,3) c this Suc.prems(2)] c e False show ?thesis
      by (subst alloc_from.simps) auto
  qed
qed

lemma merge_step:
  assumes Z: "zone_inv z F (insert (i, k) A)" and new: "(i, k) \<notin> A"
    and k: "k < BUDDY_MAX_ORDER - 1" and b: "get_buddy_page i k \<in> set (F k)"
  shows "zone_inv (clear_page_order_buddy (get_buddy_page i k) (take_free (get_buddy_page i k) k z))
      (F(k := remove1 (get_buddy_page i k) (F k))) (insert (get_merge_page i k, Suc k) A)"
    and "keeps A z (clear_page_order_buddy (get_buddy_page i k) (take_free (get_buddy_page i k) k z))"
    and "(get_merge_page i k, Suc k) \<notin> A" and "get_buddy_page i k < page_num z"
proof -
  let ?b = "get_buddy_page i k" and ?m = "get_merge_page i k"
  let ?F = "F(k := remove1 ?b (F k))"
  have k': "k < BUDDY_MAX_ORDER" using k by simp
  have Z1: "zone_inv (clear_page_order_buddy ?b (take_free ?b k z)) ?F (insert (?b, k) (insert (i, k) A))"
    by (rule zone_inv_take [OF Z k' b])
  note T = zone_inv_tiles [OF Z1, simplified]
  have bf: "(?b, k) \<in> free_blocks F" using b k' by (simp add: free_blocks_def)
  have bA: "(?b, j) \<notin> A" for j
    using tiles_start [OF zone_inv_tiles [OF Z], of ?b k j] bf Z by (auto simp: zone_inv_def)
  have iF: "(i, j) \<notin> free_blocks F" for j
    using used_not_free [OF Z, of i k] by (auto simp: free_blocks_def)
  have iA: "(i, j) \<notin> A" for j
    using tiles_start [OF zone_inv_tiles [OF Z], of i k j] new by auto
  have sub: "free_blocks ?F = free_blocks F - {(?b, k)}"
    by (rule free_blocks_take) (simp_all add: k' zone_inv_distinct [OF Z k'])
  have tk: "tiles (page_num z) (insert (?m, Suc k) (free_blocks ?F \<union> A))"
    by (rule tiles_merge) (use T iF iA bA k in \<open>auto simp: sub insert_commute\<close>)
  have m: "(?m, j) \<notin> free_blocks ?F \<union> A" for j
  proof -
    have "2 ^ k dvd i" using tiles_fits [OF zone_inv_tiles [OF Z], of "(i, k)"] by (simp add: fits_def)
    then have "?m = i \<or> ?m = ?b" by (cases rule: buddy_cases) auto
    moreover have "(?b, j) \<notin> free_blocks ?F"
      using tiles_start [OF zone_inv_tiles [OF Z], of ?b k j] bf by (auto simp: sub)
    ultimately show ?thesis using iF iA bA sub by auto
  qed
  show "zone_inv (clear_page_order_buddy ?b (take_free ?b k z)) ?F (insert (?m, Suc k) A)"
    using tk m Z1 by (intro zone_inv_retile [OF Z1]) (auto simp: zone_inv_def)
  show "(?m, Suc k) \<notin> A" using m by blast
  show l: "?b < page_num z"
    using tiles_fits [OF zone_inv_tiles [OF Z], of "(?b, k)"] bf fits_less by blast
  show "keeps A z (clear_page_order_buddy ?b (take_free ?b k z))"
    using bA by (intro keeps_take [OF l]) force
qed

lemma merge_ok:
  assumes "zone_inv z F (insert (i, k) A)" and "(i, k) \<notin> A" and "tail_clear z"
    and "k < BUDDY_MAX_ORDER"
  shows "\<exists>p k' z' F'. merge i k z = Some (p, k', z') \<and> zone_inv z' F' (insert (p, k') A)
    \<and> (p, k') \<notin> A \<and> keeps A z z' \<and> k' < BUDDY_MAX_ORDER
    \<and> (k' < BUDDY_MAX_ORDER - 1 \<longrightarrow> get_buddy_page p k' \<notin> set (F' k'))"
  using assms
proof (induction "BUDDY_MAX_ORDER - k" arbitrary: i k z F)
  case (Suc d)
  let ?b = "get_buddy_page i k"
  show ?case
  proof (cases "k < BUDDY_MAX_ORDER - 1 \<and> check_buddy z ?b k")
    case True
    then have b: "?b < page_num z" using Suc.prems(3) by (meson leI tail_clear_def)
    then have "?b \<in> set (F k)" using zone_inv_check [OF Suc.prems(1)] True by blast
    note M = merge_step [OF Suc.prems(1,2) _ this]
    let ?z = "clear_page_order_buddy ?b (take_free ?b k z)"
    have e: "merge i k z = merge (get_merge_page i k) (Suc k) ?z"
      using True b by (subst merge.simps) (simp add: Let_def)
    have k: "k < BUDDY_MAX_ORDER - 1" "d = BUDDY_MAX_ORDER - Suc k" "Suc k < BUDDY_MAX_ORDER"
      using True Suc.hyps(2) by auto
    from Suc.hyps(1) [OF k(2) M(1) M(3) tail_clear_keeps [OF M(2) Suc.prems(3)] k(3)] k(1)
    show ?thesis unfolding e using keeps_trans [OF M(2)] by blast
  next
    case False
    have "merge i k z = Some (i, k, z)" using False by (subst merge.simps) (auto simp: Let_def)
    moreover have "?b \<notin> set (F k)" if "k < BUDDY_MAX_ORDER - 1"
    proof
      assume "?b \<in> set (F k)"
      from merge_step(4) [OF Suc.prems(1,2) that this] zone_inv_check [OF Suc.prems(1)] this False that
      show False by auto
    qed
    ultimately show ?thesis using Suc.prems by auto
  qed
qed simp

section \<open>The invariant of the allocator\<close>

text \<open>
  \<open>A\<close> is the set of blocks handed out.  The memory behind the metadata array must not look
  like the metadata of a free block, because \<^verbatim>\<open>buddy_free_pages\<close> inspects it when the zone does
  not end on a boundary of the largest block.
\<close>

definition buddy_inv :: "global_mem \<Rightarrow> (nat \<times> nat) set \<Rightarrow> bool" where
  "buddy_inv z A \<longleftrightarrow> lock_free (buddy_lock z) \<and> tail_clear z \<and> used_ok z A
     \<and> (\<exists>F. zone_inv z F A)"

definition geom :: "global_mem \<Rightarrow> nat \<times> u64 \<times> u64 \<times> u64" where
  "geom z = (page_num z, page_size z, start_addr z, end_addr z)"

lemma zone_inv_lock [simp]: "zone_inv (z\<lparr>buddy_lock := l\<rparr>) F U \<longleftrightarrow> zone_inv z F U"
  by (simp add: zone_inv_def check_buddy_def)

lemma used_ok_lock [simp]: "used_ok (z\<lparr>buddy_lock := l\<rparr>) A \<longleftrightarrow> used_ok z A"
  by (simp add: used_ok_def get_order_def)

lemma tail_clear_lock [simp]: "tail_clear (z\<lparr>buddy_lock := l\<rparr>) \<longleftrightarrow> tail_clear z"
  by (simp add: tail_clear_def check_buddy_def)

lemma geom_lock [simp]: "geom (z\<lparr>buddy_lock := l\<rparr>) = geom z"
  by (simp add: geom_def)

lemma keeps_geom: "keeps A z z' \<Longrightarrow> geom z' = geom z \<and> buddy_lock z' = buddy_lock z"
  by (simp add: keeps_def geom_def)

text \<open>Two aligned blocks that meet are nested.\<close>

lemma aligned_nested:
  assumes "2 ^ a dvd i" "2 ^ b dvd j" "a \<le> b" "blk (i, a) \<inter> blk (j, b) \<noteq> {}"
  shows "blk (i, a) \<subseteq> blk (j, b)"
proof -
  from assms(1,2) obtain x y where x: "i = 2 ^ a * x" and y: "j = 2 ^ b * y" by blast
  define Y where "Y = 2 ^ (b - a) * y"
  have b: "(2 :: nat) ^ b = 2 ^ a * 2 ^ (b - a)" using assms(3) by (simp flip: power_add)
  then have j: "j = 2 ^ a * Y" by (simp add: y Y_def)
  from assms(4) have p: "j < i + 2 ^ a" "i < j + 2 ^ b" by (auto simp: blk_def)
  have "2 ^ a * Y < 2 ^ a * Suc x" using p(1) by (simp add: x j)
  then have "Y < Suc x" by (simp only: mult_less_cancel1)
  then have "Y \<le> x" by simp
  have "2 ^ a * x < 2 ^ a * (Y + 2 ^ (b - a))" using p(2) by (simp add: x j b distrib_left)
  then have "Suc x \<le> Y + 2 ^ (b - a)" by (simp only: mult_less_cancel1 Suc_le_eq)
  then have "2 ^ a * Suc x \<le> 2 ^ a * (Y + 2 ^ (b - a))" by (rule mult_le_mono2)
  then have "i + 2 ^ a \<le> j + 2 ^ b" by (simp add: x j b distrib_left)
  moreover have "j \<le> i" using \<open>Y \<le> x\<close> by (simp add: x j)
  ultimately show ?thesis by (auto simp: blk_def)
qed

lemma aligned_eq: "2 ^ k dvd i \<Longrightarrow> 2 ^ k dvd j \<Longrightarrow> blk (i, k) \<inter> blk (j, k) \<noteq> {} \<Longrightarrow> i = j"
  using aligned_nested [of k i k j] aligned_nested [of k j k i] blk_nonempty [of i k] blk_nonempty [of j k]
  by (auto simp: blk_def dest!: subsetD)

lemma tiles_cover: "tiles N B \<Longrightarrow> p < N \<Longrightarrow> \<exists>b \<in> B. p \<in> blk b"
  unfolding tiles_def by blast

lemma free_cover:
  assumes Z: "zone_inv z F A" and f: "fits (page_num z) (i, n)"
    and free: "\<forall>b \<in> A. blk b \<inter> blk (i, n) = {}"
    and small: "\<And>j k. (j, k) \<in> free_blocks F \<Longrightarrow> k < n" and p: "p \<in> blk (i, n)"
  shows "\<exists>j k. (j, k) \<in> free_blocks F \<and> p \<in> blk (j, k) \<and> blk (j, k) \<subseteq> blk (i, n)"
proof -
  note T = zone_inv_tiles [OF Z]
  have "p < page_num z" using p f by (auto simp: blk_def fits_def)
  then obtain j k where jk: "(j, k) \<in> free_blocks F" "p \<in> blk (j, k)"
    using tiles_cover [OF T] free p by (metis (no_types, lifting) Un_iff disjoint_iff surj_pair)
  moreover have "k < n" using small jk by blast
  moreover have "2 ^ k dvd j" "2 ^ n dvd i" using tiles_fits [OF T, of "(j, k)"] jk f by (auto simp: fits_def)
  ultimately have "blk (j, k) \<subseteq> blk (i, n)" using aligned_nested [of k j n i] jk(2) p by auto
  with jk show ?thesis by blast
qed

text \<open>
  Because free buddies are merged, an aligned block with no page in use lies in one free
  block.
\<close>

lemma coalesced:
  assumes Z: "zone_inv z F A" and f: "fits (page_num z) (i, n)"
    and free: "\<forall>b \<in> A. blk b \<inter> blk (i, n) = {}"
  shows "\<exists>k \<ge> n. k < BUDDY_MAX_ORDER \<and> F k \<noteq> []"
proof (rule ccontr)
  assume none: "\<not> ?thesis"
  note T = zone_inv_tiles [OF Z]
  let ?P = "\<lambda>k. \<exists>j. (j, k) \<in> free_blocks F \<and> blk (j, k) \<subseteq> blk (i, n)"
  have small: "k < n" if "(j, k) \<in> free_blocks F" for j k
    using none that by (auto simp: free_blocks_def not_le)
  have cover: "\<exists>j k. (j, k) \<in> free_blocks F \<and> p \<in> blk (j, k) \<and> blk (j, k) \<subseteq> blk (i, n)"
    if "p \<in> blk (i, n)" for p by (rule free_cover [OF Z f free small that])
  from cover [of i] have "\<exists>k. ?P k" by auto
  then obtain k where k: "?P k" "\<And>k'. ?P k' \<Longrightarrow> k \<le> k'"
    using LeastI_ex [of ?P] Least_le [of ?P] by blast
  then obtain j where j: "(j, k) \<in> free_blocks F" "blk (j, k) \<subseteq> blk (i, n)" by blast
  have kn: "k < n" using small j(1) .
  let ?b = "get_buddy_page j k" and ?m = "get_merge_page j k"
  have jd: "2 ^ k dvd j" "fits (page_num z) (j, k)" using tiles_fits [OF T, of "(j, k)"] j by (auto simp: fits_def)
  have m: "2 ^ Suc k dvd ?m" "2 ^ k dvd ?b" "blk (?m, Suc k) = blk (j, k) \<union> blk (?b, k)"
    using buddy_merge_blk [OF jd(1)] by auto
  have "j \<in> blk (?m, Suc k) \<inter> blk (i, n)" using j(2) m(3) blk_nonempty [of j k] by blast
  then have "blk (?m, Suc k) \<subseteq> blk (i, n)"
    using f kn by (intro aligned_nested [OF m(1)]) (auto simp: fits_def)
  then have "?b \<in> blk (i, n)" using m(3) blk_nonempty [of ?b k] by blast
  from cover [OF this] obtain j' k' where j': "(j', k') \<in> free_blocks F" "?b \<in> blk (j', k')"
    "blk (j', k') \<subseteq> blk (i, n)" by blast
  have d': "2 ^ k' dvd j'" using tiles_fits [OF T, of "(j', k')"] j' by (auto simp: fits_def)
  have "k \<le> k'" using k(2) j' by blast
  show False
  proof (cases "k' = k")
    case True
    then have "blk (?b, k) \<inter> blk (j', k) \<noteq> {}" using j'(2) blk_nonempty [of ?b k] by blast
    then have "j' = ?b" using aligned_eq [OF m(2), of j'] d' True by simp
    with Z j(1) j'(1) True kn f show False by (auto simp: zone_inv_def free_blocks_def fits_def)
  next
    case False
    have "blk (?m, Suc k) \<inter> blk (j', k') \<noteq> {}" using m(3) j'(2) blk_nonempty [of ?b k] by blast
    with False \<open>k \<le> k'\<close> have "blk (?m, Suc k) \<subseteq> blk (j', k')"
      by (intro aligned_nested [OF m(1) d']) auto
    then have "j \<in> blk (j', k')" using m(3) blk_nonempty [of j k] by blast
    then show False
      using tiles_disjoint [OF T, of "(j, k)" "(j', k')"] j j' False blk_nonempty [of j k] by blast
  qed
qed

lemma buddy_get_pages_ok:
  assumes I: "buddy_inv z A" and k: "k < BUDDY_MAX_ORDER"
  shows "\<exists>r z'. buddy_get_pages k z = Some (r, z') \<and> geom z' = geom z
    \<and> (case r of None \<Rightarrow> buddy_inv z' A
          \<and> (\<forall>i. fits (page_num z) (i, k) \<longrightarrow> (\<exists>b \<in> A. blk b \<inter> blk (i, k) \<noteq> {}))
        | Some i \<Rightarrow> buddy_inv z' (insert (i, k) A) \<and> fits (page_num z) (i, k)
          \<and> (\<forall>b \<in> A. blk b \<inter> blk (i, k) = {}))"
proof -
  from I obtain F where Z: "zone_inv z F A" and u: "used_ok z A" and t: "tail_clear z"
    and l: "lock_free (buddy_lock z)" by (auto simp: buddy_inv_def)
  let ?l = "(buddy_lock z)\<lparr>nxt := nxt (buddy_lock z) + 1\<rparr>"
  let ?z = "z\<lparr>buddy_lock := ?l\<rparr>"
  have "zone_inv ?z F A" "used_ok ?z A" using Z u by simp_all
  from alloc_from_ok [OF this, of k k] obtain r z' where a: "alloc_from k k ?z = (r, z')"
    and R: "case r of None \<Rightarrow> z' = ?z \<and> (\<forall>k' < BUDDY_MAX_ORDER. k \<le> k' \<longrightarrow> F k' = [])
        | Some i \<Rightarrow> (\<exists>F'. zone_inv z' F' (insert (i, k) A)) \<and> keeps A ?z z'
            \<and> used_ok z' (insert (i, k) A) \<and> (i, k) \<notin> A" by auto
  let ?z' = "z'\<lparr>buddy_lock := unlock (buddy_lock z')\<rparr>"
  have g: "buddy_get_pages k z = Some (r, ?z')"
    using k a by (simp add: buddy_get_pages_def alloc_page_def lock_free_Some [OF l])
  show ?thesis
  proof (cases r)
    case None
    with R have z': "z' = ?z" "\<forall>k' < BUDDY_MAX_ORDER. k \<le> k' \<longrightarrow> F k' = []" by auto
    then have "\<exists>b \<in> A. blk b \<inter> blk (i, k) \<noteq> {}" if "fits (page_num z) (i, k)" for i
      using coalesced [OF Z that] by blast
    with g None z' Z u t l show ?thesis by (auto simp: buddy_inv_def lock_simps)
  next
    case (Some i)
    with R obtain F' where Z': "zone_inv z' F' (insert (i, k) A)" and K: "keeps A ?z z'"
      and u': "used_ok z' (insert (i, k) A)" and nA: "(i, k) \<notin> A" by auto
    note T = zone_inv_tiles [OF Z']
    have "\<forall>b \<in> A. blk b \<inter> blk (i, k) = {}" using tiles_disjoint [OF T] nA by blast
    moreover have "fits (page_num z) (i, k)" using tiles_fits [OF T, of "(i, k)"] K by (simp add: keeps_def)
    moreover have "tail_clear z'" using tail_clear_keeps [OF K] t by simp
    moreover have "geom z' = geom z" "lock_free (unlock (buddy_lock z'))"
      using keeps_geom [OF K] l by (auto simp: lock_simps)
    ultimately show ?thesis using g Some Z' u' by (auto simp: buddy_inv_def)
  qed
qed

lemma zone_inv_free:
  assumes Z: "zone_inv z F A" and u: "used_ok z A" and t: "tail_clear z" and ik: "(i, k) \<in> A"
  shows "\<exists>p k' z' F'. merge i k z = Some (p, k', z') \<and> k' < BUDDY_MAX_ORDER
    \<and> zone_inv (put_free p k' (set_page_order_buddy p k' z')) F' (A - {(i, k)})
    \<and> keeps (A - {(i, k)}) z (put_free p k' (set_page_order_buddy p k' z'))"
proof -
  let ?A = "A - {(i, k)}"
  have "insert (i, k) ?A = A" using ik by blast
  then have "zone_inv z F (insert (i, k) ?A)" using Z by simp
  moreover have "k < BUDDY_MAX_ORDER" using tiles_fits [OF zone_inv_tiles [OF Z], of "(i, k)"] ik by (simp add: fits_def)
  ultimately obtain p k' z' F' where m: "merge i k z = Some (p, k', z')"
    and Z': "zone_inv z' F' (insert (p, k') ?A)" and new: "(p, k') \<notin> ?A" and K: "keeps ?A z z'"
    and k': "k' < BUDDY_MAX_ORDER" "k' < BUDDY_MAX_ORDER - 1 \<longrightarrow> get_buddy_page p k' \<notin> set (F' k')"
    using merge_ok [of z F i k ?A] t by auto
  have "zone_inv (put_free p k' (set_page_order_buddy p k' z')) (F'(k' := p # F' k')) ?A"
    unfolding put_set_commute using k' by (intro zone_inv_put [OF Z' new]) auto
  moreover have "p < page_num z'"
    using tiles_fits [OF zone_inv_tiles [OF Z'], of "(p, k')"] fits_less by blast
  moreover have "p \<notin> fst ` ?A"
    using tiles_start [OF zone_inv_tiles [OF Z'], of p k'] new by force
  ultimately show ?thesis using m k' keeps_trans [OF K keeps_put(2)] by blast
qed

lemma buddy_free_pages_ok:
  assumes I: "buddy_inv z A" and ik: "(i, k) \<in> A"
  shows "\<exists>z'. buddy_free_pages i z = Some z' \<and> buddy_inv z' (A - {(i, k)}) \<and> geom z' = geom z"
proof -
  from I obtain F where Z: "zone_inv z F A" and u: "used_ok z A" and t: "tail_clear z"
    and l: "lock_free (buddy_lock z)" by (auto simp: buddy_inv_def)
  let ?l = "(buddy_lock z)\<lparr>nxt := nxt (buddy_lock z) + 1\<rparr>"
  let ?p = "(meta z i)\<lparr>flags := flags (meta z i) AND NOT (push_bit PG_head 1)\<rparr>"
  let ?z = "z\<lparr>buddy_lock := ?l, meta := (meta z)(i := ?p)\<rparr>"
  have i: "i < page_num z" using tiles_fits [OF zone_inv_tiles [OF Z], of "(i, k)"] ik fits_less by blast
  have e: "?z = (z\<lparr>meta := (meta z)(i := ?p)\<rparr>)\<lparr>buddy_lock := ?l\<rparr>" by simp
  have Z1: "zone_inv ?z F A"
    unfolding e zone_inv_lock
    by (rule zone_inv_mark [OF Z ik]) (simp add: head_flag_buddy del: push_bit_of_1)
  have u1: "used_ok ?z A" using u by (auto simp: used_ok_def get_order_def)
  have t1: "tail_clear ?z" using t i by (auto simp: tail_clear_def check_buddy_def)
  from zone_inv_free [OF Z1 u1 t1 ik] obtain p k' z2 F' where m: "merge i k ?z = Some (p, k', z2)"
    and k': "k' < BUDDY_MAX_ORDER"
    and Z3: "zone_inv (put_free p k' (set_page_order_buddy p k' z2)) F' (A - {(i, k)})"
    and K: "keeps (A - {(i, k)}) ?z (put_free p k' (set_page_order_buddy p k' z2))" by blast
  let ?z3 = "put_free p k' (set_page_order_buddy p k' z2)"
  have "get_order z i = k" using u ik by (auto simp: used_ok_def)
  then have f: "buddy_free_pages i z = Some (?z3\<lparr>buddy_lock := unlock (buddy_lock ?z3)\<rparr>)"
    using i m k' by (simp add: buddy_free_pages_def lock_free_Some [OF l] Let_def)
  have "used_ok ?z3 (A - {(i, k)})"
    using used_ok_keeps [OF K subset_refl] u1 by (auto simp: used_ok_def)
  moreover have "tail_clear ?z3" by (rule tail_clear_keeps [OF K t1])
  moreover have "lock_free (unlock (buddy_lock ?z3))" "geom ?z3 = geom z"
    using keeps_geom [OF K] l by (auto simp: lock_simps geom_def)
  ultimately show ?thesis using f Z3 by (auto simp: buddy_inv_def)
qed

lemma buddy_inv_init_node:
  assumes I: "buddy_inv z A" and ik: "(i, k) \<in> A"
  shows "buddy_inv (z\<lparr>lists := init_list_head (list_node i) (lists z)\<rparr>) A"
proof -
  let ?z = "z\<lparr>lists := init_list_head (list_node i) (lists z)\<rparr>"
  from I obtain F where Z: "zone_inv z F A" by (auto simp: buddy_inv_def)
  have c [simp]: "check_buddy ?z = check_buddy z" by (simp add: check_buddy_def fun_eq_iff)
  have fam: "dl.family list_head {..<BUDDY_MAX_ORDER} (lists z) (\<lambda>k. map list_node (F k))"
    and fr: "dl.fresh list_head {..<BUDDY_MAX_ORDER} (\<lambda>k. map list_node (F k)) (list_node i)"
    by (rule zone_inv_family [OF Z], rule used_fresh [OF Z ik])
  then have "dl.family list_head {..<BUDDY_MAX_ORDER} (lists ?z) (\<lambda>k. map list_node (F k))"
    by (auto simp: dl.family_def dl.fresh_def intro!: is_list_init_other)
  with Z have "zone_inv ?z F A" by (simp add: zone_inv_def)
  with I show ?thesis by (auto simp: buddy_inv_def used_ok_def get_order_def tail_clear_def)
qed

lemma init_pages_ok:
  "buddy_inv z A \<Longrightarrow> distinct is \<Longrightarrow> \<forall>i \<in> set is. (i, 0) \<in> A \<Longrightarrow>
   \<exists>z'. init_pages is z = Some z' \<and> buddy_inv z' (A - (\<lambda>i. (i, 0)) ` set is) \<and> geom z' = geom z"
proof (induction "is" arbitrary: z A)
  case (Cons i "is")
  let ?z = "z\<lparr>lists := init_list_head (list_node i) (lists z)\<rparr>"
  have iA: "(i, 0) \<in> A" using Cons.prems by simp
  from buddy_free_pages_ok [OF buddy_inv_init_node [OF Cons.prems(1) iA] iA]
  obtain z1 where z1: "buddy_free_pages i ?z = Some z1" "buddy_inv z1 (A - {(i, 0)})"
    "geom z1 = geom z" by (auto simp: geom_def)
  have "\<forall>j \<in> set is. (j, 0) \<in> A - {(i, 0)}" using Cons.prems by auto
  from Cons.IH [OF z1(2) _ this] Cons.prems obtain z' where z': "init_pages is z1 = Some z'"
    "buddy_inv z' (A - {(i, 0)} - (\<lambda>i. (i, 0)) ` set is)" "geom z' = geom z1" by auto
  have "init_pages (i # is) z = Some z'" using z1(1) z'(1) by simp
  moreover have "A - {(i, 0)} - (\<lambda>i. (i, 0)) ` set is = A - (\<lambda>i. (i, 0)) ` set (i # is)" by auto
  ultimately show ?case using z'(2,3) z1(3) by metis
qed simp

lemma fold_init_heads:
  "lnext (fold init_list_head ks h) j = (if j \<in> set ks then j else lnext h j)"
  "lprev (fold init_list_head ks h) j = (if j \<in> set ks then j else lprev h j)"
  by (induction ks arbitrary: h) (auto simp: init_list_head_def)

lemma tiles_pages: "tiles n {(i, 0) |i. i < n}"
  by (auto simp: tiles_def fits_def blk_def BUDDY_MAX_ORDER_def)

lemma init_buddy_ok:
  assumes t: "\<forall>i \<ge> n. \<forall>k. \<not> check_buddy z i k"
  shows "\<exists>z'. init_buddy v n z = Some z' \<and> buddy_inv z' {}
    \<and> geom z' = (n, BUDDY_PAGE_SIZE, v, v + of_nat n * BUDDY_PAGE_SIZE)"
proof -
  let ?z = "z\<lparr>buddy_lock := lock_init, page_num := n, page_size := BUDDY_PAGE_SIZE,
      start_addr := v, end_addr := v + of_nat n * BUDDY_PAGE_SIZE,
      lists := fold (\<lambda>k. init_list_head (list_head k)) [0..<BUDDY_MAX_ORDER] (lists z),
      nr_free := (\<lambda>k. if k < BUDDY_MAX_ORDER then 0 else nr_free z k),
      meta := (\<lambda>i. if i < n then \<lparr>flags = 0, order = 0, slab = 0\<rparr> else meta z i)\<rparr>"
  let ?A = "{(i, 0 :: nat) |i. i < n}"
  have [simp]: "free_blocks (\<lambda>_. []) = {}" by (simp add: free_blocks_def)
  have "zone_inv ?z (\<lambda>_. []) ?A"
  proof (rule zone_invI)
    show "dl.family list_head {..<BUDDY_MAX_ORDER} (lists ?z) (\<lambda>k. map list_node [])"
      by (auto simp: dl.family_def is_list_def fold_init_heads list_head_def)
    show "tiles (page_num ?z) (free_blocks (\<lambda>_. []) \<union> ?A)" using tiles_pages [of n] by simp
  qed (simp_all add: check_buddy_def)
  moreover have "used_ok ?z ?A" by (auto simp: used_ok_def get_order_def)
  moreover have "tail_clear ?z" using t by (auto simp: tail_clear_def check_buddy_def)
  ultimately have "buddy_inv ?z ?A" by (auto simp: buddy_inv_def lock_simps)
  from init_pages_ok [OF this, of "[0..<n]"] have
    "\<exists>z'. init_pages [0..<n] ?z = Some z' \<and> buddy_inv z' (?A - (\<lambda>i. (i, 0)) ` set [0..<n])
      \<and> geom z' = geom ?z" by simp
  moreover have "?A - (\<lambda>i. (i, 0)) ` set [0..<n] = {}" by auto
  moreover have "init_buddy v n z = init_pages [0..<n] ?z"
    by (simp add: init_buddy_def Let_def cong: if_cong)
  moreover have "geom ?z = (n, BUDDY_PAGE_SIZE, v, v + of_nat n * BUDDY_PAGE_SIZE)"
    by (simp add: geom_def)
  ultimately show ?thesis by metis
qed

section \<open>The interface of a page allocator\<close>

text \<open>What the slab allocator and \<^verbatim>\<open>get_pages\<close> rely on; \<open>A\<close> is the set of blocks handed out.\<close>

locale page_allocator =
  fixes inv :: "'s \<Rightarrow> (nat \<times> nat) set \<Rightarrow> bool"
    and get :: "nat \<Rightarrow> 's \<Rightarrow> (nat option \<times> 's) option"
    and free :: "nat \<Rightarrow> 's \<Rightarrow> 's option"
    and max_order :: nat
  assumes get_total: "inv s A \<Longrightarrow> k < max_order \<Longrightarrow> \<exists>r s'. get k s = Some (r, s')"
    and get_None: "inv s A \<Longrightarrow> k < max_order \<Longrightarrow> get k s = Some (None, s') \<Longrightarrow> inv s' A"
    and get_Some: "inv s A \<Longrightarrow> k < max_order \<Longrightarrow> get k s = Some (Some i, s') \<Longrightarrow>
      inv s' (insert (i, k) A) \<and> (\<forall>b \<in> A. blk b \<inter> blk (i, k) = {})"
    and free_ok: "inv s A \<Longrightarrow> (i, k) \<in> A \<Longrightarrow> \<exists>s'. free i s = Some s' \<and> inv s' (A - {(i, k)})"
begin

lemma get_free:
  assumes "inv s A" "k < max_order" "get k s = Some (Some i, s')"
  shows "\<exists>s''. free i s' = Some s'' \<and> inv s'' A"
proof -
  from get_Some [OF assms] have i: "inv s' (insert (i, k) A)" "(i, k) \<notin> A"
    using blk_nonempty [of i k] by blast+
  then show ?thesis using free_ok [OF i(1), of i k] by auto
qed

text \<open>Allocating again and again, the blocks obtained are pairwise disjoint.\<close>

fun gets :: "nat list \<Rightarrow> 's \<Rightarrow> ((nat \<times> nat) list \<times> 's) option" where
  "gets [] s = Some ([], s)"
| "gets (k # ks) s = do {
     (r, s1) \<leftarrow> get k s;
     (bs, s2) \<leftarrow> gets ks s1;
     Some (case r of None \<Rightarrow> bs | Some i \<Rightarrow> (i, k) # bs, s2) }"

lemma gets_disjoint:
  "inv s A \<Longrightarrow> \<forall>k \<in> set ks. k < max_order \<Longrightarrow>
   \<exists>bs s'. gets ks s = Some (bs, s') \<and> inv s' (set bs \<union> A)
     \<and> (\<forall>b \<in> set bs. \<forall>a \<in> A. blk b \<inter> blk a = {}) \<and> sorted_wrt (\<lambda>b c. blk b \<inter> blk c = {}) bs"
proof (induction ks arbitrary: s A)
  case (Cons k ks)
  then obtain r s1 where g: "get k s = Some (r, s1)" using get_total by fastforce
  show ?case
  proof (cases r)
    case None
    with g Cons get_None [of s A k s1] show ?thesis by auto
  next
    case (Some i)
    have k: "k < max_order" using Cons.prems by simp
    note G = get_Some [OF Cons.prems(1) k g [unfolded Some]]
    from Cons.IH [of s1 "insert (i, k) A"] Cons.prems G obtain bs s' where
      b: "gets ks s1 = Some (bs, s')" "inv s' (set bs \<union> insert (i, k) A)"
      "\<forall>b \<in> set bs. \<forall>a \<in> insert (i, k) A. blk b \<inter> blk a = {}"
      "sorted_wrt (\<lambda>b c. blk b \<inter> blk c = {}) bs" by auto
    have e: "set bs \<union> insert (i, k) A = set ((i, k) # bs) \<union> A" by auto
    have d: "\<forall>b \<in> set ((i, k) # bs). \<forall>a \<in> A. blk b \<inter> blk a = {}"
      using b(3) G by (auto simp: Int_commute)
    have "sorted_wrt (\<lambda>b c. blk b \<inter> blk c = {}) ((i, k) # bs)"
      using b(3,4) by (auto simp: Int_commute)
    with d b(2) show ?thesis unfolding e by (simp add: g Some b(1))
  qed
qed simp

end

interpretation buddy: page_allocator buddy_inv buddy_get_pages buddy_free_pages BUDDY_MAX_ORDER
proof unfold_locales
  fix z A k assume A: "buddy_inv z A" "k < BUDDY_MAX_ORDER"
  note G = buddy_get_pages_ok [OF A]
  show "\<exists>r s'. buddy_get_pages k z = Some (r, s')" using G by blast
  show "buddy_inv z' A" if "buddy_get_pages k z = Some (None, z')" for z'
    using G that by (auto split: option.splits)
  show "buddy_inv z' (insert (i, k) A) \<and> (\<forall>b \<in> A. blk b \<inter> blk (i, k) = {})"
    if "buddy_get_pages k z = Some (Some i, z')" for i z'
    using G that by (auto split: option.splits)
next
  fix z A i k assume "buddy_inv z A" "(i, k) \<in> A"
  from buddy_free_pages_ok [OF this]
  show "\<exists>s'. buddy_free_pages i z = Some s' \<and> buddy_inv s' (A - {(i, k)})" by blast
qed

section \<open>Addresses\<close>

definition zone_addr_ok :: "global_mem \<Rightarrow> bool" where
  "zone_addr_ok z \<longleftrightarrow> end_addr z = start_addr z + of_nat (page_num z) * BUDDY_PAGE_SIZE
     \<and> unat (start_addr z) + page_num z * 4096 < 2 ^ 64"

lemma unat_zone_addr:
  "zone_addr_ok z \<Longrightarrow> x \<le> unat (start_addr z) + page_num z * 4096 \<Longrightarrow> unat (of_nat x :: u64) = x"
  by (intro unat_of_nat_lt) (simp add: zone_addr_ok_def)

lemma virt_to_page_offset:
  assumes z: "zone_addr_ok z" and x: "x \<le> page_num z * 4096"
  shows "virt_to_page z (of_nat (unat (start_addr z) + x)) = Some (x div 4096)"
proof -
  define s where "s = unat (start_addr z)"
  have st: "start_addr z = of_nat s" by (simp add: s_def)
  have en: "end_addr z = of_nat (s + page_num z * 4096)"
    using z by (simp add: st zone_addr_ok_def BUDDY_PAGE_SIZE_def BUDDY_PAGE_SHIFT_def)
  note un = unat_zone_addr [OF z, folded s_def]
  have "unat (of_nat (s + x) :: u64) = s + x" "unat (start_addr z) = s"
    "unat (end_addr z) = s + page_num z * 4096" "unat (of_nat x :: u64) = x"
    using x un [of "s + x"] un [of "s + page_num z * 4096"] un [of x] by (simp_all only: en s_def)
  moreover have "of_nat (s + x) - start_addr z = (of_nat x :: u64)" by (simp add: st)
  ultimately have "virt_to_page z (of_nat (s + x)) = Some (x div 4096)"
    using x by (simp only: virt_to_page_def word_less_nat_alt unat_drop_bit_eq drop_bit_eq_div
        BUDDY_PAGE_SHIFT_def) (simp add: unat_div)
  then show ?thesis by (simp only: s_def)
qed

lemma page_to_virt_nat:
  "page_to_virt z (Some i) + of_nat x = of_nat (unat (start_addr z) + (i * 4096 + x))"
  by (simp add: page_to_virt_def BUDDY_PAGE_SIZE_def BUDDY_PAGE_SHIFT_def)

section \<open>Properties\<close>

definition blank_zone :: global_mem where
  "blank_zone = \<lparr>page_num = 0, page_size = 0, start_addr = 0, end_addr = 0, nr_free = (\<lambda>_. 0),
     meta = (\<lambda>_. \<lparr>flags = 0, order = 0, slab = 0\<rparr>), lists = \<lparr>lprev = (\<lambda>_. 0), lnext = (\<lambda>_. 0)\<rparr>,
     buddy_lock = lock_init\<rparr>"

lemma blank_zone_init:
  "\<exists>z. init_buddy 0x1000 n blank_zone = Some z \<and> buddy_inv z {} \<and> page_num z = n"
  using init_buddy_ok [of n blank_zone "0x1000"]
  by (auto simp: blank_zone_def check_buddy_def geom_def)

text \<open>
  C4: \<^verbatim>\<open>buddy_get_pages\<close> returns for every order below the maximum.  The block it hands out is
  aligned, lies in the zone and overlaps no block handed out before, and the invariant
  holds with it added; it returns NULL only if every aligned block of that size in the zone
  meets a block in use.
\<close>

theorem buddy_get_pages_correct:
  assumes "buddy_inv z A" and "k < BUDDY_MAX_ORDER"
  shows "\<exists>r z'. buddy_get_pages k z = Some (r, z')
    \<and> (case r of None \<Rightarrow> buddy_inv z' A
          \<and> (\<forall>i. fits (page_num z) (i, k) \<longrightarrow> (\<exists>b \<in> A. blk b \<inter> blk (i, k) \<noteq> {}))
        | Some i \<Rightarrow> buddy_inv z' (insert (i, k) A) \<and> fits (page_num z) (i, k)
          \<and> (\<forall>b \<in> A. blk b \<inter> blk (i, k) = {}))"
  using buddy_get_pages_ok [OF assms] by blast

theorem buddy_get_pages_correct_witness:
  "\<exists>z i z'. init_buddy 0x1000 2 blank_zone = Some z \<and> buddy_get_pages 1 z = Some (Some i, z')
     \<and> buddy_inv z' {(i, 1)}"
proof -
  obtain z where z: "init_buddy 0x1000 2 blank_zone = Some z" "buddy_inv z {}" "page_num z = 2"
    using blank_zone_init by blast
  have "fits (page_num z) (0, 1)" by (simp add: fits_def z BUDDY_MAX_ORDER_def)
  with buddy_get_pages_correct [OF z(2), of 1] z(1) show ?thesis
    by (auto simp: BUDDY_MAX_ORDER_def split: option.splits)
qed



text \<open>
  \<^verbatim>\<open>init_buddy\<close> builds a zone with nothing in use by freeing the pages one after the other,
  for every number of pages, provided the memory behind the metadata array does not look
  like the metadata of a free block.
\<close>

theorem init_buddy_correct:
  assumes "\<forall>i \<ge> n. \<forall>k. \<not> check_buddy z i k"
  shows "\<exists>z'. init_buddy v n z = Some z' \<and> buddy_inv z' {} \<and> page_num z' = n
    \<and> start_addr z' = v \<and> end_addr z' = v + of_nat n * BUDDY_PAGE_SIZE"
  using init_buddy_ok [OF assms, of v] by (auto simp: geom_def)

theorem init_buddy_correct_witness:
  "\<exists>z'. init_buddy 0x1000 5 blank_zone = Some z' \<and> buddy_inv z' {} \<and> page_num z' = 5"
  using init_buddy_correct [of 5 blank_zone "0x1000"]
  by (auto simp: blank_zone_def check_buddy_def)

text \<open>
  A page whose buddy index lies behind the metadata array makes \<^verbatim>\<open>buddy_free_pages\<close> read
  memory that is no \<^verbatim>\<open>struct page\<close>; if that memory looks like a free page of the same order,
  the free goes wrong (the code unlinks a foreign node).
\<close>

theorem buddy_free_reads_past_metadata:
  assumes "lock_free (buddy_lock z)" and "i < page_num z" and "get_order z i < BUDDY_MAX_ORDER - 1"
    and "page_num z \<le> get_buddy_page i (get_order z i)"
    and "check_buddy z (get_buddy_page i (get_order z i)) (get_order z i)"
  shows "buddy_free_pages i z = None"
proof -
  have "get_buddy_page i (get_order z i) \<noteq> i" by simp
  with assms show ?thesis
    by (simp add: buddy_free_pages_def lock_free_Some merge.simps [of i "get_order z i"]
        check_buddy_def)
qed

definition odd_zone :: global_mem where
  "odd_zone = blank_zone\<lparr>page_num := 1, meta := (meta blank_zone)(1 := \<lparr>flags = 2, order = 0, slab = 0\<rparr>)\<rparr>"

theorem buddy_free_reads_past_metadata_witness:
  "page_num odd_zone = 1 \<and> buddy_free_pages 0 odd_zone = None"
proof
  show "buddy_free_pages 0 odd_zone = None"
    by (rule buddy_free_reads_past_metadata)
      (simp_all add: odd_zone_def blank_zone_def lock_simps get_order_def BUDDY_MAX_ORDER_def
        get_buddy_page_def check_buddy_def PG_buddy_def)
qed (simp add: odd_zone_def)

text \<open>
  In a zone that does not wrap around the address space, \<^verbatim>\<open>virt_to_page\<close> inverts
  \<^verbatim>\<open>page_to_virt\<close> and finds the page of every address inside it; the bound test lets the first
  address after the zone through, and gives an index behind the metadata array.
\<close>

theorem virt_to_page_correct:
  assumes z: "zone_addr_ok z" and i: "i < page_num z" and off: "off < 4096"
  shows "virt_to_page z (page_to_virt z (Some i) + of_nat off) = Some i
    \<and> virt_to_page z (end_addr z) = Some (page_num z)"
proof -
  have "i * 4096 + off \<le> page_num z * 4096" "(i * 4096 + off) div 4096 = i" using i off by auto
  moreover have "end_addr z = of_nat (unat (start_addr z) + page_num z * 4096)"
    using z by (simp add: zone_addr_ok_def BUDDY_PAGE_SIZE_def BUDDY_PAGE_SHIFT_def)
  ultimately show ?thesis
    using virt_to_page_offset [OF z, of "i * 4096 + off"] virt_to_page_offset [OF z, of "page_num z * 4096"]
    unfolding page_to_virt_nat by simp
qed

theorem virt_to_page_correct_witness:
  "virt_to_page (blank_zone\<lparr>page_num := 4, start_addr := 0x1000, end_addr := 0x5000\<rparr>) 0x3008 = Some 2"
  using virt_to_page_correct [of "blank_zone\<lparr>page_num := 4, start_addr := 0x1000, end_addr := 0x5000\<rparr>" 2 8]
  by (simp add: BUDDY_PAGE_SIZE_def BUDDY_PAGE_SHIFT_def page_to_virt_def zone_addr_ok_def)

end
