(* ===== verification/Slab.thy ===== *)
theory Slab
  imports Buddy
begin

text \<open>
  The slab allocator of \<^verbatim>\<open>kernel/mm/slab.c\<close> and the general purpose allocator of
  \<^verbatim>\<open>kernel/mm/kmalloc.c\<close> on top of it and of the buddy allocator; and the memory layout computed
  by \<^verbatim>\<open>mm_init\<close> in \<^verbatim>\<open>kernel/mm/mm.c\<close>.  A pointer is a 64-bit word, NULL is 0.  The headers at the
  start of the slabs and the \<^verbatim>\<open>next_free\<close> words at the start of the free slots are the memory
  the allocator itself uses; running out of 2 MB blocks stops the kernel (\<^verbatim>\<open>BUG_ON\<close>).
\<close>

section \<open>Model\<close>

definition SLAB_INIT_SIZE :: u64 where "SLAB_INIT_SIZE = 2 * 1024 * 1024"
definition SLAB_MIN_ORDER :: nat where "SLAB_MIN_ORDER = 5"
definition SLAB_MAX_ORDER :: nat where "SLAB_MAX_ORDER = 11"

record slab_header =
  free_list_head :: u64
  next_slab :: u64
  slab_order :: nat

record kmem =
  gmem :: global_mem
  slabs :: "nat \<Rightarrow> u64"
  slabs_locks :: "nat \<Rightarrow> lock_impl"
  headers :: "u64 \<Rightarrow> slab_header option"
  next_free :: "u64 \<Rightarrow> u64"

text \<open>
  \<^verbatim>\<open>int tmp = size\<close> keeps the low 32 bits as a signed number.  The loop counts the position of
  the highest bit.
\<close>

function log_loop :: "int \<Rightarrow> nat \<Rightarrow> nat" where
  "log_loop tmp k = (if tmp > 1 then log_loop (tmp div 2) (k + 1) else k)"
  by auto

termination by (relation "measure (\<lambda>(tmp, _). nat tmp)") auto

declare log_loop.simps [simp del]

definition size_to_order :: "u64 \<Rightarrow> nat" where
  "size_to_order sz =
     (let k = log_loop (sint (ucast sz :: 32 word)) 0
      in if uint sz > 2 ^ k then k + 1 else k)"

definition order_to_size :: "nat \<Rightarrow> u64" where
  "order_to_size k = push_bit k 1"

fun set_slab :: "u64 \<Rightarrow> nat list \<Rightarrow> global_mem \<Rightarrow> global_mem option" where
  "set_slab a [] z = Some z"
| "set_slab a (i # is) z = do {
     p \<leftarrow> virt_to_page z (a + of_nat i * BUDDY_PAGE_SIZE);
     if p < page_num z
     then set_slab a is (z\<lparr>meta := (meta z)(p := (meta z p)\<lparr>slab := a\<rparr>)\<rparr>)
     else None }"

definition alloc_slab_memory :: "u64 \<Rightarrow> kmem \<Rightarrow> (u64 \<times> kmem) option" where
  "alloc_slab_memory sz m = do {
     let k = size_to_order (sz div BUDDY_PAGE_SIZE);
     (p_page, z1) \<leftarrow> buddy_get_pages k (gmem m);
     case p_page of
       None \<Rightarrow> None
     | Some _ \<Rightarrow> do {
         let a = page_to_virt z1 p_page;
         let page_num = unat (order_to_size k);
         z2 \<leftarrow> set_slab a [0..<page_num] z1;
         Some (a, m\<lparr>gmem := z2\<rparr>) } }"

text \<open>The loop that links the slots; \<open>n\<close> counts the iterations left.\<close>

fun link_slots :: "nat \<Rightarrow> u64 \<Rightarrow> u64 \<Rightarrow> (u64 \<Rightarrow> u64) \<Rightarrow> u64 \<Rightarrow> u64" where
  "link_slots 0 slot obj_size nf = nf(slot := 0)"
| "link_slots (Suc n) slot obj_size nf =
     link_slots n (slot + obj_size) obj_size (nf(slot := slot + obj_size))"

definition init_slab_cache :: "nat \<Rightarrow> u64 \<Rightarrow> kmem \<Rightarrow> (u64 \<times> kmem) option" where
  "init_slab_cache k sz m = do {
     (a, m1) \<leftarrow> alloc_slab_memory sz m;
     let obj_size = order_to_size k;
     let cnt = sz div obj_size - 1;
     let slot = a + obj_size;
     Some (a, m1\<lparr>headers := (headers m1)(a \<mapsto>
                  \<lparr>free_list_head = slot, next_slab = 0, slab_order = k\<rparr>),
                next_free := link_slots (unat (cnt - 1)) slot obj_size (next_free m1)\<rparr>) }"

text \<open>
  Taking the first free slot of the first slab of the chain that has one: the test of the
  given slab and the loop over \<^verbatim>\<open>next_slab\<close> do the same.  The result 0 means that every slab is
  full.
\<close>

partial_function (option) scan_slabs :: "u64 \<Rightarrow> kmem \<Rightarrow> (u64 \<times> kmem) option" where
  [code]: "scan_slabs s m =
     (if s = 0 then Some (0, m)
      else do {
        h \<leftarrow> headers m s;
        if free_list_head h \<noteq> 0
        then Some (free_list_head h, m\<lparr>headers := (headers m)(s \<mapsto>
               h\<lparr>free_list_head := next_free m (free_list_head h)\<rparr>)\<rparr>)
        else scan_slabs (next_slab h) m })"

partial_function (option) alloc_in_slab_nolock :: "u64 \<Rightarrow> nat \<Rightarrow> kmem \<Rightarrow> (u64 \<times> kmem) option" where
  [code]: "alloc_in_slab_nolock slab_header k m =
     (if slab_header = 0 then None
      else do {
        (p, m1) \<leftarrow> scan_slabs slab_header m;
        if p \<noteq> 0 then Some (p, m1)
        else do {
          (new_slab, m2) \<leftarrow> init_slab_cache k SLAB_INIT_SIZE m1;
          h \<leftarrow> headers m2 new_slab;
          alloc_in_slab_nolock new_slab k
            (m2\<lparr>headers := (headers m2)(new_slab \<mapsto> h\<lparr>next_slab := slab_header\<rparr>),
                slabs := (slabs m2)(k := new_slab)\<rparr>) } })"

definition alloc_in_slab_locked :: "u64 \<Rightarrow> nat \<Rightarrow> kmem \<Rightarrow> (u64 \<times> kmem) option" where
  "alloc_in_slab_locked slab_header k m = do {
     l \<leftarrow> lock (slabs_locks m k);
     (p, m1) \<leftarrow> alloc_in_slab_nolock slab_header k (m\<lparr>slabs_locks := (slabs_locks m)(k := l)\<rparr>);
     Some (p, m1\<lparr>slabs_locks := (slabs_locks m1)(k := unlock (slabs_locks m1 k))\<rparr>) }"

definition slab_class :: "u64 \<Rightarrow> nat" where
  "slab_class sz = (let k = size_to_order sz in if k < SLAB_MIN_ORDER then SLAB_MIN_ORDER else k)"

definition alloc_in_slab :: "u64 \<Rightarrow> kmem \<Rightarrow> (u64 \<times> kmem) option" where
  "alloc_in_slab sz m =
     (if sz > order_to_size SLAB_MAX_ORDER then None
      else alloc_in_slab_locked (slabs m (slab_class sz)) (slab_class sz) m)"

definition free_in_slab :: "u64 \<Rightarrow> kmem \<Rightarrow> kmem option" where
  "free_in_slab a m = do {
     p \<leftarrow> virt_to_page (gmem m) a;
     let s = slab (meta (gmem m) p);
     h \<leftarrow> headers m s;
     let k = slab_order h;
     l \<leftarrow> lock (slabs_locks m k);
     let m1 = m\<lparr>slabs_locks := (slabs_locks m)(k := l)\<rparr>;
     let m2 = m1\<lparr>next_free := (next_free m1)(a := free_list_head h),
                 headers := (headers m1)(s \<mapsto> h\<lparr>free_list_head := a\<rparr>)\<rparr>;
     Some (m2\<lparr>slabs_locks := (slabs_locks m2)(k := unlock (slabs_locks m2 k))\<rparr>) }"

fun init_slab_orders :: "nat list \<Rightarrow> kmem \<Rightarrow> kmem option" where
  "init_slab_orders [] m = Some m"
| "init_slab_orders (k # ks) m = do {
     (s, m1) \<leftarrow> init_slab_cache k SLAB_INIT_SIZE m;
     init_slab_orders ks (m1\<lparr>slabs := (slabs m1)(k := s),
                            slabs_locks := (slabs_locks m1)(k := lock_init)\<rparr>) }"

definition init_slab :: "kmem \<Rightarrow> kmem option" where
  "init_slab m = init_slab_orders [SLAB_MIN_ORDER..<SLAB_MAX_ORDER + 1] m"

subsection \<open>kmalloc\<close>

definition size_to_page_order :: "u64 \<Rightarrow> nat" where
  "size_to_page_order sz =
     (let pg_num = ROUND_UP sz BUDDY_PAGE_SIZE div BUDDY_PAGE_SIZE;
          k = log_loop (uint pg_num) 0
      in if uint pg_num > 2 ^ k then k + 1 else k)"

definition kmalloc :: "u64 \<Rightarrow> kmem \<Rightarrow> (u64 \<times> kmem) option" where
  "kmalloc sz m =
     (if sz \<le> push_bit SLAB_MAX_ORDER 1 then alloc_in_slab sz m
      else do {
        let k = (if sz \<le> BUDDY_PAGE_SIZE then 0 else size_to_page_order sz);
        (p_page, z) \<leftarrow> buddy_get_pages k (gmem m);
        Some (page_to_virt z p_page, m\<lparr>gmem := z\<rparr>) })"

definition kfree :: "u64 \<Rightarrow> kmem \<Rightarrow> kmem option" where
  "kfree ptr m = do {
     p \<leftarrow> virt_to_page (gmem m) ptr;
     if slab (meta (gmem m) p) \<noteq> 0 then free_in_slab ptr m
     else do { z \<leftarrow> buddy_free_pages p (gmem m); Some (m\<lparr>gmem := z\<rparr>) } }"

definition get_pages :: "nat \<Rightarrow> kmem \<Rightarrow> (u64 \<times> kmem) option" where
  "get_pages k m = do {
     (p_page, z) \<leftarrow> buddy_get_pages k (gmem m);
     Some (page_to_virt z p_page, m\<lparr>gmem := z\<rparr>) }"

definition free_pages :: "u64 \<Rightarrow> kmem \<Rightarrow> kmem option" where
  "free_pages a m = do {
     p \<leftarrow> virt_to_page (gmem m) a;
     z \<leftarrow> buddy_free_pages p (gmem m);
     Some (m\<lparr>gmem := z\<rparr>) }"

subsection \<open>mm\_init\<close>

text \<open>\<^verbatim>\<open>sizeof(struct page)\<close>: two list pointers, two words and the slab pointer.\<close>

definition page_meta_size :: u64 where "page_meta_size = 40"

text \<open>The number of pages and the address of the first one, from the free memory range.\<close>

definition mm_layout :: "u64 \<Rightarrow> u64 \<Rightarrow> u64 \<times> u64" where
  "mm_layout free_mem_start free_mem_end =
     (let npages = (free_mem_end - free_mem_start) div (BUDDY_PAGE_SIZE + page_meta_size)
      in (npages, ROUND_UP (free_mem_start + npages * page_meta_size) BUDDY_PAGE_SIZE))"

text \<open>
  \<open>physmem_map\<close> is the memory map that the machine-dependent \<^verbatim>\<open>parse_mem_map\<close> fills in.
\<close>

definition mm_init :: "(u64 \<times> u64) list \<Rightarrow> kmem \<Rightarrow> kmem option" where
  "mm_init physmem_map m =
     (case physmem_map of
        [(start, stop)] \<Rightarrow> do {
          let (npages, start_vaddr) = mm_layout (phys_to_virt start) (phys_to_virt stop);
          z \<leftarrow> init_buddy start_vaddr (unat npages) (gmem m);
          init_slab (m\<lparr>gmem := z\<rparr>) }
      | _ \<Rightarrow> None)"

section \<open>Size classes\<close>

lemma log_loop_bounds:
  "0 < n \<Longrightarrow> \<exists>d. log_loop n k = k + d \<and> 2 ^ d \<le> n \<and> n < 2 ^ (d + 1)"
proof (induction n k rule: log_loop.induct)
  case (1 n k)
  show ?case
  proof (cases "n > 1")
    case True
    with 1 obtain d where d: "log_loop (n div 2) (k + 1) = k + 1 + d" "2 ^ d \<le> n div 2"
      "n div 2 < 2 ^ (d + 1)" by fastforce
    then have "2 ^ Suc d \<le> n" "n < 2 ^ (Suc d + 1)" by auto
    moreover have "log_loop n k = k + Suc d" using True d(1) by (subst log_loop.simps) simp
    ultimately show ?thesis by blast
  next
    case False
    then have "log_loop n k = k + 0" "n = 1" using 1(2) by (simp_all add: log_loop.simps [of n k])
    then show ?thesis by (intro exI [of _ 0]) simp
  qed
qed

text \<open>The order is the logarithm rounded up, for a size that an \<^verbatim>\<open>int\<close> holds.\<close>

lemma ceil_log:
  assumes "0 < n" "k = log_loop n 0" "r = (if n > 2 ^ k then k + 1 else k)"
  shows "n \<le> 2 ^ r" and "r = 0 \<or> 2 ^ (r - 1) < n"
proof -
  from log_loop_bounds [OF assms(1), of 0] assms(2) have b: "2 ^ k \<le> n" "n < 2 ^ (k + 1)" by auto
  then show "n \<le> 2 ^ r" using assms(3) by auto
  have "k = 0 \<or> (2 :: int) ^ (k - 1) < 2 ^ k" by (cases k) auto
  with b show "r = 0 \<or> 2 ^ (r - 1) < n" using assms(3) by auto
qed

lemma uint_int_unat: "uint w = int (unat w)"
  by simp

lemma sint_small:
  assumes "unat sz < 2 ^ 31"
  shows "sint (ucast (sz :: u64) :: 32 word) = uint sz"
proof -
  have u: "uint sz < 2 ^ 31" using assms unfolding uint_int_unat of_nat_less_numeral_power_cancel_iff .
  have "uint (ucast sz :: 32 word) = take_bit 32 (uint sz)"
    by (simp add: unsigned_ucast_eq)
  also have "\<dots> = uint sz" using u by (intro take_bit_int_eq_self) auto
  finally have e: "uint (ucast sz :: 32 word) = uint sz" .
  have "sint (ucast sz :: 32 word) = signed_take_bit 31 (uint sz)"
    unfolding sint_uint e by simp
  also have "\<dots> = uint sz" using u
    by (intro signed_take_bit_int_eq_self) (auto intro: order_trans [of _ 0])
  finally show ?thesis .
qed

lemma size_to_order_bounds:
  assumes "0 < sz" "unat sz < 2 ^ 31"
  shows "unat sz \<le> 2 ^ size_to_order sz"
    and "size_to_order sz = 0 \<or> 2 ^ (size_to_order sz - 1) < unat sz"
proof -
  have p: "0 < uint sz" using assms(1) by (simp add: word_less_def)
  have e: "size_to_order sz = (if uint sz > 2 ^ log_loop (uint sz) 0 then log_loop (uint sz) 0 + 1
      else log_loop (uint sz) 0)"
    by (simp add: size_to_order_def sint_small [OF assms(2)] Let_def)
  note c = ceil_log [OF p refl e]
  show "unat sz \<le> 2 ^ size_to_order sz"
    using c(1) unfolding uint_int_unat of_nat_le_numeral_power_cancel_iff .
  show "size_to_order sz = 0 \<or> 2 ^ (size_to_order sz - 1) < unat sz"
    using c(2) unfolding uint_int_unat numeral_power_less_of_nat_cancel_iff .
qed

lemma slab_class_ok:
  assumes "sz \<le> order_to_size SLAB_MAX_ORDER"
  shows "unat sz \<le> 2 ^ slab_class sz" and "slab_class sz \<in> {SLAB_MIN_ORDER..SLAB_MAX_ORDER}"
    and "slab_class sz = SLAB_MIN_ORDER \<or> 2 ^ (slab_class sz - 1) < unat sz"
proof -
  have s: "unat sz \<le> 2048"
    using assms by (simp add: order_to_size_def SLAB_MAX_ORDER_def word_le_nat_alt)
  show "slab_class sz = SLAB_MIN_ORDER \<or> 2 ^ (slab_class sz - 1) < unat sz"
    "unat sz \<le> 2 ^ slab_class sz" "slab_class sz \<in> {SLAB_MIN_ORDER..SLAB_MAX_ORDER}"
  proof -
    have z: "size_to_order 0 = 0" by (simp add: size_to_order_def log_loop.simps)
    have b: "size_to_order sz = 0 \<or> 2 ^ (size_to_order sz - 1) < unat sz"
      "unat sz \<le> 2 ^ size_to_order sz"
      using size_to_order_bounds [of sz] s z by (cases "sz = 0"; simp add: word_gt_0)+
    then have "size_to_order sz = 0 \<or> (2 :: nat) ^ (size_to_order sz - 1) < 2 ^ 11" using s by auto
    then have "size_to_order sz = 0 \<or> size_to_order sz - 1 < 11"
      by (simp only: power_strict_increasing_iff one_less_numeral_iff num.simps semiring_norm)
    then have m: "size_to_order sz \<le> 11" by auto
    show "slab_class sz = SLAB_MIN_ORDER \<or> 2 ^ (slab_class sz - 1) < unat sz"
      using b(1) by (auto simp: slab_class_def SLAB_MIN_ORDER_def Let_def)
    have "2 ^ size_to_order sz \<le> (2 :: nat) ^ slab_class sz"
      by (rule power_increasing) (simp_all add: slab_class_def Let_def)
    with b(2) show "unat sz \<le> 2 ^ slab_class sz" by linarith
    show "slab_class sz \<in> {SLAB_MIN_ORDER..SLAB_MAX_ORDER}"
      using m by (simp add: slab_class_def SLAB_MIN_ORDER_def SLAB_MAX_ORDER_def Let_def)
  qed
qed

lemma slab_pages_order: "size_to_order (SLAB_INIT_SIZE div BUDDY_PAGE_SIZE) = 9"
proof -
  have e: "SLAB_INIT_SIZE div BUDDY_PAGE_SIZE = 512"
    by (simp add: SLAB_INIT_SIZE_def BUDDY_PAGE_SIZE_def BUDDY_PAGE_SHIFT_def)
  have "log_loop 512 0 = 9" by (simp add: log_loop.simps)
  then show ?thesis unfolding e size_to_order_def by (simp add: sint_small)
qed

section \<open>Free lists and chains of slabs\<close>

fun flist :: "(u64 \<Rightarrow> u64) \<Rightarrow> u64 \<Rightarrow> u64 list \<Rightarrow> bool" where
  "flist nf p [] \<longleftrightarrow> p = 0"
| "flist nf p (x # xs) \<longleftrightarrow> p = x \<and> x \<noteq> 0 \<and> flist nf (nf x) xs"

fun chain :: "(u64 \<Rightarrow> slab_header option) \<Rightarrow> u64 \<Rightarrow> u64 list \<Rightarrow> bool" where
  "chain H p [] \<longleftrightarrow> p = 0"
| "chain H p (s # ss) \<longleftrightarrow> p = s \<and> s \<noteq> 0 \<and> (\<exists>h. H s = Some h \<and> chain H (next_slab h) ss)"

definition slots :: "u64 \<Rightarrow> nat \<Rightarrow> u64 list" where
  "slots s k = map (\<lambda>j. s + of_nat (j * 2 ^ k)) [1..<2 ^ (21 - k)]"

lemma flist_cong: "flist nf p xs \<Longrightarrow> (\<And>x. x \<in> set xs \<Longrightarrow> nf' x = nf x) \<Longrightarrow> flist nf' p xs"
  by (induction xs arbitrary: p) auto

lemma flist_head: "flist nf p xs \<Longrightarrow> p = 0 \<longleftrightarrow> xs = []"
  by (cases xs) auto

lemma chain_cong:
  "chain H p ss \<Longrightarrow> (\<And>s h. s \<in> set ss \<Longrightarrow> H s = Some h \<Longrightarrow> \<exists>h'. H' s = Some h' \<and> next_slab h' = next_slab h) \<Longrightarrow>
   chain H' p ss"
  by (induction ss arbitrary: p) fastforce+

lemma chain_nonzero: "chain H p ss \<Longrightarrow> 0 \<notin> set ss"
  by (induction ss arbitrary: p) auto

lemma chain_head: "chain H p ss \<Longrightarrow> p = 0 \<longleftrightarrow> ss = []"
  by (cases ss) auto

lemma link_slots_other:
  "(\<And>j. j \<le> n \<Longrightarrow> a \<noteq> slot + of_nat j * d) \<Longrightarrow> link_slots n slot d nf a = nf a"
proof (induction n arbitrary: slot nf)
  case 0
  from 0 [of 0] show ?case by simp
next
  case (Suc n)
  have "a \<noteq> slot + d + of_nat j * d" if "j \<le> n" for j
    using Suc.prems [of "Suc j"] that by (simp add: algebra_simps)
  with Suc.IH Suc.prems [of 0] show ?case by simp
qed

lemma map_upt_shift: "map (\<lambda>j. s + d + of_nat j * d) [0..<n] = map (\<lambda>j. s + of_nat j * d) [1..<Suc n]"
  for s d :: u64
proof -
  have "[1..<Suc n] = map Suc [0..<n]" by (simp add: map_Suc_upt)
  then show ?thesis by (simp add: algebra_simps)
qed

lemma link_slots_flist:
  assumes "distinct (map (\<lambda>j. slot + of_nat j * d) [0..<Suc n])"
    and "0 \<notin> set (map (\<lambda>j. slot + of_nat j * d) [0..<Suc n])"
  shows "flist (link_slots n slot d nf) slot (map (\<lambda>j. slot + of_nat j * d) [0..<Suc n])"
  using assms
proof (induction n arbitrary: slot nf)
  case (Suc n)
  let ?xs = "map (\<lambda>j. slot + d + of_nat j * d) [0..<Suc n]"
  have e: "map (\<lambda>j. slot + of_nat j * d) [0..<Suc (Suc n)] = slot # ?xs"
    unfolding map_upt_shift by (simp add: upt_conv_Cons del: upt_Suc)
  have slot: "slot \<notin> set ?xs" and d: "distinct ?xs" and z: "0 \<notin> set (slot # ?xs)"
    using Suc.prems unfolding e by auto
  have "link_slots n (slot + d) d (nf(slot := slot + d)) slot = slot + d"
  proof (subst link_slots_other)
    fix j assume j: "j \<le> n"
    have "slot + d + of_nat j * d \<in> set ?xs"
      unfolding set_map by (rule imageI) (use j in \<open>simp del: upt_Suc\<close>)
    with slot show "slot \<noteq> slot + d + of_nat j * d" by metis
  qed simp
  moreover have "flist (link_slots n (slot + d) d (nf(slot := slot + d))) (slot + d) ?xs"
    using d z by (intro Suc.IH) auto
  ultimately show ?case unfolding e using z by simp
qed simp

text \<open>
  \<open>slab_at z A s\<close>: the address \<open>s\<close> is that of a 2 MB block handed out by the buddy allocator
  all of whose pages point back to it.
\<close>

definition slab_at :: "global_mem \<Rightarrow> (nat \<times> nat) set \<Rightarrow> u64 \<Rightarrow> bool" where
  "slab_at z A s \<longleftrightarrow> (\<exists>i. (i, 9) \<in> A \<and> i + 512 \<le> page_num z \<and> s = page_to_virt z (Some i)
     \<and> (\<forall>j < 512. slab (meta z (i + j)) = s))"

definition zone_ok :: "global_mem \<Rightarrow> bool" where
  "zone_ok z \<longleftrightarrow> zone_addr_ok z \<and> start_addr z \<noteq> 0"

lemma slab_byte:
  assumes "slab_at z A s" and "zone_ok z" and x: "x < 2 ^ 21"
  shows "\<exists>p. virt_to_page z (s + of_nat x) = Some p \<and> slab (meta z p) = s"
    and "unat (s + of_nat x) = unat s + x" and "s + of_nat x \<noteq> 0"
proof -
  from assms(1) obtain i where i: "i + 512 \<le> page_num z" "s = page_to_virt z (Some i)"
    "\<forall>j < 512. slab (meta z (i + j)) = s" by (auto simp: slab_at_def)
  have z: "zone_addr_ok z" "start_addr z \<noteq> 0" using assms(2) by (simp_all add: zone_ok_def)
  let ?s = "unat (start_addr z)"
  have le: "i * 4096 + x < page_num z * 4096" using i(1) x by simp
  have "(i * 4096 + x) div 4096 = i + x div 4096" by simp
  moreover have "x div 4096 < 512" using x by simp
  ultimately show "\<exists>p. virt_to_page z (s + of_nat x) = Some p \<and> slab (meta z p) = s"
    unfolding i(2) page_to_virt_nat using virt_to_page_offset [OF z(1) less_imp_le [OF le]] i(2,3)
    by auto
  have u: "unat (s + of_nat x) = ?s + (i * 4096 + x)"
    unfolding i(2) page_to_virt_nat by (rule unat_zone_addr [OF z(1)]) (use le in simp)
  have "unat s = ?s + i * 4096"
    using page_to_virt_nat [of z i 0] unat_zone_addr [OF z(1), of "?s + i * 4096"] i(1,2) by simp
  with u show "unat (s + of_nat x) = unat s + x" by simp
  have "?s \<noteq> 0" using z(2) by (simp add: unat_eq_0)
  with u show "s + of_nat x \<noteq> 0" by (metis add_is_0 unat_0)
qed

section \<open>The buddy allocator does not touch the slab pointers\<close>

lemma slab_meta_simps [simp]:
  "slab (meta (set_page_order_buddy i k z) p) = slab (meta z p)"
  "slab (meta (clear_page_order_buddy i z) p) = slab (meta z p)"
  by (simp_all add: set_page_order_buddy_def clear_page_order_buddy_def)

lemma slab_split [simp]: "slab (meta (split i low high sz z) p) = slab (meta z p)"
proof (induction i low high sz z rule: split.induct)
  case (1 i low high sz z)
  then show ?case by (subst split.simps) (simp add: Let_def)
qed

lemma slab_alloc_from: "alloc_from k c z = (r, z') \<Longrightarrow> slab (meta z' p) = slab (meta z p)"
proof (induction k c z rule: alloc_from.induct)
  case (1 k c z)
  from 1(2) show ?case
    by (subst (asm) alloc_from.simps)
      (auto simp: take_page_def Let_def 1(1) split: if_splits)
qed

lemma slab_get_pages:
  assumes "buddy_get_pages k z = Some (r, z')"
  shows "slab (meta z' p) = slab (meta z p)"
proof -
  from assms obtain l where l: "lock (buddy_lock z) = Some l" "k < BUDDY_MAX_ORDER"
    by (auto simp: buddy_get_pages_def bind_Some_iff split: if_splits)
  obtain r1 z1 where a: "alloc_from k k (z\<lparr>buddy_lock := l\<rparr>) = (r1, z1)" by force
  then have "z' = z1\<lparr>buddy_lock := unlock (buddy_lock z1)\<rparr>"
    using assms l by (simp add: buddy_get_pages_def alloc_page_def)
  with slab_alloc_from [OF a, of p] show ?thesis by simp
qed

lemma slab_merge: "merge i k z = Some (j, k', z') \<Longrightarrow> slab (meta z' p) = slab (meta z p)"
proof (induction i k z rule: merge.induct)
  case (1 i k z)
  from 1(2) show ?case
    by (subst (asm) merge.simps) (auto simp: Let_def 1(1) split: if_splits)
qed

lemma slab_free_pages: "buddy_free_pages i z = Some z' \<Longrightarrow> slab (meta z' p) = slab (meta z p)"
  by (auto simp: buddy_free_pages_def bind_Some_iff Let_def split: if_splits
      dest!: slab_merge [of _ _ _ _ _ _ p])

lemma set_slab_ok:
  assumes "zone_addr_ok z" and "\<forall>j \<in> set is. i + j < page_num z" and "a = page_to_virt z (Some i)"
  shows "set_slab a is z = Some (z\<lparr>meta := (\<lambda>p. if p \<in> (+) i ` set is then (meta z p)\<lparr>slab := a\<rparr>
      else meta z p)\<rparr>)"
  using assms
proof (induction "is" arbitrary: z)
  case (Cons j js)
  have le: "(i + j) * 4096 \<le> page_num z * 4096" using Cons.prems(2) by simp
  have "a + of_nat j * BUDDY_PAGE_SIZE = of_nat (unat (start_addr z) + (i + j) * 4096)"
    using page_to_virt_nat [of z i "j * 4096"] Cons.prems(3)
    by (simp add: BUDDY_PAGE_SIZE_def BUDDY_PAGE_SHIFT_def algebra_simps)
  then have v: "virt_to_page z (a + of_nat j * BUDDY_PAGE_SIZE) = Some (i + j)"
    using virt_to_page_offset [OF Cons.prems(1) le] by simp
  let ?z = "z\<lparr>meta := (meta z)(i + j := (meta z (i + j))\<lparr>slab := a\<rparr>)\<rparr>"
  have "zone_addr_ok ?z" "\<forall>j \<in> set js. i + j < page_num ?z" "a = page_to_virt ?z (Some i)"
    using Cons.prems by (simp_all add: zone_addr_ok_def page_to_virt_def)
  from Cons.IH [OF this] v Cons.prems(2) show ?case
    by (auto simp: fun_eq_iff intro!: arg_cong [where f = "\<lambda>m. z\<lparr>meta := m\<rparr>"])
qed simp

lemma buddy_inv_slab:
  "buddy_inv z A \<Longrightarrow> buddy_inv (z\<lparr>meta := (\<lambda>p. if P p then (meta z p)\<lparr>slab := a\<rparr> else meta z p)\<rparr>) A"
  by (auto simp: buddy_inv_def zone_inv_def used_ok_def tail_clear_def get_order_def check_buddy_def)

lemma set_slab_page_num: "set_slab a is z = Some z' \<Longrightarrow> page_num z' = page_num z"
  by (induction "is" arbitrary: z) (auto simp: bind_Some_iff split: if_splits)

lemma split_page_num [simp]: "page_num (split i low high sz z) = page_num z"
proof (induction i low high sz z rule: split.induct)
  case (1 i low high sz z)
  then show ?case by (subst split.simps) (simp add: Let_def)
qed

lemma alloc_from_page_num: "alloc_from k c z = (r, z') \<Longrightarrow> page_num z' = page_num z"
proof (induction k c z rule: alloc_from.induct)
  case (1 k c z)
  from 1(2) show ?case
    by (subst (asm) alloc_from.simps) (auto simp: take_page_def Let_def 1(1) split: if_splits)
qed

lemma get_pages_page_num: "buddy_get_pages k z = Some (r, z') \<Longrightarrow> page_num z' = page_num z"
proof -
  assume a: "buddy_get_pages k z = Some (r, z')"
  then obtain l where l: "lock (buddy_lock z) = Some l" "k < BUDDY_MAX_ORDER"
    by (auto simp: buddy_get_pages_def bind_Some_iff split: if_splits)
  obtain r1 z1 where z1: "alloc_from k k (z\<lparr>buddy_lock := l\<rparr>) = (r1, z1)" by force
  then have "z' = z1\<lparr>buddy_lock := unlock (buddy_lock z1)\<rparr>"
    using a l by (simp add: buddy_get_pages_def alloc_page_def)
  with alloc_from_page_num [OF z1] show ?thesis by simp
qed

lemma init_slab_cache_page_num:
  "init_slab_cache k sz m = Some (s, m') \<Longrightarrow> page_num (gmem m') = page_num (gmem m)"
  by (auto simp: init_slab_cache_def alloc_slab_memory_def bind_Some_iff Let_def
      split: option.splits dest!: set_slab_page_num get_pages_page_num)

section \<open>The invariant of the slab allocator\<close>

text \<open>
  \<open>C k\<close> is the chain of slabs of order \<open>k\<close> and \<open>L\<close> the set of live objects with their order.  Each
  slab's free list holds exactly its slots that are not live.
\<close>

definition slab_orders :: "nat set" where
  "slab_orders = {SLAB_MIN_ORDER..SLAB_MAX_ORDER}"

definition slab_ok :: "kmem \<Rightarrow> (u64 \<times> nat) set \<Rightarrow> nat \<Rightarrow> u64 \<Rightarrow> bool" where
  "slab_ok m L k s \<longleftrightarrow> (\<exists>h fl. headers m s = Some h \<and> slab_order h = k
     \<and> flist (next_free m) (free_list_head h) fl \<and> distinct fl
     \<and> set fl = set (slots s k) - {p. (p, k) \<in> L})"

definition slab_inv ::
  "nat set \<Rightarrow> kmem \<Rightarrow> (nat \<times> nat) set \<Rightarrow> (nat \<Rightarrow> u64 list) \<Rightarrow> (u64 \<times> nat) set \<Rightarrow> bool" where
  "slab_inv K m A C L \<longleftrightarrow> K \<subseteq> slab_orders \<and> buddy_inv (gmem m) A \<and> zone_ok (gmem m)
     \<and> (\<forall>k \<in> K. C k \<noteq> [] \<and> chain (headers m) (slabs m k) (C k)
          \<and> (\<forall>s \<in> set (C k). slab_at (gmem m) A s \<and> slab_ok m L k s))
     \<and> (\<forall>(p, k) \<in> L. k \<in> K \<and> (\<exists>s \<in> set (C k). p \<in> set (slots s k)))"

lemma slab_orders_cases:
  assumes "k \<in> slab_orders"
  shows "2 ^ (21 - k) * 2 ^ k = (2 :: nat) ^ 21" and "k < 12" and "2 < (2 :: nat) ^ (21 - k)"
proof -
  have k: "k \<in> {5, 6, 7, 8, 9, 10, 11}"
    using assms by (auto simp: slab_orders_def SLAB_MIN_ORDER_def SLAB_MAX_ORDER_def)
  then show "k < 12" "2 < (2 :: nat) ^ (21 - k)" by auto
  from k show "2 ^ (21 - k) * 2 ^ k = (2 :: nat) ^ 21" by (auto simp flip: power_add)
qed

lemma slots_mem:
  assumes "k \<in> slab_orders" and "p \<in> set (slots s k)"
  shows "\<exists>j. p = s + of_nat (j * 2 ^ k) \<and> 1 \<le> j \<and> (j + 1) * 2 ^ k \<le> 2 ^ 21"
proof -
  from assms(2) obtain j where j: "p = s + of_nat (j * 2 ^ k)" "1 \<le> j" "j < 2 ^ (21 - k)"
    by (auto simp: slots_def)
  then have "(j + 1) * 2 ^ k \<le> 2 ^ (21 - k) * 2 ^ k" by (intro mult_le_mono1) simp
  with j slab_orders_cases(1) [OF assms(1)] show ?thesis by auto
qed

lemma slots_offset:
  assumes "k \<in> slab_orders" and "p \<in> set (slots s k)"
  shows "\<exists>x < 2 ^ 21. p = s + of_nat x"
proof -
  from slots_mem [OF assms] obtain j where j: "p = s + of_nat (j * 2 ^ k)" "(j + 1) * 2 ^ k \<le> 2 ^ 21"
    by blast
  have "j * 2 ^ k < (j + 1) * 2 ^ k" by simp
  with j show ?thesis by (intro exI [of _ "j * 2 ^ k"]) linarith
qed

lemma slots_page:
  assumes "slab_at z A s" "zone_ok z" "k \<in> slab_orders" "p \<in> set (slots s k)"
  shows "\<exists>pg. virt_to_page z p = Some pg \<and> slab (meta z pg) = s"
  using slots_offset [OF assms(3,4)] slab_byte(1) [OF assms(1,2)] by blast

lemma slots_distinct:
  assumes "slab_at z A s" "zone_ok z" "k \<in> slab_orders"
  shows "distinct (slots s k)" and "0 \<notin> set (slots s k)"
proof -
  show "0 \<notin> set (slots s k)"
    using slots_offset [OF assms(3), of 0 s] slab_byte(3) [OF assms(1,2)] by metis
  have "i = j" if "s + of_nat (i * 2 ^ k) = s + of_nat (j * 2 ^ k)"
    "i < 2 ^ (21 - k)" "j < 2 ^ (21 - k)" for i j
  proof -
    have l: "i * 2 ^ k < 2 ^ 21" "j * 2 ^ k < 2 ^ 21"
      unfolding slab_orders_cases(1) [OF assms(3), symmetric] using that(2,3) by simp_all
    have "unat s + i * 2 ^ k = unat (s + of_nat (i * 2 ^ k))"
      by (rule slab_byte(2) [OF assms(1,2) l(1), symmetric])
    also have "\<dots> = unat (s + of_nat (j * 2 ^ k))" by (simp only: that(1))
    also have "\<dots> = unat s + j * 2 ^ k" by (rule slab_byte(2) [OF assms(1,2) l(2)])
    finally have "i * 2 ^ k = j * 2 ^ k" by (simp only: add_left_cancel)
    then show ?thesis by simp
  qed
  then show "distinct (slots s k)" by (auto simp: slots_def distinct_map intro!: inj_onI)
qed

lemma slots_link:
  assumes "k \<in> slab_orders"
  shows "slots s k = map (\<lambda>j. (s + order_to_size k) + of_nat j * order_to_size k)
    [0..<Suc (unat (SLAB_INIT_SIZE div order_to_size k - 1 - 1))]"
proof -
  have k: "k \<in> {5, 6, 7, 8, 9, 10, 11}"
    using assms by (auto simp: slab_orders_def SLAB_MIN_ORDER_def SLAB_MAX_ORDER_def)
  then have n: "Suc (Suc (unat (SLAB_INIT_SIZE div order_to_size k - 1 - 1))) = 2 ^ (21 - k)"
    by (auto simp: SLAB_INIT_SIZE_def order_to_size_def)
  have "order_to_size k = of_nat (2 ^ k)" by (simp add: order_to_size_def)
  then show ?thesis unfolding map_upt_shift n slots_def by simp
qed

lemma page_to_virt_inj:
  assumes "zone_addr_ok z" "i \<le> page_num z" "j \<le> page_num z"
    and "page_to_virt z (Some i) = page_to_virt z (Some j)"
  shows "i = j"
proof -
  have "unat (start_addr z) + i * 4096 = unat (start_addr z) + j * 4096"
    using assms(2-4) page_to_virt_nat [of z i 0] page_to_virt_nat [of z j 0]
      unat_zone_addr [OF assms(1), of "unat (start_addr z) + i * 4096"]
      unat_zone_addr [OF assms(1), of "unat (start_addr z) + j * 4096"] by simp
  then show ?thesis by simp
qed

lemma slab_at_new_block:
  assumes z: "zone_ok z" and t: "slab_at z A t" and i: "fits (page_num z) (i, 9)"
    and d: "\<forall>b \<in> A. blk b \<inter> blk (i, 9) = {}"
    and g: "geom z' = geom z" and s: "s = page_to_virt z (Some i)"
    and m: "\<And>p. slab (meta z' p) = (if p \<in> (+) i ` {0..<512} then s else slab (meta z p))"
  shows "slab_at z' (insert (i, 9) A) t" and "t \<noteq> s"
proof -
  from t obtain j where j: "(j, 9) \<in> A" "j + 512 \<le> page_num z" "t = page_to_virt z (Some j)"
    "\<forall>x < 512. slab (meta z (j + x)) = t" by (auto simp: slab_at_def)
  have b: "blk (j, 9) \<inter> blk (i, 9) = {}" using d j(1) by blast
  then have n: "j + x \<notin> (+) i ` {0..<512}" if "x < 512" for x
    using that by (auto simp: blk_def)
  have "\<forall>x < 512. slab (meta z' (j + x)) = t" using j(4) n unfolding m by presburger
  with j g show "slab_at z' (insert (i, 9) A) t"
    by (auto simp: slab_at_def geom_def page_to_virt_def)
  show "t \<noteq> s"
  proof
    assume "t = s"
    then have "j = i"
      using page_to_virt_inj [of z j i] z i j(2,3) s by (simp add: zone_ok_def fits_def)
    with b blk_nonempty [of i 9] show False by blast
  qed
qed

lemma alloc_slab_memory_ok:
  assumes I: "buddy_inv (gmem m) A" and z: "zone_ok (gmem m)"
  shows "alloc_slab_memory SLAB_INIT_SIZE m = None
      \<and> (\<forall>i. fits (page_num (gmem m)) (i, 9) \<longrightarrow> (\<exists>b \<in> A. blk b \<inter> blk (i, 9) \<noteq> {}))
    \<or> (\<exists>s i z'. alloc_slab_memory SLAB_INIT_SIZE m = Some (s, m\<lparr>gmem := z'\<rparr>)
      \<and> buddy_inv z' (insert (i, 9) A) \<and> zone_ok z' \<and> slab_at z' (insert (i, 9) A) s
      \<and> (\<forall>t. slab_at (gmem m) A t \<longrightarrow> slab_at z' (insert (i, 9) A) t \<and> t \<noteq> s))"
proof -
  have "(9 :: nat) < BUDDY_MAX_ORDER" by (simp add: BUDDY_MAX_ORDER_def)
  from buddy_get_pages_ok [OF I this] obtain r z1 where g: "buddy_get_pages 9 (gmem m) = Some (r, z1)"
    "geom z1 = geom (gmem m)"
    and R: "case r of None \<Rightarrow> buddy_inv z1 A
          \<and> (\<forall>i. fits (page_num (gmem m)) (i, 9) \<longrightarrow> (\<exists>b \<in> A. blk b \<inter> blk (i, 9) \<noteq> {}))
        | Some i \<Rightarrow> buddy_inv z1 (insert (i, 9) A) \<and> fits (page_num (gmem m)) (i, 9)
          \<and> (\<forall>b \<in> A. blk b \<inter> blk (i, 9) = {})" by blast
  show ?thesis
  proof (cases r)
    case None
    with g R show ?thesis by (simp add: alloc_slab_memory_def slab_pages_order Let_def)
  next
    case (Some i)
    with R have i: "buddy_inv z1 (insert (i, 9) A)" "fits (page_num (gmem m)) (i, 9)"
      "\<forall>b \<in> A. blk b \<inter> blk (i, 9) = {}" by auto
    let ?s = "page_to_virt z1 (Some i)"
    let ?z = "z1\<lparr>meta := (\<lambda>p. if p \<in> (+) i ` set [0..<512] then (meta z1 p)\<lparr>slab := ?s\<rparr> else meta z1 p)\<rparr>"
    have ok: "zone_addr_ok z1" "zone_ok ?z" "geom ?z = geom (gmem m)" "i + 512 \<le> page_num z1"
      "?s = page_to_virt (gmem m) (Some i)"
      using z g(2) i(2) by (auto simp: zone_ok_def zone_addr_ok_def geom_def fits_def page_to_virt_def)
    have "set_slab ?s [0..<512] z1 = Some ?z"
      by (rule set_slab_ok [OF ok(1)]) (use ok(4) in auto)
    then have "alloc_slab_memory SLAB_INIT_SIZE m = Some (?s, m\<lparr>gmem := ?z\<rparr>)"
      using g Some by (simp add: alloc_slab_memory_def slab_pages_order order_to_size_def Let_def)
    moreover have "buddy_inv ?z (insert (i, 9) A)" by (rule buddy_inv_slab [OF i(1)])
    moreover have "slab_at ?z (insert (i, 9) A) ?s"
      unfolding slab_at_def using ok(4) by (intro exI [of _ i]) (auto simp: page_to_virt_def)
    moreover have "slab (meta ?z p) = (if p \<in> (+) i ` {0..<512} then ?s else slab (meta (gmem m) p))" for p
      using slab_get_pages [OF g(1), of p] by simp
    ultimately show ?thesis
      using slab_at_new_block [OF z _ i(2,3) ok(3,5)] ok(2) by blast
  qed
qed

lemma slab_ok_frame:
  assumes "slab_ok m L k s" and "headers m' s = headers m s"
    and "\<And>p. p \<in> set (slots s k) \<Longrightarrow> next_free m' p = next_free m p"
    and "\<And>p. p \<in> set (slots s k) \<Longrightarrow> (p, k) \<in> L' \<longleftrightarrow> (p, k) \<in> L"
  shows "slab_ok m' L' k s"
proof -
  from assms(1) obtain h fl where h: "headers m s = Some h" "slab_order h = k"
    "flist (next_free m) (free_list_head h) fl" "distinct fl" "set fl = set (slots s k) - {p. (p, k) \<in> L}"
    by (auto simp: slab_ok_def)
  moreover have "flist (next_free m') (free_list_head h) fl"
    using h(3) by (rule flist_cong) (use assms(3) h(5) in auto)
  moreover have "set fl = set (slots s k) - {p. (p, k) \<in> L'}" using h(5) assms(4) by blast
  ultimately show ?thesis using assms(2) by (auto simp: slab_ok_def)
qed

lemma slots_disjoint:
  assumes "slab_at z A s" "slab_at z A t" "zone_ok z" "k \<in> slab_orders" "k' \<in> slab_orders"
    and "p \<in> set (slots s k)" "p \<in> set (slots t k')"
  shows "s = t"
  using slots_page [OF assms(1,3,4,6)] slots_page [OF assms(2,3,5,7)] by auto

lemma slab_invD:
  assumes "slab_inv K m A C L"
  shows "K \<subseteq> slab_orders" "buddy_inv (gmem m) A" "zone_ok (gmem m)"
    and "L \<subseteq> UNIV \<times> K" and "k \<in> K \<Longrightarrow> C k \<noteq> []"
    and "k \<in> K \<Longrightarrow> chain (headers m) (slabs m k) (C k)"
    and "k \<in> K \<Longrightarrow> s \<in> set (C k) \<Longrightarrow> slab_at (gmem m) A s"
    and "k \<in> K \<Longrightarrow> s \<in> set (C k) \<Longrightarrow> slab_ok m L k s"
    and "(p, k) \<in> L \<Longrightarrow> k \<in> K \<and> (\<exists>s \<in> set (C k). p \<in> set (slots s k))"
  using assms by (auto simp: slab_inv_def)

text \<open>
  \<open>new_slab m m' s k A A'\<close>: the step from \<open>m\<close> to \<open>m'\<close> added an empty slab \<open>s\<close> of order \<open>k\<close> and left the
  others as they were.
\<close>

definition new_slab :: "kmem \<Rightarrow> kmem \<Rightarrow> u64 \<Rightarrow> nat \<Rightarrow> (nat \<times> nat) set \<Rightarrow> (nat \<times> nat) set \<Rightarrow> bool" where
  "new_slab m m' s k A A' \<longleftrightarrow> slab_at (gmem m') A' s \<and> s \<noteq> 0
     \<and> headers m' = (headers m)(s \<mapsto> \<lparr>free_list_head = s + order_to_size k, next_slab = 0, slab_order = k\<rparr>)
     \<and> flist (next_free m') (s + order_to_size k) (slots s k)
     \<and> (\<forall>p. p \<notin> set (slots s k) \<longrightarrow> next_free m' p = next_free m p)
     \<and> slabs m' = slabs m \<and> slabs_locks m' = slabs_locks m
     \<and> page_num (gmem m') = page_num (gmem m) \<and> buddy_inv (gmem m') A' \<and> zone_ok (gmem m')
     \<and> (\<forall>t. slab_at (gmem m) A t \<longrightarrow> slab_at (gmem m') A' t \<and> t \<noteq> s)"

lemma init_slab_cache_ok:
  assumes I: "buddy_inv (gmem m) A" and z: "zone_ok (gmem m)" and k: "k \<in> slab_orders"
  shows "init_slab_cache k SLAB_INIT_SIZE m = None
      \<and> (\<forall>i. fits (page_num (gmem m)) (i, 9) \<longrightarrow> (\<exists>b \<in> A. blk b \<inter> blk (i, 9) \<noteq> {}))
    \<or> (\<exists>s m' i. init_slab_cache k SLAB_INIT_SIZE m = Some (s, m') \<and> new_slab m m' s k A (insert (i, 9) A))"
  using alloc_slab_memory_ok [OF I z]
proof (elim disjE exE conjE)
  assume "alloc_slab_memory SLAB_INIT_SIZE m = None"
    and "\<forall>i. fits (page_num (gmem m)) (i, 9) \<longrightarrow> (\<exists>b \<in> A. blk b \<inter> blk (i, 9) \<noteq> {})"
  then show ?thesis by (simp add: init_slab_cache_def)
next
  fix s i z'
  assume a: "alloc_slab_memory SLAB_INIT_SIZE m = Some (s, m\<lparr>gmem := z'\<rparr>)"
    and I': "buddy_inv z' (insert (i, 9) A)" and z': "zone_ok z'" and s: "slab_at z' (insert (i, 9) A) s"
    and old: "\<forall>t. slab_at (gmem m) A t \<longrightarrow> slab_at z' (insert (i, 9) A) t \<and> t \<noteq> s"
  let ?n = "unat (SLAB_INIT_SIZE div order_to_size k - 1 - 1)"
  let ?slot = "s + order_to_size k"
  let ?nf = "link_slots ?n ?slot (order_to_size k) (next_free m)"
  let ?m = "m\<lparr>gmem := z', headers := (headers m)(s \<mapsto>
      \<lparr>free_list_head = ?slot, next_slab = 0, slab_order = k\<rparr>), next_free := ?nf\<rparr>"
  note sl = slots_link [OF k, of s] and d = slots_distinct [OF s z' k]
  have init: "init_slab_cache k SLAB_INIT_SIZE m = Some (s, ?m)"
    by (simp add: init_slab_cache_def a Let_def)
  have "flist ?nf ?slot (slots s k)"
    unfolding sl by (rule link_slots_flist) (use d sl in simp_all)
  moreover have "?nf p = next_free m p" if "p \<notin> set (slots s k)" for p
  proof (rule link_slots_other)
    fix j assume "j \<le> ?n"
    then have "?slot + of_nat j * order_to_size k \<in> set (slots s k)"
      unfolding sl set_map by (intro imageI) (simp del: upt_Suc)
    with that show "p \<noteq> ?slot + of_nat j * order_to_size k" by metis
  qed
  moreover have "s \<noteq> 0" using slab_byte(3) [OF s z', of 0] by simp
  moreover have "page_num (gmem ?m) = page_num (gmem m)" by (rule init_slab_cache_page_num [OF init])
  ultimately have "new_slab m ?m s k A (insert (i, 9) A)"
    using s I' z' old by (simp add: new_slab_def)
  with init show ?thesis by blast
qed

lemma new_slab_inv:
  assumes I: "slab_inv K m A C L" and N: "new_slab m m' s k A A'" and k: "k \<in> slab_orders"
  shows "slab_inv K m' A' C L" and "slab_ok m' L k s" and "\<And>k'. k' \<in> K \<Longrightarrow> s \<notin> set (C k')"
proof -
  note D = slab_invD [OF I]
  have s: "slab_at (gmem m') A' s" and z': "zone_ok (gmem m')" and I': "buddy_inv (gmem m') A'"
    and old: "\<And>t. slab_at (gmem m) A t \<Longrightarrow> slab_at (gmem m') A' t \<and> t \<noteq> s"
    using N by (auto simp: new_slab_def)
  show new: "s \<notin> set (C k')" if "k' \<in> K" for k' using D(7) [OF that] old by blast
  have sep: "p \<notin> set (slots s k)" if "k' \<in> K" "t \<in> set (C k')" "p \<in> set (slots t k')" for p t k'
    using slots_disjoint [OF s conjunct1 [OF old [OF D(7) [OF that(1,2)]]] z' k _ _ that(3)]
      old [OF D(7) [OF that(1,2)]] D(1) that(1) by blast
  have ok: "slab_ok m' L k' t" if "k' \<in> K" "t \<in> set (C k')" for k' t
    using D(8) [OF that] by (rule slab_ok_frame)
      (use N new [OF that(1)] that sep [OF that] in \<open>auto simp: new_slab_def\<close>)
  have ch: "chain (headers m') (slabs m' k') (C k')" if "k' \<in> K" for k'
    using D(6) [OF that] new [OF that] N by (auto simp: new_slab_def intro: chain_cong)
  show "slab_inv K m' A' C L"
    unfolding slab_inv_def using D(1,4,5,7,9) I' z' ok ch old N by (auto simp: new_slab_def)
  have "(p, k) \<notin> L" if "p \<in> set (slots s k)" for p
    using D(9) [of p k] sep that by blast
  then have "set (slots s k) - {p. (p, k) \<in> L} = set (slots s k)" by blast
  then show "slab_ok m' L k s"
    using N slots_distinct(1) [OF s z' k] by (auto simp: slab_ok_def new_slab_def)
qed

lemma scan_slabs_ok:
  assumes "chain (headers m) p ss" and "\<forall>s \<in> set ss. slab_ok m L k s"
  shows "scan_slabs p m = Some (0, m)
    \<or> (\<exists>s \<in> set ss. \<exists>h. headers m s = Some h \<and> free_list_head h \<noteq> 0
        \<and> scan_slabs p m = Some (free_list_head h, m\<lparr>headers := (headers m)(s \<mapsto>
            h\<lparr>free_list_head := next_free m (free_list_head h)\<rparr>)\<rparr>))"
  using assms
proof (induction ss arbitrary: p)
  case Nil
  then show ?case by (simp add: scan_slabs.simps)
next
  case (Cons s ss)
  then obtain h where h: "headers m s = Some h" "chain (headers m) (next_slab h) ss" "p = s" "s \<noteq> 0"
    by auto
  show ?case
  proof (cases "free_list_head h = 0")
    case True
    then have "scan_slabs p m = scan_slabs (next_slab h) m" using h by (subst scan_slabs.simps) simp
    with Cons.IH [OF h(2)] Cons.prems(2) show ?thesis by auto
  next
    case False
    then have "scan_slabs p m = Some (free_list_head h, m\<lparr>headers := (headers m)(s \<mapsto>
        h\<lparr>free_list_head := next_free m (free_list_head h)\<rparr>)\<rparr>)"
      using h by (subst scan_slabs.simps) simp
    with h(1) False show ?thesis by (meson list.set_intros(1))
  qed
qed

lemma slab_inv_pop:
  assumes I: "slab_inv K m A C L" and k: "k \<in> K" and s: "s \<in> set (C k)"
    and h: "headers m s = Some h" "free_list_head h = q" "q \<noteq> 0"
  shows "slab_inv K (m\<lparr>headers := (headers m)(s \<mapsto> h\<lparr>free_list_head := next_free m q\<rparr>)\<rparr>) A C
      (insert (q, k) L)" (is "slab_inv K ?m A C ?L")
    and "q \<in> set (slots s k)" and "(q, k) \<notin> L"
proof -
  note D = slab_invD [OF I]
  from D(8) [OF k s] h obtain fl where fl: "slab_order h = k" "flist (next_free m) q fl" "distinct fl"
    "set fl = set (slots s k) - {p. (p, k) \<in> L}" by (auto simp: slab_ok_def)
  with h(3) obtain fl' where c: "fl = q # fl'" by (cases fl) auto
  show q: "q \<in> set (slots s k)" "(q, k) \<notin> L" using fl(4) c by auto
  have "set fl' = set (slots s k) - {p. (p, k) \<in> ?L}" using fl(3,4) c by auto
  then have sk: "slab_ok ?m ?L k s" using fl c by (auto simp: slab_ok_def)
  have ok: "slab_ok ?m ?L k' t" if t: "k' \<in> K" "t \<in> set (C k')" for k' t
  proof (cases "t = s")
    case True
    then have "k' = k" using D(8) [OF t] fl(1) h(1) by (auto simp: slab_ok_def)
    with True sk show ?thesis by simp
  next
    case False
    have "q \<notin> set (slots t k')"
      using slots_disjoint [OF D(7) [OF k s] D(7) [OF t] D(3) _ _ q(1)] D(1) k t False by blast
    then show ?thesis by (intro slab_ok_frame [OF D(8) [OF t]]) (use False in auto)
  qed
  have "chain (headers ?m) (slabs m k') (C k')" if "k' \<in> K" for k'
    using D(6) [OF that] by (rule chain_cong) (use h in auto)
  with D ok k s q show "slab_inv K ?m A C ?L" unfolding slab_inv_def by auto
qed

lemma slab_inv_push_slab:
  assumes I: "slab_inv K m A C L" and N: "new_slab m m' s k A A'" and k: "k \<in> K"
  shows "slab_inv K (m'\<lparr>headers := (headers m')(s \<mapsto> \<lparr>free_list_head = s + order_to_size k,
      next_slab = slabs m k, slab_order = k\<rparr>), slabs := (slabs m')(k := s)\<rparr>) A' (C(k := s # C k)) L"
    (is "slab_inv K ?m A' ?C L")
proof -
  have ko: "k \<in> slab_orders" using slab_invD(1) [OF I] k by blast
  note I' = new_slab_inv(1) [OF I N ko] and s = new_slab_inv(2) [OF I N ko]
    and new = new_slab_inv(3) [OF I N ko] and D = slab_invD [OF new_slab_inv(1) [OF I N ko]]
  have ch: "chain (headers ?m) (slabs ?m k') (?C k')" if "k' \<in> K" for k'
  proof -
    have "chain (headers ?m) (slabs m' k') (C k')"
      using D(6) [OF that] by (rule chain_cong) (use new [OF that] in auto)
    then show ?thesis using N by (auto simp: new_slab_def)
  qed
  have "slab_ok ?m L k s" using s N by (auto simp: slab_ok_def new_slab_def)
  moreover have "slab_ok ?m L k' t" if "k' \<in> K" "t \<in> set (C k')" for k' t
    using D(8) [OF that] by (rule slab_ok_frame) (use new [OF that(1)] that in auto)
  moreover have "slab_at (gmem ?m) A' s" using N by (simp add: new_slab_def)
  ultimately show ?thesis
    using D ch unfolding slab_inv_def by (auto split: if_splits)
qed

definition no_slab_block :: "kmem \<Rightarrow> (nat \<times> nat) set \<Rightarrow> bool" where
  "no_slab_block m A \<longleftrightarrow> (\<forall>i. fits (page_num (gmem m)) (i, 9) \<longrightarrow> (\<exists>b \<in> A. blk b \<inter> blk (i, 9) \<noteq> {}))"

lemma alloc_hit:
  assumes I: "slab_inv K m A C L" and k: "k \<in> K" and p: "p \<noteq> 0" "scan_slabs (slabs m k) m = Some (p, m')"
  shows "slab_inv K m' A C (insert (p, k) L) \<and> (p, k) \<notin> L \<and> slabs_locks m' = slabs_locks m
    \<and> alloc_in_slab_nolock (slabs m k) k m = Some (p, m')"
proof -
  note D = slab_invD [OF I]
  have "slabs m k \<noteq> 0" using chain_head [OF D(6) [OF k]] D(5) [OF k] by simp
  then have "alloc_in_slab_nolock (slabs m k) k m = Some (p, m')"
    using p by (subst alloc_in_slab_nolock.simps) simp
  moreover from scan_slabs_ok [OF D(6) [OF k], of L k] D(8) [OF k] p obtain s h where
    s: "s \<in> set (C k)" "headers m s = Some h" "free_list_head h = p"
    and m': "m' = m\<lparr>headers := (headers m)(s \<mapsto> h\<lparr>free_list_head := next_free m p\<rparr>)\<rparr>" by auto
  ultimately show ?thesis using slab_inv_pop [OF I k s p(1)] unfolding m' by simp
qed

lemma alloc_in_slab_nolock_ok:
  assumes I: "slab_inv K m A C L" and k: "k \<in> K"
  shows "alloc_in_slab_nolock (slabs m k) k m = None \<and> no_slab_block m A
    \<or> (\<exists>p m' A' C'. alloc_in_slab_nolock (slabs m k) k m = Some (p, m') \<and> slabs_locks m' = slabs_locks m
        \<and> slab_inv K m' A' C' (insert (p, k) L) \<and> (p, k) \<notin> L)"
proof -
  note D = slab_invD [OF I]
  have nz: "slabs m k \<noteq> 0" using chain_head [OF D(6) [OF k]] D(5) [OF k] by simp
  have ko: "k \<in> slab_orders" using D(1) k by blast
  from scan_slabs_ok [OF D(6) [OF k], of L k] D(8) [OF k]
  consider p m' where "p \<noteq> 0" "scan_slabs (slabs m k) m = Some (p, m')"
    | "scan_slabs (slabs m k) m = Some (0, m)" by blast
  then show ?thesis
  proof cases
    case 1
    with alloc_hit [OF I k 1] show ?thesis by blast
  next
    case 2
    note r = alloc_in_slab_nolock.simps [of "slabs m k" k m]
    from init_slab_cache_ok [OF D(2,3) ko] show ?thesis
    proof (elim disjE exE conjE)
      assume "init_slab_cache k SLAB_INIT_SIZE m = None"
        and "\<forall>i. fits (page_num (gmem m)) (i, 9) \<longrightarrow> (\<exists>b \<in> A. blk b \<inter> blk (i, 9) \<noteq> {})"
      then show ?thesis using nz 2 r by (simp add: no_slab_block_def)
    next
      fix s m' i assume i: "init_slab_cache k SLAB_INIT_SIZE m = Some (s, m')"
        and N: "new_slab m m' s k A (insert (i, 9) A)"
      let ?h = "\<lparr>free_list_head = s + order_to_size k, next_slab = slabs m k, slab_order = k\<rparr>"
      let ?m = "m'\<lparr>headers := (headers m')(s \<mapsto> ?h), slabs := (slabs m')(k := s)\<rparr>"
      note I' = slab_inv_push_slab [OF I N k]
      have e: "alloc_in_slab_nolock (slabs m k) k m = alloc_in_slab_nolock (slabs ?m k) k ?m"
        using nz 2 i N by (subst r) (simp add: new_slab_def)
      have hd: "s \<noteq> 0" "s + order_to_size k \<noteq> 0" "slabs_locks m' = slabs_locks m"
        using N flist_head [of "next_free m'" "s + order_to_size k" "slots s k"]
          slab_orders_cases(3) [OF ko] by (auto simp: new_slab_def slots_def)
      let ?q = "s + order_to_size k"
      have "scan_slabs (slabs ?m k) ?m = Some (?q, ?m\<lparr>headers := (headers ?m)(s \<mapsto>
          ?h\<lparr>free_list_head := next_free ?m ?q\<rparr>)\<rparr>)"
        using hd by (subst scan_slabs.simps) simp
      from alloc_hit [OF I' k hd(2) this] e hd(3) show ?thesis by auto
    qed
  qed
qed

definition obj :: "u64 \<times> nat \<Rightarrow> nat set" where
  "obj pk = {unat (fst pk)..<unat (fst pk) + 2 ^ snd pk}"

lemma obj_byte:
  assumes "slab_at z A s" "zone_ok z" "k \<in> slab_orders" "p \<in> set (slots s k)" "b \<in> obj (p, k)"
  shows "\<exists>j u. p = s + of_nat (j * 2 ^ k) \<and> u < 2 ^ k \<and> b = unat s + (j * 2 ^ k + u)
    \<and> (\<exists>pg. virt_to_page z (of_nat b) = Some pg \<and> slab (meta z pg) = s)"
proof -
  from slots_mem [OF assms(3,4)] obtain j where j: "p = s + of_nat (j * 2 ^ k)"
    "(j + 1) * 2 ^ k \<le> 2 ^ 21" by blast
  have jl: "j * 2 ^ k < 2 ^ 21" by (rule less_le_trans [OF _ j(2)]) simp
  have up: "unat p = unat s + j * 2 ^ k" unfolding j(1) by (rule slab_byte(2) [OF assms(1,2) jl])
  have "unat p \<le> b" "b < unat p + 2 ^ k" using assms(5) by (simp_all add: obj_def)
  then obtain u where u: "u < 2 ^ k" "b = unat p + u" by (metis add_less_cancel_left le_Suc_ex)
  have x: "j * 2 ^ k + u < 2 ^ 21" by (rule less_le_trans [OF _ j(2)]) (simp add: u(1))
  have b: "b = unat s + (j * 2 ^ k + u)" using u(2) up by simp
  have "(of_nat b :: u64) = s + of_nat (j * 2 ^ k + u)" unfolding b by simp
  with slab_byte(1) [OF assms(1,2) x] j(1) u(1) b show ?thesis by metis
qed

lemma objs_disjoint:
  assumes I: "slab_inv K m A C L" and "(p, k) \<in> L" "(q, k') \<in> L" "(p, k) \<noteq> (q, k')"
  shows "obj (p, k) \<inter> obj (q, k') = {}"
proof (rule ccontr)
  assume "obj (p, k) \<inter> obj (q, k') \<noteq> {}"
  then obtain b where b: "b \<in> obj (p, k)" "b \<in> obj (q, k')" by blast
  note D = slab_invD [OF I]
  from D(9) assms(2,3) obtain s t where s: "k \<in> K" "s \<in> set (C k)" "p \<in> set (slots s k)"
    and t: "k' \<in> K" "t \<in> set (C k')" "q \<in> set (slots t k')" by blast
  from obj_byte [OF D(7) [OF s(1,2)] D(3) _ s(3) b(1)] D(1) s(1) obtain j u where
    j: "p = s + of_nat (j * 2 ^ k)" "u < 2 ^ k" "b = unat s + (j * 2 ^ k + u)"
    "\<exists>pg. virt_to_page (gmem m) (of_nat b) = Some pg \<and> slab (meta (gmem m) pg) = s" by blast
  from obj_byte [OF D(7) [OF t(1,2)] D(3) _ t(3) b(2)] D(1) t(1) obtain j' u' where
    j': "q = t + of_nat (j' * 2 ^ k')" "u' < 2 ^ k'" "b = unat t + (j' * 2 ^ k' + u')"
    "\<exists>pg. virt_to_page (gmem m) (of_nat b) = Some pg \<and> slab (meta (gmem m) pg) = t" by blast
  have st: "s = t" using j(4) j'(4) by auto
  then have kk: "k = k'" using D(8) [OF s(1,2)] D(8) [OF t(1,2)] by (auto simp: slab_ok_def)
  have "j * 2 ^ k + u = j' * 2 ^ k + u'" using j(3) j'(3) st kk by simp
  then have "(j * 2 ^ k + u) div 2 ^ k = (j' * 2 ^ k + u') div 2 ^ k" by simp
  then have "j = j'" using j(2) j'(2) kk by simp
  with j(1) j'(1) st kk assms(4) show False by simp
qed

definition kmem_inv ::
  "kmem \<Rightarrow> (nat \<times> nat) set \<Rightarrow> (nat \<Rightarrow> u64 list) \<Rightarrow> (u64 \<times> nat) set \<Rightarrow> bool" where
  "kmem_inv m A C L \<longleftrightarrow> slab_inv slab_orders m A C L \<and> (\<forall>k \<in> slab_orders. lock_free (slabs_locks m k))"

lemma slab_inv_locks [simp]: "slab_inv K (m\<lparr>slabs_locks := l\<rparr>) A C L \<longleftrightarrow> slab_inv K m A C L"
  by (simp add: slab_inv_def slab_ok_def)

lemma alloc_in_slab_ok:
  assumes I: "kmem_inv m A C L" and sz: "sz \<le> order_to_size SLAB_MAX_ORDER"
  shows "alloc_in_slab sz m = None \<and> no_slab_block m A
    \<or> (\<exists>p m' A' C'. alloc_in_slab sz m = Some (p, m')
        \<and> kmem_inv m' A' C' (insert (p, slab_class sz) L) \<and> (p, slab_class sz) \<notin> L)"
proof -
  let ?k = "slab_class sz"
  have k: "?k \<in> slab_orders" using slab_class_ok(2) [OF sz] by (simp add: slab_orders_def)
  have l: "lock_free (slabs_locks m ?k)" using I k by (simp add: kmem_inv_def)
  let ?m = "m\<lparr>slabs_locks := (slabs_locks m)(?k := (slabs_locks m ?k)\<lparr>nxt := nxt (slabs_locks m ?k) + 1\<rparr>)\<rparr>"
  have "slab_inv slab_orders ?m A C L" using I by (simp add: kmem_inv_def)
  from alloc_in_slab_nolock_ok [OF this k] show ?thesis
  proof (elim disjE exE conjE)
    assume "alloc_in_slab_nolock (slabs ?m ?k) ?k ?m = None" "no_slab_block ?m A"
    then show ?thesis
      using sz l by (simp add: alloc_in_slab_def alloc_in_slab_locked_def lock_simps no_slab_block_def)
  next
    fix p m' A' C' assume a: "alloc_in_slab_nolock (slabs ?m ?k) ?k ?m = Some (p, m')"
      "slabs_locks m' = slabs_locks ?m" "slab_inv slab_orders m' A' C' (insert (p, ?k) L)" "(p, ?k) \<notin> L"
    let ?m' = "m'\<lparr>slabs_locks := (slabs_locks m')(?k := unlock (slabs_locks m' ?k))\<rparr>"
    have "alloc_in_slab sz m = Some (p, ?m')"
      using sz l a by (simp add: alloc_in_slab_def alloc_in_slab_locked_def lock_simps)
    moreover have "kmem_inv ?m' A' C' (insert (p, ?k) L)"
      using a I l by (simp add: kmem_inv_def lock_simps)
    ultimately show ?thesis using a(4) by blast
  qed
qed

lemma slab_inv_push:
  assumes I: "slab_inv K m A C L" and L: "(p, k) \<in> L" and s: "s \<in> set (C k)" "p \<in> set (slots s k)"
    and h: "headers m s = Some h"
  shows "slab_inv K (m\<lparr>next_free := (next_free m)(p := free_list_head h),
      headers := (headers m)(s \<mapsto> h\<lparr>free_list_head := p\<rparr>)\<rparr>) A C (L - {(p, k)})" (is "slab_inv K ?m A C ?L")
proof -
  note D = slab_invD [OF I]
  have k: "k \<in> K" using D(9) [OF L] by simp
  from D(8) [OF k s(1)] h obtain fl where fl: "slab_order h = k"
    "flist (next_free m) (free_list_head h) fl" "distinct fl"
    "set fl = set (slots s k) - {p. (p, k) \<in> L}" by (auto simp: slab_ok_def)
  have p: "p \<notin> set fl" "p \<noteq> 0"
    using fl(4) L s(2) slots_distinct(2) [OF D(7) [OF k s(1)] D(3), of k] D(1) k by auto
  have "flist (next_free ?m) p (p # fl)"
    using p fl(2) by (auto intro: flist_cong)
  moreover have "set (p # fl) = set (slots s k) - {p. (p, k) \<in> ?L}" using fl(4) s(2) L by auto
  ultimately have sk: "slab_ok ?m ?L k s"
    unfolding slab_ok_def using p fl by (intro exI [of _ "h\<lparr>free_list_head := p\<rparr>"] exI [of _ "p # fl"]) simp
  have ok: "slab_ok ?m ?L k' t" if t: "k' \<in> K" "t \<in> set (C k')" for k' t
  proof (cases "t = s")
    case True
    then have "k' = k" using D(8) [OF t] fl(1) h(1) by (auto simp: slab_ok_def)
    with True sk show ?thesis by simp
  next
    case False
    have "p \<notin> set (slots t k')"
      using slots_disjoint [OF D(7) [OF k s(1)] D(7) [OF t] D(3) _ _ s(2)] D(1) k t False by blast
    then show ?thesis by (intro slab_ok_frame [OF D(8) [OF t]]) (use False in auto)
  qed
  have "chain (headers ?m) (slabs m k') (C k')" if "k' \<in> K" for k'
    using D(6) [OF that] by (rule chain_cong) (use h in auto)
  with D ok show ?thesis unfolding slab_inv_def by auto
qed

lemma free_in_slab_ok:
  assumes I: "kmem_inv m A C L" and L: "(p, k) \<in> L"
  shows "\<exists>m'. free_in_slab p m = Some m' \<and> kfree p m = Some m' \<and> kmem_inv m' A C (L - {(p, k)})"
proof -
  have I': "slab_inv slab_orders m A C L" using I by (simp add: kmem_inv_def)
  note D = slab_invD [OF I']
  from D(9) [OF L] obtain s where s: "k \<in> slab_orders" "s \<in> set (C k)" "p \<in> set (slots s k)" by blast
  from D(8) [OF s(1,2)] obtain h where h: "headers m s = Some h" "slab_order h = k" by (auto simp: slab_ok_def)
  from slots_page [OF D(7) [OF s(1,2)] D(3) s(1,3)] obtain pg where
    pg: "virt_to_page (gmem m) p = Some pg" "slab (meta (gmem m) pg) = s" by blast
  have nz: "s \<noteq> 0" using chain_nonzero [OF D(6) [OF s(1)]] s(2) by metis
  have l: "lock_free (slabs_locks m k)" using I s(1) by (simp add: kmem_inv_def)
  let ?m = "m\<lparr>next_free := (next_free m)(p := free_list_head h),
      headers := (headers m)(s \<mapsto> h\<lparr>free_list_head := p\<rparr>)\<rparr>"
  let ?l = "unlock ((slabs_locks m k)\<lparr>nxt := nxt (slabs_locks m k) + 1\<rparr>)"
  have f: "free_in_slab p m = Some (?m\<lparr>slabs_locks := (slabs_locks m)(k := ?l)\<rparr>)"
    using pg h l by (simp add: free_in_slab_def lock_simps Let_def)
  moreover have "kfree p m = free_in_slab p m" using pg nz by (simp add: kfree_def)
  moreover have "kmem_inv (?m\<lparr>slabs_locks := (slabs_locks m)(k := ?l)\<rparr>) A C (L - {(p, k)})"
    using slab_inv_push [OF I' L s(2,3) h(1)] I l by (simp add: kmem_inv_def lock_simps)
  ultimately show ?thesis by simp
qed

section \<open>Initialisation\<close>

lemma buddy_inv_fits: "buddy_inv z A \<Longrightarrow> b \<in> A \<Longrightarrow> fits (page_num z) b"
  unfolding buddy_inv_def using zone_inv_tiles tiles_fits by blast

lemma block_available:
  assumes I: "buddy_inv (gmem m) A" and o9: "\<forall>b \<in> A. snd b = 9" and fin: "finite A"
    and c: "card A < n" "n * 512 \<le> page_num (gmem m)"
  shows "\<not> no_slab_block m A"
proof
  assume "no_slab_block m A"
  then have ov: "\<exists>b \<in> A. blk b \<inter> blk (j * 512, 9) \<noteq> {}" if "j < n" for j
    using that c(2) by (simp add: no_slab_block_def fits_def BUDDY_MAX_ORDER_def)
  have "(j * 512, 9) \<in> A" if j: "j < n" for j
  proof -
    from ov [OF j] obtain i where i: "(i, 9) \<in> A" "blk (i, 9) \<inter> blk (j * 512, 9) \<noteq> {}"
      using o9 by (metis prod.collapse)
    have "2 ^ 9 dvd i" using buddy_inv_fits [OF I i(1)] by (simp add: fits_def)
    with i(2) have "i = j * 512" by (intro aligned_eq [of 9]) auto
    with i(1) show ?thesis by simp
  qed
  then have "(\<lambda>j. (j * 512, 9)) ` {..<n} \<subseteq> A" by auto
  moreover have "card ((\<lambda>j. (j * 512, 9 :: nat)) ` {..<n}) = n"
    by (subst card_image) (auto simp: inj_on_def)
  ultimately show False using c(1) fin by (metis card_mono not_le)
qed

lemma slab_inv_add_order:
  assumes I: "slab_inv K m A C L" and N: "new_slab m m' s k A A'" and k: "k \<in> slab_orders" "k \<notin> K"
  shows "slab_inv (insert k K) (m'\<lparr>slabs := (slabs m')(k := s), slabs_locks := l\<rparr>) A' (C(k := [s])) L"
proof -
  note I' = new_slab_inv [OF I N k(1)]
  note D = slab_invD [OF I'(1)]
  have "headers m' s = Some \<lparr>free_list_head = s + order_to_size k, next_slab = 0, slab_order = k\<rparr>"
    "s \<noteq> 0" "slab_at (gmem m') A' s" using N by (auto simp: new_slab_def)
  with D I'(2) k show ?thesis
    unfolding slab_inv_def by (auto simp: slab_ok_def)
qed

lemma init_slab_orders_ok:
  assumes "slab_inv K m A C {}" and "distinct ks" "set ks \<subseteq> slab_orders" "K \<inter> set ks = {}"
    and "\<forall>k \<in> K. lock_free (slabs_locks m k)"
    and "\<forall>b \<in> A. snd b = 9" "finite A" "card A + length ks \<le> n" "n * 512 \<le> page_num (gmem m)"
  shows "\<exists>m' A' C'. init_slab_orders ks m = Some m' \<and> slab_inv (K \<union> set ks) m' A' C' {}
    \<and> (\<forall>k \<in> K \<union> set ks. lock_free (slabs_locks m' k))
    \<and> (\<forall>b \<in> A'. snd b = 9) \<and> finite A' \<and> card A' \<le> n \<and> page_num (gmem m') = page_num (gmem m)"
  using assms
proof (induction ks arbitrary: K m A C)
  case (Cons k ks)
  note D = slab_invD [OF Cons.prems(1)]
  have k: "k \<in> slab_orders" "k \<notin> K" using Cons.prems(3,4) by auto
  have "\<not> no_slab_block m A"
    using Cons.prems by (intro block_available [OF D(2), of n]) auto
  then obtain s m1 i where i: "init_slab_cache k SLAB_INIT_SIZE m = Some (s, m1)"
    "new_slab m m1 s k A (insert (i, 9) A)"
    using init_slab_cache_ok [OF D(2,3) k(1)] unfolding no_slab_block_def by blast
  let ?m = "m1\<lparr>slabs := (slabs m1)(k := s), slabs_locks := (slabs_locks m1)(k := lock_init)\<rparr>"
  note I' = slab_inv_add_order [OF Cons.prems(1) i(2) k, of "(slabs_locks m1)(k := lock_init)"]
  have g: "page_num (gmem m1) = page_num (gmem m)"
    using i(1) by (rule init_slab_cache_page_num)
  have "\<exists>m' A' C'. init_slab_orders ks ?m = Some m' \<and> slab_inv (insert k K \<union> set ks) m' A' C' {}
      \<and> (\<forall>k \<in> insert k K \<union> set ks. lock_free (slabs_locks m' k))
      \<and> (\<forall>b \<in> A'. snd b = 9) \<and> finite A' \<and> card A' \<le> n \<and> page_num (gmem m') = page_num (gmem ?m)"
  proof (rule Cons.IH [OF I'])
    show "\<forall>k' \<in> insert k K. lock_free (slabs_locks ?m k')"
      using Cons.prems(5) i(2) by (auto simp: lock_simps new_slab_def)
    show "card (insert (i, 9) A) + length ks \<le> n"
      using Cons.prems(7,8) card_insert_le_m1 [of "Suc (card A)" A "(i, 9)"] by simp
  qed (use Cons.prems g in auto)
  then show ?case by (simp add: i(1) g)
qed auto

lemma init_slab_ok:
  assumes "buddy_inv (gmem m) {}" "zone_ok (gmem m)" "7 * 512 \<le> page_num (gmem m)"
  shows "\<exists>m' A C. init_slab m = Some m' \<and> kmem_inv m' A C {}
    \<and> (\<forall>b \<in> A. snd b = 9) \<and> finite A \<and> card A \<le> 7 \<and> page_num (gmem m') = page_num (gmem m)"
proof -
  have s: "set [SLAB_MIN_ORDER..<SLAB_MAX_ORDER + 1] = slab_orders"
    by (auto simp: slab_orders_def)
  have "\<exists>m' A' C'. init_slab_orders [SLAB_MIN_ORDER..<SLAB_MAX_ORDER + 1] m = Some m'
      \<and> slab_inv ({} \<union> set [SLAB_MIN_ORDER..<SLAB_MAX_ORDER + 1]) m' A' C' {}
      \<and> (\<forall>k \<in> {} \<union> set [SLAB_MIN_ORDER..<SLAB_MAX_ORDER + 1]. lock_free (slabs_locks m' k))
      \<and> (\<forall>b \<in> A'. snd b = 9) \<and> finite A' \<and> card A' \<le> 7 \<and> page_num (gmem m') = page_num (gmem m)"
    using assms
    by (intro init_slab_orders_ok [where A = "{}" and n = 7 and C = "\<lambda>_. []"])
      (auto simp: slab_inv_def slab_orders_def SLAB_MIN_ORDER_def SLAB_MAX_ORDER_def)
  then show ?thesis unfolding s by (auto simp: init_slab_def kmem_inv_def simp del: upt_Suc)
qed

section \<open>Two allocations that read the cache before they lock it\<close>

definition all_full :: "kmem \<Rightarrow> u64 list \<Rightarrow> bool" where
  "all_full m ss \<longleftrightarrow> (\<forall>s \<in> set ss. \<exists>h. headers m s = Some h \<and> free_list_head h = 0)"

lemma scan_full: "chain (headers m) p ss \<Longrightarrow> all_full m ss \<longleftrightarrow> scan_slabs p m = Some (0, m)"
proof (induction ss arbitrary: p)
  case Nil
  then show ?case by (simp add: all_full_def scan_slabs.simps)
next
  case (Cons s ss)
  then obtain h where h: "headers m s = Some h" "chain (headers m) (next_slab h) ss" "p = s" "s \<noteq> 0" by auto
  have "scan_slabs p m = Some (0, m) \<longleftrightarrow> free_list_head h = 0 \<and> scan_slabs (next_slab h) m = Some (0, m)"
    using h by (subst scan_slabs.simps) auto
  with Cons.IH [OF h(2)] h(1) show ?case by (auto simp: all_full_def)
qed

lemma alloc_full:
  assumes full: "h0 \<noteq> 0" "scan_slabs h0 m = Some (0, m)"
    and I: "buddy_inv (gmem m) A" "zone_ok (gmem m)" and k: "k \<in> slab_orders"
    and ne: "init_slab_cache k SLAB_INIT_SIZE m \<noteq> None"
  shows "\<exists>p m1 s m' i h. alloc_in_slab_nolock h0 k m = Some (p, m1)
    \<and> new_slab m m' s k A (insert (i, 9) A) \<and> gmem m1 = gmem m'
    \<and> slabs m1 = (slabs m)(k := s) \<and> headers m1 = (headers m)(s \<mapsto> h) \<and> next_slab h = h0
    \<and> slabs_locks m1 = slabs_locks m"
proof -
  note r = alloc_in_slab_nolock.simps
  from init_slab_cache_ok [OF I k] ne obtain s m' i where
    i: "init_slab_cache k SLAB_INIT_SIZE m = Some (s, m')" and N: "new_slab m m' s k A (insert (i, 9) A)"
    by blast
  let ?q = "s + order_to_size k"
  let ?h = "\<lparr>free_list_head = ?q, next_slab = h0, slab_order = k\<rparr>"
  let ?m = "m'\<lparr>headers := (headers m')(s \<mapsto> ?h), slabs := (slabs m')(k := s)\<rparr>"
  let ?m1 = "?m\<lparr>headers := (headers ?m)(s \<mapsto> ?h\<lparr>free_list_head := next_free ?m ?q\<rparr>)\<rparr>"
  have q: "s \<noteq> 0" "?q \<noteq> 0"
    using N flist_head [of "next_free m'" ?q "slots s k"] slab_orders_cases(3) [OF k]
    by (auto simp: new_slab_def slots_def)
  have "scan_slabs s ?m = Some (?q, ?m1)"
    using q by (subst scan_slabs.simps) simp
  then have "alloc_in_slab_nolock s k ?m = Some (?q, ?m1)"
    using q by (subst r) simp
  moreover have "alloc_in_slab_nolock h0 k m = alloc_in_slab_nolock s k ?m"
    using full i N by (subst r) (simp add: new_slab_def)
  ultimately have a: "alloc_in_slab_nolock h0 k m = Some (?q, ?m1)" by simp
  have "gmem ?m1 = gmem m' \<and> slabs ?m1 = (slabs m)(k := s) \<and> slabs_locks ?m1 = slabs_locks m
    \<and> headers ?m1 = (headers m)(s \<mapsto> ?h\<lparr>free_list_head := next_free ?m ?q\<rparr>)"
    using N by (auto simp: new_slab_def fun_eq_iff)
  moreover have "next_slab (?h\<lparr>free_list_head := next_free ?m ?q\<rparr>) = h0" by simp
  ultimately show ?thesis using a N by blast
qed

lemma alloc_needs_init:
  assumes "scan_slabs h0 m = Some (0, m)" "alloc_in_slab_nolock h0 k m = Some (p, m1)"
  shows "init_slab_cache k SLAB_INIT_SIZE m \<noteq> None"
  using assms alloc_in_slab_nolock.simps [of h0 k m]
  by (cases "init_slab_cache k SLAB_INIT_SIZE m") (auto split: if_splits)

lemma alloc_locked_full:
  assumes full: "h0 \<noteq> 0" "chain (headers m) h0 ss" "all_full m ss"
    and I: "buddy_inv (gmem m) A" "zone_ok (gmem m)" and k: "k \<in> slab_orders"
    and a: "alloc_in_slab_locked h0 k m = Some (p, m1)"
    and old: "\<forall>t \<in> set ts. slab_at (gmem m) A t"
  shows "\<exists>s i h. slabs m1 k = s \<and> headers m1 = (headers m)(s \<mapsto> h) \<and> next_slab h = h0
    \<and> buddy_inv (gmem m1) (insert (i, 9) A) \<and> zone_ok (gmem m1) \<and> s \<noteq> 0
    \<and> (\<forall>t \<in> set ts. slab_at (gmem m1) (insert (i, 9) A) t \<and> t \<noteq> s) \<and> slab_at (gmem m1) (insert (i, 9) A) s
    \<and> page_num (gmem m1) = page_num (gmem m) \<and> lock_free (slabs_locks m1 k)"
proof -
  from a obtain l m2 where l: "lock (slabs_locks m k) = Some l"
    "alloc_in_slab_nolock h0 k (m\<lparr>slabs_locks := (slabs_locks m)(k := l)\<rparr>) = Some (p, m2)"
    "m1 = m2\<lparr>slabs_locks := (slabs_locks m2)(k := unlock (slabs_locks m2 k))\<rparr>"
    by (auto simp: alloc_in_slab_locked_def bind_Some_iff)
  let ?m = "m\<lparr>slabs_locks := (slabs_locks m)(k := l)\<rparr>"
  have "scan_slabs h0 ?m = Some (0, ?m)"
    using full(2,3) scan_full [of ?m h0 ss] by (simp add: all_full_def)
  from alloc_full [OF full(1) this _ _ k alloc_needs_init [OF this l(2)], of A] I l(2)
  obtain s m' i h where
    N: "new_slab ?m m' s k A (insert (i, 9) A)" "gmem m2 = gmem m'" "slabs m2 = (slabs m)(k := s)"
    "headers m2 = (headers m)(s \<mapsto> h)" "next_slab h = h0" "slabs_locks m2 k = l" by auto
  moreover have "lock_free (unlock l)" using l(1) by (auto simp: lock_Some_iff lock_simps)
  ultimately show ?thesis using l(3) old
    by (intro exI [of _ s] exI [of _ i] exI [of _ h]) (auto simp: new_slab_def)
qed

lemma alloc_locked_total:
  assumes full: "h0 \<noteq> 0" "chain (headers m) h0 ss" "all_full m ss"
    and I: "buddy_inv (gmem m) A" "zone_ok (gmem m)" and k: "k \<in> slab_orders"
    and l: "lock_free (slabs_locks m k)" and av: "\<not> no_slab_block m A"
  shows "\<exists>p m1. alloc_in_slab_locked h0 k m = Some (p, m1)"
proof -
  let ?m = "m\<lparr>slabs_locks := (slabs_locks m)(k := (slabs_locks m k)\<lparr>nxt := nxt (slabs_locks m k) + 1\<rparr>)\<rparr>"
  have "init_slab_cache k SLAB_INIT_SIZE ?m \<noteq> None"
    using init_slab_cache_ok [of ?m A k] I k av unfolding no_slab_block_def by simp blast
  moreover have "scan_slabs h0 ?m = Some (0, ?m)"
    using full(2,3) scan_full [of ?m h0 ss] by (simp add: all_full_def)
  ultimately obtain p m1 where "alloc_in_slab_nolock h0 k ?m = Some (p, m1)"
    using alloc_full [OF full(1), of ?m A k] I k by auto
  then show ?thesis using l by (simp add: alloc_in_slab_locked_def lock_simps)
qed

section \<open>Properties\<close>

definition blank_kmem :: "global_mem \<Rightarrow> kmem" where
  "blank_kmem z = \<lparr>gmem = z, slabs = (\<lambda>_. 0), slabs_locks = (\<lambda>_. lock_init),
     headers = (\<lambda>_. None), next_free = (\<lambda>_. 0)\<rparr>"

lemma blank_kmem_init:
  assumes "n \<in> {3584, 8192}"
  shows "\<exists>z m A C. init_buddy 0x1000 n blank_zone = Some z \<and> init_slab (blank_kmem z) = Some m
    \<and> buddy_inv z {} \<and> zone_ok z \<and> page_num z = n \<and> kmem_inv m A C {}
    \<and> (\<forall>b \<in> A. snd b = 9) \<and> finite A \<and> card A \<le> 7 \<and> page_num (gmem m) = n"
proof -
  from init_buddy_ok [of n blank_zone "0x1000"] obtain z where
    z: "init_buddy 0x1000 n blank_zone = Some z" "buddy_inv z {}"
    "geom z = (n, BUDDY_PAGE_SIZE, 0x1000, 0x1000 + of_nat n * BUDDY_PAGE_SIZE)"
    by (auto simp: blank_zone_def check_buddy_def)
  then have ok: "zone_ok z" "page_num z = n"
    using assms by (auto simp: zone_ok_def zone_addr_ok_def geom_def)
  from init_slab_ok [of "blank_kmem z"] z ok assms show ?thesis
    by (auto simp: blank_kmem_def)
qed

text \<open>
  \<^verbatim>\<open>init_slab\<close> succeeds on an unused zone with room for seven slabs and leaves seven caches
  with no live object, over blocks obtained from the buddy allocator.
\<close>

theorem init_slab_correct:
  assumes "buddy_inv (gmem m) {}" and "zone_ok (gmem m)" and "7 * 512 \<le> page_num (gmem m)"
  shows "\<exists>m' A C. init_slab m = Some m' \<and> kmem_inv m' A C {}"
  using init_slab_ok [OF assms] by blast

theorem init_slab_correct_witness:
  "\<exists>z m. init_buddy 0x1000 3584 blank_zone = Some z \<and> init_slab (blank_kmem z) = Some m"
proof -
  obtain z where z: "init_buddy 0x1000 3584 blank_zone = Some z" "buddy_inv z {}" "zone_ok z" "page_num z = 3584"
    using blank_kmem_init [of 3584] by auto
  then have "\<exists>m' A C. init_slab (blank_kmem z) = Some m' \<and> kmem_inv m' A C {}"
    by (intro init_slab_correct) (simp_all add: blank_kmem_def)
  with z show ?thesis by blast
qed

text \<open>
  C16: \<^verbatim>\<open>alloc_in_slab\<close> on a size up to 2048 bytes gives memory of at least that size whose bytes
  belong to no live object, and it only fails (stopping the kernel) when no block of 2 MB is
  left in the zone.
\<close>

theorem alloc_in_slab_correct:
  assumes "kmem_inv m A C L" and "sz \<le> order_to_size SLAB_MAX_ORDER"
  shows "alloc_in_slab sz m = None \<and> no_slab_block m A
    \<or> (\<exists>p m' A' C'. alloc_in_slab sz m = Some (p, m')
        \<and> kmem_inv m' A' C' (insert (p, slab_class sz) L)
        \<and> unat sz \<le> 2 ^ slab_class sz \<and> (\<forall>q \<in> L. obj (p, slab_class sz) \<inter> obj q = {}))"
  using alloc_in_slab_ok [OF assms]
proof (elim disjE exE conjE)
  fix p m' A' C' assume a: "alloc_in_slab sz m = Some (p, m')"
    "kmem_inv m' A' C' (insert (p, slab_class sz) L)" "(p, slab_class sz) \<notin> L"
  have "\<forall>q \<in> L. obj (p, slab_class sz) \<inter> obj q = {}"
  proof
    fix q assume "q \<in> L"
    then show "obj (p, slab_class sz) \<inter> obj q = {}"
      using objs_disjoint [of slab_orders m' A' C' _ p "slab_class sz" "fst q" "snd q"] a
      by (auto simp: kmem_inv_def)
  qed
  with a slab_class_ok(1) [OF assms(2)] show ?thesis by blast
qed simp

theorem alloc_in_slab_correct_witness:
  "\<exists>m A C. kmem_inv m A C {} \<and> (alloc_in_slab 100 m = None \<and> no_slab_block m A
     \<or> (\<exists>p m' A' C'. alloc_in_slab 100 m = Some (p, m') \<and> kmem_inv m' A' C' {(p, slab_class 100)}))"
proof -
  obtain m A C where "kmem_inv m A C {}" using blank_kmem_init [of 3584] by auto
  moreover from alloc_in_slab_correct [OF this, of 100] have
    "alloc_in_slab 100 m = None \<and> no_slab_block m A
     \<or> (\<exists>p m' A' C'. alloc_in_slab 100 m = Some (p, m') \<and> kmem_inv m' A' C' {(p, slab_class 100)})"
    by (auto simp: order_to_size_def SLAB_MAX_ORDER_def)
  ultimately show ?thesis by blast
qed

text \<open>
  C17: \<^verbatim>\<open>free_in_slab\<close>, reached through \<^verbatim>\<open>kfree\<close>, takes exactly the given live object out of the
  live set: its slot goes back to the slab it came from.
\<close>

theorem kfree_slab_correct:
  assumes "kmem_inv m A C L" and "(p, k) \<in> L"
  shows "\<exists>m'. kfree p m = Some m' \<and> free_in_slab p m = Some m' \<and> kmem_inv m' A C (L - {(p, k)})"
  using free_in_slab_ok [OF assms] by blast

theorem kfree_slab_correct_witness:
  "\<exists>m A C p m'. kmem_inv m A C {(p, 7)} \<and> kfree p m = Some m' \<and> kmem_inv m' A C {}"
proof -
  obtain m A C where I: "kmem_inv m A C {}" using blank_kmem_init [of 3584] by auto
  have I': "slab_inv slab_orders m A C {}" using I by (simp add: kmem_inv_def)
  note D = slab_invD [OF I']
  have k: "7 \<in> slab_orders" by (simp add: slab_orders_def SLAB_MIN_ORDER_def SLAB_MAX_ORDER_def)
  obtain s where s: "s \<in> set (C 7)" using D(5) [OF k] by (cases "C 7") auto
  then obtain h fl where h: "headers m s = Some h" "flist (next_free m) (free_list_head h) fl"
    "set fl = set (slots s 7)" using D(8) [OF k s] by (auto simp: slab_ok_def)
  have "free_list_head h \<noteq> 0" using flist_head [OF h(2)] h(3) by (auto simp: slots_def)
  from slab_inv_pop(1) [OF I' k s h(1) refl this] I have
    P: "kmem_inv (m\<lparr>headers := (headers m)(s \<mapsto> h\<lparr>free_list_head := next_free m (free_list_head h)\<rparr>)\<rparr>)
      A C {(free_list_head h, 7)}" by (simp add: kmem_inv_def)
  from kfree_slab_correct [OF P, of "free_list_head h" 7] have
    "\<exists>m'. kfree (free_list_head h) (m\<lparr>headers := (headers m)(s \<mapsto>
        h\<lparr>free_list_head := next_free m (free_list_head h)\<rparr>)\<rparr>) = Some m' \<and> kmem_inv m' A C {}"
    by (simp only: Diff_cancel insertI1 simp_thms) blast
  with P show ?thesis by blast
qed

text \<open>
  \<^verbatim>\<open>_alloc_in_slab\<close> reads \<^verbatim>\<open>slabs[order]\<close> before it takes the lock of the cache.  When two
  allocations have read the same full cache and then take the lock one after the other,
  the slab that the first one adds is no longer on the chain of the cache: its free slots
  are lost for allocation.
\<close>

theorem stale_header_loses_slab:
  assumes I: "kmem_inv m A C L" and k: "k \<in> slab_orders"
    and full: "scan_slabs (slabs m k) m = Some (0, m)"
    and a1: "alloc_in_slab_locked (slabs m k) k m = Some (p1, m1)"
    and a2: "alloc_in_slab_locked (slabs m k) k m1 = Some (p2, m2)"
  shows "chain (headers m1) (slabs m1 k) (slabs m1 k # C k)
    \<and> chain (headers m2) (slabs m2 k) (slabs m2 k # C k)
    \<and> slabs m1 k \<notin> set (slabs m2 k # C k)"
proof -
  have I': "slab_inv slab_orders m A C L" using I by (simp add: kmem_inv_def)
  note D = slab_invD [OF I']
  have nz: "slabs m k \<noteq> 0" using chain_head [OF D(6) [OF k]] D(5) [OF k] by simp
  have f: "all_full m (C k)" using scan_full [OF D(6) [OF k]] full by simp
  from alloc_locked_full [OF nz D(6) [OF k] f D(2,3) k a1, of "C k"] D(7) [OF k] obtain s1 i h where
    s1: "slabs m1 k = s1" "headers m1 = (headers m)(s1 \<mapsto> h)" "next_slab h = slabs m k" "s1 \<noteq> 0"
    "buddy_inv (gmem m1) (insert (i, 9) A)" "zone_ok (gmem m1)" "slab_at (gmem m1) (insert (i, 9) A) s1"
    "\<forall>t \<in> set (C k). slab_at (gmem m1) (insert (i, 9) A) t \<and> t \<noteq> s1" by blast
  have c1: "chain (headers m1) (slabs m k) (C k)"
    using D(6) [OF k] by (rule chain_cong) (use s1 in auto)
  have f1: "all_full m1 (C k)" using f s1 by (auto simp: all_full_def)
  from alloc_locked_full [OF nz c1 f1 s1(5,6) k a2, of "s1 # C k"] s1(7,8) obtain s2 h2 where
    s2: "slabs m2 k = s2" "headers m2 = (headers m1)(s2 \<mapsto> h2)" "next_slab h2 = slabs m k" "s2 \<noteq> 0"
    "\<forall>t \<in> set (s1 # C k). t \<noteq> s2" by auto
  have "chain (headers m2) (slabs m k) (C k)"
    using c1 by (rule chain_cong) (use s2 in auto)
  with c1 s1 s2 show ?thesis by auto
qed

text \<open>Emptying every free list of one cache makes all its slots live.\<close>

definition fill :: "(nat \<Rightarrow> u64 list) \<Rightarrow> nat \<Rightarrow> kmem \<Rightarrow> kmem" where
  "fill C k m = m\<lparr>headers := (\<lambda>s. if s \<in> set (C k)
     then map_option (\<lambda>h. h\<lparr>free_list_head := 0\<rparr>) (headers m s) else headers m s)\<rparr>"

lemma fill_ok:
  assumes I: "kmem_inv m A C {}" and k: "k \<in> slab_orders"
  shows "kmem_inv (fill C k m) A C {(p, k) |p s. s \<in> set (C k) \<and> p \<in> set (slots s k)}"
    (is "kmem_inv ?m A C ?L")
    and "all_full (fill C k m) (C k)"
proof -
  have I': "slab_inv slab_orders m A C {}" using I by (simp add: kmem_inv_def)
  note D = slab_invD [OF I']
  show "all_full ?m (C k)" using D(8) [OF k] by (fastforce simp: all_full_def fill_def slab_ok_def)
  have ok: "slab_ok ?m ?L k' t" if t: "k' \<in> slab_orders" "t \<in> set (C k')" for k' t
  proof (cases "t \<in> set (C k)")
    case True
    then have "k' = k" using D(8) [OF t] D(8) [OF k True] by (auto simp: slab_ok_def)
    with True show ?thesis
      using D(8) [OF k True] by (auto simp: slab_ok_def fill_def intro!: exI [of _ "[]"])
  next
    case False
    have "(p, k') \<notin> ?L" if "p \<in> set (slots t k')" for p
      using slots_disjoint [OF _ D(7) [OF t] D(3) _ t(1) _ that] D(7) [OF k] k False by blast
    then show ?thesis
      by (intro slab_ok_frame [OF D(8) [OF t]]) (use False in \<open>auto simp: fill_def\<close>)
  qed
  have "chain (headers ?m) (slabs m k') (C k')" if "k' \<in> slab_orders" for k'
    using D(6) [OF that] by (rule chain_cong) (auto simp: fill_def)
  with D ok k have "slab_inv slab_orders ?m A C ?L"
    unfolding slab_inv_def by (auto simp: fill_def)
  with I show "kmem_inv ?m A C ?L" by (simp add: kmem_inv_def fill_def)
qed

theorem stale_header_loses_slab_witness:
  "\<exists>m p1 m1 p2 m2. alloc_in_slab_locked (slabs m 11) 11 m = Some (p1, m1)
     \<and> alloc_in_slab_locked (slabs m 11) 11 m1 = Some (p2, m2)
     \<and> (\<exists>ss. chain (headers m2) (slabs m2 11) ss \<and> slabs m1 11 \<notin> set ss)"
proof -
  have k: "11 \<in> slab_orders" by (simp add: slab_orders_def SLAB_MIN_ORDER_def SLAB_MAX_ORDER_def)
  obtain m0 A C where "kmem_inv m0 A C {}" and A: "\<forall>b \<in> A. snd b = 9" "finite A" "card A \<le> 7"
    "page_num (gmem m0) = 8192" using blank_kmem_init [of 8192] by auto
  note f = fill_ok [OF this(1) k]
  let ?m = "fill C 11 m0"
  note D = slab_invD [OF conjunct1 [OF f(1) [unfolded kmem_inv_def]]]
  have l: "lock_free (slabs_locks ?m 11)" using f(1) k by (simp add: kmem_inv_def)
  have nz: "slabs ?m 11 \<noteq> 0" using chain_head [OF D(6) [OF k]] D(5) [OF k] by simp
  have "\<not> no_slab_block ?m A"
    using A by (intro block_available [OF D(2), of 16]) (auto simp: fill_def)
  from alloc_locked_total [OF nz D(6) [OF k] f(2) D(2,3) k l this] obtain p1 m1 where
    a1: "alloc_in_slab_locked (slabs ?m 11) 11 ?m = Some (p1, m1)" by blast
  from alloc_locked_full [OF nz D(6) [OF k] f(2) D(2,3) k a1, of "C 11"] D(7) [OF k] obtain s1 i h where
    s1: "slabs m1 11 = s1" "headers m1 = (headers ?m)(s1 \<mapsto> h)"
    "buddy_inv (gmem m1) (insert (i, 9) A)" "zone_ok (gmem m1)" "\<forall>t \<in> set (C 11). t \<noteq> s1"
    "page_num (gmem m1) = page_num (gmem ?m)" "lock_free (slabs_locks m1 11)" by blast
  have c1: "chain (headers m1) (slabs ?m 11) (C 11)"
    using D(6) [OF k] by (rule chain_cong) (use s1 in auto)
  have f1: "all_full m1 (C 11)" using f(2) s1 by (auto simp: all_full_def)
  have "card (insert (i, 9) A) < 16" using A(2,3) card_insert_le_m1 [of 9 A "(i, 9)"] by simp
  then have "\<not> no_slab_block m1 (insert (i, 9) A)"
    using A s1(6) by (intro block_available [OF s1(3), of 16]) (auto simp: fill_def)
  from alloc_locked_total [OF nz c1 f1 s1(3,4) k s1(7) this] obtain p2 m2 where
    a2: "alloc_in_slab_locked (slabs ?m 11) 11 m1 = Some (p2, m2)" by blast
  have "scan_slabs (slabs ?m 11) ?m = Some (0, ?m)" using scan_full [OF D(6) [OF k]] f(2) by simp
  from stale_header_loses_slab [OF f(1) k this a1 a2] a1 a2 show ?thesis by blast
qed

text \<open>
  C36: the layout \<^verbatim>\<open>mm_init\<close> computes from a free memory range ends less than a page behind the end
  of the range, but it can end behind it: rounding the start of the pages up is not taken
  into account when their number is computed.
\<close>

theorem mm_layout_end:
  assumes "unat s + 4096 < unat e" and "unat e + 4096 < 2 ^ 64"
    and "mm_layout s e = (n, start)"
  shows "unat start + unat n * 4096 < unat e + 4096 \<and> unat s + unat n * 40 \<le> unat start
    \<and> (let (n', start') = mm_layout 0x100000 0x500F00 in start' + n' * 4096 > 0x500F00)"
proof -
  have d: "unat (e - s) = unat e - unat s"
    using assms(1) by (intro unat_sub) (simp add: word_le_nat_alt)
  have n: "unat n = (unat e - unat s) div 4136" "start = ROUND_UP (s + n * 40) 4096"
    using assms(3) d
    by (auto simp: mm_layout_def Let_def BUDDY_PAGE_SIZE_def BUDDY_PAGE_SHIFT_def page_meta_size_def unat_div)
  have b: "unat n * 4136 \<le> unat e - unat s" unfolding n(1) by (rule div_times_less_eq_dividend)
  have "unat (n * 40) = unat n * 40" using b assms(2) by (simp add: unat_word_ariths)
  then have u: "unat (s + n * 40) = unat s + unat n * 40"
    using b assms(1,2) by (simp add: unat_word_ariths)
  then have r: "unat start = (unat s + unat n * 40 + 4095) div 4096 * 4096"
    unfolding n(2) using b assms(1,2) by (subst ROUND_UP_page) simp_all
  have "(let (n', start') = mm_layout 0x100000 0x500F00 in start' + n' * 4096 > 0x500F00)"
    by (simp add: mm_layout_def Let_def BUDDY_PAGE_SIZE_def BUDDY_PAGE_SHIFT_def page_meta_size_def ROUND_UP_def)
  with b r assms(1) show ?thesis by linarith
qed

theorem mm_layout_end_witness:
  "mm_layout 0x100000 0x500F00 = (1015, 0x10A000) \<and> unat (0x10A000 :: u64) + 1015 * 4096 < 0x500F00 + 4096"
proof -
  have "mm_layout 0x100000 0x500F00 = (1015, 0x10A000)"
    by (simp add: mm_layout_def Let_def BUDDY_PAGE_SIZE_def BUDDY_PAGE_SHIFT_def page_meta_size_def ROUND_UP_def)
  with mm_layout_end [of "0x100000" "0x500F00" 1015 "0x10A000"] show ?thesis by simp
qed

end
