(* ===== verification/Capability.thy ===== *)
theory Capability
  imports RW_Lock Linked_List Bitmap
begin

text \<open>
  Capabilities: the slot tables of \<^verbatim>\<open>kernel/object/cap_group.c\<close> and the operations on objects and
  slots of \<^verbatim>\<open>kernel/object/capability.c\<close>.  An object, a capability group and a slot are named by
  the address of their memory (a capability group by the address of the object it is embedded
  in); a map gives the contents, and freed memory is not in it.  The list of the slots that
  point to an object is an intrusive list in a list heap: the \<^verbatim>\<open>copies_head\<close> of object \<open>o\<close> has the
  address \<open>2 * o\<close>, the \<^verbatim>\<open>copies\<close> node of slot \<open>a\<close> the address \<open>2 * a + 1\<close>.

  Memory comes from a source of fresh addresses; \<open>mem_ok\<close> decides whether the next request can
  be served.  A request up to 2048 bytes that cannot be served stops the kernel, and so does one
  above the largest block; another one gets NULL (see the theory of the slab allocator).  \<open>beyond\<close> is the memory behind a
  \<^verbatim>\<open>full_slots_bmp\<close> array.
\<close>

section \<open>State\<close>

type_synonym ptr = nat

datatype object_type = TYPE_CAP_GROUP | TYPE_THREAD | TYPE_CONNECTION | TYPE_NOTIFICATION
  | TYPE_IRQ | TYPE_PMO | TYPE_VMSPACE

record object =
  otype :: object_type
  osize :: u64
  copies_lock :: lock_impl
  refcount :: u64

record object_slot =
  slot_id :: u64
  slot_group :: ptr
  isvalid :: bool
  rights :: u64
  slot_object :: ptr
  slot_guard :: u32

record slot_table =
  slots_size :: nat
  slots :: "ptr option list"
  full_slots_bmp :: "u64 list"
  slots_bmp :: "u64 list"
  table_guard :: u32

record cap_group =
  slot_tab :: slot_table
  threads_lock :: lock_impl
  thread_cnt :: int
  badge :: u64
  notify_recycler :: int

record cap_state =
  objects :: "ptr \<Rightarrow> object option"
  groups :: "ptr \<Rightarrow> cap_group option"
  cslots :: "ptr \<Rightarrow> object_slot option"
  copies :: list_heap
  brk :: ptr
  mem_ok :: "nat \<Rightarrow> bool"
  mem_cnt :: nat
  beyond :: "nat \<Rightarrow> u64"
  deinits :: "ptr list"

definition BASE_OBJECT_NUM :: nat where "BASE_OBJECT_NUM = BITS_PER_LONG"
definition CAP_GROUP_OBJ_ID :: int where "CAP_GROUP_OBJ_ID = 0"
definition VMSPACE_OBJ_ID :: int where "VMSPACE_OBJ_ID = 1"
definition ROOT_CAP_GROUP_BADGE :: u64 where "ROOT_CAP_GROUP_BADGE = 1"
definition FSM_BADGE :: u64 where "FSM_BADGE = 2"
definition PROCMGR_BADGE :: u64 where "PROCMGR_BADGE = 4"

definition copies_head :: "ptr \<Rightarrow> addr" where "copies_head ob = 2 * ob"
definition copies_node :: "ptr \<Rightarrow> addr" where "copies_node a = 2 * a + 1"
definition slot_of_node :: "addr \<Rightarrow> ptr" where "slot_of_node n = (n - 1) div 2"

definition sizeof_slot :: nat where "sizeof_slot = 64"

text \<open>A request for memory: whether it got some, or \<^const>\<open>None\<close> when the kernel stops.\<close>

definition kmalloc_ok :: "nat \<Rightarrow> cap_state \<Rightarrow> (bool \<times> cap_state) option" where
  "kmalloc_ok sz s =
     (let s' = s\<lparr>mem_cnt := mem_cnt s + 1\<rparr>
      in if sz > 2 ^ 25 then None
         else if mem_ok s (mem_cnt s) then Some (True, s')
         else if sz \<le> 2048 then None else Some (False, s'))"

definition upd_obj :: "ptr \<Rightarrow> (object \<Rightarrow> object) \<Rightarrow> cap_state \<Rightarrow> cap_state option" where
  "upd_obj ob f s = map_option (\<lambda>x. s\<lparr>objects := (objects s)(ob \<mapsto> f x)\<rparr>) (objects s ob)"

definition upd_group :: "ptr \<Rightarrow> (cap_group \<Rightarrow> cap_group) \<Rightarrow> cap_state \<Rightarrow> cap_state option" where
  "upd_group g f s = map_option (\<lambda>x. s\<lparr>groups := (groups s)(g \<mapsto> f x)\<rparr>) (groups s g)"

definition set_table :: "ptr \<Rightarrow> slot_table \<Rightarrow> cap_state \<Rightarrow> cap_state option" where
  "set_table g t = upd_group g (\<lambda>x. x\<lparr>slot_tab := t\<rparr>)"

definition free_object :: "ptr \<Rightarrow> cap_state \<Rightarrow> cap_state" where
  "free_object ob s = s\<lparr>objects := (objects s)(ob := None), groups := (groups s)(ob := None)\<rparr>"

section \<open>Slot tables\<close>

definition is_valid_slot_id :: "slot_table \<Rightarrow> int \<Rightarrow> bool option" where
  "is_valid_slot_id t i =
     (if i < 0 \<and> i mod 2 ^ 32 \<ge> int (slots_size t) then Some False
      else do {
        b \<leftarrow> bmp_get (nat (i mod 2 ^ 32)) (slots_bmp t);
        if \<not> b then Some False
        else do {
          x \<leftarrow> nth_opt (slots t) (nat i);
          if x = None then None else Some True } })"

definition slot_table_init :: "nat \<Rightarrow> bool \<Rightarrow> slot_table \<Rightarrow> cap_state \<Rightarrow> (int \<times> slot_table \<times> cap_state) option" where
  "slot_table_init sz init_lock t s = (
     let n = DIV_ROUND_UP sz BASE_OBJECT_NUM * BASE_OBJECT_NUM; t1 = t\<lparr>slots_size := n\<rparr>
     in do {
       (ok1, s1) \<leftarrow> kmalloc_ok (n * 8) s;
       if \<not> ok1 then Some (- ENOMEM, t1, s1)
       else do {
         (ok2, s2) \<leftarrow> kmalloc_ok (BITS_TO_LONGS n * 8) s1;
         let t2 = t1\<lparr>slots := replicate n None\<rparr>;
         if \<not> ok2 then Some (- ENOMEM, t2, s2)
         else do {
           (ok3, s3) \<leftarrow> kmalloc_ok (BITS_TO_LONGS (BITS_TO_LONGS n) * 8) s2;
           let t3 = t2\<lparr>slots_bmp := replicate (BITS_TO_LONGS n) 0\<rparr>;
           if \<not> ok3 then Some (- ENOMEM, t3, s3)
           else Some (0, t3\<lparr>full_slots_bmp := replicate (BITS_TO_LONGS (BITS_TO_LONGS n)) 0,
                            table_guard := (if init_lock then rwlock_init else table_guard t3)\<rparr>, s3) } } })"

definition blank_table :: slot_table where
  "blank_table = \<lparr>slots_size = 0, slots = [], full_slots_bmp = [], slots_bmp = [], table_guard = 0\<rparr>"

text \<open>\<^verbatim>\<open>memcpy\<close> of the old array over the start of the new one.\<close>

definition copy_over :: "'a list \<Rightarrow> 'a list \<Rightarrow> 'a list" where
  "copy_over src dst = src @ drop (length src) dst"

definition expand_slot_table :: "slot_table \<Rightarrow> cap_state \<Rightarrow> (int \<times> slot_table \<times> cap_state) option" where
  "expand_slot_table t s = (
     let old_size = slots_size t; new_size = old_size + BASE_OBJECT_NUM
     in do {
       (r, nt, s1) \<leftarrow> slot_table_init new_size False blank_table s;
       if r < 0 then Some (r, t, s1)
       else Some (0, t\<lparr>slots_size := new_size,
         slots := copy_over (take old_size (slots t)) (slots nt),
         slots_bmp := copy_over (take (BITS_TO_LONGS old_size) (slots_bmp t)) (slots_bmp nt),
         full_slots_bmp := copy_over (take (BITS_TO_LONGS (BITS_TO_LONGS old_size)) (full_slots_bmp t))
           (full_slots_bmp nt)\<rparr>, s1) })"

text \<open>Reading \<^verbatim>\<open>full_slots_bmp\<close> at an index that may lie behind the array.\<close>

definition full_word :: "cap_state \<Rightarrow> slot_table \<Rightarrow> nat \<Rightarrow> u64" where
  "full_word s t i = (if i < length (full_slots_bmp t) then full_slots_bmp t ! i else beyond s i)"

definition find_slot :: "slot_table \<Rightarrow> nat option option" where
  "find_slot t = (
     let bmp_size = slots_size t; full_bmp_size = BITS_TO_LONGS bmp_size
     in do {
       e \<leftarrow> find_next_zero_bit (full_slots_bmp t) full_bmp_size 0;
       if e \<ge> full_bmp_size then Some None
       else do {
         e' \<leftarrow> find_next_zero_bit (slots_bmp t) bmp_size (e * BITS_PER_LONG);
         Some (if e' \<ge> bmp_size then None else Some e') } })"

definition take_slot_id :: "nat \<Rightarrow> slot_table \<Rightarrow> cap_state \<Rightarrow> slot_table option" where
  "take_slot_id e t s = do {
     b \<leftarrow> bmp_set e (slots_bmp t);
     let t1 = t\<lparr>slots_bmp := b\<rparr>;
     if full_word s t1 (e div BITS_PER_LONG) = NOT 0
     then do { f \<leftarrow> bmp_set (e div BITS_PER_LONG) (full_slots_bmp t1); Some (t1\<lparr>full_slots_bmp := f\<rparr>) }
     else Some t1 }"

partial_function (option) alloc_slot_loop ::
  "slot_table \<Rightarrow> cap_state \<Rightarrow> (int \<times> slot_table \<times> cap_state) option" where
  [code]: "alloc_slot_loop t s = do {
     x \<leftarrow> find_slot t;
     case x of
       Some e \<Rightarrow> do { BUG_ON (e \<ge> slots_size t); t1 \<leftarrow> take_slot_id e t s; Some (int e, t1, s) }
     | None \<Rightarrow> do {
         (r, t1, s1) \<leftarrow> expand_slot_table t s;
         if r < 0 then Some (r, t1, s1) else alloc_slot_loop t1 s1 } }"

definition alloc_slot_id :: "ptr \<Rightarrow> cap_state \<Rightarrow> (int \<times> cap_state) option" where
  "alloc_slot_id g s = do {
     G \<leftarrow> groups s g;
     (r, t, s1) \<leftarrow> alloc_slot_loop (slot_tab G) s;
     s2 \<leftarrow> set_table g t s1;
     Some (r, s2) }"

definition free_slot_id :: "ptr \<Rightarrow> nat \<Rightarrow> cap_state \<Rightarrow> cap_state option" where
  "free_slot_id g i s = do {
     G \<leftarrow> groups s g;
     let t = slot_tab G;
     b \<leftarrow> bmp_clear i (slots_bmp t);
     f \<leftarrow> bmp_clear (i div BITS_PER_LONG) (full_slots_bmp t);
     sl \<leftarrow> upd_opt (slots t) i None;
     set_table g (t\<lparr>slots_bmp := b, full_slots_bmp := f, slots := sl\<rparr>) s }"

definition get_slot :: "ptr \<Rightarrow> int \<Rightarrow> cap_state \<Rightarrow> ptr option option" where
  "get_slot g i s = do {
     G \<leftarrow> groups s g;
     if i < 0 \<or> i \<ge> int (slots_size (slot_tab G)) then Some None
     else nth_opt (slots (slot_tab G)) (nat i) }"

definition install_slot :: "ptr \<Rightarrow> int \<Rightarrow> ptr \<Rightarrow> cap_state \<Rightarrow> cap_state option" where
  "install_slot g i a s = do {
     G \<leftarrow> groups s g;
     let t = slot_tab G;
     b \<leftarrow> bmp_get (nat (i mod 2 ^ 32)) (slots_bmp t);
     BUG_ON (\<not> b);
     sl \<leftarrow> (if i < 0 then None else upd_opt (slots t) (nat i) (Some a));
     set_table g (t\<lparr>slots := sl\<rparr>) s }"

definition cap_group_init :: "ptr \<Rightarrow> nat \<Rightarrow> u64 \<Rightarrow> cap_state \<Rightarrow> cap_state option" where
  "cap_group_init g sz b s = do {
     G \<leftarrow> groups s g;
     (r, t, s1) \<leftarrow> slot_table_init sz True (slot_tab G) s;
     BUG_ON (r \<noteq> 0);
     upd_group g (\<lambda>x. x\<lparr>slot_tab := t, threads_lock := lock_init, thread_cnt := 0, badge := b\<rparr>) s1 }"

section \<open>Objects and capabilities\<close>

definition lock_table_w :: "ptr \<Rightarrow> cap_state \<Rightarrow> cap_state option" where
  "lock_table_w g s = do {
     G \<leftarrow> groups s g;
     w \<leftarrow> write_lock (table_guard (slot_tab G));
     set_table g ((slot_tab G)\<lparr>table_guard := w\<rparr>) s }"

definition unlock_table_w :: "ptr \<Rightarrow> cap_state \<Rightarrow> cap_state option" where
  "unlock_table_w g s = do {
     G \<leftarrow> groups s g;
     set_table g ((slot_tab G)\<lparr>table_guard := write_unlock (table_guard (slot_tab G))\<rparr>) s }"

definition lock_table_r :: "ptr \<Rightarrow> cap_state \<Rightarrow> cap_state option" where
  "lock_table_r g s = do {
     G \<leftarrow> groups s g;
     w \<leftarrow> read_lock (table_guard (slot_tab G));
     set_table g ((slot_tab G)\<lparr>table_guard := w\<rparr>) s }"

definition unlock_table_r :: "ptr \<Rightarrow> cap_state \<Rightarrow> cap_state option" where
  "unlock_table_r g s = do {
     G \<leftarrow> groups s g;
     set_table g ((slot_tab G)\<lparr>table_guard := read_unlock (table_guard (slot_tab G))\<rparr>) s }"

definition sizeof_object :: nat where "sizeof_object = 48"

text \<open>The memory of a new object, with the capability group embedded in it zeroed.\<close>

definition obj_alloc :: "object_type \<Rightarrow> nat \<Rightarrow> cap_state \<Rightarrow> (ptr option \<times> cap_state) option" where
  "obj_alloc ty sz s = do {
     (ok, s1) \<leftarrow> kmalloc_ok (sizeof_object + sz) s;
     if \<not> ok then Some (None, s1)
     else let ob = brk s1;
              x = \<lparr>otype = ty, osize = of_nat sz, copies_lock = lock_init, refcount = 0\<rparr>;
              G = \<lparr>slot_tab = blank_table, threads_lock = lock_init, thread_cnt = 0, badge = 0, notify_recycler = 0\<rparr>
          in Some (Some ob, s1\<lparr>brk := ob + 1, objects := (objects s1)(ob \<mapsto> x),
               copies := init_list_head (copies_head ob) (copies s1),
               groups := (if ty = TYPE_CAP_GROUP then (groups s1)(ob \<mapsto> G) else groups s1)\<rparr>) }"

text \<open>A new slot: its memory and its node on the list after \<open>pos\<close>.\<close>

definition new_slot :: "object_slot \<Rightarrow> addr \<Rightarrow> cap_state \<Rightarrow> ptr \<times> cap_state" where
  "new_slot x pos s = (brk s, s\<lparr>brk := brk s + 1, cslots := (cslots s)(brk s \<mapsto> x),
     copies := list_add (copies_node (brk s)) pos (copies s)\<rparr>)"

definition cap_alloc :: "ptr \<Rightarrow> ptr \<Rightarrow> u64 \<Rightarrow> cap_state \<Rightarrow> (int \<times> cap_state) option" where
  "cap_alloc g ob rts s = do {
     s1 \<leftarrow> lock_table_w g s;
     (i, s2) \<leftarrow> alloc_slot_id g s1;
     if i < 0 then do { s3 \<leftarrow> unlock_table_w g s2; Some (- ENOMEM, s3) }
     else do {
       (ok, s3) \<leftarrow> kmalloc_ok sizeof_slot s2;
       if \<not> ok then do {
         s4 \<leftarrow> free_slot_id g (nat i) s3;
         s5 \<leftarrow> unlock_table_w g s4;
         Some (- ENOMEM, s5) }
       else do {
         let (a, s4) = new_slot \<lparr>slot_id = of_int i, slot_group = g, isvalid = True, rights = rts,
                                 slot_object = ob, slot_guard = rwlock_init\<rparr> (copies_head ob) s3;
         x \<leftarrow> objects s4 ob;
         BUG_ON (refcount x \<noteq> 0);
         s5 \<leftarrow> upd_obj ob (\<lambda>x. x\<lparr>refcount := 1\<rparr>) s4;
         s6 \<leftarrow> install_slot g i a s5;
         s7 \<leftarrow> unlock_table_w g s6;
         Some (i, s7) } } }"

definition has_deinit :: "object_type \<Rightarrow> bool" where
  "has_deinit ty \<longleftrightarrow> ty = TYPE_THREAD \<or> ty = TYPE_IRQ"

text \<open>
  Steps 2 and 3 of \<^verbatim>\<open>__cap_free\<close>: the slot leaves the list of its object and is freed; the
  object loses a reference.  The call of a deinitialisation function is recorded in
  \<open>deinits\<close>; the functions of the table do not change the reference count.
\<close>

definition drop_slot :: "ptr \<Rightarrow> ptr \<Rightarrow> bool \<Rightarrow> cap_state \<Rightarrow> cap_state option" where
  "drop_slot a ob copies_list_locked s = do {
     s1 \<leftarrow> (if copies_list_locked then Some (s\<lparr>copies := list_del (copies_node a) (copies s)\<rparr>)
           else do {
             x \<leftarrow> objects s ob;
             l \<leftarrow> lock (copies_lock x);
             upd_obj ob (\<lambda>x. x\<lparr>copies_lock := unlock l\<rparr>)
               (s\<lparr>copies := list_del (copies_node a) (copies s)\<rparr>) });
     let s2 = s1\<lparr>cslots := (cslots s1)(a := None)\<rparr>;
     x \<leftarrow> objects s2 ob;
     s3 \<leftarrow> upd_obj ob (\<lambda>x. x\<lparr>refcount := refcount x - 1\<rparr>) s2;
     if refcount x = 1 then do {
       let s4 = (if has_deinit (otype x) then s3\<lparr>deinits := deinits s3 @ [ob]\<rparr> else s3);
       BUG_ON (\<not> list_empty (copies_head ob) (copies s4));
       Some (free_object ob s4) }
     else Some s3 }"

definition cap_free_gen :: "ptr \<Rightarrow> int \<Rightarrow> bool \<Rightarrow> bool \<Rightarrow> cap_state \<Rightarrow> (int \<times> cap_state) option" where
  "cap_free_gen g i table_locked copies_list_locked s = do {
     s1 \<leftarrow> (if table_locked then Some s else lock_table_w g s);
     x \<leftarrow> get_slot g i s1;
     sl \<leftarrow> (case x of None \<Rightarrow> Some None | Some a \<Rightarrow> do { y \<leftarrow> cslots s1 a; Some (if isvalid y then Some (a, y) else None) });
     case sl of
       None \<Rightarrow> do { s2 \<leftarrow> (if table_locked then Some s1 else unlock_table_w g s1); Some (- ECAPBILITY, s2) }
     | Some (a, y) \<Rightarrow> do {
         s2 \<leftarrow> free_slot_id g (nat i) s1;
         s3 \<leftarrow> (if table_locked then Some s2 else unlock_table_w g s2);
         s4 \<leftarrow> drop_slot a (slot_object y) copies_list_locked s3;
         Some (0, s4) } }"

definition cap_free :: "ptr \<Rightarrow> int \<Rightarrow> cap_state \<Rightarrow> (int \<times> cap_state) option" where
  "cap_free g i s = cap_free_gen g i False False s"

text \<open>
  \<^verbatim>\<open>cap_copy\<close> locks the source table for reading and the destination table for writing, in a
  loop that backs off while the latter is taken; run alone it enters at once or spins.
\<close>

definition lock_tables :: "ptr \<Rightarrow> ptr \<Rightarrow> cap_state \<Rightarrow> cap_state option" where
  "lock_tables src dest s =
     (if src = dest then lock_table_w dest s
      else do { s1 \<leftarrow> lock_table_r src s; lock_table_w dest s1 })"

definition unlock_tables :: "ptr \<Rightarrow> ptr \<Rightarrow> cap_state \<Rightarrow> cap_state option" where
  "unlock_tables src dest s = do {
     s1 \<leftarrow> unlock_table_w dest s;
     if src = dest then Some s1 else unlock_table_r src s1 }"

definition cap_copy :: "ptr \<Rightarrow> ptr \<Rightarrow> int \<Rightarrow> bool \<Rightarrow> u64 \<Rightarrow> cap_state \<Rightarrow> (int \<times> cap_state) option" where
  "cap_copy src dest i new_rights_valid new_rights s = do {
     s1 \<leftarrow> lock_tables src dest s;
     x \<leftarrow> get_slot src i s1;
     sl \<leftarrow> (case x of None \<Rightarrow> Some None | Some a \<Rightarrow> do { y \<leftarrow> cslots s1 a; Some (if isvalid y then Some (a, y) else None) });
     case sl of
       None \<Rightarrow> do { s2 \<leftarrow> unlock_tables src dest s1; Some (- ECAPBILITY, s2) }
     | Some (a, y) \<Rightarrow> do {
         (j, s2) \<leftarrow> alloc_slot_id dest s1;
         if j = -1 then do { s3 \<leftarrow> unlock_tables src dest s2; Some (- ENOMEM, s3) }
         else do {
           (ok, s3) \<leftarrow> kmalloc_ok sizeof_slot s2;
           if \<not> ok then do {
             s4 \<leftarrow> free_slot_id dest (nat (j mod 2 ^ 32)) s3;
             s5 \<leftarrow> unlock_tables src dest s4;
             Some (- ENOMEM, s5) }
           else do {
             s4 \<leftarrow> upd_obj (slot_object y) (\<lambda>x. x\<lparr>refcount := refcount x + 1\<rparr>) s3;
             let (b, s5) = new_slot \<lparr>slot_id = of_int j, slot_group = dest, isvalid = True,
                   rights = (if new_rights_valid then new_rights else rights y),
                   slot_object = slot_object y, slot_guard = rwlock_init\<rparr> (copies_node a) s4;
             s6 \<leftarrow> install_slot dest j b s5;
             s7 \<leftarrow> unlock_tables src dest s6;
             Some (j, s7) } } } }"

definition cap_copy_local :: "ptr \<Rightarrow> int \<Rightarrow> u64 \<Rightarrow> cap_state \<Rightarrow> (int \<times> cap_state) option" where
  "cap_copy_local g i new_rights s = cap_copy g g i True new_rights s"

definition cap_move :: "ptr \<Rightarrow> ptr \<Rightarrow> int \<Rightarrow> bool \<Rightarrow> u64 \<Rightarrow> cap_state \<Rightarrow> (int \<times> cap_state) option" where
  "cap_move src dest i new_rights_valid new_rights s = do {
     (r, s1) \<leftarrow> cap_copy src dest i new_rights_valid new_rights s;
     if r < 0 then Some (r, s1)
     else do {
       (r', s2) \<leftarrow> cap_free src i s1;
       BUG_ON (r' \<noteq> 0);
       Some (r', s2) } }"

definition get_opaque :: "ptr \<Rightarrow> int \<Rightarrow> object_type option \<Rightarrow> cap_state \<Rightarrow> (ptr option \<times> cap_state) option" where
  "get_opaque g i ty s = do {
     s1 \<leftarrow> lock_table_r g s;
     G \<leftarrow> groups s1 g;
     v \<leftarrow> is_valid_slot_id (slot_tab G) i;
     (r, s2) \<leftarrow> (if \<not> v then Some (None, s1)
       else do {
         x \<leftarrow> get_slot g i s1;
         a \<leftarrow> x;
         y \<leftarrow> cslots s1 a;
         w \<leftarrow> read_lock (slot_guard y);
         BUG_ON (\<not> isvalid y);
         x \<leftarrow> objects s1 (slot_object y);
         let y' = y\<lparr>slot_guard := read_unlock w\<rparr>;
         if ty = None \<or> ty = Some (otype x)
         then do {
           s2 \<leftarrow> upd_obj (slot_object y) (\<lambda>x. x\<lparr>refcount := refcount x + 1\<rparr>) s1;
           Some (Some (slot_object y), s2\<lparr>cslots := (cslots s2)(a \<mapsto> y')\<rparr>) }
         else Some (None, s1\<lparr>cslots := (cslots s1)(a \<mapsto> y')\<rparr>) });
     s3 \<leftarrow> unlock_table_r g s2;
     Some (r, s3) }"

definition obj_get :: "ptr \<Rightarrow> int \<Rightarrow> object_type \<Rightarrow> cap_state \<Rightarrow> (ptr option \<times> cap_state) option" where
  "obj_get g i ty s = get_opaque g i (Some ty) s"

definition obj_put :: "ptr option \<Rightarrow> cap_state \<Rightarrow> cap_state option" where
  "obj_put p s = do {
     ob \<leftarrow> p;
     x \<leftarrow> objects s ob;
     s1 \<leftarrow> upd_obj ob (\<lambda>x. x\<lparr>refcount := refcount x - 1\<rparr>) s;
     Some (if refcount x = 1 then free_object ob s1 else s1) }"

text \<open>\<^verbatim>\<open>for_each_in_list_safe\<close> over the copies of an object, freeing each slot.\<close>

partial_function (option) free_copies :: "addr \<Rightarrow> addr \<Rightarrow> addr \<Rightarrow> cap_state \<Rightarrow> cap_state option" where
  [code]: "free_copies head elem tmp s =
     (if elem = head then Some s
      else do {
        y \<leftarrow> cslots s (slot_of_node elem);
        (r, s1) \<leftarrow> cap_free_gen (slot_group y) (uint (slot_id y)) False True s;
        BUG_ON (r \<noteq> 0);
        free_copies head tmp (lnext (copies s1) tmp) s1 })"

definition obj_free :: "ptr option \<Rightarrow> cap_state \<Rightarrow> cap_state option" where
  "obj_free p s = (case p of None \<Rightarrow> Some s
     | Some ob \<Rightarrow> do {
         x \<leftarrow> objects s ob;
         if refcount x = 0 then Some (free_object ob s)
         else do {
           l \<leftarrow> lock (copies_lock x);
           s1 \<leftarrow> upd_obj ob (\<lambda>x. x\<lparr>copies_lock := l\<rparr>) s;
           let first = lnext (copies s1) (copies_head ob);
           s2 \<leftarrow> free_copies (copies_head ob) first (lnext (copies s1) first) s1;
           upd_obj ob (\<lambda>x. x\<lparr>copies_lock := unlock (copies_lock x)\<rparr>) s2 } })"

definition cap_revoke :: "ptr \<Rightarrow> int \<Rightarrow> cap_state \<Rightarrow> (int \<times> cap_state) option" where
  "cap_revoke g i s = do {
     (p, s1) \<leftarrow> get_opaque g i None s;
     if p = None then Some (- ECAPBILITY, s1)
     else do {
       s2 \<leftarrow> obj_free p s1;
       s3 \<leftarrow> obj_put p s2;
       Some (0, s3) } }"

section \<open>System calls\<close>

text \<open>
  The arguments are 64-bit registers; a capability argument becomes an \<^verbatim>\<open>int\<close>.  \<open>cur\<close> is the
  capability group of the calling thread.
\<close>

definition to_int :: "u64 \<Rightarrow> int" where
  "to_int w = sint (ucast w :: 32 word)"

definition sys_cap_copy_to :: "ptr \<Rightarrow> u64 \<Rightarrow> u64 \<Rightarrow> cap_state \<Rightarrow> (int \<times> cap_state) option" where
  "sys_cap_copy_to cur dest_cap_group_cap src_slot_id s = do {
     (dest, s1) \<leftarrow> obj_get cur (to_int dest_cap_group_cap) TYPE_CAP_GROUP s;
     case dest of None \<Rightarrow> Some (- ECAPBILITY, s1)
     | Some d \<Rightarrow> do {
         (r, s2) \<leftarrow> cap_copy cur d (to_int src_slot_id) False 0 s1;
         s3 \<leftarrow> obj_put dest s2;
         Some (r, s3) } }"

definition sys_cap_copy_from :: "ptr \<Rightarrow> u64 \<Rightarrow> u64 \<Rightarrow> cap_state \<Rightarrow> (int \<times> cap_state) option" where
  "sys_cap_copy_from cur src_cap_group_cap src_slot_id s = do {
     (src, s1) \<leftarrow> obj_get cur (to_int src_cap_group_cap) TYPE_CAP_GROUP s;
     case src of None \<Rightarrow> Some (- ECAPBILITY, s1)
     | Some d \<Rightarrow> do {
         (r, s2) \<leftarrow> cap_copy d cur (to_int src_slot_id) False 0 s1;
         s3 \<leftarrow> obj_put src s2;
         Some (r, s3) } }"

fun copy_caps :: "ptr \<Rightarrow> ptr \<Rightarrow> int list \<Rightarrow> cap_state \<Rightarrow> (int list \<times> cap_state) option" where
  "copy_caps src dest [] s = Some ([], s)"
| "copy_caps src dest (i # is) s = do {
     (r, s1) \<leftarrow> cap_copy src dest i False 0 s;
     (rs, s2) \<leftarrow> copy_caps src dest is s1;
     Some (r # rs, s2) }"

text \<open>
  \<open>src_caps\<close> is what \<^verbatim>\<open>copy_from_user\<close> reads, the second result what \<^verbatim>\<open>copy_to_user\<close> writes.  The two
  buffers are not tested for NULL, and they are not freed.
\<close>

definition sys_transfer_caps :: "ptr \<Rightarrow> u64 \<Rightarrow> int list \<Rightarrow> cap_state \<Rightarrow> (int \<times> int list \<times> cap_state) option" where
  "sys_transfer_caps cur dest_group_cap src_caps s = do {
     (dest, s1) \<leftarrow> obj_get cur (to_int dest_group_cap) TYPE_CAP_GROUP s;
     case dest of None \<Rightarrow> Some (- ECAPBILITY, [], s1)
     | Some d \<Rightarrow> do {
         (ok1, s2) \<leftarrow> kmalloc_ok (4 * length src_caps) s1;
         (ok2, s3) \<leftarrow> kmalloc_ok (4 * length src_caps) s2;
         BUG_ON (\<not> ok1 \<or> \<not> ok2);
         (dst_caps, s4) \<leftarrow> copy_caps cur d src_caps s3;
         s5 \<leftarrow> obj_put dest s4;
         Some (0, dst_caps, s5) } }"

definition sys_cap_move :: "ptr \<Rightarrow> u64 \<Rightarrow> u64 \<Rightarrow> cap_state \<Rightarrow> (int \<times> cap_state) option" where
  "sys_cap_move cur dest_cap_group_cap src_slot_id s = do {
     (dest, s1) \<leftarrow> obj_get cur (to_int dest_cap_group_cap) TYPE_CAP_GROUP s;
     case dest of None \<Rightarrow> Some (- ECAPBILITY, s1)
     | Some d \<Rightarrow> do {
         (r, s2) \<leftarrow> cap_move cur d (to_int src_slot_id) False 0 s1;
         s3 \<leftarrow> obj_put dest s2;
         Some (r, s3) } }"

definition sizeof_cap_group :: nat where "sizeof_cap_group = 192"
definition sizeof_vmspace :: nat where "sizeof_vmspace = 256"

text \<open>
  \<^verbatim>\<open>vmspace_init\<close> and the copying of the name have no effect on this state.  The error paths are
  those of the labels at the end of the function.
\<close>

definition out_free_cap_grp_current :: "ptr \<Rightarrow> int \<Rightarrow> int \<Rightarrow> cap_state \<Rightarrow> (int \<times> cap_state) option" where
  "out_free_cap_grp_current cur cap r s = do {
     (_, s1) \<leftarrow> cap_free cur cap s;
     s2 \<leftarrow> obj_free None s1;
     Some (r, s2) }"

definition sys_create_cap_group :: "ptr \<Rightarrow> u64 \<Rightarrow> cap_state \<Rightarrow> (int \<times> cap_state) option" where
  "sys_create_cap_group cur b s = do {
     C \<leftarrow> groups s cur;
     if badge C \<noteq> ROOT_CAP_GROUP_BADGE \<and> badge C \<noteq> FSM_BADGE \<and> badge C \<noteq> PROCMGR_BADGE
     then Some (- EPERM, s)
     else do {
       (new, s1) \<leftarrow> obj_alloc TYPE_CAP_GROUP sizeof_cap_group s;
       case new of None \<Rightarrow> Some (- ENOMEM, s1)
       | Some g \<Rightarrow> do {
           s2 \<leftarrow> cap_group_init g BASE_OBJECT_NUM b s1;
           (cap, s3) \<leftarrow> cap_alloc cur g 0 s2;
           if cap < 0 then do { s4 \<leftarrow> obj_free new s3; Some (cap, s4) }
           else do {
             (c0, s4) \<leftarrow> cap_copy cur g cap False 0 s3;
             if c0 \<noteq> CAP_GROUP_OBJ_ID then out_free_cap_grp_current cur cap (-1) s4
             else do {
               (vm, s5) \<leftarrow> obj_alloc TYPE_VMSPACE sizeof_vmspace s4;
               case vm of
                 None \<Rightarrow> do { s6 \<leftarrow> obj_free None s5; out_free_cap_grp_current cur cap (- ENOMEM) s6 }
               | Some v \<Rightarrow> do {
                   (r, s6) \<leftarrow> cap_alloc g v 0 s5;
                   if r < 0 then do { s7 \<leftarrow> obj_free vm s6; out_free_cap_grp_current cur cap r s7 }
                   else do {
                     BUG_ON (r \<noteq> VMSPACE_OBJ_ID);
                     s7 \<leftarrow> upd_group g (\<lambda>x. x\<lparr>notify_recycler := 0\<rparr>) s6;
                     Some (cap, s7) } } } } } } }"

text \<open>
  The first process.  The slot for the group itself is put on no list: the source initialises
  neither \<^verbatim>\<open>copies_head\<close> nor \<^verbatim>\<open>copies_lock\<close> of this object; the lock word is whatever \<^verbatim>\<open>kmalloc\<close>
  returns (\<open>junk\<close>).
\<close>

definition create_root_cap_group :: "lock_impl \<Rightarrow> cap_state \<Rightarrow> (ptr option \<times> cap_state) option" where
  "create_root_cap_group junk s = do {
     (ok, s1) \<leftarrow> kmalloc_ok (sizeof_object + sizeof_cap_group) s;
     if \<not> ok then Some (None, s1)
     else do {
       let g = brk s1;
       let s2 = s1\<lparr>brk := g + 1, objects := (objects s1)(g \<mapsto> \<lparr>otype = TYPE_CAP_GROUP,
                osize = of_nat sizeof_cap_group, copies_lock = junk, refcount = 1\<rparr>),
              groups := (groups s1)(g \<mapsto> \<lparr>slot_tab = blank_table, threads_lock = lock_init,
                thread_cnt = 0, badge = 0, notify_recycler = 0\<rparr>)\<rparr>;
       s3 \<leftarrow> cap_group_init g BASE_OBJECT_NUM ROOT_CAP_GROUP_BADGE s2;
       (i, s4) \<leftarrow> alloc_slot_id g s3;
       BUG_ON (i \<noteq> CAP_GROUP_OBJ_ID);
       (ok2, s5) \<leftarrow> kmalloc_ok sizeof_slot s4;
       if \<not> ok2 then Some (None, free_object g s5)
       else do {
         let a = brk s5;
         let s6 = s5\<lparr>brk := a + 1, cslots := (cslots s5)(a \<mapsto> \<lparr>slot_id = of_int i, slot_group = g,
                isvalid = True, rights = 0, slot_object = g, slot_guard = rwlock_init\<rparr>),
                copies := init_list_head (copies_node a) (copies s5)\<rparr>;
         G \<leftarrow> groups s6 g;
         sl \<leftarrow> upd_opt (slots (slot_tab G)) (nat i) (Some a);
         s7 \<leftarrow> set_table g ((slot_tab G)\<lparr>slots := sl\<rparr>) s6;
         (vm, s8) \<leftarrow> obj_alloc TYPE_VMSPACE sizeof_vmspace s7;
         v \<leftarrow> vm;
         (j, s9) \<leftarrow> cap_alloc g v 0 s8;
         BUG_ON (j \<noteq> VMSPACE_OBJ_ID);
         Some (Some g, s9) } } }"

end
