(* ===== verification/Cap_Invariant.thy ===== *)
theory Cap_Invariant
  imports Capability
begin

text \<open>
  The invariant of the capability system and its preservation: slot tables agree with their
  bit maps, every slot is on the list of the object it points to, and the reference count of
  an object is the number of those slots plus the number of references held outside.
\<close>

section \<open>Slot tables\<close>

definition tbl_ok :: "slot_table \<Rightarrow> bool" where
  "tbl_ok t \<longleftrightarrow> 0 < slots_size t \<and> slots_size t mod 64 = 0 \<and> slots_size t \<le> 2 ^ 22
     \<and> length (slots t) = slots_size t \<and> length (slots_bmp t) = slots_size t div 64
     \<and> length (full_slots_bmp t) = BITS_TO_LONGS (slots_size t div 64)
     \<and> (\<forall>w \<in> set (full_slots_bmp t). w = 0)
     \<and> (\<forall>i < slots_size t. bmp_bit (slots_bmp t) i \<longleftrightarrow> slots t ! i \<noteq> None)"

text \<open>\<open>reserved t e t'\<close>: \<open>t'\<close> is \<open>t\<close>, possibly grown, with its first free entry \<open>e\<close> marked in the bit map.\<close>

definition reserved :: "slot_table \<Rightarrow> nat \<Rightarrow> slot_table \<Rightarrow> bool" where
  "reserved t e t' \<longleftrightarrow> (\<exists>b n. tbl_ok (t'\<lparr>slots_bmp := b\<rparr>) \<and> length (slots_bmp t') = length b
     \<and> (\<forall>i < slots_size t'. bmp_bit (slots_bmp t') i = (i = e \<or> bmp_bit b i))
     \<and> slots t' = slots t @ replicate n None \<and> e < slots_size t' \<and> slots t' ! e = None
     \<and> (\<forall>i < e. slots t' ! i \<noteq> None) \<and> slots_size t' \<le> slots_size t + 64
     \<and> table_guard t' = table_guard t)"

lemma tbl_ok_in_bmp:
  assumes "tbl_ok t" "i < slots_size t"
  shows "in_bmp i (slots_bmp t)"
proof -
  have "slots_size t = 64 * (slots_size t div 64)" using assms(1) by (auto simp: tbl_ok_def)
  then show ?thesis using assms by (simp add: in_bmp_iff tbl_ok_def)
qed

lemma BITS_TO_LONGS_pos: "0 < n \<Longrightarrow> 0 < BITS_TO_LONGS n"
  by (simp add: BITS_TO_LONGS_def DIV_ROUND_UP_def BITS_PER_LONG_def div_greater_zero_iff)

lemma BITS_TO_LONGS_cover: "n \<le> 64 * BITS_TO_LONGS n"
  by (simp add: BITS_TO_LONGS_def DIV_ROUND_UP_def BITS_PER_LONG_def)

lemma BITS_TO_LONGS_mult: "BITS_TO_LONGS (64 * n) = n"
  by (simp add: BITS_TO_LONGS_def DIV_ROUND_UP_def BITS_PER_LONG_def)

lemma tbl_longs: "tbl_ok t \<Longrightarrow> BITS_TO_LONGS (slots_size t) = slots_size t div 64"
  by (metis BITS_TO_LONGS_mult mod_0_imp_dvd dvd_mult_div_cancel tbl_ok_def)

lemma zero_word_bit: "in_bmp n p \<Longrightarrow> \<forall>w \<in> set p. w = 0 \<Longrightarrow> \<not> bmp_bit p n"
proof -
  assume "in_bmp n p" "\<forall>w \<in> set p. w = 0"
  then have "p ! (n div 64) = 0" using nth_mem [of "n div 64" p] unfolding in_bmp_def by blast
  then show "\<not> bmp_bit p n" by (simp add: bmp_bit_def)
qed

text \<open>No word of the upper bit map is ever all ones, so its search always answers 0.\<close>

lemma find_slot_ok:
  assumes t: "tbl_ok t"
  shows "\<exists>x. find_slot t = Some x \<and> (case x of None \<Rightarrow> \<forall>i < slots_size t. slots t ! i \<noteq> None
    | Some e \<Rightarrow> e < slots_size t \<and> slots t ! e = None \<and> (\<forall>i < e. slots t ! i \<noteq> None))"
proof -
  let ?n = "BITS_TO_LONGS (slots_size t)"
  have n: "?n = slots_size t div 64" "0 < ?n" "?n \<le> 64 * length (full_slots_bmp t)"
    using tbl_longs [OF t] t BITS_TO_LONGS_pos [of "slots_size t"] BITS_TO_LONGS_cover [of "slots_size t div 64"]
    by (auto simp: tbl_ok_def)
  from find_next_zero_bit_ok [of 0 ?n "full_slots_bmp t"] n obtain e where
    e: "find_next_zero_bit (full_slots_bmp t) ?n 0 = Some e"
    "first_from (\<lambda>n. \<not> bmp_bit (full_slots_bmp t) n) 0 ?n e" by auto
  have "\<not> bmp_bit (full_slots_bmp t) 0"
    using t n by (intro zero_word_bit) (auto simp: tbl_ok_def in_bmp_iff)
  then have e0: "e = 0" using e(2) by (auto simp: first_from_def)
  have sz: "slots_size t \<le> 64 * length (slots_bmp t)" using t by (auto simp: tbl_ok_def)
  from find_next_zero_bit_ok [of 0, OF _ sz] obtain e' where
    e': "find_next_zero_bit (slots_bmp t) (slots_size t) 0 = Some e'"
    "first_from (\<lambda>n. \<not> bmp_bit (slots_bmp t) n) 0 (slots_size t) e'" by auto
  have "find_slot t = Some (if e' \<ge> slots_size t then None else Some e')"
    using e e0 e' n by (simp add: find_slot_def Let_def)
  moreover have "\<forall>i < e'. i < slots_size t \<longrightarrow> slots t ! i \<noteq> None"
    "e' < slots_size t \<longrightarrow> slots t ! e' = None"
    using e'(2) t by (auto simp: first_from_def tbl_ok_def)
  ultimately show ?thesis by auto
qed

lemma take_slot_id_ok:
  assumes t: "tbl_ok t" and e: "e < slots_size t" "slots t ! e = None" "\<forall>i < e. slots t ! i \<noteq> None"
    and b: "\<forall>i. beyond s i \<noteq> NOT 0"
  shows "\<exists>t'. take_slot_id e t s = Some t' \<and> reserved t e t' \<and> slots_size t' = slots_size t"
proof -
  from bmp_set_ok [OF tbl_ok_in_bmp [OF t e(1)]] obtain q where
    q: "bmp_set e (slots_bmp t) = Some q" "length q = length (slots_bmp t)"
    "\<forall>m. in_bmp m (slots_bmp t) \<longrightarrow> bmp_bit q m = (m = e \<or> bmp_bit (slots_bmp t) m)" by blast
  have "full_word s (t\<lparr>slots_bmp := q\<rparr>) i \<noteq> NOT 0" for i
  proof (cases "i < length (full_slots_bmp t)")
    case True
    then have "full_slots_bmp t ! i = 0" using t nth_mem unfolding tbl_ok_def by blast
    with True show ?thesis by (simp add: full_word_def)
  next
    case False
    with b show ?thesis by (simp add: full_word_def)
  qed
  then have "take_slot_id e t s = Some (t\<lparr>slots_bmp := q\<rparr>)"
    using q(1) by (simp add: take_slot_id_def)
  moreover have "reserved t e (t\<lparr>slots_bmp := q\<rparr>)"
    unfolding reserved_def using t e q tbl_ok_in_bmp [OF t]
    by (intro exI [of _ "slots_bmp t"] exI [of _ 0]) auto
  ultimately show ?thesis by auto
qed

definition mem_avail :: "cap_state \<Rightarrow> bool" where
  "mem_avail s \<longleftrightarrow> (\<forall>n. mem_ok s n)"

lemma kmalloc_avail:
  "mem_avail s \<Longrightarrow> sz \<le> 2 ^ 25 \<Longrightarrow> kmalloc_ok sz s = Some (True, s\<lparr>mem_cnt := mem_cnt s + 1\<rparr>)"
  by (simp add: kmalloc_ok_def mem_avail_def Let_def)

lemma mem_avail_cnt [simp]: "mem_avail (s\<lparr>mem_cnt := n\<rparr>) = mem_avail s"
  by (simp add: mem_avail_def)

lemma BITS_TO_LONGS_le: "BITS_TO_LONGS n \<le> n"
  by (cases "n = 0") (simp_all add: BITS_TO_LONGS_def DIV_ROUND_UP_def BITS_PER_LONG_def)

lemma slot_table_init_ok:
  assumes m: "mem_avail s" and n: "n mod 64 = 0" "0 < n" "n \<le> 2 ^ 22"
  shows "slot_table_init n l t s = Some (0, \<lparr>slots_size = n, slots = replicate n None,
      full_slots_bmp = replicate (BITS_TO_LONGS (n div 64)) 0, slots_bmp = replicate (n div 64) 0,
      table_guard = (if l then rwlock_init else table_guard t)\<rparr>, s\<lparr>mem_cnt := mem_cnt s + 3\<rparr>)"
proof -
  from n(1) obtain q where q: "n = 64 * q" by blast
  have e: "DIV_ROUND_UP n BASE_OBJECT_NUM * BASE_OBJECT_NUM = n"
    by (simp add: q DIV_ROUND_UP_def BASE_OBJECT_NUM_def BITS_PER_LONG_def)
  have b: "BITS_TO_LONGS n = q" "n div 64 = q" by (simp_all add: q BITS_TO_LONGS_mult)
  have "q * 8 \<le> 2 ^ 25" "BITS_TO_LONGS q * 8 \<le> 2 ^ 25" "n * 8 \<le> 2 ^ 25"
    using n(3) BITS_TO_LONGS_le [of q] by (simp_all add: q)
  then show ?thesis
    by (simp add: slot_table_init_def e b Let_def kmalloc_avail m)
qed

lemma tbl_ok_empty:
  assumes n: "n mod 64 = 0" "0 < n" "n \<le> 2 ^ 22"
  shows "tbl_ok \<lparr>slots_size = n, slots = replicate n None,
      full_slots_bmp = replicate (BITS_TO_LONGS (n div 64)) 0, slots_bmp = replicate (n div 64) 0,
      table_guard = g\<rparr>"
proof -
  have "\<not> bmp_bit (replicate (n div 64) 0) i" if "i < n" for i
    using that n(1) by (intro zero_word_bit) (auto simp: in_bmp_iff)
  then show ?thesis using n by (auto simp: tbl_ok_def)
qed

lemma expand_slot_table_ok:
  assumes t: "tbl_ok t" and m: "mem_avail s" and n: "slots_size t + 64 \<le> 2 ^ 22"
  shows "\<exists>t'. expand_slot_table t s = Some (0, t', s\<lparr>mem_cnt := mem_cnt s + 3\<rparr>) \<and> tbl_ok t'
    \<and> slots_size t' = slots_size t + 64 \<and> slots t' = slots t @ replicate 64 None
    \<and> table_guard t' = table_guard t"
proof -
  let ?n = "slots_size t"
  from t obtain q where q: "?n = 64 * q" "0 < ?n" by (auto simp: tbl_ok_def)
  have l: "length (slots t) = ?n" "length (slots_bmp t) = q" "length (full_slots_bmp t) = BITS_TO_LONGS q"
    "BITS_TO_LONGS ?n = q" "(?n + 64) div 64 = Suc q"
    using t q by (auto simp: tbl_ok_def BITS_TO_LONGS_mult)
  have f: "full_slots_bmp t = replicate (BITS_TO_LONGS q) 0"
    using t l(3) by (auto simp: tbl_ok_def intro: replicate_eqI)
  have le: "BITS_TO_LONGS q \<le> BITS_TO_LONGS (Suc q)"
    by (simp add: BITS_TO_LONGS_def DIV_ROUND_UP_def BITS_PER_LONG_def div_le_mono)
  let ?t = "t\<lparr>slots_size := ?n + 64, slots := slots t @ replicate 64 None, slots_bmp := slots_bmp t @ replicate (Suc 0) 0,
      full_slots_bmp := replicate (BITS_TO_LONGS (Suc q)) 0\<rparr>"
  have "expand_slot_table t s = Some (0, ?t, s\<lparr>mem_cnt := mem_cnt s + 3\<rparr>)"
    using slot_table_init_ok [OF m, of "?n + 64" False blank_table] n q l le
    by (simp add: expand_slot_table_def Let_def BASE_OBJECT_NUM_def BITS_PER_LONG_def copy_over_def f
        drop_replicate del: replicate_Suc flip: replicate_add)
  moreover have "bmp_bit (slots_bmp t @ [0]) i \<longleftrightarrow> (slots t @ replicate 64 None) ! i \<noteq> None"
    if i: "i < ?n + 64" for i
  proof (cases "i < ?n")
    case True
    then have "i div 64 < q" using q(1) by (simp add: less_mult_imp_div_less mult.commute)
    with True t l(1,2) show ?thesis by (auto simp: bmp_bit_def nth_append tbl_ok_def)
  next
    case False
    then have "i div 64 = q" using i q(1) by (intro div_nat_eqI) auto
    with False i l(1,2) show ?thesis by (simp add: bmp_bit_def nth_append)
  qed
  then have "tbl_ok ?t" using l n q by (auto simp: tbl_ok_def)
  ultimately show ?thesis by auto
qed

lemma reserved_trans:
  "reserved t' e t'' \<Longrightarrow> slots t' = slots t @ replicate n None \<Longrightarrow> table_guard t' = table_guard t \<Longrightarrow>
   slots_size t'' \<le> slots_size t + 64 \<Longrightarrow> reserved t e t''"
  unfolding reserved_def by (metis append.assoc replicate_add)

lemma alloc_slot_loop_ok:
  assumes t: "tbl_ok t" and m: "mem_avail s" and n: "slots_size t + 64 \<le> 2 ^ 22"
    and b: "\<forall>i. beyond s i \<noteq> NOT 0"
  shows "\<exists>e t' c. alloc_slot_loop t s = Some (int e, t', s\<lparr>mem_cnt := c\<rparr>) \<and> reserved t e t'"
proof -
  from find_slot_ok [OF t] obtain x where x: "find_slot t = Some x" and
    X: "case x of None \<Rightarrow> \<forall>i < slots_size t. slots t ! i \<noteq> None
      | Some e \<Rightarrow> e < slots_size t \<and> slots t ! e = None \<and> (\<forall>i < e. slots t ! i \<noteq> None)" by blast
  have now: ?thesis if e: "find_slot t = Some (Some e)" "e < slots_size t" "slots t ! e = None" "\<forall>i < e. slots t ! i \<noteq> None" for e
  proof -
    from take_slot_id_ok [OF t e(2-4) b] obtain t' where "take_slot_id e t s = Some t'" "reserved t e t'" by blast
    then show ?thesis
      using e by (subst alloc_slot_loop.simps) (auto intro!: exI [of _ "mem_cnt s"])
  qed
  show ?thesis
  proof (cases x)
    case (Some e)
    with X x now show ?thesis by auto
  next
    case None
    from expand_slot_table_ok [OF t m n] obtain t' where
      t': "expand_slot_table t s = Some (0, t', s\<lparr>mem_cnt := mem_cnt s + 3\<rparr>)" "tbl_ok t'"
      "slots_size t' = slots_size t + 64" "slots t' = slots t @ replicate 64 None"
      "table_guard t' = table_guard t" by blast
    let ?s = "s\<lparr>mem_cnt := mem_cnt s + 3\<rparr>"
    have e1: "alloc_slot_loop t s = alloc_slot_loop t' ?s"
      using x None t' by (subst alloc_slot_loop.simps) simp
    have len: "length (slots t) = slots_size t" using t by (simp add: tbl_ok_def)
    have "slots t' ! slots_size t = None" "slots_size t < slots_size t'"
      using t' len by (simp_all add: nth_append)
    with find_slot_ok [OF t'(2)] obtain e where e: "find_slot t' = Some (Some e)" "e < slots_size t'" "slots t' ! e = None" "\<forall>i < e. slots t' ! i \<noteq> None"
      by (auto split: option.splits)
    have "\<forall>i. beyond ?s i \<noteq> NOT 0" using b by simp
    from take_slot_id_ok [OF t'(2) e(2-4) this] obtain t'' where
      t'': "take_slot_id e t' ?s = Some t''" "reserved t' e t''" "slots_size t'' = slots_size t'" by blast
    then have "alloc_slot_loop t' ?s = Some (int e, t'', ?s)"
      using e by (subst alloc_slot_loop.simps) simp
    with e1 reserved_trans [OF t''(2) t'(4,5)] t''(3) t'(3) show ?thesis by auto
  qed
qed

definition installed :: "slot_table \<Rightarrow> nat \<Rightarrow> ptr \<Rightarrow> slot_table \<Rightarrow> bool" where
  "installed t e a t' \<longleftrightarrow> tbl_ok t' \<and> table_guard t' = 0 \<and> e < slots_size t' \<and> (\<forall>i < e. slots t' ! i \<noteq> None)
     \<and> slots_size t' \<le> slots_size t + 64 \<and> (\<exists>n. slots t' = (slots t @ replicate n None)[e := Some a] \<and> (slots t @ replicate n None) ! e = None)"

lemma tbl_ok_guard [simp]: "tbl_ok (t\<lparr>table_guard := w\<rparr>) = tbl_ok t"
  by (simp add: tbl_ok_def)

lemma reserved_install:
  assumes "reserved t e t'"
  shows "installed t e a (t'\<lparr>slots := (slots t')[e := Some a], table_guard := 0\<rparr>)"
proof -
  from assms obtain b n where b: "tbl_ok (t'\<lparr>slots_bmp := b\<rparr>)" "length (slots_bmp t') = length b"
    "\<forall>i < slots_size t'. bmp_bit (slots_bmp t') i = (i = e \<or> bmp_bit b i)"
    "slots t' = slots t @ replicate n None" "e < slots_size t'" "slots t' ! e = None" "\<forall>i < e. slots t' ! i \<noteq> None"
    "slots_size t' \<le> slots_size t + 64"
    by (auto simp: reserved_def)
  then have "tbl_ok (t'\<lparr>slots := (slots t')[e := Some a], table_guard := 0\<rparr>)"
    by (auto simp: tbl_ok_def nth_list_update)
  with b show ?thesis by (auto simp: installed_def)
qed

lemma reserved_bits:
  assumes "reserved t e t'"
  shows "bmp_get e (slots_bmp t') = Some True" "e < length (slots t')" "e < 2 ^ 32"
proof -
  from assms obtain b n where b: "tbl_ok (t'\<lparr>slots_bmp := b\<rparr>)" "length (slots_bmp t') = length b"
    "\<forall>i < slots_size t'. bmp_bit (slots_bmp t') i = (i = e \<or> bmp_bit b i)" "e < slots_size t'"
    by (auto simp: reserved_def)
  have "in_bmp e (slots_bmp t')" using tbl_ok_in_bmp [OF b(1), of e] b(2,4) by (simp add: in_bmp_iff)
  with b show "bmp_get e (slots_bmp t') = Some True" by (simp add: bmp_get_ok)
  show "e < length (slots t')" "e < 2 ^ 32" using b(1,4) by (auto simp: tbl_ok_def)
qed

lemma cap_alloc_eq:
  assumes G: "groups s g = Some G" "tbl_ok (slot_tab G)" "table_guard (slot_tab G) = 0"
    and m: "mem_avail s" "slots_size (slot_tab G) + 64 \<le> 2 ^ 22" "\<forall>i. beyond s i \<noteq> NOT 0"
    and x: "objects s ob = Some x" "refcount x = 0"
  shows "\<exists>e t c. installed (slot_tab G) e (brk s) t
    \<and> cap_alloc g ob rts s = Some (int e, s\<lparr>mem_cnt := c, brk := brk s + 1,
        cslots := (cslots s)(brk s \<mapsto> \<lparr>slot_id = of_nat e, slot_group = g, isvalid = True, rights = rts,
          slot_object = ob, slot_guard = 0\<rparr>),
        copies := list_add (copies_node (brk s)) (copies_head ob) (copies s),
        objects := (objects s)(ob \<mapsto> x\<lparr>refcount := 1\<rparr>),
        groups := (groups s)(g \<mapsto> G\<lparr>slot_tab := t\<rparr>)\<rparr>)"
proof -
  let ?t = "(slot_tab G)\<lparr>table_guard := WRITER\<rparr>"
  let ?s = "s\<lparr>groups := (groups s)(g \<mapsto> G\<lparr>slot_tab := ?t\<rparr>)\<rparr>"
  have l: "lock_table_w g s = Some ?s"
    using G by (simp add: lock_table_w_def lock_simps set_table_def upd_group_def)
  have "tbl_ok ?t" "mem_avail ?s" "slots_size ?t + 64 \<le> 2 ^ 22" "\<forall>i. beyond ?s i \<noteq> NOT 0"
    using G m by (simp_all add: mem_avail_def)
  from alloc_slot_loop_ok [OF this] obtain e t' c where
    a: "alloc_slot_loop ?t ?s = Some (int e, t', ?s\<lparr>mem_cnt := c\<rparr>)" and r: "reserved ?t e t'" by blast
  have "alloc_slot_id g ?s = Some (int e, ?s\<lparr>mem_cnt := c, groups := (groups s)(g \<mapsto> G\<lparr>slot_tab := t'\<rparr>)\<rparr>)"
    using a by (simp add: alloc_slot_id_def set_table_def upd_group_def)
  moreover have "installed (slot_tab G) e (brk s) (t'\<lparr>slots := (slots t')[e := Some (brk s)], table_guard := 0\<rparr>)"
    using reserved_install [OF r] by (simp add: installed_def)
  ultimately show ?thesis
    using l x m(1) reserved_bits [OF r]
    by (intro exI [of _ e] exI [of _ "t'\<lparr>slots := (slots t')[e := Some (brk s)], table_guard := 0\<rparr>"]
        exI [of _ "c + 1"])
      (simp add: cap_alloc_def kmalloc_avail mem_avail_def kmalloc_ok_def sizeof_slot_def new_slot_def upd_obj_def
        install_slot_def set_table_def upd_group_def unlock_table_w_def lock_simps rwlock_init_def Let_def)
qed

section \<open>The invariant\<close>

text \<open>
  \<open>R ob\<close> is the number of references to object \<open>ob\<close> held outside the slots.  A slot whose group
  has been freed may remain; a slot of a living group is in the table of that group.
\<close>

definition slots_of :: "cap_state \<Rightarrow> ptr \<Rightarrow> ptr set" where
  "slots_of s ob = {a. \<exists>y. cslots s a = Some y \<and> slot_object y = ob}"

definition group_ok :: "cap_state \<Rightarrow> ptr \<Rightarrow> cap_group \<Rightarrow> bool" where
  "group_ok s g G \<longleftrightarrow> tbl_ok (slot_tab G) \<and> table_guard (slot_tab G) = 0 \<and> objects s g \<noteq> None
     \<and> (\<forall>i < slots_size (slot_tab G). \<forall>a. slots (slot_tab G) ! i = Some a \<longrightarrow>
          (\<exists>y. cslots s a = Some y \<and> slot_group y = g \<and> slot_id y = of_nat i))"

definition slot_ok :: "cap_state \<Rightarrow> ptr \<Rightarrow> object_slot \<Rightarrow> bool" where
  "slot_ok s a y \<longleftrightarrow> isvalid y \<and> slot_guard y = 0 \<and> objects s (slot_object y) \<noteq> None
     \<and> a < brk s \<and> slot_group y < brk s
     \<and> (\<forall>G. groups s (slot_group y) = Some G \<longrightarrow> unat (slot_id y) < slots_size (slot_tab G)
          \<and> slots (slot_tab G) ! unat (slot_id y) = Some a)"

definition refs_ok :: "cap_state \<Rightarrow> (ptr \<Rightarrow> nat) \<Rightarrow> (ptr \<Rightarrow> ptr list) \<Rightarrow> bool" where
  "refs_ok s R F \<longleftrightarrow> dl.family copies_head (dom (objects s)) (copies s) (\<lambda>ob. map copies_node (F ob))
     \<and> (\<forall>ob x. objects s ob = Some x \<longrightarrow> ob < brk s \<and> set (F ob) = slots_of s ob
          \<and> refcount x = of_nat (length (F ob) + R ob) \<and> length (F ob) + R ob < 2 ^ 64)
     \<and> (\<forall>ob. objects s ob = None \<longrightarrow> R ob = 0)"

definition cap_wf :: "cap_state \<Rightarrow> (ptr \<Rightarrow> nat) \<Rightarrow> bool" where
  "cap_wf s R \<longleftrightarrow> (\<forall>g G. groups s g = Some G \<longrightarrow> group_ok s g G)
     \<and> (\<forall>a y. cslots s a = Some y \<longrightarrow> slot_ok s a y) \<and> (\<exists>F. refs_ok s R F)
     \<and> (\<forall>i. beyond s i \<noteq> NOT 0) \<and> mem_avail s"

definition copies_free :: "cap_state \<Rightarrow> bool" where
  "copies_free s \<longleftrightarrow> (\<forall>ob x. objects s ob = Some x \<longrightarrow> lock_free (copies_lock x))"

definition cap_inv :: "cap_state \<Rightarrow> (ptr \<Rightarrow> nat) \<Rightarrow> bool" where
  "cap_inv s R \<longleftrightarrow> cap_wf s R \<and> copies_free s"

text \<open>The capabilities of a group, as a partial map from slot numbers to objects with rights.\<close>

definition caps :: "cap_state \<Rightarrow> ptr \<Rightarrow> int \<Rightarrow> (ptr \<times> u64) option" where
  "caps s g i = (case groups s g of None \<Rightarrow> None
     | Some G \<Rightarrow> if i < 0 \<or> int (slots_size (slot_tab G)) \<le> i then None
         else case slots (slot_tab G) ! nat i of None \<Rightarrow> None
         | Some a \<Rightarrow> map_option (\<lambda>y. (slot_object y, rights y)) (cslots s a))"

lemma copies_node_eq [simp]: "copies_node a = copies_node b \<longleftrightarrow> a = b"
  by (simp add: copies_node_def)

lemma copies_head_eq [simp]: "copies_head a = copies_head b \<longleftrightarrow> a = b"
  by (simp add: copies_head_def)

lemma copies_head_node [simp]: "copies_head a \<noteq> copies_node b"
  unfolding copies_head_def copies_node_def by presburger

lemma slot_of_node [simp]: "slot_of_node (copies_node a) = a"
  by (simp add: slot_of_node_def copies_node_def)

lemma copies_inj: "inj_on copies_node A"
  by (simp add: inj_on_def)

lemma refs_family: "refs_ok s R F \<Longrightarrow> dl.family copies_head (dom (objects s)) (copies s) (\<lambda>ob. map copies_node (F ob))"
  by (simp add: refs_ok_def)

lemma refs_obj:
  assumes "refs_ok s R F" "objects s ob = Some x"
  shows "ob < brk s" "set (F ob) = slots_of s ob" "refcount x = of_nat (length (F ob) + R ob)"
    "length (F ob) + R ob < 2 ^ 64" "distinct (F ob)"
  using assms dl.family_distinct [OF refs_family [OF assms(1)], of ob]
  by (auto simp: refs_ok_def distinct_map)

text \<open>A new slot behind the head of the list of an object, or behind one of its slots.\<close>

lemma family_insert:
  assumes fam: "dl.family copies_head K h (\<lambda>ob. map copies_node (F ob))" and k: "k \<in> K"
    and n: "\<forall>ob \<in> K. n \<notin> set (F ob)"
    and pos: "pos = copies_head k \<or> (\<exists>a \<in> set (F k). pos = copies_node a)"
  shows "\<exists>ys. dl.family copies_head K (list_add (copies_node n) pos h) (\<lambda>ob. map copies_node ((F(k := ys)) ob))
    \<and> set ys = insert n (set (F k)) \<and> length ys = Suc (length (F k))"
proof -
  have fr: "dl.fresh copies_head K (\<lambda>ob. map copies_node (F ob)) (copies_node n)"
    using n copies_head_node [symmetric] by (auto simp: dl.fresh_def)
  have eq: "(\<lambda>ob. map copies_node (F ob))(k := map copies_node ys) = (\<lambda>ob. map copies_node ((F(k := ys)) ob))" for ys
    by auto
  from pos show ?thesis
  proof
    assume "pos = copies_head k"
    with dl.family_add [OF fam k fr] eq [of "n # F k"] show ?thesis
      by (intro exI [of _ "n # F k"]) simp
  next
    assume "\<exists>a \<in> set (F k). pos = copies_node a"
    then obtain a us vs where a: "pos = copies_node a" "F k = us @ a # vs" by (meson split_list)
    with dl.family_add_after [OF fam k fr, of "map copies_node us" pos "map copies_node vs"] eq [of "us @ a # n # vs"]
    show ?thesis by (intro exI [of _ "us @ a # n # vs"]) (simp add: insert_commute)
  qed
qed

lemma family_remove:
  assumes fam: "dl.family copies_head K h (\<lambda>ob. map copies_node (F ob))" and k: "k \<in> K" and n: "n \<in> set (F k)"
  shows "dl.family copies_head K (list_del (copies_node n) h) (\<lambda>ob. map copies_node ((F(k := remove1 n (F k))) ob))"
proof -
  have "remove1 (copies_node n) (map copies_node xs) = map copies_node (remove1 n xs)" for xs
    by (induction xs) auto
  then have "(\<lambda>ob. map copies_node (F ob))(k := remove1 (copies_node n) (map copies_node (F k)))
      = (\<lambda>ob. map copies_node ((F(k := remove1 n (F k))) ob))" by auto
  with dl.family_del [OF fam k, of "copies_node n"] n show ?thesis by simp
qed

text \<open>Facts of the invariant, for the use of the operations.\<close>

lemma cap_wfD:
  assumes "cap_wf s R"
  shows "groups s g = Some G \<Longrightarrow> group_ok s g G" "cslots s a = Some y \<Longrightarrow> slot_ok s a y"
    "\<exists>F. refs_ok s R F" "\<forall>i. beyond s i \<noteq> NOT 0" "mem_avail s"
  using assms by (auto simp: cap_wf_def)

lemma cap_wf_brk:
  assumes "cap_wf s R"
  shows "objects s (brk s) = None" "cslots s (brk s) = None" "groups s (brk s) = None"
proof -
  from assms obtain F where F: "refs_ok s R F" by (auto simp: cap_wf_def)
  then show o: "objects s (brk s) = None" by (cases "objects s (brk s)") (auto dest: refs_obj(1))
  show "cslots s (brk s) = None"
    using cap_wfD(2) [OF assms, of "brk s"] by (cases "cslots s (brk s)") (auto simp: slot_ok_def)
  show "groups s (brk s) = None"
    using cap_wfD(1) [OF assms, of "brk s"] o by (cases "groups s (brk s)") (auto simp: group_ok_def)
qed

lemma installed_nth:
  assumes "installed t e a t'" "tbl_ok t"
  shows "tbl_ok t'" "table_guard t' = 0" "e < slots_size t'" "slots t' ! e = Some a" "slots_size t \<le> slots_size t'"
    "i < slots_size t' \<Longrightarrow> i \<noteq> e \<Longrightarrow> slots t' ! i = (if i < slots_size t then slots t ! i else None)"
    "e < slots_size t \<Longrightarrow> slots t ! e = None" "e < 2 ^ 22"
proof -
  from assms obtain n where n: "slots t' = (slots t @ replicate n None)[e := Some a]"
    "(slots t @ replicate n None) ! e = None" and t: "tbl_ok t'" "table_guard t' = 0" "e < slots_size t'"
    by (auto simp: installed_def)
  have l: "length (slots t) = slots_size t" "length (slots t') = slots_size t'" "slots_size t' \<le> 2 ^ 22"
    using assms(2) t by (auto simp: tbl_ok_def)
  with n have len: "slots_size t' = slots_size t + n" by simp
  show "tbl_ok t'" "table_guard t' = 0" "e < slots_size t'" "e < 2 ^ 22" using t l by auto
  show "slots t' ! e = Some a" "slots_size t \<le> slots_size t'" using n l t len by auto
  show "slots t' ! i = (if i < slots_size t then slots t ! i else None)" if "i < slots_size t'" "i \<noteq> e"
    using that n l len by (auto simp: nth_append)
  show "slots t ! e = None" if "e < slots_size t" using that n(2) l by (simp add: nth_append)
qed

definition with_slot :: "nat \<Rightarrow> ptr \<Rightarrow> cap_group \<Rightarrow> nat \<Rightarrow> slot_table \<Rightarrow> u64 \<Rightarrow> ptr \<Rightarrow> object \<Rightarrow> addr \<Rightarrow> cap_state \<Rightarrow> cap_state" where
  "with_slot c g G e t rts ob x pos s = s\<lparr>mem_cnt := c, brk := brk s + 1,
     cslots := (cslots s)(brk s \<mapsto> \<lparr>slot_id = of_nat e, slot_group = g, isvalid = True, rights = rts,
       slot_object = ob, slot_guard = 0\<rparr>),
     copies := list_add (copies_node (brk s)) pos (copies s),
     objects := (objects s)(ob \<mapsto> x\<lparr>refcount := refcount x + 1\<rparr>),
     groups := (groups s)(g \<mapsto> G\<lparr>slot_tab := t\<rparr>)\<rparr>"

lemma slots_of_with_slot:
  "cslots s (brk s) = None \<Longrightarrow>
   slots_of (with_slot c g G e t rts ob x pos s) k = (if k = ob then insert (brk s) (slots_of s k) else slots_of s k)"
  by (auto simp: slots_of_def with_slot_def)

lemma group_ok_with_slot:
  assumes inv: "cap_wf s R" and G: "groups s g = Some G" and t: "installed (slot_tab G) e (brk s) t"
    and h: "groups (with_slot c g G e t rts ob x pos s) h = Some H"
  shows "group_ok (with_slot c g G e t rts ob x pos s) h H"
proof (cases "h = g")
  case True
  let ?s = "with_slot c g G e t rts ob x pos s"
  note b = cap_wf_brk [OF inv]
  have tg: "tbl_ok (slot_tab G)" using cap_wfD(1) [OF inv G] by (simp add: group_ok_def)
  note i = installed_nth [OF t tg]
  from True h have H: "H = G\<lparr>slot_tab := t\<rparr>" by (simp add: with_slot_def)
  have "\<exists>y. cslots ?s a = Some y \<and> slot_group y = g \<and> slot_id y = of_nat j"
    if j: "j < slots_size t" "slots t ! j = Some a" for j a
  proof (cases "j = e")
    case True
    with j i(4) show ?thesis by (simp add: with_slot_def)
  next
    case False
    then have "j < slots_size (slot_tab G)" "slots (slot_tab G) ! j = Some a"
      using i(6) [OF j(1) False] j(2) by (auto split: if_splits)
    then obtain y where "cslots s a = Some y" "slot_group y = g" "slot_id y = of_nat j"
      using cap_wfD(1) [OF inv G] unfolding group_ok_def by blast
    with b show ?thesis by (auto simp: with_slot_def)
  qed
  then show ?thesis using True H i(1,2) cap_wfD(1) [OF inv G] by (auto simp: group_ok_def with_slot_def)
next
  case False
  with h have "groups s h = Some H" by (simp add: with_slot_def)
  from cap_wfD(1) [OF inv this] cap_wf_brk [OF inv] show ?thesis
    unfolding group_ok_def by (fastforce simp: with_slot_def)
qed

lemma slot_ok_with_slot:
  assumes inv: "cap_wf s R" and G: "groups s g = Some G" and t: "installed (slot_tab G) e (brk s) t"
    and a: "cslots (with_slot c g G e t rts ob x pos s) a = Some y"
  shows "slot_ok (with_slot c g G e t rts ob x pos s) a y"
proof -
  have tg: "tbl_ok (slot_tab G)" using cap_wfD(1) [OF inv G] by (simp add: group_ok_def)
  note i = installed_nth [OF t tg]
  have gb: "g < brk s"
    using G inv cap_wf_brk [OF inv] by (metis cap_wfD(1,3) group_ok_def option.exhaust_sel refs_obj(1))
  show ?thesis
  proof (cases "a = brk s")
    case True
    have "unat (of_nat e :: u64) = e" using i(8) by simp
    with True a gb i(3,4) show ?thesis by (auto simp: slot_ok_def with_slot_def)
  next
    case False
    with a have ay: "cslots s a = Some y" by (simp add: with_slot_def)
    note so = cap_wfD(2) [OF inv this]
    have "unat (slot_id y) < slots_size t \<and> slots t ! unat (slot_id y) = Some a" if "slot_group y = g"
      using so that G i(5) i(6) [of "unat (slot_id y)"] i(7) by (fastforce simp: slot_ok_def)
    with so show ?thesis by (auto simp: slot_ok_def with_slot_def)
  qed
qed

lemma refs_ok_with_slot:
  assumes F: "refs_ok s R F" and b: "cslots s (brk s) = None"
    and x: "objects s ob = Some x" "refcount x \<noteq> - 1"
    and pos: "pos = copies_head ob \<or> (\<exists>a \<in> slots_of s ob. pos = copies_node a)"
  shows "\<exists>F. refs_ok (with_slot c g G e t rts ob x pos s) R F"
proof -
  note fx = refs_obj [OF F x(1)]
  have "\<forall>k \<in> dom (objects s). brk s \<notin> set (F k)"
    using F b by (auto simp: refs_ok_def slots_of_def)
  with family_insert [OF refs_family [OF F], of ob "brk s" pos] x(1) pos fx(2) obtain ys where
    ys: "dl.family copies_head (dom (objects s)) (list_add (copies_node (brk s)) pos (copies s))
      (\<lambda>k. map copies_node ((F(ob := ys)) k))" "set ys = insert (brk s) (set (F ob))" "length ys = Suc (length (F ob))"
    by auto
  have lt: "length (F ob) + R ob + 1 < 2 ^ 64"
  proof (rule ccontr)
    assume "\<not> ?thesis"
    with fx(4) have "length (F ob) + R ob = 2 ^ 64 - 1" by simp
    then have "refcount x = of_nat (2 ^ 64 - 1)" using fx(3) by simp
    with x(2) show False by simp
  qed
  have "insert ob (dom (objects s)) = dom (objects s)" using x(1) by auto
  then have "refs_ok (with_slot c g G e t rts ob x pos s) R (F(ob := ys))"
    unfolding refs_ok_def slots_of_with_slot [OF b]
    using ys fx lt F x by (auto simp: refs_ok_def with_slot_def less_Suc_eq)
  then show ?thesis by blast
qed

lemma cap_wf_with_slot:
  assumes inv: "cap_wf s R" and G: "groups s g = Some G" and t: "installed (slot_tab G) e (brk s) t"
    and x: "objects s ob = Some x" "refcount x \<noteq> - 1"
    and pos: "pos = copies_head ob \<or> (\<exists>a \<in> slots_of s ob. pos = copies_node a)"
  shows "cap_wf (with_slot c g G e t rts ob x pos s) R"
proof -
  from cap_wfD(3) [OF inv] obtain F where F: "refs_ok s R F" by blast
  have "mem_avail (with_slot c g G e t rts ob x pos s)" "\<forall>i. beyond (with_slot c g G e t rts ob x pos s) i \<noteq> NOT 0"
    using cap_wfD(4,5) [OF inv] by (auto simp: with_slot_def mem_avail_def)
  with group_ok_with_slot [OF inv G t] slot_ok_with_slot [OF inv G t]
    refs_ok_with_slot [OF F cap_wf_brk(2) [OF inv] x pos, of c g G e t rts]
  show ?thesis by (simp add: cap_wf_def)
qed

text \<open>Taking a slot away: its table entry, its node and its reference.\<close>

definition cleared :: "slot_table \<Rightarrow> nat \<Rightarrow> slot_table \<Rightarrow> bool" where
  "cleared t i t' \<longleftrightarrow> tbl_ok t' \<and> table_guard t' = table_guard t \<and> slots_size t' = slots_size t
     \<and> slots t' = (slots t)[i := None]"

definition without_slot :: "ptr \<Rightarrow> cap_group \<Rightarrow> slot_table \<Rightarrow> ptr \<Rightarrow> ptr \<Rightarrow> object \<Rightarrow> lock_impl \<Rightarrow> cap_state \<Rightarrow> cap_state" where
  "without_slot g G t a ob x l s = s\<lparr>groups := (groups s)(g \<mapsto> G\<lparr>slot_tab := t\<rparr>),
     copies := list_del (copies_node a) (copies s), cslots := (cslots s)(a := None),
     objects := (objects s)(ob \<mapsto> x\<lparr>copies_lock := l, refcount := refcount x - 1\<rparr>)\<rparr>"

lemma free_slot_id_ok:
  assumes "tbl_ok (slot_tab G)" "i < slots_size (slot_tab G)" "groups s g = Some G"
  shows "\<exists>t. free_slot_id g i s = Some (s\<lparr>groups := (groups s)(g \<mapsto> G\<lparr>slot_tab := t\<rparr>)\<rparr>) \<and> cleared (slot_tab G) i t"
proof -
  let ?t = "slot_tab G"
  from bmp_clear_ok [OF tbl_ok_in_bmp [OF assms(1,2)]] obtain q where
    q: "bmp_clear i (slots_bmp ?t) = Some q" "length q = length (slots_bmp ?t)"
    "\<forall>m. in_bmp m (slots_bmp ?t) \<longrightarrow> bmp_bit q m = (m \<noteq> i \<and> bmp_bit (slots_bmp ?t) m)" by blast
  have "i div 64 < slots_size ?t div 64"
    using assms(1,2) by (auto simp: tbl_ok_def less_mult_imp_div_less elim!: dvdE)
  then have "i div 64 < 64 * length (full_slots_bmp ?t)"
    using assms(1) BITS_TO_LONGS_cover [of "slots_size ?t div 64"] by (auto simp: tbl_ok_def)
  then have ib: "i div 64 div 64 < length (full_slots_bmp ?t)" by simp
  have z: "full_slots_bmp ?t = replicate (length (full_slots_bmp ?t)) 0"
    using assms(1) by (intro replicate_eqI) (auto simp: tbl_ok_def)
  have f: "bmp_clear (i div BITS_PER_LONG) (full_slots_bmp ?t) = Some (full_slots_bmp ?t)"
    using ib by (subst (1 2) z) (simp add: bmp_clear_def BITS_PER_LONG_def list_update_same_conv)
  let ?n = "?t\<lparr>slots_bmp := q, full_slots_bmp := full_slots_bmp ?t, slots := (slots ?t)[i := None]\<rparr>"
  have "tbl_ok ?n" using assms(1,2) q tbl_ok_in_bmp [OF assms(1)] by (auto simp: tbl_ok_def nth_list_update)
  then have "cleared ?t i ?n" by (simp add: cleared_def)
  moreover have "length (slots ?t) = slots_size ?t" using assms(1) by (simp add: tbl_ok_def)
  ultimately show ?thesis
    using q(1) f assms(2,3) by (intro exI [of _ ?n]) (simp add: free_slot_id_def set_table_def upd_group_def Let_def)
qed

lemma slots_of_without_slot:
  "cslots s a = Some y \<Longrightarrow> slot_object y = ob \<Longrightarrow>
   slots_of (without_slot g G t a ob x l s) k = (if k = ob then slots_of s k - {a} else slots_of s k)"
  by (auto simp: slots_of_def without_slot_def)

lemma group_ok_without_slot:
  assumes inv: "cap_wf s R" and G: "groups s g = Some G" and t: "cleared (slot_tab G) i t"
    and a: "cslots s a = Some y" "slot_group y = g" "slot_id y = of_nat i" "i < 2 ^ 22"
    and h: "groups (without_slot g G t a ob x l s) h = Some H"
  shows "group_ok (without_slot g G t a ob x l s) h H"
proof (cases "h = g")
  case True
  with h have H: "H = G\<lparr>slot_tab := t\<rparr>" by (simp add: without_slot_def)
  note go = cap_wfD(1) [OF inv G]
  have "\<exists>y. cslots (without_slot g G t a ob x l s) b = Some y \<and> slot_group y = g \<and> slot_id y = of_nat j"
    if j: "j < slots_size t" "slots t ! j = Some b" for j b
  proof -
    have j': "j < slots_size (slot_tab G)" "(slots (slot_tab G))[i := None] ! j = Some b"
      "length (slots (slot_tab G)) = slots_size (slot_tab G)" "slots_size (slot_tab G) \<le> 2 ^ 22"
      using j t go by (auto simp: cleared_def group_ok_def tbl_ok_def)
    then have ji: "j \<noteq> i" "slots (slot_tab G) ! j = Some b" by (cases "j = i"; simp)+
    from ji j' obtain z where z: "cslots s b = Some z" "slot_group z = g" "slot_id z = of_nat j"
      using go unfolding group_ok_def by blast
    have "b \<noteq> a" using z(1,3) a(1,3,4) ji j' by (auto simp: of_nat_word_inj)
    with z show ?thesis by (simp add: without_slot_def)
  qed
  then show ?thesis using H True t go by (auto simp: group_ok_def without_slot_def cleared_def)
next
  case False
  with h have "groups s h = Some H" by (simp add: without_slot_def)
  from cap_wfD(1) [OF inv this] False a show ?thesis
    unfolding group_ok_def by (fastforce simp: without_slot_def)
qed

lemma slot_ok_without_slot:
  assumes inv: "cap_wf s R" and G: "groups s g = Some G" and t: "cleared (slot_tab G) i t"
    and a: "cslots s a = Some y" "slots (slot_tab G) ! i = Some a"
    and b: "cslots (without_slot g G t a ob x l s) b = Some z"
  shows "slot_ok (without_slot g G t a ob x l s) b z"
proof -
  from b have ba: "b \<noteq> a" "cslots s b = Some z" by (auto simp: without_slot_def split: if_splits)
  note so = cap_wfD(2) [OF inv ba(2)]
  have "unat (slot_id z) < slots_size t \<and> slots t ! unat (slot_id z) = Some b" if "slot_group z = g"
    using so that G t ba(1) a(2) by (cases "unat (slot_id z) = i") (auto simp: slot_ok_def cleared_def)
  with so show ?thesis by (auto simp: slot_ok_def without_slot_def)
qed

lemma refs_ok_without_slot:
  assumes F: "refs_ok s R F" and a: "cslots s a = Some y" "slot_object y = ob" and x: "objects s ob = Some x"
  shows "refs_ok (without_slot g G t a ob x l s) R (F(ob := remove1 a (F ob)))"
proof -
  note fx = refs_obj [OF F x]
  have af: "a \<in> set (F ob)" using a fx(2) by (auto simp: slots_of_def)
  then have "length (F ob) \<noteq> 0" by auto
  then have len: "length (F ob) = length (remove1 a (F ob)) + 1" using af by (simp add: length_remove1)
  have "ob \<in> dom (objects s)" "insert ob (dom (objects s)) = dom (objects s)" using x by auto
  with family_remove [OF refs_family [OF F] _ af] fx len F show ?thesis
    unfolding refs_ok_def slots_of_without_slot [OF a]
    by (auto simp: without_slot_def refs_ok_def)
qed

lemma cap_wf_without_slot:
  assumes inv: "cap_wf s R" and G: "groups s g = Some G" and t: "cleared (slot_tab G) i t"
    and i: "i < slots_size (slot_tab G)" "slots (slot_tab G) ! i = Some a"
    and a: "cslots s a = Some y" "slot_object y = ob" and x: "objects s ob = Some x"
  shows "cap_wf (without_slot g G t a ob x l s) R"
proof -
  from cap_wfD(1) [OF inv G] have y: "slot_group y = g" "slot_id y = of_nat i" "i < 2 ^ 22"
    using i a by (auto simp: group_ok_def tbl_ok_def)
  from cap_wfD(3) [OF inv] obtain F where F: "refs_ok s R F" by blast
  have "mem_avail (without_slot g G t a ob x l s)" "\<forall>i. beyond (without_slot g G t a ob x l s) i \<noteq> NOT 0"
    using cap_wfD(4,5) [OF inv] by (auto simp: without_slot_def mem_avail_def)
  with group_ok_without_slot [OF inv G t a(1) y] slot_ok_without_slot [OF inv G t a(1) i(2)]
    refs_ok_without_slot [OF F a x, of g G t l]
  show ?thesis unfolding cap_wf_def by blast
qed

lemma cap_wf_free_object:
  assumes inv: "cap_wf s R" and x: "objects s ob = Some x" "refcount x = 0"
  shows "cap_wf (free_object ob s) R" "list_empty (copies_head ob) (copies s)" "R ob = 0"
proof -
  from cap_wfD(3) [OF inv] obtain F where F: "refs_ok s R F" by blast
  note fx = refs_obj [OF F x(1)]
  have e: "F ob = []" and r: "R ob = 0" using fx(3,4) x(2) by (auto simp: of_nat_word_eq_0_iff simp del: of_nat_add)
  then show "list_empty (copies_head ob) (copies s)" "R ob = 0"
    using dl.family_empty_iff [OF refs_family [OF F], of ob] x(1) by auto
  have so: "slots_of s ob = {}" using fx(2) e by simp
  have "dl.family copies_head (dom (objects s) - {ob}) (copies s) (\<lambda>ob. map copies_node (F ob))"
    by (rule dl.family_subset [OF refs_family [OF F]]) blast
  then have "refs_ok (free_object ob s) R F"
    using F r by (auto simp: refs_ok_def free_object_def slots_of_def)
  moreover have "group_ok (free_object ob s) g G" if "groups (free_object ob s) g = Some G" for g G
    using that cap_wfD(1) [OF inv, of g G] by (auto simp: free_object_def group_ok_def split: if_splits)
  moreover have "slot_ok (free_object ob s) a y" if a: "cslots (free_object ob s) a = Some y" for a y
    using a so cap_wfD(2) [OF inv, of a y] by (auto simp: free_object_def slot_ok_def slots_of_def)
  ultimately show "cap_wf (free_object ob s) R"
    using inv unfolding cap_wf_def by (auto simp: free_object_def mem_avail_def)
qed

section \<open>The operations\<close>

lemma caps_None [simp]: "i < 0 \<Longrightarrow> caps s g i = None" "groups s g = None \<Longrightarrow> caps s g i = None"
  by (auto simp: caps_def split: option.splits)

lemma caps_Some_iff:
  "caps s g i = Some (ob, r) \<longleftrightarrow> (\<exists>G a y. groups s g = Some G \<and> 0 \<le> i \<and> nat i < slots_size (slot_tab G)
     \<and> slots (slot_tab G) ! nat i = Some a \<and> cslots s a = Some y \<and> slot_object y = ob \<and> rights y = r)"
  by (auto simp: caps_def split: option.splits)

lemma caps_SomeE:
  assumes "caps s g i = Some (ob, r)" "cap_wf s R"
  obtains G a y x n where "groups s g = Some G" "i = int n" "n < slots_size (slot_tab G)"
    "slots (slot_tab G) ! n = Some a" "cslots s a = Some y" "slot_object y = ob" "rights y = r" "isvalid y"
    "slot_group y = g" "slot_guard y = 0" "objects s ob = Some x"
proof -
  from assms(1) obtain G a y where *: "groups s g = Some G" "0 \<le> i" "nat i < slots_size (slot_tab G)"
    "slots (slot_tab G) ! nat i = Some a" "cslots s a = Some y" "slot_object y = ob" "rights y = r"
    by (auto simp: caps_Some_iff)
  moreover from cap_wfD(2) [OF assms(2) *(5)] *(6) obtain x where
    "isvalid y" "slot_guard y = 0" "objects s ob = Some x" by (auto simp: slot_ok_def)
  moreover from cap_wfD(1) [OF assms(2) *(1)] *(3-5) have "slot_group y = g" by (auto simp: group_ok_def)
  ultimately show ?thesis using that [of G "nat i" a y x] by simp
qed

text \<open>What \<^verbatim>\<open>get_slot\<close> and the test of \<^verbatim>\<open>isvalid\<close> find, for a number that is no capability.\<close>

lemma get_slot_None:
  assumes "cap_wf s R" "groups s g = Some G" "caps s g i = None"
  shows "get_slot g i s = Some None"
proof -
  note go = cap_wfD(1) [OF assms(1,2)]
  have len: "length (slots (slot_tab G)) = slots_size (slot_tab G)" using go by (simp add: group_ok_def tbl_ok_def)
  show ?thesis
  proof (cases "i < 0 \<or> int (slots_size (slot_tab G)) \<le> i")
    case True
    then show ?thesis using assms(2) by (auto simp: get_slot_def)
  next
    case False
    then have n: "nat i < slots_size (slot_tab G)" by auto
    have "slots (slot_tab G) ! nat i = None"
    proof (rule ccontr)
      assume "slots (slot_tab G) ! nat i \<noteq> None"
      then obtain a where a: "slots (slot_tab G) ! nat i = Some a" by auto
      with go n obtain y where "cslots s a = Some y" unfolding group_ok_def by blast
      with a assms(2,3) False show False by (simp add: caps_def)
    qed
    with False n len assms(2) show ?thesis by (simp add: get_slot_def)
  qed
qed

lemma get_slot_Some:
  assumes "groups s g = Some G" "n < slots_size (slot_tab G)" "length (slots (slot_tab G)) = slots_size (slot_tab G)"
  shows "get_slot g (int n) s = Some (slots (slot_tab G) ! n)"
  using assms by (simp add: get_slot_def)

text \<open>The table of a group may still grow once.\<close>

definition tsize :: "cap_state \<Rightarrow> ptr \<Rightarrow> nat" where
  "tsize s g = (case groups s g of None \<Rightarrow> 0 | Some G \<Rightarrow> slots_size (slot_tab G))"

definition room :: "cap_state \<Rightarrow> ptr \<Rightarrow> bool" where
  "room s g \<longleftrightarrow> groups s g \<noteq> None \<and> tsize s g + 64 \<le> 2 ^ 22"

lemma caps_with_slot:
  assumes inv: "cap_wf s R" and G: "groups s g = Some G" and t: "installed (slot_tab G) e (brk s) t"
  shows "caps (with_slot c g G e t rts ob x pos s) = (caps s)(g := (caps s g)(int e \<mapsto> (ob, rts)))"
    and "caps s g (int e) = None"
proof -
  let ?s = "with_slot c g G e t rts ob x pos s"
  have tg: "tbl_ok (slot_tab G)" using cap_wfD(1) [OF inv G] by (simp add: group_ok_def)
  note i = installed_nth [OF t tg]
  have nb: "a \<noteq> brk s" if "cslots s a = Some y" for a y using that cap_wf_brk(2) [OF inv] by auto
  have "caps ?s h j = (if h = g \<and> j = int e then Some (ob, rts) else caps s h j)" for h j
  proof (cases "h = g \<and> j = int e")
    case True
    with i(3,4) show ?thesis by (simp add: caps_def with_slot_def)
  next
    case False
    have o: "slots (slot_tab H) ! k \<noteq> Some (brk s)" if "groups s h = Some H" "k < slots_size (slot_tab H)" for H k
      using that cap_wfD(1) [OF inv that(1)] nb unfolding group_ok_def by blast
    show ?thesis
    proof (cases "j < 0")
      case True
      then show ?thesis by simp
    next
      case nn: False
      then obtain k where k: "j = int k" by (metis nat_0_le not_less)
      show ?thesis
      proof (cases "h = g")
        case True
        with False k G i(5) i(6) [of k] o [of G k] show ?thesis
          by (cases "slots (slot_tab G) ! k") (auto simp: caps_def with_slot_def)
      next
        case False
        with o [of _ k] k show ?thesis by (auto simp: caps_def with_slot_def split: option.split)
      qed
    qed
  qed
  then show "caps ?s = (caps s)(g := (caps s g)(int e \<mapsto> (ob, rts)))" by (auto simp: fun_eq_iff)
  show "caps s g (int e) = None" using G i(7) by (auto simp: caps_def)
qed

lemma set_guard_idem: "table_guard (slot_tab G) = w \<Longrightarrow> G\<lparr>slot_tab := (slot_tab G)\<lparr>table_guard := w\<rparr>\<rparr> = G"
  by (cases G) auto

lemmas table_ops = lock_table_w_def unlock_table_w_def lock_table_r_def unlock_table_r_def
  set_table_def upd_group_def lock_simps

lemma alloc_slot_id_ok:
  assumes "groups s g = Some G" "tbl_ok (slot_tab G)" "slots_size (slot_tab G) + 64 \<le> 2 ^ 22"
    and "mem_avail s" "\<forall>i. beyond s i \<noteq> NOT 0"
  obtains e t c where "reserved (slot_tab G) e t"
    "alloc_slot_id g s = Some (int e, s\<lparr>mem_cnt := c, groups := (groups s)(g \<mapsto> G\<lparr>slot_tab := t\<rparr>)\<rparr>)"
proof -
  from alloc_slot_loop_ok [OF assms(2,4,3,5)] obtain e t c where
    "alloc_slot_loop (slot_tab G) s = Some (int e, t, s\<lparr>mem_cnt := c\<rparr>)" "reserved (slot_tab G) e t" by blast
  then show ?thesis using that assms(1) by (simp add: alloc_slot_id_def set_table_def upd_group_def)
qed

lemma reserved_guard: "reserved (t\<lparr>table_guard := w\<rparr>) e t' \<Longrightarrow> table_guard t' = w"
  by (auto simp: reserved_def)

lemma install_guard:
  assumes "reserved (t\<lparr>table_guard := w\<rparr>) e t'"
  shows "installed t e a (t'\<lparr>slots := (slots t')[e := Some a], table_guard := 0\<rparr>)"
  using reserved_install [OF assms, of a] by (simp add: installed_def)

lemma cap_copy_eq:
  assumes inv: "cap_wf s R" and c: "caps s src i = Some (ob, r)" and d: "groups s dest = Some D"
    and rm: "room s dest"
  shows "\<exists>e t c x a. installed (slot_tab D) e (brk s) t \<and> objects s ob = Some x \<and> a \<in> slots_of s ob
    \<and> cap_copy src dest i b rts s = Some (int e, with_slot c dest D e t (if b then rts else r) ob x (copies_node a) s)"
proof -
  from c inv obtain S a y x n where S: "groups s src = Some S" "i = int n" "n < slots_size (slot_tab S)"
    "slots (slot_tab S) ! n = Some a" "cslots s a = Some y" "slot_object y = ob" "rights y = r" "isvalid y"
    "objects s ob = Some x" by (rule caps_SomeE)
  have g: "table_guard (slot_tab S) = 0" "length (slots (slot_tab S)) = slots_size (slot_tab S)"
    "table_guard (slot_tab D) = 0" "tbl_ok (slot_tab D)"
    using cap_wfD(1) [OF inv S(1)] cap_wfD(1) [OF inv d] by (auto simp: group_ok_def tbl_ok_def)
  let ?D = "D\<lparr>slot_tab := (slot_tab D)\<lparr>table_guard := WRITER\<rparr>\<rparr>"
  let ?g = "(if src = dest then groups s else (groups s)(src \<mapsto> S\<lparr>slot_tab := (slot_tab S)\<lparr>table_guard := 1\<rparr>\<rparr>))(dest \<mapsto> ?D)"
  let ?s = "s\<lparr>groups := ?g\<rparr>"
  have l: "lock_tables src dest s = Some ?s"
    using S(1) d g by (simp add: lock_tables_def table_ops)
  have gs: "get_slot src i ?s = Some (Some a)"
    using S d g by (auto simp: get_slot_def)
  have "groups ?s dest = Some ?D" "tbl_ok (slot_tab ?D)" "slots_size (slot_tab ?D) + 64 \<le> 2 ^ 22" "mem_avail ?s"
    "\<forall>i. beyond ?s i \<noteq> NOT 0"
    using g rm d cap_wfD(4,5) [OF inv] by (simp_all add: room_def tsize_def mem_avail_def)
  then obtain e t k where e: "reserved (slot_tab ?D) e t"
    "alloc_slot_id dest ?s = Some (int e, ?s\<lparr>mem_cnt := k, groups := (groups ?s)(dest \<mapsto> ?D\<lparr>slot_tab := t\<rparr>)\<rparr>)"
    by (rule alloc_slot_id_ok)
  let ?t = "t\<lparr>slots := (slots t)[e := Some (brk s)], table_guard := 0\<rparr>"
  have "cap_copy src dest i b rts s =
      Some (int e, with_slot (k + 1) dest D e ?t (if b then rts else r) ob x (copies_node a) s)"
    using l gs S e(2) reserved_bits [OF e(1)] d g cap_wfD(5) [OF inv]
    by (cases "src = dest") (auto simp: cap_copy_def kmalloc_ok_def mem_avail_def sizeof_slot_def
      upd_obj_def new_slot_def install_slot_def unlock_tables_def table_ops with_slot_def rwlock_init_def Let_def
      set_guard_idem fun_upd_twist fun_upd_idem)
  moreover have "installed (slot_tab D) e (brk s) ?t" using install_guard e(1) by simp
  moreover have "a \<in> slots_of s ob" using S by (auto simp: slots_of_def)
  ultimately show ?thesis using S(9) by blast
qed

lemma cap_copy_ECAPBILITY:
  assumes inv: "cap_wf s R" and c: "caps s src i = None" and S: "groups s src = Some S" and D: "groups s dest = Some D"
  shows "cap_copy src dest i b rts s = Some (- ECAPBILITY, s)"
proof -
  have g: "table_guard (slot_tab S) = 0" "table_guard (slot_tab D) = 0"
    using cap_wfD(1) [OF inv S] cap_wfD(1) [OF inv D] by (auto simp: group_ok_def)
  let ?g = "(if src = dest then groups s else (groups s)(src \<mapsto> S\<lparr>slot_tab := (slot_tab S)\<lparr>table_guard := 1\<rparr>\<rparr>))
    (dest \<mapsto> D\<lparr>slot_tab := (slot_tab D)\<lparr>table_guard := WRITER\<rparr>\<rparr>)"
  have "lock_tables src dest s = Some (s\<lparr>groups := ?g\<rparr>)"
    using S D g by (simp add: lock_tables_def table_ops)
  moreover have "get_slot src i (s\<lparr>groups := ?g\<rparr>) = Some None"
    using get_slot_None [OF inv S c] S D by (auto simp: get_slot_def split: if_splits)
  moreover have "unlock_tables src dest (s\<lparr>groups := ?g\<rparr>) = Some s"
    using S D g by (auto simp: unlock_tables_def table_ops set_guard_idem fun_upd_twist fun_upd_idem)
  ultimately show ?thesis by (simp add: cap_copy_def)
qed

lemma cap_free_ECAPBILITY:
  assumes inv: "cap_wf s R" and c: "caps s g i = None" and G: "groups s g = Some G"
  shows "cap_free g i s = Some (- ECAPBILITY, s)"
proof -
  have gd: "table_guard (slot_tab G) = 0" using cap_wfD(1) [OF inv G] by (simp add: group_ok_def)
  have "get_slot g i (s\<lparr>groups := (groups s)(g \<mapsto> G\<lparr>slot_tab := (slot_tab G)\<lparr>table_guard := WRITER\<rparr>\<rparr>)\<rparr>) = Some None"
    using get_slot_None [OF inv G c] G by (auto simp: get_slot_def split: if_splits)
  then show ?thesis
    using G gd by (simp add: cap_free_def cap_free_gen_def table_ops set_guard_idem fun_upd_idem)
qed

text \<open>The last reference gone, the object is deinitialised and freed.\<close>

definition release :: "ptr \<Rightarrow> object \<Rightarrow> cap_state \<Rightarrow> cap_state" where
  "release ob x s = (if refcount x = 1
     then free_object ob (if has_deinit (otype x) then s\<lparr>deinits := deinits s @ [ob]\<rparr> else s) else s)"

lemma cap_wf_deinits [simp]: "cap_wf (s\<lparr>deinits := d\<rparr>) R = cap_wf s R"
  by (simp add: cap_wf_def group_ok_def slot_ok_def refs_ok_def slots_of_def mem_avail_def)

lemma cap_wf_release:
  assumes "cap_wf s R" "objects s ob = Some x'" "refcount x' = refcount x - 1"
  shows "cap_wf (release ob x s) R"
  using assms cap_wf_free_object(1) [of s R ob x'] cap_wf_free_object(1) [of "s\<lparr>deinits := deinits s @ [ob]\<rparr>" R ob x']
  by (auto simp: release_def)

lemma caps_without_slot:
  assumes inv: "cap_wf s R" and G: "groups s g = Some G" and t: "cleared (slot_tab G) n t"
    and n: "n < slots_size (slot_tab G)" "slots (slot_tab G) ! n = Some a"
  shows "caps (without_slot g G t a ob x l s) = (caps s)(g := (caps s g)(int n := None))"
proof -
  let ?s = "without_slot g G t a ob x l s"
  note go = cap_wfD(1) [OF inv G]
  from go n obtain y where y: "cslots s a = Some y" "slot_group y = g" "slot_id y = of_nat n"
    unfolding group_ok_def by blast
  have sz: "slots_size (slot_tab H) \<le> 2 ^ 22" "length (slots (slot_tab H)) = slots_size (slot_tab H)" if "groups s h = Some H" for h H
    using cap_wfD(1) [OF inv that] by (auto simp: group_ok_def tbl_ok_def)
  have o: "k = n" "h = g" if h: "groups s h = Some H" "k < slots_size (slot_tab H)" "slots (slot_tab H) ! k = Some a" for h H k
  proof -
    from cap_wfD(1) [OF inv h(1)] h(2,3) y(1) have "slot_group y = h" "slot_id y = of_nat k"
      unfolding group_ok_def by fastforce+
    with y h(2) n(1) sz [OF h(1)] sz [OF G] show "k = n" "h = g" by (auto simp: of_nat_word_inj)
  qed
  have "caps ?s h j = (if h = g \<and> j = int n then None else caps s h j)" for h j
  proof (cases "j < 0")
    case False
    then obtain k where k: "j = int k" by (metis nat_0_le not_less)
    show ?thesis
    proof (cases "h = g")
      case True
      have e: "slots t ! k = (if k = n then None else slots (slot_tab G) ! k)" "slots_size t = slots_size (slot_tab G)"
        using t n(1) sz(2) [OF G] by (auto simp: cleared_def)
      have "k < slots_size (slot_tab G) \<Longrightarrow> k \<noteq> n \<Longrightarrow> slots (slot_tab G) ! k \<noteq> Some a" using o(1) [OF G] by blast
      with True k G e show ?thesis by (auto simp: caps_def without_slot_def split: option.split)
    next
      case False
      with o(2) [of h _ k] k show ?thesis
        by (auto simp: caps_def without_slot_def split: option.split)
    qed
  qed simp
  then show ?thesis by (auto simp: fun_eq_iff)
qed

lemma cap_free_gen_eq:
  assumes inv: "cap_wf s R" and c: "caps s g i = Some (ob, r)"
    and x: "objects s ob = Some x" and cl: "cl \<or> lock_free (copies_lock x)"
  shows "\<exists>G t a n l. groups s g = Some G \<and> cleared (slot_tab G) n t \<and> i = int n \<and> n < slots_size (slot_tab G)
    \<and> slots (slot_tab G) ! n = Some a \<and> (if cl then l = copies_lock x else lock_free l)
    \<and> cap_wf (without_slot g G t a ob x l s) R
    \<and> cap_free_gen g i False cl s = Some (0, release ob x (without_slot g G t a ob x l s))"
proof -
  from c inv obtain G a y x' n where G: "groups s g = Some G" "i = int n" "n < slots_size (slot_tab G)"
    "slots (slot_tab G) ! n = Some a" "cslots s a = Some y" "slot_object y = ob" "rights y = r" "isvalid y"
    "slot_group y = g" "slot_guard y = 0" "objects s ob = Some x'" by (rule caps_SomeE)
  have g: "table_guard (slot_tab G) = 0" "tbl_ok (slot_tab G)" "length (slots (slot_tab G)) = slots_size (slot_tab G)"
    using cap_wfD(1) [OF inv G(1)] by (auto simp: group_ok_def tbl_ok_def)
  let ?G = "G\<lparr>slot_tab := (slot_tab G)\<lparr>table_guard := WRITER\<rparr>\<rparr>"
  let ?s = "s\<lparr>groups := (groups s)(g \<mapsto> ?G)\<rparr>"
  from free_slot_id_ok [of ?G n ?s g] g(2) G(3) obtain t where
    t: "free_slot_id g n ?s = Some (?s\<lparr>groups := (groups ?s)(g \<mapsto> ?G\<lparr>slot_tab := t\<rparr>)\<rparr>)" "cleared (slot_tab ?G) n t"
    by auto
  let ?t = "t\<lparr>table_guard := 0\<rparr>"
  have ct: "cleared (slot_tab G) n ?t" using t(2) g(1) by (simp add: cleared_def)
  let ?l = "if cl then copies_lock x else unlock ((copies_lock x)\<lparr>nxt := nxt (copies_lock x) + 1\<rparr>)"
  have wf: "cap_wf (without_slot g G ?t a ob x ?l s) R"
    using cap_wf_without_slot [OF inv G(1) ct G(3-6) x] .
  have em: "refcount x = 1 \<Longrightarrow> list_empty (copies_head ob) (list_del (copies_node a) (copies s))"
    using cap_wf_free_object(2) [OF wf, of ob] by (simp add: without_slot_def)
  have "cap_free_gen g i False cl s = Some (0, release ob x (without_slot g G ?t a ob x ?l s))"
    using G g t x cl em unfolding cap_free_gen_def
    by (auto simp: table_ops get_slot_def drop_slot_def upd_obj_def release_def without_slot_def Let_def
      free_object_def)
  moreover have "if cl then ?l = copies_lock x else lock_free ?l" using cl by (auto simp: lock_simps)
  ultimately show ?thesis using G(1-4) ct wf by blast
qed

lemma caps_free_object [simp]: "caps (free_object ob s) = (caps s)(ob := Map.empty)"
  by (auto simp: caps_def free_object_def fun_eq_iff split: option.split)

lemma caps_deinits [simp]: "caps (s\<lparr>deinits := d\<rparr>) = caps s"
  by (auto simp: caps_def fun_eq_iff split: option.split)

lemma caps_release: "caps (release ob x s) = (if refcount x = 1 then (caps s)(ob := Map.empty) else caps s)"
  by (simp add: release_def)

lemma refcount_two:
  assumes inv: "cap_wf s R" and x: "objects s ob = Some x" and ab: "a \<in> slots_of s ob" "b \<in> slots_of s ob" "a \<noteq> b"
  shows "refcount x \<noteq> 1"
proof
  assume r: "refcount x = 1"
  from cap_wfD(3) [OF inv] obtain F where F: "refs_ok s R F" by blast
  note fx = refs_obj [OF F x]
  have "{a, b} \<subseteq> set (F ob)" using ab fx(2) by blast
  then have "card {a, b} \<le> card (set (F ob))" by (intro card_mono) simp_all
  then have "2 \<le> length (F ob)" using ab(3) fx(5) by (simp add: distinct_card)
  moreover have "length (F ob) + R ob = 1" using r fx(3,4) of_nat_word_inj [where ?'a = 64, of "length (F ob) + R ob" 1] by simp
  ultimately show False by simp
qed

lemma installed_first:
  assumes inv: "cap_wf s R" and G: "groups s g = Some G" and t: "installed (slot_tab G) e (brk s) t" and i: "i < e"
  shows "caps s g (int i) \<noteq> None"
proof -
  have tg: "tbl_ok (slot_tab G)" using cap_wfD(1) [OF inv G] by (simp add: group_ok_def)
  note n = installed_nth [OF t tg]
  have "slots t ! i \<noteq> None" using t i by (auto simp: installed_def)
  then have "i < slots_size (slot_tab G)" "slots (slot_tab G) ! i \<noteq> None"
    using n(3) n(6) [of i] i by (auto split: if_splits)
  then obtain a where a: "i < slots_size (slot_tab G)" "slots (slot_tab G) ! i = Some a" by auto
  then obtain y where "cslots s a = Some y" using cap_wfD(1) [OF inv G] unfolding group_ok_def by blast
  with a G show ?thesis by (simp add: caps_def)
qed

text \<open>What an operation on the table of one group leaves alone.\<close>

definition frame :: "cap_state \<Rightarrow> cap_state \<Rightarrow> ptr \<Rightarrow> ptr \<Rightarrow> bool" where
  "frame s s' g b \<longleftrightarrow> (\<forall>h. h \<noteq> g \<longrightarrow> groups s' h = groups s h) \<and> dom (groups s') = dom (groups s)
     \<and> tsize s' g \<le> tsize s g + 64 \<and> brk s' = b \<and> deinits s' = deinits s
     \<and> (\<forall>G. groups s g = Some G \<longrightarrow> (\<exists>t. groups s' g = Some (G\<lparr>slot_tab := t\<rparr>)))"

lemma frame_with_slot:
  "groups s g = Some G \<Longrightarrow> installed (slot_tab G) e (brk s) t \<Longrightarrow>
   frame s (with_slot c g G e t rts ob x pos s) g (brk s + 1)"
  by (auto simp: frame_def with_slot_def tsize_def installed_def)

lemma cap_copy_ok:
  assumes inv: "cap_inv s R" and c: "caps s src i = Some (ob, r)" and rm: "room s dest"
    and x: "objects s ob = Some x" "refcount x \<noteq> - 1"
  shows "\<exists>j s'. cap_copy src dest i b rts s = Some (j, s') \<and> 0 \<le> j \<and> caps s dest j = None
    \<and> (\<forall>i. 0 \<le> i \<and> i < j \<longrightarrow> caps s dest i \<noteq> None) \<and> cap_inv s' R
    \<and> caps s' = (caps s)(dest := (caps s dest)(j \<mapsto> (ob, if b then rts else r)))
    \<and> frame s s' dest (brk s + 1) \<and> objects s' = (objects s)(ob \<mapsto> x\<lparr>refcount := refcount x + 1\<rparr>)"
proof -
  have wf: "cap_wf s R" and cf: "copies_free s" using inv by (simp_all add: cap_inv_def)
  from rm obtain D where D: "groups s dest = Some D" unfolding room_def by blast
  from cap_copy_eq [OF wf c D rm, of b rts] x(1) obtain e t k a where
    e: "installed (slot_tab D) e (brk s) t" "a \<in> slots_of s ob"
    "cap_copy src dest i b rts s = Some (int e, with_slot k dest D e t (if b then rts else r) ob x (copies_node a) s)"
    by auto
  let ?s = "with_slot k dest D e t (if b then rts else r) ob x (copies_node a) s"
  have "cap_wf ?s R" using cap_wf_with_slot [OF wf D e(1) x] e(2) by blast
  moreover have "copies_free ?s" using cf x(1) by (auto simp: copies_free_def with_slot_def)
  ultimately have "cap_inv ?s R" by (simp add: cap_inv_def)
  moreover have "\<forall>i. 0 \<le> i \<and> i < int e \<longrightarrow> caps s dest i \<noteq> None"
    using installed_first [OF wf D e(1)] by (metis nat_0_le zless_nat_conj of_nat_less_iff)
  moreover have "frame s ?s dest (brk s + 1)" by (rule frame_with_slot [OF D e(1)])
  ultimately show ?thesis
    using e(3) caps_with_slot [OF wf D e(1)] by (intro exI [of _ "int e"] exI [of _ ?s]) (simp add: with_slot_def)
qed

lemma cap_free_ok:
  assumes inv: "cap_inv s R" and c: "caps s g i = Some (ob, r)" and x: "objects s ob = Some x"
  shows "\<exists>s'. cap_free g i s = Some (0, s') \<and> cap_inv s' R
    \<and> caps s' = (if refcount x = 1 then ((caps s)(g := (caps s g)(i := None)))(ob := Map.empty)
                else (caps s)(g := (caps s g)(i := None)))
    \<and> (objects s' ob = None \<longleftrightarrow> refcount x = 1)
    \<and> deinits s' = deinits s @ (if refcount x = 1 \<and> has_deinit (otype x) then [ob] else [])"
proof -
  have wf: "cap_wf s R" and cf: "copies_free s" using inv by (simp_all add: cap_inv_def)
  from cap_free_gen_eq [OF wf c x, of False] cf x obtain G t a n l where
    G: "groups s g = Some G" "cleared (slot_tab G) n t" "i = int n" "n < slots_size (slot_tab G)"
    "slots (slot_tab G) ! n = Some a" "lock_free l" "cap_wf (without_slot g G t a ob x l s) R"
    "cap_free_gen g i False False s = Some (0, release ob x (without_slot g G t a ob x l s))"
    by (auto simp: copies_free_def)
  let ?s = "without_slot g G t a ob x l s"
  have "cap_wf (release ob x ?s) R" using G(7) by (rule cap_wf_release) (auto simp: without_slot_def)
  moreover have "copies_free (release ob x ?s)"
    using cf G(6) by (auto simp: copies_free_def release_def without_slot_def free_object_def)
  moreover have "caps (release ob x ?s) = (if refcount x = 1 then ((caps s)(g := (caps s g)(i := None)))(ob := Map.empty)
                else (caps s)(g := (caps s g)(i := None)))"
    by (simp add: caps_release caps_without_slot [OF wf G(1,2,4,5)] G(3))
  moreover have "objects (release ob x ?s) ob = None \<longleftrightarrow> refcount x = 1"
    "deinits (release ob x ?s) = deinits s @ (if refcount x = 1 \<and> has_deinit (otype x) then [ob] else [])"
    by (auto simp: release_def without_slot_def free_object_def)
  ultimately show ?thesis using G(8) by (simp add: cap_free_def cap_inv_def)
qed

text \<open>With a second capability to it, the object survives.\<close>

lemma refcount_other_cap:
  assumes wf: "cap_wf s R" and x: "objects s ob = Some x"
    and c: "caps s g i = Some (ob, r)" "caps s h j = Some (ob, r')" "(g, i) \<noteq> (h, j)"
  shows "refcount x \<noteq> 1"
proof -
  obtain G a y n where G: "groups s g = Some G" "i = int n" "n < slots_size (slot_tab G)"
    "slots (slot_tab G) ! n = Some a" "cslots s a = Some y" "slot_object y = ob" "slot_group y = g"
    using c(1) wf by (rule caps_SomeE)
  obtain H b z m where H: "groups s h = Some H" "j = int m" "m < slots_size (slot_tab H)"
    "slots (slot_tab H) ! m = Some b" "cslots s b = Some z" "slot_object z = ob" "slot_group z = h"
    using c(2) wf by (rule caps_SomeE)
  have "a \<noteq> b"
  proof
    assume "a = b"
    then have "g = h" "G = H" using G H by auto
    moreover have "slot_id y = of_nat n" "slot_id z = of_nat m" "n < 2 ^ 22" "m < 2 ^ 22"
      using cap_wfD(1) [OF wf G(1)] cap_wfD(1) [OF wf H(1)] G H unfolding group_ok_def tbl_ok_def by fastforce+
    ultimately show False using c(3) G(2,5) H(2,5) \<open>a = b\<close> by (auto simp: of_nat_word_inj)
  qed
  moreover have "a \<in> slots_of s ob" "b \<in> slots_of s ob" using G H by (auto simp: slots_of_def)
  ultimately show ?thesis using refcount_two [OF wf x] by blast
qed

section \<open>References and the interface of the capability system\<close>

lemma valid_cap:
  assumes inv: "cap_wf s R" and G: "groups s g = Some G" and i: "i < int (slots_size (slot_tab G))" "- (2 ^ 31) \<le> i"
  shows "is_valid_slot_id ((slot_tab G)\<lparr>table_guard := w\<rparr>) i = Some (caps s g i \<noteq> None)"
proof -
  note go = cap_wfD(1) [OF inv G]
  have t: "tbl_ok (slot_tab G)" "length (slots (slot_tab G)) = slots_size (slot_tab G)" "slots_size (slot_tab G) \<le> 2 ^ 22"
    using go by (auto simp: group_ok_def tbl_ok_def)
  show ?thesis
  proof (cases "i < 0")
    case True
    then have "i mod 2 ^ 32 = i + 2 ^ 32" using i(2) mod_pos_pos_trivial [of "i + 2 ^ 32" "2 ^ 32"] by simp
    with True i(2) t(3) show ?thesis by (simp add: is_valid_slot_id_def)
  next
    case False
    then obtain n where n: "i = int n" by (metis nat_0_le not_less)
    have "n < slots_size (slot_tab G)" using i(1) n by simp
    moreover have "slots (slot_tab G) ! n = None" if "caps s g i = None"
      using get_slot_None [OF inv G that] get_slot_Some [OF G \<open>n < _\<close> t(2)] n by simp
    moreover have "caps s g i = None" if "slots (slot_tab G) ! n = None"
      using that by (simp add: caps_def G n)
    ultimately show ?thesis
      using t n tbl_ok_in_bmp [OF t(1), of n]
      by (auto simp: is_valid_slot_id_def bmp_get_ok tbl_ok_def simp del: not_None_eq)
  qed
qed

text \<open>One more, or one less, reference held outside the slots.\<close>

definition set_refs :: "ptr \<Rightarrow> object \<Rightarrow> u64 \<Rightarrow> cap_state \<Rightarrow> cap_state" where
  "set_refs ob x n s = s\<lparr>objects := (objects s)(ob \<mapsto> x\<lparr>refcount := n\<rparr>)\<rparr>"

lemma cap_wf_set_refs:
  assumes inv: "cap_wf s R" and x: "objects s ob = Some x"
    and n: "\<And>F. refs_ok s R F \<Longrightarrow> n = of_nat (length (F ob) + m) \<and> length (F ob) + m < 2 ^ 64"
  shows "cap_wf (set_refs ob x n s) (R(ob := m))"
proof -
  from cap_wfD(3) [OF inv] obtain F where F: "refs_ok s R F" by blast
  have "insert ob (dom (objects s)) = dom (objects s)" using x by auto
  then have "refs_ok (set_refs ob x n s) (R(ob := m)) F"
    using F n [OF F] x by (auto simp: refs_ok_def set_refs_def slots_of_def)
  moreover have "group_ok (set_refs ob x n s) g G" if "groups s g = Some G" for g G
    using cap_wfD(1) [OF inv that] by (auto simp: group_ok_def set_refs_def)
  moreover have "slot_ok (set_refs ob x n s) a y" if "cslots s a = Some y" for a y
    using cap_wfD(2) [OF inv that] by (auto simp: slot_ok_def set_refs_def)
  ultimately show ?thesis using inv unfolding cap_wf_def by (auto simp: set_refs_def mem_avail_def)
qed

lemma copies_free_set_refs: "copies_free s \<Longrightarrow> objects s ob = Some x \<Longrightarrow> copies_free (set_refs ob x n s)"
  by (auto simp: copies_free_def set_refs_def)

lemma caps_set_refs [simp]: "caps (set_refs ob x n s) = caps s"
  by (auto simp: caps_def set_refs_def fun_eq_iff split: option.split)

lemma refcount_lt:
  assumes "refs_ok s R F" "objects s ob = Some x" "refcount x \<noteq> - 1"
  shows "length (F ob) + (R ob + 1) < 2 ^ 64"
proof (rule ccontr)
  note fx = refs_obj [OF assms(1,2)]
  assume "\<not> ?thesis"
  with fx(4) have "length (F ob) + R ob = 2 ^ 64 - 1" by simp
  then have "refcount x = of_nat (2 ^ 64 - 1)" using fx(3) by simp
  with assms(3) show False by simp
qed

lemma get_opaque_eq:
  assumes inv: "cap_wf s R" and c: "caps s g i = Some (ob, r)" and x: "objects s ob = Some x"
  shows "get_opaque g i ty s = Some (if ty = None \<or> ty = Some (otype x)
    then (Some ob, set_refs ob x (refcount x + 1) s) else (None, s))"
proof -
  from c inv obtain G a y n where G: "groups s g = Some G" "i = int n" "n < slots_size (slot_tab G)"
    "slots (slot_tab G) ! n = Some a" "cslots s a = Some y" "slot_object y = ob" "isvalid y" "slot_guard y = 0"
    by (rule caps_SomeE)
  have g: "table_guard (slot_tab G) = 0" "length (slots (slot_tab G)) = slots_size (slot_tab G)"
    using cap_wfD(1) [OF inv G(1)] by (auto simp: group_ok_def tbl_ok_def)
  have y: "y\<lparr>slot_guard := 0\<rparr> = y" using G(8) by simp
  have "is_valid_slot_id ((slot_tab G)\<lparr>table_guard := 1\<rparr>) i = Some True"
    using valid_cap [OF inv G(1), of i 1] G(2,3) c by simp
  with G g x y show ?thesis
    by (auto simp: get_opaque_def table_ops get_slot_def upd_obj_def set_refs_def Let_def set_guard_idem fun_upd_idem)
qed

lemma get_opaque_none:
  assumes inv: "cap_wf s R" and G: "groups s g = Some G" and c: "caps s g i = None"
    and i: "i < int (slots_size (slot_tab G))" "- (2 ^ 31) \<le> i"
  shows "get_opaque g i ty s = Some (None, s)"
proof -
  have "table_guard (slot_tab G) = 0" using cap_wfD(1) [OF inv G] by (auto simp: group_ok_def)
  with valid_cap [OF inv G i, of 1] G c show ?thesis
    by (simp add: get_opaque_def table_ops set_guard_idem fun_upd_idem)
qed

text \<open>A number behind the table is not rejected: the bit map is read outside its bounds.\<close>

lemma get_opaque_beyond:
  assumes inv: "cap_wf s R" and G: "groups s g = Some G" and i: "int (slots_size (slot_tab G)) \<le> i" "i < 2 ^ 31"
  shows "get_opaque g i ty s = None"
proof -
  have t: "table_guard (slot_tab G) = 0" "tbl_ok (slot_tab G)" using cap_wfD(1) [OF inv G] by (auto simp: group_ok_def)
  then have "\<not> in_bmp (nat i) (slots_bmp (slot_tab G))" using i(1) by (auto simp: in_bmp_iff tbl_ok_def)
  then have "is_valid_slot_id ((slot_tab G)\<lparr>table_guard := 1\<rparr>) i = None"
    using i by (auto simp: is_valid_slot_id_def bmp_get_out)
  with G t show ?thesis by (simp add: get_opaque_def table_ops)
qed

lemma get_opaque_inv:
  assumes inv: "cap_inv s R" and c: "caps s g i = Some (ob, r)" and x: "objects s ob = Some x" "refcount x \<noteq> - 1"
    and ty: "ty = None \<or> ty = Some (otype x)"
  shows "\<exists>s'. get_opaque g i ty s = Some (Some ob, s') \<and> cap_inv s' (R(ob := R ob + 1)) \<and> caps s' = caps s
    \<and> s' = set_refs ob x (refcount x + 1) s"
proof -
  have wf: "cap_wf s R" "copies_free s" using inv by (simp_all add: cap_inv_def)
  have "cap_wf (set_refs ob x (refcount x + 1) s) (R(ob := R ob + 1))"
    using wf(1) x(1) by (rule cap_wf_set_refs) (use refs_obj(3) x refcount_lt in auto)
  with copies_free_set_refs [OF wf(2) x(1)] get_opaque_eq [OF wf(1) c x(1)] ty
  show ?thesis by (auto simp: cap_inv_def)
qed

lemma obj_put_ok:
  assumes inv: "cap_inv s R" and r: "0 < R ob"
  shows "\<exists>x s'. objects s ob = Some x \<and> obj_put (Some ob) s = Some s' \<and> cap_inv s' (R(ob := R ob - 1))
    \<and> caps s' = (if refcount x = 1 then (caps s)(ob := Map.empty) else caps s)
    \<and> s' = (if refcount x = 1 then free_object ob s else set_refs ob x (refcount x - 1) s)"
proof -
  have wf: "cap_wf s R" "copies_free s" using inv by (simp_all add: cap_inv_def)
  from cap_wfD(3) [OF wf(1)] obtain F where F: "refs_ok s R F" by blast
  from F r obtain x where x: "objects s ob = Some x" unfolding refs_ok_def by fastforce
  let ?s = "set_refs ob x (refcount x - 1) s"
  have "cap_wf ?s (R(ob := R ob - 1))"
  proof (rule cap_wf_set_refs [OF wf(1) x])
    fix F assume "refs_ok s R F"
    note fx = refs_obj [OF this x]
    have "length (F ob) + R ob = Suc (length (F ob) + (R ob - 1))" using r by simp
    then show "refcount x - 1 = of_nat (length (F ob) + (R ob - 1)) \<and> length (F ob) + (R ob - 1) < 2 ^ 64"
      using fx(3,4) by (metis Suc_lessD add_diff_cancel_left' of_nat_Suc)
  qed
  moreover have "copies_free ?s" by (rule copies_free_set_refs [OF wf(2) x])
  ultimately have i: "cap_inv ?s (R(ob := R ob - 1))" by (simp add: cap_inv_def)
  have fo: "free_object ob ?s = free_object ob s" by (simp add: free_object_def set_refs_def)
  have "cap_inv (free_object ob s) (R(ob := R ob - 1))" if "refcount x = 1"
  proof -
    have "cap_wf (free_object ob ?s) (R(ob := R ob - 1))"
      using i that by (intro cap_wf_free_object(1)) (auto simp: cap_inv_def set_refs_def)
    moreover have "copies_free (free_object ob s)"
      using wf(2) by (auto simp: copies_free_def free_object_def split: if_splits)
    ultimately show ?thesis by (simp add: fo cap_inv_def)
  qed
  with i x show ?thesis
    by (auto simp: obj_put_def upd_obj_def set_refs_def free_object_def caps_def fun_eq_iff split: option.split)
qed

section \<open>Revocation\<close>

definition strip :: "ptr \<Rightarrow> (ptr \<Rightarrow> int \<Rightarrow> (ptr \<times> u64) option) \<Rightarrow> ptr \<Rightarrow> int \<Rightarrow> (ptr \<times> u64) option" where
  "strip ob c h j = (case c h j of None \<Rightarrow> None | Some (k, r) \<Rightarrow> if k = ob then None else Some (k, r))"

definition holders_alive :: "cap_state \<Rightarrow> ptr \<Rightarrow> bool" where
  "holders_alive s ob \<longleftrightarrow> (\<forall>a y. cslots s a = Some y \<and> slot_object y = ob \<longrightarrow> groups s (slot_group y) \<noteq> None)"

lemma is_list_next: "is_list h l xs \<Longrightarrow> lnext h l = hd (xs @ [l])"
  by (cases xs) (auto simp: is_list_def)

lemma is_list_next_first: "is_list h l (x # xs) \<Longrightarrow> lnext h x = hd (xs @ [l])"
  by (cases xs) (auto simp: is_list_def)

lemma revoke_step:
  assumes wf: "cap_wf s R" and F: "refs_ok s R F" "F ob = a # rest" and x: "objects s ob = Some x" and r: "0 < R ob"
    and al: "holders_alive s ob"
  shows "\<exists>y s1 x1. cslots s a = Some y \<and> cap_free_gen (slot_group y) (uint (slot_id y)) False True s = Some (0, s1)
    \<and> cap_wf s1 R \<and> refs_ok s1 R (F(ob := rest)) \<and> holders_alive s1 ob \<and> objects s1 = (objects s)(ob \<mapsto> x1)
    \<and> copies_lock x1 = copies_lock x \<and> strip ob (caps s1) = strip ob (caps s) \<and> deinits s1 = deinits s"
proof -
  note fx = refs_obj [OF F(1) x]
  from fx(2) F(2) obtain y where y: "cslots s a = Some y" "slot_object y = ob" by (auto simp: slots_of_def)
  let ?g = "slot_group y" and ?i = "uint (slot_id y)"
  from al y obtain G where G: "groups s ?g = Some G" by (auto simp: holders_alive_def)
  have i: "?i = int (unat (slot_id y))" by (rule uint_nat)
  have so: "unat (slot_id y) < slots_size (slot_tab G)" "slots (slot_tab G) ! unat (slot_id y) = Some a"
    using cap_wfD(2) [OF wf y(1)] G by (auto simp: slot_ok_def)
  have c: "caps s ?g ?i = Some (ob, rights y)" using G so y by (simp add: caps_Some_iff)
  from cap_free_gen_eq [OF wf c x, of True] obtain G' t a' n l where
    t': "groups s ?g = Some G'" "cleared (slot_tab G') n t" "?i = int n" "slots (slot_tab G') ! n = Some a'"
    "l = copies_lock x" "cap_wf (without_slot ?g G' t a' ob x l s) R"
    "cap_free_gen ?g ?i False True s = Some (0, release ob x (without_slot ?g G' t a' ob x l s))"
    unfolding if_True by blast
  have "n = unat (slot_id y)" using t'(3) i by (metis of_nat_eq_iff)
  moreover have "G' = G" using t'(1) G by simp
  ultimately have t: "cleared (slot_tab G) (unat (slot_id y)) t" "l = copies_lock x" "cap_wf (without_slot ?g G t a ob x l s) R"
    "cap_free_gen ?g ?i False True s = Some (0, release ob x (without_slot ?g G t a ob x l s))"
    using t' so(2) by simp_all
  let ?s = "without_slot ?g G t a ob x l s"
  have "length (F ob) + R ob \<noteq> 1" using F(2) r by simp
  then have "refcount x \<noteq> 1" using fx(3,4) of_nat_word_inj [where ?'a = 64, of "length (F ob) + R ob" 1] by simp
  then have "release ob x ?s = ?s" by (simp add: release_def)
  moreover have "refs_ok ?s R (F(ob := rest))"
    using refs_ok_without_slot [OF F(1) y x, of ?g G t l] F(2) by simp
  moreover have "holders_alive ?s ob" using al by (auto simp: holders_alive_def without_slot_def)
  moreover have "strip ob (caps ?s) = strip ob (caps s)"
    using caps_without_slot [OF wf G t(1) so, of ob x l, folded i] c by (auto simp: strip_def fun_eq_iff)
  moreover have "objects ?s = (objects s)(ob \<mapsto> x\<lparr>copies_lock := l, refcount := refcount x - 1\<rparr>)" "deinits ?s = deinits s"
    by (simp_all add: without_slot_def)
  ultimately show ?thesis using y(1) t by (intro exI [of _ y] exI [of _ ?s]) auto
qed

lemma free_copies_ok:
  assumes "cap_wf s R" "refs_ok s R F" "objects s ob = Some x" "0 < R ob" "holders_alive s ob"
  shows "\<exists>s' x'. free_copies (copies_head ob) (lnext (copies s) (copies_head ob))
      (lnext (copies s) (lnext (copies s) (copies_head ob))) s = Some s'
    \<and> cap_wf s' R \<and> caps s' = strip ob (caps s) \<and> objects s' = (objects s)(ob \<mapsto> x')
    \<and> copies_lock x' = copies_lock x \<and> refcount x' = of_nat (R ob) \<and> deinits s' = deinits s"
  using assms
proof (induction "F ob" arbitrary: s F x)
  case Nil
  note fx = refs_obj [OF Nil.prems(2,3)]
  have "is_list (copies s) (copies_head ob) []"
    using dl.family_content [OF refs_family [OF Nil.prems(2)], of ob] Nil by auto
  then have "lnext (copies s) (copies_head ob) = copies_head ob" by (simp add: is_list_next)
  moreover have "strip ob (caps s) = caps s"
  proof -
    have "caps s h j \<noteq> Some (ob, r)" for h j r
      using Nil.hyps fx(2) by (auto simp: caps_Some_iff slots_of_def)
    then show ?thesis by (auto simp: strip_def fun_eq_iff split: option.split)
  qed
  ultimately show ?case using Nil fx
    by (subst free_copies.simps) (auto intro!: exI [of _ s] exI [of _ x] simp: fun_upd_idem)
next
  case (Cons a rest)
  from revoke_step [OF Cons.prems(1,2) Cons.hyps(2) [symmetric] Cons.prems(3,4,5)] obtain y s1 x1 where
    s1: "cslots s a = Some y" "cap_free_gen (slot_group y) (uint (slot_id y)) False True s = Some (0, s1)"
    "cap_wf s1 R" "refs_ok s1 R (F(ob := rest))" "holders_alive s1 ob" "objects s1 = (objects s)(ob \<mapsto> x1)"
    "copies_lock x1 = copies_lock x" "strip ob (caps s1) = strip ob (caps s)" "deinits s1 = deinits s" by blast
  have l: "is_list (copies s) (copies_head ob) (copies_node a # map copies_node rest)"
    using dl.family_content [OF refs_family [OF Cons.prems(2)], of ob] Cons.hyps(2) [symmetric] Cons.prems(3) by auto
  have "is_list (copies s1) (copies_head ob) (map copies_node rest)"
    using dl.family_content [OF refs_family [OF s1(4)], of ob] s1(6) by auto
  with is_list_next_first [OF l] have tmp: "lnext (copies s1) (copies_head ob) = lnext (copies s) (copies_node a)"
    by (simp add: is_list_next)
  have first: "lnext (copies s) (copies_head ob) = copies_node a" using is_list_next [OF l] by simp
  have o: "objects s1 ob = Some x1" using s1(6) by simp
  have "rest = (F(ob := rest)) ob" by simp
  from Cons.hyps(1) [OF this s1(3,4) o Cons.prems(4) s1(5)] tmp s1 obtain s' x' where
    s': "free_copies (copies_head ob) (lnext (copies s) (copies_node a)) (lnext (copies s1) (lnext (copies s) (copies_node a))) s1 = Some s'"
    "cap_wf s' R" "caps s' = strip ob (caps s)" "objects s' = (objects s)(ob \<mapsto> x')" "copies_lock x' = copies_lock x"
    "refcount x' = of_nat (R ob)" "deinits s' = deinits s" by auto
  have "free_copies (copies_head ob) (copies_node a) (lnext (copies s) (copies_node a)) s = Some s'"
    using s1(1,2) s'(1) by (subst free_copies.simps) (simp add: copies_head_node [symmetric])
  with first s' show ?case by auto
qed

end
