(* ===== verification/Cap_System.thy ===== *)
theory Cap_System
  imports Cap_Invariant
begin

text \<open>
  The behaviour of the capability system: new objects and groups, revocation, the interface
  that the other components rely on (a map from numbers to objects with rights for every
  group), and the properties of the operations of \<^verbatim>\<open>kernel/object/capability.c\<close> and
  \<^verbatim>\<open>kernel/object/cap_group.c\<close>, those of their error paths included.
\<close>

section \<open>Installing the first capability\<close>

lemma cap_alloc_ok:
  assumes inv: "cap_inv s R" and rm: "room s g" and x: "objects s ob = Some x" "refcount x = 0"
  shows "\<exists>j s'. cap_alloc g ob rts s = Some (j, s') \<and> 0 \<le> j \<and> caps s g j = None
    \<and> (\<forall>i. 0 \<le> i \<and> i < j \<longrightarrow> caps s g i \<noteq> None) \<and> cap_inv s' R
    \<and> caps s' = (caps s)(g := (caps s g)(j \<mapsto> (ob, rts))) \<and> objects s' = (objects s)(ob \<mapsto> x\<lparr>refcount := 1\<rparr>)
    \<and> frame s s' g (brk s + 1)"
proof -
  have wf: "cap_wf s R" and cf: "copies_free s" using inv by (simp_all add: cap_inv_def)
  from rm obtain G where G: "groups s g = Some G" "slots_size (slot_tab G) + 64 \<le> 2 ^ 22" by (auto simp: room_def tsize_def)
  have t: "tbl_ok (slot_tab G)" "table_guard (slot_tab G) = 0"
    using cap_wfD(1) [OF wf G(1)] by (auto simp: group_ok_def)
  from cap_alloc_eq [OF G(1) t cap_wfD(5) [OF wf] G(2) cap_wfD(4) [OF wf] x, of rts] obtain e t' c where
    e: "installed (slot_tab G) e (brk s) t'"
    "cap_alloc g ob rts s = Some (int e, with_slot c g G e t' rts ob x (copies_head ob) s)"
    using x(2) by (auto simp: with_slot_def)
  let ?s = "with_slot c g G e t' rts ob x (copies_head ob) s"
  have "cap_wf ?s R" using cap_wf_with_slot [OF wf G(1) e(1) x(1)] x(2) by simp
  moreover have "copies_free ?s" using cf x(1) by (auto simp: copies_free_def with_slot_def)
  ultimately have "cap_inv ?s R" by (simp add: cap_inv_def)
  moreover have "\<forall>i. 0 \<le> i \<and> i < int e \<longrightarrow> caps s g i \<noteq> None"
    using installed_first [OF wf G(1) e(1)] by (metis nat_0_le zless_nat_conj of_nat_less_iff)
  moreover have "objects ?s = (objects s)(ob \<mapsto> x\<lparr>refcount := 1\<rparr>)" using x(2) by (simp add: with_slot_def)
  moreover have "frame s ?s g (brk s + 1)" by (rule frame_with_slot [OF G(1) e(1)])
  ultimately show ?thesis using e(2) caps_with_slot [OF wf G(1) e(1)]
    by (intro exI [of _ "int e"] exI [of _ ?s]) simp
qed

section \<open>Revocation\<close>

lemma cap_wf_set_lock:
  assumes inv: "cap_wf s R" and x: "objects s ob = Some x"
  shows "cap_wf (s\<lparr>objects := (objects s)(ob \<mapsto> x\<lparr>copies_lock := l\<rparr>)\<rparr>) R"
proof -
  let ?s = "s\<lparr>objects := (objects s)(ob \<mapsto> x\<lparr>copies_lock := l\<rparr>)\<rparr>"
  from cap_wfD(3) [OF inv] obtain F where F: "refs_ok s R F" by blast
  have "insert ob (dom (objects s)) = dom (objects s)" using x by auto
  then have "refs_ok ?s R F" using F x by (auto simp: refs_ok_def slots_of_def)
  moreover have "group_ok ?s g G" if "groups s g = Some G" for g G
    using cap_wfD(1) [OF inv that] by (auto simp: group_ok_def)
  moreover have "slot_ok ?s a y" if "cslots s a = Some y" for a y
    using cap_wfD(2) [OF inv that] by (auto simp: slot_ok_def)
  ultimately show ?thesis using inv unfolding cap_wf_def by (auto simp: mem_avail_def)
qed

lemma caps_set_object [simp]: "caps (s\<lparr>objects := m\<rparr>) = caps s"
  by (auto simp: caps_def fun_eq_iff split: option.split)

lemma obj_free_ok:
  assumes inv: "cap_inv s R" and r: "0 < R ob" and al: "holders_alive s ob"
  shows "\<exists>s' x'. obj_free (Some ob) s = Some s' \<and> cap_inv s' R \<and> caps s' = strip ob (caps s)
    \<and> objects s' ob = Some x' \<and> refcount x' = of_nat (R ob) \<and> deinits s' = deinits s"
proof -
  have wf: "cap_wf s R" and cf: "copies_free s" using inv by (simp_all add: cap_inv_def)
  from cap_wfD(3) [OF wf] obtain F where F: "refs_ok s R F" by blast
  from F r obtain x where x: "objects s ob = Some x" unfolding refs_ok_def by fastforce
  note fx = refs_obj [OF F x]
  have nz: "refcount x \<noteq> 0" using fx(3,4) r of_nat_word_eq_0_iff [where ?'a = 64, of "length (F ob) + R ob"] by simp
  have lf: "lock_free (copies_lock x)" using cf x by (simp add: copies_free_def)
  let ?l = "(copies_lock x)\<lparr>nxt := nxt (copies_lock x) + 1\<rparr>"
  let ?s = "s\<lparr>objects := (objects s)(ob \<mapsto> x\<lparr>copies_lock := ?l\<rparr>)\<rparr>"
  have w1: "cap_wf ?s R" by (rule cap_wf_set_lock [OF wf x])
  then obtain F' where F': "refs_ok ?s R F'" using cap_wfD(3) by blast
  have h: "holders_alive ?s ob" using al by (simp add: holders_alive_def)
  from free_copies_ok [OF w1 F' _ r h, of "x\<lparr>copies_lock := ?l\<rparr>"] obtain s' x' where
    s': "free_copies (copies_head ob) (lnext (copies ?s) (copies_head ob))
      (lnext (copies ?s) (lnext (copies ?s) (copies_head ob))) ?s = Some s'"
    "cap_wf s' R" "caps s' = strip ob (caps s)" "objects s' = (objects ?s)(ob \<mapsto> x')" "copies_lock x' = ?l"
    "refcount x' = of_nat (R ob)" "deinits s' = deinits s" by auto
  let ?u = "s'\<lparr>objects := (objects s')(ob \<mapsto> x'\<lparr>copies_lock := unlock ?l\<rparr>)\<rparr>"
  have "obj_free (Some ob) s = Some ?u"
    using x nz lf s' by (simp add: obj_free_def lock_simps upd_obj_def Let_def)
  moreover have "cap_wf ?u R" using cap_wf_set_lock [OF s'(2), of ob x' "unlock ?l"] s'(4) by simp
  moreover have "copies_free ?u" using cf s'(4) lf by (auto simp: copies_free_def lock_simps)
  ultimately show ?thesis using s' by (auto simp: cap_inv_def)
qed

lemma cap_revoke_ok:
  assumes inv: "cap_inv s R" and c: "caps s g i = Some (ob, r)" and x: "objects s ob = Some x" "refcount x \<noteq> - 1"
    and al: "holders_alive s ob"
  shows "\<exists>s'. cap_revoke g i s = Some (0, s') \<and> cap_inv s' R
    \<and> caps s' = (if R ob = 0 then (strip ob (caps s))(ob := Map.empty) else strip ob (caps s))
    \<and> (objects s' ob = None \<longleftrightarrow> R ob = 0) \<and> deinits s' = deinits s"
proof -
  let ?R = "R(ob := R ob + 1)"
  from get_opaque_inv [OF inv c x, of None] obtain s1 where
    s1: "get_opaque g i None s = Some (Some ob, s1)" "cap_inv s1 ?R" "caps s1 = caps s" "s1 = set_refs ob x (refcount x + 1) s"
    by auto
  have "holders_alive s1 ob" using al s1(4) by (simp add: holders_alive_def set_refs_def)
  from obj_free_ok [OF s1(2) _ this] s1(3,4) obtain s2 x2 where
    s2: "obj_free (Some ob) s1 = Some s2" "cap_inv s2 ?R" "caps s2 = strip ob (caps s)" "objects s2 ob = Some x2"
    "refcount x2 = of_nat (R ob + 1)" "deinits s2 = deinits s" by (auto simp: set_refs_def)
  have "?R ob < 2 ^ 64"
    using s2(2,4) by (metis cap_inv_def cap_wfD(3) refs_obj(4) add_lessD1 add.commute)
  then have one: "refcount x2 = 1 \<longleftrightarrow> R ob = 0"
    using s2(5) of_nat_word_inj [where ?'a = 64, of "R ob + 1" 1] by simp
  have rr: "?R(ob := ?R ob - 1) = R" by auto
  from obj_put_ok [OF s2(2), of ob] s2(4) rr obtain s3 where
    s3: "obj_put (Some ob) s2 = Some s3" "cap_inv s3 R"
    "caps s3 = (if refcount x2 = 1 then (caps s2)(ob := Map.empty) else caps s2)"
    "s3 = (if refcount x2 = 1 then free_object ob s2 else set_refs ob x2 (refcount x2 - 1) s2)" by auto
  have "cap_revoke g i s = Some (0, s3)" using s1(1) s2(1) s3(1) by (simp add: cap_revoke_def)
  moreover have "objects s3 ob = None \<longleftrightarrow> R ob = 0" "deinits s3 = deinits s"
    using s3(4) one s2(6) by (auto simp: free_object_def set_refs_def)
  ultimately show ?thesis using s3(2,3) one s2(3) by auto
qed

section \<open>New objects and new groups\<close>

definition with_object :: "nat \<Rightarrow> object \<Rightarrow> (ptr \<Rightarrow> cap_group option) \<Rightarrow> cap_state \<Rightarrow> cap_state" where
  "with_object c x gs s = s\<lparr>mem_cnt := c, brk := brk s + 1, objects := (objects s)(brk s \<mapsto> x),
     copies := init_list_head (copies_head (brk s)) (copies s), groups := gs\<rparr>"

lemma with_object_simps [simp]:
  "objects (with_object c x gs s) = (objects s)(brk s \<mapsto> x)" "groups (with_object c x gs s) = gs"
  "brk (with_object c x gs s) = brk s + 1"
  by (simp_all add: with_object_def)

definition empty_group :: "cap_group \<Rightarrow> bool" where
  "empty_group G \<longleftrightarrow> tbl_ok (slot_tab G) \<and> table_guard (slot_tab G) = 0
     \<and> (\<forall>i < slots_size (slot_tab G). slots (slot_tab G) ! i = None)"

lemma refs_ok_with_object:
  assumes F: "refs_ok s R F" and b: "objects s (brk s) = None" and nb: "slots_of s (brk s) = {}" and x: "refcount x = 0"
  shows "refs_ok (with_object c x gs s) R (F(brk s := []))"
proof -
  have e: "(\<lambda>ob. map copies_node (F ob))(brk s := []) = (\<lambda>ob. map copies_node ((F(brk s := [])) ob))" by auto
  have "dl.fresh copies_head (dom (objects s)) (\<lambda>ob. map copies_node (F ob)) (copies_head (brk s))"
    using b by (auto simp: dl.fresh_def)
  from dl.family_new [OF refs_family [OF F] _ this] b
  have "dl.family copies_head (insert (brk s) (dom (objects s))) (init_list_head (copies_head (brk s)) (copies s))
      (\<lambda>ob. map copies_node ((F(brk s := [])) ob))" unfolding e by auto
  moreover have "R (brk s) = 0" "slots_of (with_object c x gs s) k = slots_of s k" for k
    using F b by (auto simp: refs_ok_def slots_of_def with_object_def)
  ultimately show ?thesis using F x nb by (auto simp: refs_ok_def with_object_def less_Suc_eq)
qed

lemma cap_inv_with_object:
  assumes inv: "cap_inv s R" and x: "refcount x = 0" "lock_free (copies_lock x)"
    and gs: "gs = groups s \<or> (\<exists>G. gs = (groups s)(brk s \<mapsto> G) \<and> empty_group G)"
  shows "cap_inv (with_object c x gs s) R" "caps (with_object c x gs s) = caps s"
proof -
  let ?s = "with_object c x gs s"
  have wf: "cap_wf s R" and cf: "copies_free s" using inv by (simp_all add: cap_inv_def)
  note b = cap_wf_brk [OF wf]
  from cap_wfD(3) [OF wf] obtain F where F: "refs_ok s R F" by blast
  have "slots_of s (brk s) = {}" using cap_wfD(2) [OF wf] b(1) unfolding slots_of_def slot_ok_def by fastforce
  from refs_ok_with_object [OF F b(1) this x(1)] have "\<exists>F. refs_ok ?s R F" by blast
  moreover have "group_ok ?s g G" if g: "groups ?s g = Some G" for g G
  proof (cases "g = brk s")
    case True
    with g gs b(3) have "empty_group G" by (auto simp: with_object_def)
    with True show ?thesis by (auto simp: group_ok_def empty_group_def with_object_def)
  next
    case False
    with g gs have "groups s g = Some G" by (auto simp: with_object_def)
    from cap_wfD(1) [OF wf this] show ?thesis by (auto simp: group_ok_def with_object_def)
  qed
  moreover have "slot_ok ?s a y" if "cslots ?s a = Some y" for a y
    using that gs cap_wfD(2) [OF wf, of a y] by (auto simp: slot_ok_def with_object_def split: if_splits)
  moreover have "mem_avail ?s" "\<forall>i. beyond ?s i \<noteq> NOT 0"
    using cap_wfD(4,5) [OF wf] by (auto simp: with_object_def mem_avail_def)
  ultimately have "cap_wf ?s R" unfolding cap_wf_def by blast
  then show "cap_inv ?s R" using cf x(2) by (auto simp: cap_inv_def copies_free_def with_object_def)
  have "caps ?s h j = caps s h j" for h j
  proof (cases "h = brk s")
    case True
    from gs show ?thesis
    proof
      assume "gs = groups s"
      with True b(3) show ?thesis by (simp add: with_object_def)
    next
      assume "\<exists>G. gs = (groups s)(brk s \<mapsto> G) \<and> empty_group G"
      then show ?thesis using True b(3) by (auto simp: caps_def with_object_def empty_group_def nat_less_iff)
    qed
  next
    case False
    then have "groups ?s h = groups s h" "cslots ?s = cslots s" using gs by (auto simp: with_object_def)
    then show ?thesis by (simp only: caps_def)
  qed
  then show "caps ?s = caps s" by (simp add: fun_eq_iff)
qed

lemma obj_alloc_ok:
  assumes inv: "cap_inv s R" and ty: "ty \<noteq> TYPE_CAP_GROUP" "sz \<le> 2 ^ 24"
  shows "\<exists>s' x. obj_alloc ty sz s = Some (Some (brk s), s') \<and> cap_inv s' R \<and> caps s' = caps s
    \<and> objects s' = (objects s)(brk s \<mapsto> x) \<and> refcount x = 0 \<and> otype x = ty \<and> groups s' = groups s \<and> brk s' = brk s + 1"
proof -
  let ?x = "\<lparr>otype = ty, osize = of_nat sz, copies_lock = lock_init, refcount = 0\<rparr>"
  have "mem_avail s" using inv by (auto simp: cap_inv_def dest: cap_wfD(5))
  then have "obj_alloc ty sz s = Some (Some (brk s), with_object (mem_cnt s + 1) ?x (groups s) s)"
    using ty by (simp add: obj_alloc_def kmalloc_avail sizeof_object_def with_object_def Let_def)
  with cap_inv_with_object [OF inv, of ?x "groups s" "mem_cnt s + 1"] show ?thesis
    by (intro exI [of _ "with_object (mem_cnt s + 1) ?x (groups s) s"] exI [of _ ?x]) (simp add: lock_simps)
qed

lemma new_group_ok:
  assumes inv: "cap_inv s R"
  shows "\<exists>s1 s2 G x. obj_alloc TYPE_CAP_GROUP sizeof_cap_group s = Some (Some (brk s), s1)
    \<and> cap_group_init (brk s) BASE_OBJECT_NUM b s1 = Some s2 \<and> cap_inv s2 R \<and> caps s2 = caps s
    \<and> objects s2 = (objects s)(brk s \<mapsto> x) \<and> refcount x = 0 \<and> otype x = TYPE_CAP_GROUP
    \<and> groups s2 = (groups s)(brk s \<mapsto> G) \<and> slots_size (slot_tab G) = 64 \<and> badge G = b \<and> brk s2 = brk s + 1"
proof -
  let ?x = "\<lparr>otype = TYPE_CAP_GROUP, osize = of_nat sizeof_cap_group, copies_lock = lock_init, refcount = 0\<rparr>"
  let ?t = "\<lparr>slots_size = 64, slots = replicate 64 None, full_slots_bmp = [0], slots_bmp = [0], table_guard = 0\<rparr> :: slot_table"
  let ?G = "\<lparr>slot_tab = ?t, threads_lock = lock_init, thread_cnt = 0, badge = b, notify_recycler = 0\<rparr>"
  have m: "mem_avail s" using inv by (auto simp: cap_inv_def dest: cap_wfD(5))
  obtain s1 where s1: "obj_alloc TYPE_CAP_GROUP sizeof_cap_group s = Some (Some (brk s), s1)"
    "groups s1 = (groups s)(brk s \<mapsto> \<lparr>slot_tab = blank_table, threads_lock = lock_init, thread_cnt = 0, badge = 0, notify_recycler = 0\<rparr>)"
    "s1\<lparr>mem_cnt := mem_cnt s1 + 3, groups := (groups s1)(brk s \<mapsto> ?G)\<rparr> = with_object (mem_cnt s + 4) ?x ((groups s)(brk s \<mapsto> ?G)) s"
    "mem_avail s1"
    using m by (simp add: obj_alloc_def kmalloc_avail sizeof_object_def sizeof_cap_group_def with_object_def Let_def mem_avail_def)
  let ?s = "with_object (mem_cnt s + 4) ?x ((groups s)(brk s \<mapsto> ?G)) s"
  have one: "BITS_TO_LONGS 1 = 1" by (simp add: BITS_TO_LONGS_def DIV_ROUND_UP_def BITS_PER_LONG_def)
  have "cap_group_init (brk s) BASE_OBJECT_NUM b s1 = Some ?s"
    using s1(2-4) slot_table_init_ok [OF s1(4), of 64 True blank_table] one
    by (simp add: cap_group_init_def BASE_OBJECT_NUM_def BITS_PER_LONG_def upd_group_def rwlock_init_def)
  moreover have "empty_group ?G" using tbl_ok_empty [of 64 0] one by (simp add: empty_group_def)
  then have "cap_inv ?s R" "caps ?s = caps s"
    using cap_inv_with_object [OF inv, of ?x "(groups s)(brk s \<mapsto> ?G)" "mem_cnt s + 4"] by (auto simp: lock_simps)
  ultimately show ?thesis using s1(1)
    by (intro exI [of _ s1] exI [of _ ?s] exI [of _ ?G] exI [of _ ?x]) simp
qed

lemma cap_wf_above: "cap_wf s R \<Longrightarrow> brk s \<le> ob \<Longrightarrow> objects s ob = None"
  by (metis cap_wfD(3) not_less option.exhaust refs_obj(1))

text \<open>The parts of a group other than its table do not matter to the invariant.\<close>

lemma cap_inv_group_fields:
  assumes inv: "cap_inv s R" and G: "groups s g = Some G" and G': "slot_tab G' = slot_tab G"
  shows "cap_inv (s\<lparr>groups := (groups s)(g \<mapsto> G')\<rparr>) R" "caps (s\<lparr>groups := (groups s)(g \<mapsto> G')\<rparr>) = caps s"
proof -
  let ?s = "s\<lparr>groups := (groups s)(g \<mapsto> G')\<rparr>"
  have wf: "cap_wf s R" "copies_free s" using inv by (simp_all add: cap_inv_def)
  have "group_ok ?s h H" if "groups ?s h = Some H" for h H
    using that cap_wfD(1) [OF wf(1), of h] G G' by (auto simp: group_ok_def split: if_splits)
  moreover have "slot_ok ?s a y" if "cslots s a = Some y" for a y
    using cap_wfD(2) [OF wf(1) that] G G' by (auto simp: slot_ok_def)
  moreover have "refs_ok ?s R F = refs_ok s R F" for F by (simp add: refs_ok_def slots_of_def)
  ultimately have "cap_wf ?s R" using wf(1) by (auto simp: cap_wf_def mem_avail_def)
  then show "cap_inv ?s R" using wf(2) by (simp add: cap_inv_def copies_free_def)
  show "caps ?s = caps s" using G G' by (auto simp: caps_def fun_eq_iff split: option.split)
qed

text \<open>The system call: the new group holds itself in slot 0 and its address space in slot 1.\<close>

lemma sys_create_cap_group_ok:
  assumes inv: "cap_inv s R" and rm: "room s cur" and C: "groups s cur = Some C"
    and bd: "badge C = ROOT_CAP_GROUP_BADGE \<or> badge C = FSM_BADGE \<or> badge C = PROCMGR_BADGE"
  shows "\<exists>cap s' v. sys_create_cap_group cur b s = Some (cap, s') \<and> 0 \<le> cap \<and> caps s cur cap = None \<and> cap_inv s' R
    \<and> caps s' = (caps s)(cur := (caps s cur)(cap \<mapsto> (brk s, 0)), brk s := [0 \<mapsto> (brk s, 0), 1 \<mapsto> (v, 0)])
    \<and> objects s (brk s) = None \<and> objects s v = None"
proof -
  let ?g = "brk s"
  have wf: "cap_wf s R" using inv by (simp add: cap_inv_def)
  note fresh = cap_wf_brk [OF wf]
  have ne: "cur \<noteq> ?g" using C fresh(3) by auto
  from new_group_ok [OF inv, of b] obtain s1 s2 G x where
    s2: "obj_alloc TYPE_CAP_GROUP sizeof_cap_group s = Some (Some ?g, s1)"
    "cap_group_init ?g BASE_OBJECT_NUM b s1 = Some s2" "cap_inv s2 R" "caps s2 = caps s"
    "objects s2 = (objects s)(?g \<mapsto> x)" "refcount x = 0" "groups s2 = (groups s)(?g \<mapsto> G)" "slots_size (slot_tab G) = 64"
    "brk s2 = ?g + 1" by blast
  have r2: "room s2 cur" using rm ne s2(7) by (simp add: room_def tsize_def)
  from cap_alloc_ok [OF s2(3) r2, of ?g x 0] s2(4,5,6) obtain cap s3 where
    s3: "cap_alloc cur ?g 0 s2 = Some (cap, s3)" "0 \<le> cap" "caps s cur cap = None" "cap_inv s3 R"
    "caps s3 = (caps s)(cur := (caps s cur)(cap \<mapsto> (?g, 0)))" "objects s3 = (objects s)(?g \<mapsto> x\<lparr>refcount := 1\<rparr>)"
    "frame s2 s3 cur (brk s2 + 1)" by auto
  have g0: "caps s ?g = Map.empty" using fresh(3) by (auto simp: fun_eq_iff)
  have g3: "groups s3 ?g = Some G" using s3(7) s2(7) ne by (auto simp: frame_def)
  have r3: "room s3 ?g" using g3 s2(8) by (simp add: room_def tsize_def)
  have c3: "caps s3 cur cap = Some (?g, 0)" using s3(5) by simp
  from cap_copy_ok [OF s3(4) c3 r3, of "x\<lparr>refcount := 1\<rparr>" False 0] s3(5,6) ne g0 obtain j s4 where
    s4: "cap_copy cur ?g cap False 0 s3 = Some (j, s4)" "0 \<le> j" "\<forall>i. 0 \<le> i \<longrightarrow> \<not> i < j" "cap_inv s4 R"
    "caps s4 = (caps s)(cur := (caps s cur)(cap \<mapsto> (?g, 0)), ?g := [j \<mapsto> (?g, 0)])" "frame s3 s4 ?g (brk s3 + 1)"
    by auto
  have j: "j = 0" using s4(2,3) by (metis less_le order_refl)
  have "?g \<le> brk s4" using s4(6) s3(7) s2(9) by (simp add: frame_def)
  then have v: "objects s (brk s4) = None" by (rule cap_wf_above [OF wf])
  from obj_alloc_ok [OF s4(4), of TYPE_VMSPACE sizeof_vmspace] obtain s5 y where
    s5: "obj_alloc TYPE_VMSPACE sizeof_vmspace s4 = Some (Some (brk s4), s5)" "cap_inv s5 R" "caps s5 = caps s4"
    "objects s5 (brk s4) = Some y" "refcount y = 0" "groups s5 = groups s4" by (auto simp: sizeof_vmspace_def)
  have r5: "room s5 ?g" using s4(6) s5(6) g3 s2(8) by (auto simp: frame_def room_def tsize_def)
  from cap_alloc_ok [OF s5(2) r5 s5(4,5), of 0] obtain k s6 where
    s6: "cap_alloc ?g (brk s4) 0 s5 = Some (k, s6)" "0 \<le> k" "caps s5 ?g k = None"
    "\<forall>i. 0 \<le> i \<and> i < k \<longrightarrow> caps s5 ?g i \<noteq> None" "cap_inv s6 R"
    "caps s6 = (caps s5)(?g := (caps s5 ?g)(k \<mapsto> (brk s4, 0)))" "frame s5 s6 ?g (brk s5 + 1)" by blast
  have "caps s5 ?g = [0 \<mapsto> (?g, 0)]" using s5(3) s4(5) j by simp
  then have k: "k = 1" using s6(2,3) s6(4) [rule_format, of 1] by (cases "k = 0"; cases "k = 1") auto
  from s6(7) r5 obtain G' where G': "groups s6 ?g = Some G'" by (auto simp: frame_def room_def)
  let ?s = "s6\<lparr>groups := (groups s6)(?g \<mapsto> G'\<lparr>notify_recycler := 0\<rparr>)\<rparr>"
  have "sys_create_cap_group cur b s = Some (cap, ?s)"
    using C bd s2(1,2) s3(1,2) s4(1) s5(1) s6(1) G' j k
    by (auto simp: sys_create_cap_group_def CAP_GROUP_OBJ_ID_def VMSPACE_OBJ_ID_def upd_group_def)
  moreover have "cap_inv ?s R" "caps ?s = caps s6" using cap_inv_group_fields [OF s6(5) G', of "G'\<lparr>notify_recycler := 0\<rparr>"] by auto
  moreover have "caps s6 = (caps s)(cur := (caps s cur)(cap \<mapsto> (?g, 0)), ?g := [0 \<mapsto> (?g, 0), 1 \<mapsto> (brk s4, 0)])"
    using s6(6) s5(3) s4(5) j k by simp
  ultimately show ?thesis using s3(2,3) fresh(1) v
    by (intro exI [of _ cap] exI [of _ ?s] exI [of _ "brk s4"]) simp
qed

section \<open>The interface of the capability system\<close>

text \<open>
  What the rest of the kernel relies on: copying adds one capability at a free number, freeing
  one of several capabilities of an object takes away just that one.  \<open>caps\<close> is the abstract
  state, a map from numbers to objects with rights for every group.
\<close>

locale capability_space =
  fixes inv :: "'s \<Rightarrow> ('o \<Rightarrow> nat) \<Rightarrow> bool"
    and cap_of :: "'s \<Rightarrow> 'o \<Rightarrow> int \<Rightarrow> ('o \<times> 'r) option"
    and may_copy :: "'s \<Rightarrow> 'o \<Rightarrow> 'o \<Rightarrow> bool"
    and new_rights :: "'r \<Rightarrow> 'r"
    and copy :: "'o \<Rightarrow> 'o \<Rightarrow> int \<Rightarrow> 's \<Rightarrow> (int \<times> 's) option"
    and free :: "'o \<Rightarrow> int \<Rightarrow> 's \<Rightarrow> (int \<times> 's) option"
  assumes copy_law: "inv s R \<Longrightarrow> cap_of s src i = Some (ob, r) \<Longrightarrow> may_copy s dest ob \<Longrightarrow>
      \<exists>j s'. copy src dest i s = Some (j, s') \<and> 0 \<le> j \<and> cap_of s dest j = None \<and> inv s' R
        \<and> cap_of s' = (cap_of s)(dest := (cap_of s dest)(j \<mapsto> (ob, new_rights r)))"
    and free_law: "inv s R \<Longrightarrow> cap_of s g i = Some (ob, r) \<Longrightarrow> cap_of s h j = Some (ob, r') \<Longrightarrow> (g, i) \<noteq> (h, j) \<Longrightarrow>
      \<exists>s'. free g i s = Some (0, s') \<and> inv s' R \<and> cap_of s' = (cap_of s)(g := (cap_of s g)(i := None))"
begin

text \<open>Copying and then freeing the original moves the capability; the object is never lost on the way.\<close>

lemma copy_then_free:
  assumes "inv s R" "cap_of s src i = Some (ob, r)" "may_copy s dest ob"
  shows "\<exists>j s1 s2. copy src dest i s = Some (j, s1) \<and> 0 \<le> j \<and> cap_of s dest j = None \<and> free src i s1 = Some (0, s2) \<and> inv s2 R
    \<and> cap_of s2 = (let c = (cap_of s)(dest := (cap_of s dest)(j \<mapsto> (ob, new_rights r))) in c(src := (c src)(i := None)))"
proof -
  from copy_law [OF assms] obtain j s1 where
    s1: "copy src dest i s = Some (j, s1)" "0 \<le> j" "cap_of s dest j = None" "inv s1 R"
    "cap_of s1 = (cap_of s)(dest := (cap_of s dest)(j \<mapsto> (ob, new_rights r)))" by blast
  have ne: "(src, i) \<noteq> (dest, j)" using s1(3) assms(2) by auto
  have "cap_of s1 src i = Some (ob, r)" "cap_of s1 dest j = Some (ob, new_rights r)"
    using s1(5) assms(2) ne by auto
  from free_law [OF s1(4) this ne] s1 show ?thesis by (auto simp: Let_def)
qed

end

interpretation cs: capability_space cap_inv caps
  "\<lambda>s dest ob. room s dest \<and> (\<forall>x. objects s ob = Some x \<longrightarrow> refcount x \<noteq> - 1)"
  "\<lambda>r. if b then rts else r" "\<lambda>src dest i s. cap_copy src dest i b rts s" cap_free for b rts
proof unfold_locales
  fix s R src i ob r dest
  assume *: "cap_inv s R" "caps s src i = Some (ob, r)"
    "room s dest \<and> (\<forall>x. objects s ob = Some x \<longrightarrow> refcount x \<noteq> - 1)"
  then obtain x where "objects s ob = Some x" by (auto simp: cap_inv_def elim: caps_SomeE)
  with cap_copy_ok [OF *(1,2), of dest x b rts] *(3)
  show "\<exists>j s'. cap_copy src dest i b rts s = Some (j, s') \<and> 0 \<le> j \<and> caps s dest j = None \<and> cap_inv s' R
        \<and> caps s' = (caps s)(dest := (caps s dest)(j \<mapsto> (ob, if b then rts else r)))" by blast
next
  fix s R g i ob r h j r'
  assume *: "cap_inv s R" "caps s g i = Some (ob, r)" "caps s h j = Some (ob, r')" "(g, i) \<noteq> (h, j)"
  then have wf: "cap_wf s R" by (simp add: cap_inv_def)
  with *(2) obtain x where x: "objects s ob = Some x" by (rule caps_SomeE)
  have "refcount x \<noteq> 1" by (rule refcount_other_cap [OF wf x *(2-4)])
  with cap_free_ok [OF *(1,2) x]
  show "\<exists>s'. cap_free g i s = Some (0, s') \<and> cap_inv s' R \<and> caps s' = (caps s)(g := (caps s g)(i := None))" by auto
qed

section \<open>A small system\<close>

definition no_caps :: cap_state where
  "no_caps = \<lparr>objects = Map.empty, groups = Map.empty, cslots = Map.empty,
     copies = \<lparr>lprev = (\<lambda>_. 0), lnext = (\<lambda>_. 0)\<rparr>, brk = 0, mem_ok = (\<lambda>_. True), mem_cnt = 0,
     beyond = (\<lambda>_. 0), deinits = []\<rparr>"

lemma no_caps_inv: "cap_inv no_caps (\<lambda>_. 0)"
  by (auto simp: cap_inv_def cap_wf_def refs_ok_def copies_free_def mem_avail_def no_caps_def dl.family_def)

text \<open>One group that holds a capability to itself.\<close>

lemma one_group:
  "\<exists>s G x. cap_inv s (\<lambda>_. 0) \<and> caps s 0 0 = Some (0, 7) \<and> groups s 0 = Some G \<and> badge G = ROOT_CAP_GROUP_BADGE
    \<and> slots_size (slot_tab G) \<le> 128 \<and> objects s 0 = Some x \<and> refcount x = 1 \<and> otype x = TYPE_CAP_GROUP
    \<and> (\<forall>i. i \<noteq> 0 \<longrightarrow> caps s 0 i = None)"
proof -
  from new_group_ok [OF no_caps_inv, of ROOT_CAP_GROUP_BADGE] obtain s G x where
    s: "cap_inv s (\<lambda>_. 0)" "caps s = caps no_caps" "objects s 0 = Some x" "refcount x = 0" "otype x = TYPE_CAP_GROUP"
    "groups s 0 = Some G" "slots_size (slot_tab G) = 64" "badge G = ROOT_CAP_GROUP_BADGE" by (auto simp: no_caps_def)
  have "room s 0" using s(6,7) by (simp add: room_def tsize_def)
  from cap_alloc_ok [OF s(1) this s(3,4), of 7] obtain j s' where
    s': "0 \<le> j" "\<forall>i. 0 \<le> i \<and> i < j \<longrightarrow> caps s 0 i \<noteq> None" "cap_inv s' (\<lambda>_. 0)"
    "caps s' = (caps s)(0 := (caps s 0)(j \<mapsto> (0, 7)))" "objects s' = (objects s)(0 \<mapsto> x\<lparr>refcount := 1\<rparr>)"
    "frame s s' 0 (brk s + 1)" by blast
  have n: "caps s 0 i = None" for i using s(2) by (simp add: no_caps_def)
  then have "j = 0" using s'(1,2) by (metis less_le order_refl)
  then have "\<forall>i. i \<noteq> 0 \<longrightarrow> caps s' 0 i = None" using n s'(4) by simp
  moreover have "\<exists>G'. groups s' 0 = Some G' \<and> badge G' = ROOT_CAP_GROUP_BADGE \<and> slots_size (slot_tab G') \<le> 128"
    using s'(6) s(6-8) by (fastforce simp: frame_def tsize_def)
  moreover have "caps s' 0 0 = Some (0, 7)" "objects s' 0 = Some (x\<lparr>refcount := 1\<rparr>)" using s'(4,5) \<open>j = 0\<close> by simp_all
  ultimately show ?thesis using s'(3) s(5) by (intro exI [of _ s']) auto
qed

lemma holders_alive_one:
  assumes inv: "cap_inv s R" and c: "caps s g i = Some (ob, r)" and x: "objects s ob = Some x" "refcount x = 1"
  shows "holders_alive s ob"
proof -
  have wf: "cap_wf s R" using inv by (simp add: cap_inv_def)
  obtain G a y where y: "groups s g = Some G" "cslots s a = Some y" "slot_object y = ob" "slot_group y = g"
    using c wf by (rule caps_SomeE)
  have "b = a" if "cslots s b = Some z" "slot_object z = ob" for b z
    using refcount_two [OF wf x(1), of a b] x(2) y that by (auto simp: slots_of_def)
  with y show ?thesis by (auto simp: holders_alive_def)
qed

lemma refs_of_cap:
  assumes inv: "cap_inv s R" and c: "caps s g i = Some (ob, r)" and x: "objects s ob = Some x"
  shows "refcount x \<noteq> 0"
proof -
  have wf: "cap_wf s R" using inv by (simp add: cap_inv_def)
  obtain a y where y: "cslots s a = Some y" "slot_object y = ob" using c wf by (rule caps_SomeE)
  with cap_wf_free_object [OF wf x] cap_wfD(2) [of "free_object ob s" R a y] show ?thesis
    by (auto simp: slot_ok_def free_object_def)
qed

section \<open>The capability system as a state machine\<close>

text \<open>
  The states that the operations on objects and capabilities reach from a kernel without objects, whatever the order in which they are
  called, with the number of references the kernel holds outside the tables.  The guards say that the tables stay below their limit
  and the counters below \<open>2\<^sup>64 - 1\<close>, and that \<^verbatim>\<open>cap_revoke\<close> meets only slots of living groups.
\<close>

inductive cap_reach :: "cap_state \<Rightarrow> (ptr \<Rightarrow> nat) \<Rightarrow> bool" where
  boot: "cap_reach no_caps (\<lambda>_. 0)"
| group: "cap_reach s R \<Longrightarrow> obj_alloc TYPE_CAP_GROUP sizeof_cap_group s = Some (Some g, s1) \<Longrightarrow> cap_group_init g BASE_OBJECT_NUM b s1 = Some s2
    \<Longrightarrow> cap_reach s2 R"
| obj: "cap_reach s R \<Longrightarrow> ty \<noteq> TYPE_CAP_GROUP \<Longrightarrow> sz \<le> 2 ^ 24 \<Longrightarrow> obj_alloc ty sz s = Some (p, s') \<Longrightarrow> cap_reach s' R"
| alloc: "cap_reach s R \<Longrightarrow> room s g \<Longrightarrow> objects s ob = Some x \<Longrightarrow> refcount x = 0 \<Longrightarrow> cap_alloc g ob rts s = Some (j, s') \<Longrightarrow> cap_reach s' R"
| copy: "cap_reach s R \<Longrightarrow> groups s src \<noteq> None \<Longrightarrow> room s dest \<Longrightarrow> \<forall>x \<in> ran (objects s). refcount x \<noteq> - 1
    \<Longrightarrow> cap_copy src dest i b rts s = Some (j, s') \<Longrightarrow> cap_reach s' R"
| free: "cap_reach s R \<Longrightarrow> groups s g \<noteq> None \<Longrightarrow> cap_free g i s = Some (j, s') \<Longrightarrow> cap_reach s' R"
| revoke: "cap_reach s R \<Longrightarrow> caps s g i = Some (ob, r) \<Longrightarrow> \<forall>x \<in> ran (objects s). refcount x \<noteq> - 1 \<Longrightarrow> holders_alive s ob
    \<Longrightarrow> cap_revoke g i s = Some (j, s') \<Longrightarrow> cap_reach s' R"
| get: "cap_reach s R \<Longrightarrow> caps s g i \<noteq> None \<Longrightarrow> \<forall>x \<in> ran (objects s). refcount x \<noteq> - 1 \<Longrightarrow> obj_get g i ty s = Some (p, s')
    \<Longrightarrow> cap_reach s' (case p of None \<Rightarrow> R | Some ob \<Rightarrow> R(ob := R ob + 1))"
| put: "cap_reach s R \<Longrightarrow> 0 < R ob \<Longrightarrow> obj_put (Some ob) s = Some s' \<Longrightarrow> cap_reach s' (R(ob := R ob - 1))"

lemma cap_reach_inv: "cap_reach s R \<Longrightarrow> cap_inv s R"
proof (induction rule: cap_reach.induct)
  case boot
  show ?case by (rule no_caps_inv)
next
  case (group s R g s1 b s2)
  then show ?case using new_group_ok [of s R b] by auto
next
  case (obj s R ty sz p s')
  then show ?case using obj_alloc_ok [of s R ty sz] by auto
next
  case (alloc s R g ob x rts j s')
  then show ?case using cap_alloc_ok [of s R g ob x rts] by auto
next
  case (copy s R src dest i b rts j s')
  then have wf: "cap_wf s R" and G: "groups s dest \<noteq> None" by (simp_all add: cap_inv_def room_def)
  show ?case
  proof (cases "caps s src i")
    case None
    then show ?thesis using cap_copy_ECAPBILITY [OF wf None] copy G by auto
  next
    case (Some c)
    then obtain ob r x where x: "caps s src i = Some (ob, r)" "objects s ob = Some x" using wf by (cases c) (auto elim: caps_SomeE)
    then show ?thesis using cap_copy_ok [OF copy.IH x(1) copy.hyps(3) x(2), of b rts] copy.hyps by (auto simp: ranI)
  qed
next
  case (free s R g i j s')
  then have wf: "cap_wf s R" by (simp add: cap_inv_def)
  show ?case
  proof (cases "caps s g i")
    case None
    then show ?thesis using cap_free_ECAPBILITY [OF wf None] free by auto
  next
    case (Some c)
    then obtain ob r x where x: "caps s g i = Some (ob, r)" "objects s ob = Some x" using wf by (cases c) (auto elim: caps_SomeE)
    then show ?thesis using cap_free_ok [OF free.IH x] free.hyps by auto
  qed
next
  case (revoke s R g i ob r j s')
  then obtain x where x: "objects s ob = Some x" by (auto simp: cap_inv_def elim: caps_SomeE)
  then show ?case using cap_revoke_ok [OF revoke.IH revoke.hyps(2) x _ revoke.hyps(4)] revoke.hyps by (auto simp: ranI)
next
  case (get s R g i ty p s')
  then obtain ob r where c: "caps s g i = Some (ob, r)" by auto
  with get.IH obtain x where "objects s ob = Some x" by (auto simp: cap_inv_def elim: caps_SomeE)
  note x = c this
  then have "refcount x \<noteq> - 1" using get.hyps by (auto simp: ranI)
  then show ?case using get_opaque_inv [OF get.IH x, of "Some ty"] get_opaque_eq [of s R g i ob r x "Some ty"] get x
    by (cases "ty = otype x") (auto simp: obj_get_def cap_inv_def)
next
  case (put s R ob s')
  from obj_put_ok [OF put.IH put.hyps(2)] put.hyps(3) show ?case by (metis option.inject)
qed

lemma reference_alive:
  assumes "cap_inv s R" "0 < R ob"
  shows "\<exists>x. objects s ob = Some x \<and> refcount x \<noteq> 0"
proof -
  from assms(1) obtain F where F: "refs_ok s R F" by (auto simp: cap_inv_def dest: cap_wfD(3))
  then obtain x where x: "objects s ob = Some x" "refcount x = of_nat (length (F ob) + R ob)" "length (F ob) + R ob < 2 ^ 64"
    using assms(2) unfolding refs_ok_def by fastforce
  have "unat (refcount x) = length (F ob) + R ob" using x(2,3) by (simp add: unat_of_nat take_bit_nat_eq_self del: of_nat_add)
  then show ?thesis using x(1) assms(2) by fastforce
qed

section \<open>Properties\<close>

text \<open>
  C3: capabilities are typed and never dangle.  In every state that the operations reach, in whatever order, a capability
  names a living object with a count above zero, \<^verbatim>\<open>obj_get\<close> hands that object out for its own type and for no other, and an
  object that the kernel holds a reference to is alive.
\<close>

theorem cap_type_safety:
  assumes "cap_reach s R"
  shows "(\<forall>g i ob r. caps s g i = Some (ob, r) \<longrightarrow> (\<exists>x. objects s ob = Some x \<and> refcount x \<noteq> 0
        \<and> (\<forall>ty. \<exists>s'. obj_get g i ty s = Some (if ty = otype x then Some ob else None, s'))))
    \<and> (\<forall>ob. 0 < R ob \<longrightarrow> (\<exists>x. objects s ob = Some x \<and> refcount x \<noteq> 0))"
proof (intro conjI allI impI)
  note inv = cap_reach_inv [OF assms]
  fix g i ob r assume c: "caps s g i = Some (ob, r)"
  then obtain x where x: "objects s ob = Some x" using inv by (auto simp: cap_inv_def elim: caps_SomeE)
  have "\<exists>s'. obj_get g i ty s = Some (if ty = otype x then Some ob else None, s')" for ty
    using get_opaque_eq [of s R g i ob r x "Some ty"] inv c x by (auto simp: obj_get_def cap_inv_def)
  then show "\<exists>x. objects s ob = Some x \<and> refcount x \<noteq> 0 \<and> (\<forall>ty. \<exists>s'. obj_get g i ty s = Some (if ty = otype x then Some ob else None, s'))"
    using x refs_of_cap [OF inv c x] by blast
next
  fix ob assume "0 < R ob"
  then show "\<exists>x. objects s ob = Some x \<and> refcount x \<noteq> 0" by (rule reference_alive [OF cap_reach_inv [OF assms]])
qed

theorem cap_type_safety_witness:
  "\<exists>s s' x. caps s 0 0 = Some (0, 7) \<and> objects s 0 = Some x \<and> refcount x \<noteq> 0 \<and> otype x = TYPE_CAP_GROUP \<and> obj_get 0 0 TYPE_PMO s = Some (None, s')"
proof -
  from new_group_ok [OF no_caps_inv, of ROOT_CAP_GROUP_BADGE] obtain s1 s G x where
    s: "obj_alloc TYPE_CAP_GROUP sizeof_cap_group no_caps = Some (Some 0, s1)" "cap_group_init 0 BASE_OBJECT_NUM ROOT_CAP_GROUP_BADGE s1 = Some s"
    "cap_inv s (\<lambda>_. 0)" "caps s = caps no_caps" "objects s 0 = Some x" "refcount x = 0" "otype x = TYPE_CAP_GROUP"
    "groups s 0 = Some G" "slots_size (slot_tab G) = 64" by (auto simp: no_caps_def)
  have r: "room s 0" using s(8,9) by (simp add: room_def tsize_def)
  have "cap_reach s (\<lambda>_. 0)" by (rule cap_reach.group [OF cap_reach.boot s(1,2)])
  from cap_alloc_ok [OF s(3) r s(5,6), of 7] obtain j s' where
    j: "cap_alloc 0 0 7 s = Some (j, s')" "0 \<le> j" "\<forall>i. 0 \<le> i \<and> i < j \<longrightarrow> caps s 0 i \<noteq> None"
    "caps s' = (caps s)(0 := (caps s 0)(j \<mapsto> (0, 7)))" "objects s' = (objects s)(0 \<mapsto> x\<lparr>refcount := 1\<rparr>)" by blast
  have "cap_reach s' (\<lambda>_. 0)" by (rule cap_reach.alloc [OF \<open>cap_reach s (\<lambda>_. 0)\<close> r s(5,6) j(1)])
  moreover have "caps s 0 0 = None" using s(4) by (simp add: no_caps_def)
  then have "j = 0" using j(2,3) by (metis less_le order_refl)
  then have c: "caps s' 0 0 = Some (0, 7)" using j(4) by simp
  ultimately obtain y s2 where "objects s' 0 = Some y" "refcount y \<noteq> 0" "obj_get 0 0 TYPE_PMO s' = Some (if TYPE_PMO = otype y then Some 0 else None, s2)"
    using cap_type_safety [of s' "\<lambda>_. 0"] by blast
  then show ?thesis using c j(5) s(7) by (intro exI [of _ s'] exI [of _ s2] exI [of _ y]) auto
qed

text \<open>
  C5: \<^verbatim>\<open>cap_copy\<close> keeps the invariant and adds exactly one capability to the destination group, at
  the first free number, for the same object and with the rights asked for; a number that is
  no capability of the source group gives \<^verbatim>\<open>-ECAPBILITY\<close> and changes nothing.
\<close>

theorem cap_copy_correct:
  assumes "cap_inv s R" "groups s src \<noteq> None" "room s dest"
  shows "(caps s src i = None \<longrightarrow> cap_copy src dest i b rts s = Some (- ECAPBILITY, s))
    \<and> (\<forall>ob r x. caps s src i = Some (ob, r) \<and> objects s ob = Some x \<and> refcount x \<noteq> - 1 \<longrightarrow>
        (\<exists>j s'. cap_copy src dest i b rts s = Some (j, s') \<and> 0 \<le> j \<and> caps s dest j = None
          \<and> (\<forall>i. 0 \<le> i \<and> i < j \<longrightarrow> caps s dest i \<noteq> None) \<and> cap_inv s' R
          \<and> caps s' = (caps s)(dest := (caps s dest)(j \<mapsto> (ob, if b then rts else r)))))"
proof -
  have wf: "cap_wf s R" using assms(1) by (simp add: cap_inv_def)
  from assms(2,3) obtain S D where "groups s src = Some S" "groups s dest = Some D" unfolding room_def by blast
  with cap_copy_ECAPBILITY [OF wf] have "caps s src i = None \<Longrightarrow> cap_copy src dest i b rts s = Some (- ECAPBILITY, s)"
    by blast
  then show ?thesis using cap_copy_ok [OF assms(1) _ assms(3), of src i] by meson
qed

theorem cap_copy_correct_witness:
  "\<exists>s j s'. caps s 0 0 = Some (0, 7) \<and> cap_copy 0 0 0 True 3 s = Some (j, s') \<and> caps s' 0 0 = Some (0, 7)
     \<and> caps s' 0 j = Some (0, 3) \<and> cap_copy 0 0 (-1) True 3 s = Some (- ECAPBILITY, s)"
proof -
  from one_group obtain s G x where s: "cap_inv s (\<lambda>_. 0)" "caps s 0 0 = Some (0, 7)" "groups s 0 = Some G"
    "slots_size (slot_tab G) \<le> 128" "objects s 0 = Some x" "refcount x = 1" by blast
  then have r: "groups s 0 \<noteq> None" "room s 0" by (auto simp: room_def tsize_def)
  from cap_copy_correct [OF s(1) r, of 0 True 3] s obtain j s' where
    "cap_copy 0 0 0 True 3 s = Some (j, s')" "caps s 0 j = None" "caps s' = (caps s)(0 := (caps s 0)(j \<mapsto> (0, 3)))" by auto
  with cap_copy_correct [OF s(1) r, of "-1" True 3] s(2) show ?thesis
    by (intro exI [of _ s] exI [of _ j] exI [of _ s']) auto
qed



text \<open>
  \<^verbatim>\<open>cap_move\<close> of a capability succeeds, keeps the invariant and transfers it to a free number
  of the destination group: the object stays alive throughout.
\<close>

theorem cap_move_correct:
  assumes "cap_inv s R" "caps s src i = Some (ob, r)" "room s dest"
    and "\<forall>x. objects s ob = Some x \<longrightarrow> refcount x \<noteq> - 1"
  shows "\<exists>j s'. cap_move src dest i b rts s = Some (0, s') \<and> cap_inv s' R \<and> caps s dest j = None
    \<and> caps s' = (let c = (caps s)(dest := (caps s dest)(j \<mapsto> (ob, if b then rts else r))) in c(src := (c src)(i := None)))"
proof -
  from cs.copy_then_free [OF assms(1,2), of dest b rts] assms(3,4) obtain j s1 s2 where
    "cap_copy src dest i b rts s = Some (j, s1)" "0 \<le> j" "caps s dest j = None" "cap_free src i s1 = Some (0, s2)"
    "cap_inv s2 R" "caps s2 = (let c = (caps s)(dest := (caps s dest)(j \<mapsto> (ob, if b then rts else r))) in c(src := (c src)(i := None)))"
    by blast
  then show ?thesis by (intro exI [of _ j] exI [of _ s2]) (simp add: cap_move_def)
qed

theorem cap_move_correct_witness:
  "\<exists>s j s'. caps s 0 0 = Some (0, 7) \<and> cap_move 0 0 0 False 0 s = Some (0, s') \<and> caps s' 0 0 = None \<and> caps s' 0 j = Some (0, 7)"
proof -
  from one_group obtain s G x where s: "cap_inv s (\<lambda>_. 0)" "caps s 0 0 = Some (0, 7)" "groups s 0 = Some G"
    "slots_size (slot_tab G) \<le> 128" "objects s 0 = Some x" "refcount x = 1" by blast
  then have r: "room s 0" by (auto simp: room_def tsize_def)
  from cap_move_correct [OF s(1,2) r, of False 0] s(5,6) obtain j s' where
    "cap_move 0 0 0 False 0 s = Some (0, s')" "caps s 0 j = None"
    "caps s' = (let c = (caps s)(0 := (caps s 0)(j \<mapsto> (0, 7))) in c(0 := (c 0)(0 := None)))" by auto
  moreover from this(2) s(2) have "j \<noteq> 0" by auto
  ultimately show ?thesis using s(2) by (intro exI [of _ s] exI [of _ j] exI [of _ s']) (simp add: Let_def)
qed



text \<open>
  \<^verbatim>\<open>obj_get\<close> on a capability whose object has the type asked for gives the object, alive as long
  as the reference is held, and \<^verbatim>\<open>obj_put\<close> undoes it exactly; with another type it gives NULL and
  changes nothing.
\<close>

theorem obj_get_put:
  assumes "cap_inv s R" "caps s g i = Some (ob, r)" "objects s ob = Some x" "refcount x \<noteq> - 1"
  shows "if ty = otype x
    then \<exists>s1. obj_get g i ty s = Some (Some ob, s1) \<and> cap_inv s1 (R(ob := R ob + 1)) \<and> caps s1 = caps s
      \<and> obj_put (Some ob) s1 = Some s
    else obj_get g i ty s = Some (None, s)"
proof (cases "ty = otype x")
  case True
  from get_opaque_inv [OF assms, of "Some ty"] True obtain s1 where
    s1: "obj_get g i ty s = Some (Some ob, s1)" "cap_inv s1 (R(ob := R ob + 1))" "caps s1 = caps s"
    "s1 = set_refs ob x (refcount x + 1) s" by (auto simp: obj_get_def)
  have "refcount x + 1 \<noteq> 1"
    using refs_of_cap [OF assms(1-3)] by simp
  then have "obj_put (Some ob) s1 = Some s"
    using s1(4) assms(3) by (simp add: obj_put_def upd_obj_def set_refs_def fun_upd_idem)
  with s1 True show ?thesis by auto
next
  case False
  with get_opaque_eq [of s R g i ob r x "Some ty"] assms show ?thesis by (simp add: obj_get_def cap_inv_def)
qed

theorem obj_get_put_witness:
  "\<exists>s s1. caps s 0 0 = Some (0, 7) \<and> obj_get 0 0 TYPE_CAP_GROUP s = Some (Some 0, s1) \<and> obj_put (Some 0) s1 = Some s
     \<and> obj_get 0 0 TYPE_PMO s = Some (None, s)"
proof -
  from one_group obtain s G x where s: "cap_inv s (\<lambda>_. 0)" "caps s 0 0 = Some (0, 7)"
    "objects s 0 = Some x" "refcount x = 1" "otype x = TYPE_CAP_GROUP" by blast
  then have "refcount x \<noteq> - 1" by simp
  from obj_get_put [OF s(1-3) this, of TYPE_CAP_GROUP] obj_get_put [OF s(1-3) this, of TYPE_PMO] s(2,5)
  show ?thesis by auto
qed

text \<open>
  C27: \<^verbatim>\<open>sys_create_cap_group\<close> of a privileged process gives it a capability to a new group whose
  slot 0 holds the group itself and whose slot 1 holds a new address space, as the fixed
  numbers \<^verbatim>\<open>CAP_GROUP_OBJ_ID\<close> and \<^verbatim>\<open>VMSPACE_OBJ_ID\<close> require; all other capabilities stay as they
  were.  A process with another badge gets \<^verbatim>\<open>-EPERM\<close>.
\<close>

theorem sys_create_cap_group_correct:
  assumes "cap_inv s R" "room s cur" "groups s cur = Some C"
  shows "if badge C \<in> {ROOT_CAP_GROUP_BADGE, FSM_BADGE, PROCMGR_BADGE}
    then \<exists>cap s' v. sys_create_cap_group cur b s = Some (cap, s') \<and> 0 \<le> cap \<and> caps s cur cap = None \<and> cap_inv s' R
      \<and> caps s' = (caps s)(cur := (caps s cur)(cap \<mapsto> (brk s, 0)), brk s := [0 \<mapsto> (brk s, 0), 1 \<mapsto> (v, 0)])
      \<and> objects s (brk s) = None \<and> objects s v = None
    else sys_create_cap_group cur b s = Some (- EPERM, s)"
  using sys_create_cap_group_ok [OF assms, of b] assms(3) by (auto simp: sys_create_cap_group_def)

theorem sys_create_cap_group_correct_witness:
  "\<exists>s cap s' g v. sys_create_cap_group 0 9 s = Some (cap, s') \<and> caps s' 0 cap = Some (g, 0)
     \<and> caps s' g 0 = Some (g, 0) \<and> caps s' g 1 = Some (v, 0) \<and> g \<noteq> 0"
proof -
  from one_group obtain s G where s: "cap_inv s (\<lambda>_. 0)" "groups s 0 = Some G"
    "slots_size (slot_tab G) \<le> 128" "badge G = ROOT_CAP_GROUP_BADGE" "objects s 0 \<noteq> None" by fastforce
  then have r: "room s 0" by (auto simp: room_def tsize_def)
  from sys_create_cap_group_correct [OF s(1) r s(2), of 9] s(4) obtain cap s' v where
    "sys_create_cap_group 0 9 s = Some (cap, s')" "objects s (brk s) = None"
    "caps s' = (caps s)(0 := (caps s 0)(cap \<mapsto> (brk s, 0)), brk s := [0 \<mapsto> (brk s, 0), 1 \<mapsto> (v, 0)])" by auto
  moreover from this(2) s(5) have "brk s \<noteq> 0" by metis
  ultimately show ?thesis by (intro exI [of _ s] exI [of _ cap] exI [of _ s'] exI [of _ "brk s"] exI [of _ v]) simp
qed

text \<open>
  A capability number at or above the size of the table is not rejected by
  \<^verbatim>\<open>is_valid_slot_id\<close>, whose test demands a number that is negative and too large at once:
  \<^verbatim>\<open>get_opaque\<close>, and with it \<^verbatim>\<open>obj_get\<close> on a number supplied by a user, reads outside the bit map.
  Negative numbers are rejected.
\<close>

theorem get_opaque_out_of_range:
  assumes "cap_inv s R" "groups s g = Some G"
  shows "(int (slots_size (slot_tab G)) \<le> i \<and> i < 2 ^ 31 \<longrightarrow> get_opaque g i ty s = None)
    \<and> (- (2 ^ 31) \<le> i \<and> i < 0 \<longrightarrow> get_opaque g i ty s = Some (None, s))"
  using get_opaque_beyond [of s R g G i ty] get_opaque_none [of s R g G i ty] assms by (auto simp: cap_inv_def)

theorem get_opaque_out_of_range_witness:
  "\<exists>s R. cap_inv s R \<and> obj_get 0 1000 TYPE_PMO s = None \<and> obj_get 0 (-1) TYPE_PMO s = Some (None, s)"
proof -
  from one_group obtain s G where s: "cap_inv s (\<lambda>_. 0)" "groups s 0 = Some G" "slots_size (slot_tab G) \<le> 128" by blast
  from get_opaque_out_of_range [OF s(1,2), of 1000 "Some TYPE_PMO"]
    get_opaque_out_of_range [OF s(1,2), of "-1" "Some TYPE_PMO"] s
  show ?thesis by (intro exI [of _ s] exI [of _ "\<lambda>_. 0"]) (simp add: obj_get_def)
qed

text \<open>
  When a full table cannot grow for want of memory, \<^verbatim>\<open>alloc_slot_id\<close> gives \<^verbatim>\<open>-ENOMEM\<close>.
  \<^verbatim>\<open>cap_alloc\<close> passes the error on; \<^verbatim>\<open>cap_copy\<close> compares the result with \<^verbatim>\<open>-1\<close> only and goes on with
  a negative slot number: it does not return.
\<close>

theorem cap_copy_exhausted:
  assumes G: "groups s g = Some G" "table_guard (slot_tab G) = 0" "find_slot (slot_tab G) = Some None"
    and sz: "256 \<le> slots_size (slot_tab G)" "slots_size (slot_tab G) \<le> 2 ^ 21" "slots_size (slot_tab G) mod 64 = 0"
      "length (slots_bmp (slot_tab G)) \<le> 2 ^ 20"
    and m: "\<not> mem_ok s (mem_cnt s)"
    and c: "get_slot g i s = Some (Some a)" "cslots s a = Some y" "isvalid y"
  shows "cap_alloc g ob rts s = Some (- ENOMEM, s\<lparr>mem_cnt := mem_cnt s + 1\<rparr>) \<and> cap_copy g g i b rts s = None"
proof -
  let ?t = "(slot_tab G)\<lparr>table_guard := WRITER\<rparr>"
  let ?s = "s\<lparr>groups := (groups s)(g \<mapsto> G\<lparr>slot_tab := ?t\<rparr>)\<rparr>"
  let ?n = "slots_size (slot_tab G) + 64"
  from sz(3) obtain q where q: "slots_size (slot_tab G) = 64 * q" by blast
  have n: "DIV_ROUND_UP ?n 64 * 64 = ?n" using q by (simp add: DIV_ROUND_UP_def)
  have "slot_table_init ?n False blank_table ?s = Some (- ENOMEM, blank_table\<lparr>slots_size := ?n\<rparr>, ?s\<lparr>mem_cnt := mem_cnt s + 1\<rparr>)"
    using m sz by (simp add: slot_table_init_def BASE_OBJECT_NUM_def BITS_PER_LONG_def n kmalloc_ok_def Let_def)
  then have ex: "expand_slot_table ?t ?s = Some (- ENOMEM, ?t, ?s\<lparr>mem_cnt := mem_cnt s + 1\<rparr>)"
    by (simp add: expand_slot_table_def Let_def BASE_OBJECT_NUM_def BITS_PER_LONG_def ENOMEM_def)
  have "find_slot ?t = Some None" using G(3) by (simp add: find_slot_def Let_def cong: if_cong)
  with ex have "alloc_slot_loop ?t ?s = Some (- ENOMEM, ?t, ?s\<lparr>mem_cnt := mem_cnt s + 1\<rparr>)"
    by (subst alloc_slot_loop.simps) (simp add: ENOMEM_def)
  then have al: "alloc_slot_id g ?s = Some (- ENOMEM, ?s\<lparr>mem_cnt := mem_cnt s + 1\<rparr>)"
    by (simp add: alloc_slot_id_def set_table_def upd_group_def)
  have "cap_alloc g ob rts s = Some (- ENOMEM, s\<lparr>mem_cnt := mem_cnt s + 1\<rparr>)"
    using G al by (simp add: cap_alloc_def table_ops ENOMEM_def set_guard_idem fun_upd_idem)
  moreover have "bmp_get 4294967284 (slots_bmp (slot_tab G)) = None"
    using sz(4) by (intro bmp_get_out) (simp add: in_bmp_iff)
  then have "cap_copy g g i b rts s = None"
    using G al c by (auto simp: cap_copy_def lock_tables_def table_ops get_slot_def ENOMEM_def kmalloc_ok_def Let_def
      sizeof_slot_def upd_obj_def new_slot_def install_slot_def bind_eq_None_conv split: if_splits)
  ultimately show ?thesis by blast
qed

definition full_group :: cap_group where
  "full_group = \<lparr>slot_tab = \<lparr>slots_size = 256, slots = replicate 256 (Some 5), full_slots_bmp = [0],
     slots_bmp = replicate 4 (- 1), table_guard = 0\<rparr>, threads_lock = lock_init, thread_cnt = 0, badge = 0, notify_recycler = 0\<rparr>"

definition full_state :: cap_state where
  "full_state = no_caps\<lparr>groups := [0 \<mapsto> full_group], mem_ok := (\<lambda>_. False),
     cslots := [5 \<mapsto> \<lparr>slot_id = 0, slot_group = 0, isvalid = True, rights = 0, slot_object = 0, slot_guard = 0\<rparr>]\<rparr>"

theorem cap_copy_exhausted_witness:
  "cap_alloc 0 0 0 full_state = Some (- ENOMEM, full_state\<lparr>mem_cnt := mem_cnt full_state + 1\<rparr>)
     \<and> cap_copy 0 0 3 False 0 full_state = None"
proof (rule cap_copy_exhausted [where G = full_group and a = 5 and
      y = "\<lparr>slot_id = 0, slot_group = 0, isvalid = True, rights = 0, slot_object = 0, slot_guard = 0\<rparr>"])
  show "find_slot (slot_tab full_group) = Some None" by code_simp
qed (simp_all add: full_state_def full_group_def no_caps_def get_slot_def)

end
