(* ===== verification/Sched.thy ===== *)
theory Sched
  imports Linked_List Ticket_Lock
begin

text \<open>
  The schedulers: the common part of \<^verbatim>\<open>kernel/sched/sched.c\<close>, the round-robin policy of
  \<^verbatim>\<open>policy_rr.c\<close>, the priority policy of \<^verbatim>\<open>policy_pbrr.c\<close>, the creation of contexts in
  \<^verbatim>\<open>arch/aarch64/sched/context.c\<close> and the lazy switching of floating-point state in
  \<^verbatim>\<open>arch/aarch64/sched/fpu.c\<close>.  A thread is named by a number; the idle thread of CPU \<open>i\<close> is \<open>i\<close>.
  The ready queues are intrusive lists in one list heap: the head with index \<open>k\<close> has the address
  \<open>2 * k\<close>, the \<^verbatim>\<open>ready_queue_node\<close> of thread \<open>t\<close> the address \<open>2 * t + 1\<close>.  The floating-point and
  the thread-pointer registers of each CPU are part of the state.
\<close>

section \<open>State\<close>

type_synonym tid = nat

datatype thread_state = TS_INIT | TS_READY | TS_INTER | TS_RUNNING | TS_EXIT | TS_WAITING | TS_EXITING

datatype thread_special_state = KS_FREE | KS_LOCKED

datatype thread_type = TYPE_IDLE | TYPE_KERNEL | TYPE_USER | TYPE_SHADOW | TYPE_TESTS

record aarch64_fpu_area =
  fpu :: "8 word list"
  fpcr :: u32
  fpsr :: u32

record thread_ctx =
  budget :: u32
  ttype :: thread_type
  tstate :: thread_state
  prio :: nat
  affinity :: int
  cpuid :: nat
  kernel_stack_state :: thread_special_state
  fpu_state :: aarch64_fpu_area
  tls_base_reg :: u64

datatype prev = NULL_THREAD | THREAD_ITSELF | PREV tid

record sched_state =
  ctx :: "tid \<Rightarrow> thread_ctx option"
  prev_thread :: "tid \<Rightarrow> prev"
  current_threads :: "nat \<Rightarrow> tid option"
  rq :: list_heap
  rq_lock :: "nat \<Rightarrow> lock_impl"
  fpu_owner :: "nat \<Rightarrow> tid option"
  fpu_disable :: "nat \<Rightarrow> bool"
  fpu_hw :: "nat \<Rightarrow> aarch64_fpu_area"
  tpidr_hw :: "nat \<Rightarrow> u64"

definition PLAT_CPU_NUM :: nat where "PLAT_CPU_NUM = 4"
definition DEFAULT_BUDGET :: u32 where "DEFAULT_BUDGET = 1"
definition MAX_PRIO :: nat where "MAX_PRIO = 255"
definition MIN_PRIO :: nat where "MIN_PRIO = 0"
definition PRIO_NUM :: nat where "PRIO_NUM = MAX_PRIO + 1"
definition NO_AFF :: int where "NO_AFF = -1"

definition queue_head :: "nat \<Rightarrow> addr" where "queue_head k = 2 * k"
definition ready_queue_node :: "tid \<Rightarrow> addr" where "ready_queue_node t = 2 * t + 1"
definition thread_of_node :: "addr \<Rightarrow> tid" where "thread_of_node n = (n - 1) div 2"

definition idle_thread :: "nat \<Rightarrow> tid" where "idle_thread cpu = cpu"

text \<open>\<^verbatim>\<open>type > TYPE_KERNEL\<close>.\<close>

fun user_level :: "thread_type \<Rightarrow> bool" where
  "user_level TYPE_IDLE \<longleftrightarrow> False"
| "user_level TYPE_KERNEL \<longleftrightarrow> False"
| "user_level _ \<longleftrightarrow> True"

definition set_ctx :: "tid \<Rightarrow> thread_ctx \<Rightarrow> sched_state \<Rightarrow> sched_state" where
  "set_ctx t c s = s\<lparr>ctx := (ctx s)(t \<mapsto> c)\<rparr>"

definition lock_rq :: "nat \<Rightarrow> sched_state \<Rightarrow> sched_state option" where
  "lock_rq k s = map_option (\<lambda>l. s\<lparr>rq_lock := (rq_lock s)(k := l)\<rparr>) (lock (rq_lock s k))"

definition unlock_rq :: "nat \<Rightarrow> sched_state \<Rightarrow> sched_state" where
  "unlock_rq k s = s\<lparr>rq_lock := (rq_lock s)(k := unlock (rq_lock s k))\<rparr>"

section \<open>Thread contexts, floating point and thread pointer\<close>

definition zero_fpu_area :: aarch64_fpu_area where
  "zero_fpu_area = \<lparr>fpu = replicate (32 * 16) 0, fpcr = 0, fpsr = 0\<rparr>"

text \<open>
  \<^verbatim>\<open>create_thread_ctx\<close> gives cleared memory, \<^verbatim>\<open>init_thread_ctx\<close> fills it in; the entry point and the
  stack are not part of this state.
\<close>

definition init_thread_ctx :: "nat \<Rightarrow> thread_type \<Rightarrow> int \<Rightarrow> thread_ctx" where
  "init_thread_ctx pr ty aff = \<lparr>budget = DEFAULT_BUDGET, ttype = ty, tstate = TS_INIT, prio = pr, affinity = aff,
     cpuid = 0, kernel_stack_state = KS_FREE, fpu_state = zero_fpu_area, tls_base_reg = 0\<rparr>"

definition save_fpu_state :: "nat \<Rightarrow> tid \<Rightarrow> sched_state \<Rightarrow> sched_state option" where
  "save_fpu_state cpu t s = do {
     c \<leftarrow> ctx s t;
     Some (if user_level (ttype c) then set_ctx t (c\<lparr>fpu_state := fpu_hw s cpu\<rparr>) s else s) }"

definition restore_fpu_state :: "nat \<Rightarrow> tid \<Rightarrow> sched_state \<Rightarrow> sched_state option" where
  "restore_fpu_state cpu t s = do {
     c \<leftarrow> ctx s t;
     Some (if user_level (ttype c) then s\<lparr>fpu_hw := (fpu_hw s)(cpu := fpu_state c)\<rparr> else s) }"

definition disable_fpu_usage :: "nat \<Rightarrow> sched_state \<Rightarrow> sched_state" where
  "disable_fpu_usage cpu s = (if fpu_disable s cpu then s else s\<lparr>fpu_disable := (fpu_disable s)(cpu := True)\<rparr>)"

definition enable_fpu_usage :: "nat \<Rightarrow> sched_state \<Rightarrow> sched_state" where
  "enable_fpu_usage cpu s = s\<lparr>fpu_disable := (fpu_disable s)(cpu := False)\<rparr>"

definition change_fpu_owner :: "nat \<Rightarrow> sched_state \<Rightarrow> sched_state option" where
  "change_fpu_owner cpu s = do {
     let s1 = enable_fpu_usage cpu s;
     if fpu_owner s1 cpu = current_threads s1 cpu then Some s1
     else do {
       s2 \<leftarrow> (case fpu_owner s1 cpu of None \<Rightarrow> Some s1 | Some w \<Rightarrow> save_fpu_state cpu w s1);
       let s3 = s2\<lparr>fpu_owner := (fpu_owner s2)(cpu := current_threads s2 cpu)\<rparr>;
       case current_threads s3 cpu of None \<Rightarrow> Some s3 | Some t \<Rightarrow> restore_fpu_state cpu t s3 } }"

definition save_and_release_fpu :: "nat \<Rightarrow> tid \<Rightarrow> sched_state \<Rightarrow> sched_state option" where
  "save_and_release_fpu cpu t s =
     (if fpu_owner s cpu = Some t then do {
        s1 \<leftarrow> save_fpu_state cpu t s;
        Some (s1\<lparr>fpu_owner := (fpu_owner s1)(cpu := None)\<rparr>) }
      else Some s)"

definition switch_tls_info :: "nat \<Rightarrow> tid option \<Rightarrow> tid \<Rightarrow> sched_state \<Rightarrow> sched_state option" where
  "switch_tls_info cpu from to s = do {
     s1 \<leftarrow> (case from of None \<Rightarrow> Some s
       | Some f \<Rightarrow> do {
           c \<leftarrow> ctx s f;
           Some (if user_level (ttype c) then set_ctx f (c\<lparr>tls_base_reg := tpidr_hw s cpu\<rparr>) s else s) });
     c \<leftarrow> ctx s1 to;
     Some (if user_level (ttype c) then s1\<lparr>tpidr_hw := (tpidr_hw s1)(cpu := tls_base_reg c)\<rparr> else s1) }"

section \<open>Common part\<close>

definition switch_to_thread :: "nat \<Rightarrow> tid \<Rightarrow> sched_state \<Rightarrow> sched_state option" where
  "switch_to_thread cpu target s = do {
     c \<leftarrow> ctx s target;
     BUG_ON (tstate c = TS_READY);
     if current_threads s cpu = Some target
     then Some ((set_ctx target (c\<lparr>tstate := TS_RUNNING\<rparr>) s)\<lparr>prev_thread := (prev_thread s)(target := THREAD_ITSELF)\<rparr>)
     else do {
       let s1 = set_ctx target (c\<lparr>cpuid := cpu, tstate := TS_RUNNING\<rparr>) s;
       let s2 = s1\<lparr>prev_thread := (prev_thread s1)(target :=
                  (case current_threads s1 cpu of None \<Rightarrow> NULL_THREAD | Some p \<Rightarrow> PREV p))\<rparr>;
       let s3 = (if user_level (ttype c) then disable_fpu_usage cpu s2 else s2);
       s4 \<leftarrow> switch_tls_info cpu (current_threads s3 cpu) target s3;
       c4 \<leftarrow> ctx s4 target;
       let s5 = set_ctx target (c4\<lparr>kernel_stack_state := KS_LOCKED\<rparr>) s4;
       Some (s5\<lparr>current_threads := (current_threads s5)(cpu \<mapsto> target)\<rparr>) } }"

text \<open>The iteration of \<^verbatim>\<open>find_next_runnable_thread_in_list\<close>, from the node \<open>p\<close> on.\<close>

partial_function (option) find_runnable :: "nat \<Rightarrow> addr \<Rightarrow> addr \<Rightarrow> sched_state \<Rightarrow> tid option option" where
  [code]: "find_runnable cpu head p s =
     (if p = head then Some None
      else do {
        c \<leftarrow> ctx s (thread_of_node p);
        if kernel_stack_state c = KS_FREE \<or> current_threads s cpu = Some (thread_of_node p)
        then Some (Some (thread_of_node p))
        else find_runnable cpu head (lnext (rq s) p) s })"

definition find_next_runnable_thread_in_list :: "nat \<Rightarrow> addr \<Rightarrow> sched_state \<Rightarrow> tid option option" where
  "find_next_runnable_thread_in_list cpu head s = find_runnable cpu head (lnext (rq s) head) s"

text \<open>\<^verbatim>\<open>finish_switch\<close> runs in \<^verbatim>\<open>__eret_to_thread\<close>, on the kernel stack of the new thread.\<close>

definition finish_switch :: "nat \<Rightarrow> sched_state \<Rightarrow> sched_state option" where
  "finish_switch cpu s = do {
     t \<leftarrow> current_threads s cpu;
     case prev_thread s t of
       PREV p \<Rightarrow> do { c \<leftarrow> ctx s p; Some (set_ctx p (c\<lparr>kernel_stack_state := KS_FREE\<rparr>) s) }
     | _ \<Rightarrow> Some s }"

record sched_ops =
  op_sched :: "nat \<Rightarrow> sched_state \<Rightarrow> sched_state option"
  op_sched_enqueue :: "nat \<Rightarrow> tid \<Rightarrow> sched_state \<Rightarrow> (int \<times> sched_state) option"
  op_sched_dequeue :: "tid \<Rightarrow> sched_state \<Rightarrow> (int \<times> sched_state) option"

definition sys_yield :: "sched_ops \<Rightarrow> nat \<Rightarrow> sched_state \<Rightarrow> sched_state option" where
  "sys_yield ops cpu s = do {
     t \<leftarrow> current_threads s cpu;
     c \<leftarrow> ctx s t;
     s1 \<leftarrow> op_sched ops cpu (set_ctx t (c\<lparr>budget := 0\<rparr>) s);
     finish_switch cpu s1 }"

text \<open>Removing a thread from the queue it is on: \<^verbatim>\<open>__rr_sched_dequeue\<close> and \<^verbatim>\<open>__pbrr_sched_dequeue\<close>.\<close>

definition sched_dequeue_nolock :: "tid \<Rightarrow> sched_state \<Rightarrow> (int \<times> sched_state) option" where
  "sched_dequeue_nolock t s = do {
     c \<leftarrow> ctx s t;
     if tstate c \<noteq> TS_READY then Some (- EINVAL, s)
     else Some (0, (set_ctx t (c\<lparr>tstate := TS_INTER\<rparr>) s)\<lparr>rq := list_del (ready_queue_node t) (rq s)\<rparr>) }"

definition sched_refill_budget :: "tid \<Rightarrow> u32 \<Rightarrow> sched_state \<Rightarrow> sched_state option" where
  "sched_refill_budget t b s = do { c \<leftarrow> ctx s t; Some (set_ctx t (c\<lparr>budget := b\<rparr>) s) }"

section \<open>Round robin\<close>

definition rr_enqueue_nolock :: "tid \<Rightarrow> nat \<Rightarrow> sched_state \<Rightarrow> (int \<times> sched_state) option" where
  "rr_enqueue_nolock t cpu s = do {
     c \<leftarrow> ctx s t;
     if tstate c = TS_READY then Some (- EINVAL, s)
     else Some (0, (set_ctx t (c\<lparr>cpuid := cpu, tstate := TS_READY\<rparr>) s)\<lparr>
                     rq := list_append (ready_queue_node t) (queue_head cpu) (rq s)\<rparr>) }"

definition target_cpu :: "nat \<Rightarrow> thread_ctx \<Rightarrow> nat" where
  "target_cpu local_cpuid c = (if affinity c = NO_AFF then local_cpuid else nat (affinity c mod 2 ^ 32))"

definition rr_sched_enqueue :: "nat \<Rightarrow> tid \<Rightarrow> sched_state \<Rightarrow> (int \<times> sched_state) option" where
  "rr_sched_enqueue local_cpuid t s = do {
     c \<leftarrow> ctx s t;
     if ttype c = TYPE_IDLE then Some (0, s)
     else let cpu = target_cpu local_cpuid c in
       if prio c > MAX_PRIO then Some (- EINVAL, s)
       else if cpu \<ge> PLAT_CPU_NUM then Some (- EINVAL, s)
       else do {
         s1 \<leftarrow> (if cpu \<noteq> local_cpuid then save_and_release_fpu local_cpuid t s else Some s);
         s2 \<leftarrow> lock_rq cpu s1;
         (ret, s3) \<leftarrow> rr_enqueue_nolock t cpu s2;
         Some (ret, unlock_rq cpu s3) } }"

definition rr_sched_dequeue :: "tid \<Rightarrow> sched_state \<Rightarrow> (int \<times> sched_state) option" where
  "rr_sched_dequeue t s = do {
     c \<leftarrow> ctx s t;
     BUG_ON (ttype c = TYPE_IDLE);
     s1 \<leftarrow> lock_rq (cpuid c) s;
     (ret, s2) \<leftarrow> sched_dequeue_nolock t s1;
     Some (ret, unlock_rq (cpuid c) s2) }"

text \<open>
  Run alone, the queue is still non-empty when it is tested again under the lock, so
  \<^verbatim>\<open>goto find_again\<close> is not taken.
\<close>

definition rr_sched_choose_thread :: "nat \<Rightarrow> sched_state \<Rightarrow> (tid \<times> sched_state) option" where
  "rr_sched_choose_thread cpu s =
     (if list_empty (queue_head cpu) (rq s) then Some (idle_thread cpu, s)
      else do {
        s1 \<leftarrow> lock_rq cpu s;
        x \<leftarrow> find_next_runnable_thread_in_list cpu (queue_head cpu) s1;
        case x of
          None \<Rightarrow> Some (idle_thread cpu, unlock_rq cpu s1)
        | Some t \<Rightarrow> do {
            (ret, s2) \<leftarrow> sched_dequeue_nolock t s1;
            BUG_ON (ret \<noteq> 0);
            Some (t, unlock_rq cpu s2) } })"

definition rr_sched :: "nat \<Rightarrow> sched_state \<Rightarrow> sched_state option" where
  "rr_sched cpu s = do {
     (go, s1) \<leftarrow> (case current_threads s cpu of
         None \<Rightarrow> Some (True, s)
       | Some old \<Rightarrow> do {
           c \<leftarrow> ctx s old;
           BUG_ON (tstate c \<noteq> TS_RUNNING \<and> tstate c \<noteq> TS_WAITING);
           if tstate c = TS_RUNNING then
             if budget c > 0 then Some (False, s)
             else do {
               s1 \<leftarrow> sched_refill_budget old DEFAULT_BUDGET s;
               c1 \<leftarrow> ctx s1 old;
               (ret, s2) \<leftarrow> rr_sched_enqueue cpu old (set_ctx old (c1\<lparr>tstate := TS_INTER\<rparr>) s1);
               BUG_ON (ret \<noteq> 0);
               Some (True, s2) }
           else Some (True, s) });
     if \<not> go then Some s1
     else do {
       (new, s2) \<leftarrow> rr_sched_choose_thread cpu s1;
       switch_to_thread cpu new s2 } }"

text \<open>\<open>mem i\<close> says whether there is memory for the context of the idle thread of CPU \<open>i\<close>.\<close>

fun rr_init_idle :: "(nat \<Rightarrow> bool) \<Rightarrow> nat list \<Rightarrow> sched_state \<Rightarrow> sched_state option" where
  "rr_init_idle mem [] s = Some s"
| "rr_init_idle mem (i # is) s = do {
     BUG_ON (\<not> mem i);
     rr_init_idle mem is (set_ctx (idle_thread i) (init_thread_ctx MIN_PRIO TYPE_IDLE (int i)) s) }"

definition rr_sched_init :: "(nat \<Rightarrow> bool) \<Rightarrow> sched_state \<Rightarrow> sched_state option" where
  "rr_sched_init mem s = rr_init_idle mem [0..<PLAT_CPU_NUM]
     (s\<lparr>current_threads := (\<lambda>i. if i < PLAT_CPU_NUM then None else current_threads s i),
        rq := fold (\<lambda>i. init_list_head (queue_head i)) [0..<PLAT_CPU_NUM] (rq s),
        rq_lock := (\<lambda>i. if i < PLAT_CPU_NUM then lock_init else rq_lock s i)\<rparr>)"

definition rr :: sched_ops where
  "rr = \<lparr>op_sched = rr_sched, op_sched_enqueue = rr_sched_enqueue, op_sched_dequeue = rr_sched_dequeue\<rparr>"

section \<open>Priority-based round robin\<close>

definition pbrr_queue :: "nat \<Rightarrow> nat \<Rightarrow> nat" where
  "pbrr_queue cpu pr = cpu * PRIO_NUM + pr"

definition pbrr_enqueue_nolock :: "tid \<Rightarrow> nat \<Rightarrow> sched_state \<Rightarrow> (int \<times> sched_state) option" where
  "pbrr_enqueue_nolock t cpu s = do {
     c \<leftarrow> ctx s t;
     if tstate c = TS_READY then Some (- EINVAL, s)
     else Some (0, (set_ctx t (c\<lparr>cpuid := cpu, tstate := TS_READY\<rparr>) s)\<lparr>
                     rq := list_append (ready_queue_node t) (queue_head (pbrr_queue cpu (prio c))) (rq s)\<rparr>) }"

text \<open>The index \<open>cpu\<close> of the queue arrays is not tested; one outside them is undefined.\<close>

definition pbrr_sched_enqueue :: "nat \<Rightarrow> tid \<Rightarrow> sched_state \<Rightarrow> (int \<times> sched_state) option" where
  "pbrr_sched_enqueue local_cpu_id t s = do {
     c \<leftarrow> ctx s t;
     let cpu = target_cpu local_cpu_id c in
       if prio c > MAX_PRIO then Some (- EINVAL, s)
       else do {
         s1 \<leftarrow> (if cpu \<noteq> local_cpu_id then save_and_release_fpu local_cpu_id t s else Some s);
         s2 \<leftarrow> (if cpu < PLAT_CPU_NUM then lock_rq (pbrr_queue cpu (prio c)) s1 else None);
         (ret, s3) \<leftarrow> pbrr_enqueue_nolock t cpu s2;
         Some (ret, unlock_rq (pbrr_queue cpu (prio c)) s3) } }"

definition pbrr_sched_dequeue :: "tid \<Rightarrow> sched_state \<Rightarrow> (int \<times> sched_state) option" where
  "pbrr_sched_dequeue t s = do {
     c \<leftarrow> ctx s t;
     s1 \<leftarrow> lock_rq (pbrr_queue (cpuid c) (prio c)) s;
     (ret, s2) \<leftarrow> sched_dequeue_nolock t s1;
     Some (ret, unlock_rq (pbrr_queue (cpuid c) (prio c)) s2) }"

text \<open>The loop over the priorities, given by the list of those still to be looked at.\<close>

fun pbrr_choose_from :: "nat list \<Rightarrow> nat \<Rightarrow> sched_state \<Rightarrow> (tid \<times> sched_state) option" where
  "pbrr_choose_from [] cpu s = None"
| "pbrr_choose_from (i # is) cpu s =
     (if list_empty (queue_head (pbrr_queue cpu i)) (rq s) then pbrr_choose_from is cpu s
      else do {
        s1 \<leftarrow> lock_rq (pbrr_queue cpu i) s;
        x \<leftarrow> find_next_runnable_thread_in_list cpu (queue_head (pbrr_queue cpu i)) s1;
        case x of
          None \<Rightarrow> pbrr_choose_from is cpu (unlock_rq (pbrr_queue cpu i) s1)
        | Some t \<Rightarrow> do {
            (ret, s2) \<leftarrow> sched_dequeue_nolock t s1;
            BUG_ON (ret \<noteq> 0);
            Some (t, unlock_rq (pbrr_queue cpu i) s2) } })"

definition pbrr_sched_choose_thread :: "nat \<Rightarrow> sched_state \<Rightarrow> (tid \<times> sched_state) option" where
  "pbrr_sched_choose_thread cpu s = pbrr_choose_from (rev [MIN_PRIO..<MAX_PRIO + 1]) cpu s"

definition pbrr_sched :: "nat \<Rightarrow> sched_state \<Rightarrow> sched_state option" where
  "pbrr_sched cpu s = do {
     (go, s1) \<leftarrow> (case current_threads s cpu of
         None \<Rightarrow> Some (True, s)
       | Some old \<Rightarrow> do {
           c \<leftarrow> ctx s old;
           BUG_ON (tstate c \<noteq> TS_RUNNING \<and> tstate c \<noteq> TS_WAITING);
           if tstate c = TS_RUNNING then
             if budget c \<noteq> 0 then Some (False, s)
             else do {
               s1 \<leftarrow> sched_refill_budget old DEFAULT_BUDGET s;
               c1 \<leftarrow> ctx s1 old;
               (ret, s2) \<leftarrow> pbrr_sched_enqueue cpu old (set_ctx old (c1\<lparr>tstate := TS_INTER\<rparr>) s1);
               BUG_ON (ret \<noteq> 0);
               Some (True, s2) }
           else Some (True, s) });
     if \<not> go then Some s1
     else do {
       (new, s2) \<leftarrow> pbrr_sched_choose_thread cpu s1;
       switch_to_thread cpu new s2 } }"

text \<open>\<open>cpu\<close> is the CPU that runs the initialisation; the result of \<^verbatim>\<open>sched_enqueue\<close> is not looked at.\<close>

fun pbrr_init_idle :: "nat \<Rightarrow> (nat \<Rightarrow> bool) \<Rightarrow> nat list \<Rightarrow> sched_state \<Rightarrow> sched_state option" where
  "pbrr_init_idle cpu mem [] s = Some s"
| "pbrr_init_idle cpu mem (i # is) s = do {
     BUG_ON (\<not> mem i);
     (_, s1) \<leftarrow> pbrr_sched_enqueue cpu (idle_thread i)
       (set_ctx (idle_thread i) (init_thread_ctx MIN_PRIO TYPE_IDLE (int i)) s);
     pbrr_init_idle cpu mem is s1 }"

definition pbrr_sched_init :: "nat \<Rightarrow> (nat \<Rightarrow> bool) \<Rightarrow> sched_state \<Rightarrow> sched_state option" where
  "pbrr_sched_init cpu mem s = pbrr_init_idle cpu mem [0..<PLAT_CPU_NUM]
     (s\<lparr>current_threads := (\<lambda>i. if i < PLAT_CPU_NUM then None else current_threads s i),
        rq := fold (\<lambda>i. init_list_head (queue_head i)) [0..<PLAT_CPU_NUM * PRIO_NUM] (rq s),
        rq_lock := (\<lambda>i. if i < PLAT_CPU_NUM * PRIO_NUM then lock_init else rq_lock s i)\<rparr>)"

definition pbrr :: sched_ops where
  "pbrr = \<lparr>op_sched = pbrr_sched, op_sched_enqueue = pbrr_sched_enqueue, op_sched_dequeue = pbrr_sched_dequeue\<rparr>"

end
