(* ===== verification/Sched_Inv.thy ===== *)
theory Sched_Inv
  imports Sched
begin

text \<open>
  The ready queues of both schedulers hold the ready threads, each on the queue of its CPU (and
  priority).  What the operations of the policies do to the queues, the choice of the next
  thread, the progress of round robin, and the floating-point state of the threads under lazy
  switching.
\<close>

section \<open>The ready queues\<close>

text \<open>
  \<open>key\<close> gives the index of the queue a ready thread belongs to, from its CPU and its priority:
  round robin uses the CPU alone.  \<open>Q k\<close> is the content of the queue
  with index \<open>k\<close>.
\<close>

definition queues_ok :: "(nat \<Rightarrow> nat \<Rightarrow> nat) \<Rightarrow> nat \<Rightarrow> sched_state \<Rightarrow> (nat \<Rightarrow> tid list) \<Rightarrow> bool" where
  "queues_ok key N s Q \<longleftrightarrow>
     dl.family queue_head {..<N} (rq s) (\<lambda>k. map ready_queue_node (Q k))
     \<and> (\<forall>k < N. \<forall>t. t \<in> set (Q k) \<longleftrightarrow> (\<exists>c. ctx s t = Some c \<and> tstate c = TS_READY \<and> key (cpuid c) (prio c) = k))
     \<and> (\<forall>t c. ctx s t = Some c \<and> tstate c = TS_READY \<longrightarrow> key (cpuid c) (prio c) < N)
     \<and> (\<forall>k < N. lock_free (rq_lock s k)) \<and> (\<forall>k \<ge> N. Q k = [])"

lemma set_ctx_simps [simp]:
  "ctx (set_ctx t c s) = (ctx s)(t \<mapsto> c)" "prev_thread (set_ctx t c s) = prev_thread s"
  "current_threads (set_ctx t c s) = current_threads s" "rq (set_ctx t c s) = rq s" "rq_lock (set_ctx t c s) = rq_lock s"
  "fpu_owner (set_ctx t c s) = fpu_owner s" "fpu_hw (set_ctx t c s) = fpu_hw s" "tpidr_hw (set_ctx t c s) = tpidr_hw s"
  by (simp_all add: set_ctx_def)

lemma queue_head_eq [simp]: "queue_head j = queue_head k \<longleftrightarrow> j = k"
  by (simp add: queue_head_def)

lemma ready_node_eq [simp]: "ready_queue_node t = ready_queue_node u \<longleftrightarrow> t = u"
  by (simp add: ready_queue_node_def)

lemma head_node [simp]: "queue_head k \<noteq> ready_queue_node t" "ready_queue_node t \<noteq> queue_head k"
  unfolding queue_head_def ready_queue_node_def by presburger+

lemma thread_of_ready_node [simp]: "thread_of_node (ready_queue_node t) = t"
  by (simp add: thread_of_node_def ready_queue_node_def)

lemma queuesD:
  assumes "queues_ok key N s Q"
  shows "dl.family queue_head {..<N} (rq s) (\<lambda>k. map ready_queue_node (Q k))"
    "k < N \<Longrightarrow> t \<in> set (Q k) \<longleftrightarrow> (\<exists>c. ctx s t = Some c \<and> tstate c = TS_READY \<and> key (cpuid c) (prio c) = k)"
    "ctx s t = Some c \<Longrightarrow> tstate c = TS_READY \<Longrightarrow> key (cpuid c) (prio c) < N"
    "k < N \<Longrightarrow> lock_free (rq_lock s k)"
    "k < N \<Longrightarrow> distinct (Q k)" "N \<le> k \<Longrightarrow> Q k = []"
  using assms dl.family_distinct [of queue_head "{..<N}" "rq s" "\<lambda>k. map ready_queue_node (Q k)" k]
  by (auto simp: queues_ok_def distinct_map)

lemma queues_cong:
  "queues_ok key N s Q \<Longrightarrow> ctx s' = ctx s \<Longrightarrow> rq s' = rq s \<Longrightarrow> rq_lock s' = rq_lock s \<Longrightarrow> queues_ok key N s' Q"
  by (auto simp: queues_ok_def)

text \<open>Changing the context of a thread that is on no queue, before and after.\<close>

lemma queues_ctx:
  assumes "queues_ok key N s Q" "\<forall>c0. ctx s t = Some c0 \<longrightarrow> tstate c0 \<noteq> TS_READY" "tstate c \<noteq> TS_READY"
  shows "queues_ok key N (set_ctx t c s) Q"
  using assms by (auto simp: queues_ok_def set_ctx_def)

text \<open>Changing a field of a context that does not matter to the queues.\<close>

lemma queues_ctx_same:
  assumes "queues_ok key N s Q" "ctx s t = Some c0" "tstate c = tstate c0" "key (cpuid c) (prio c) = key (cpuid c0) (prio c0)"
  shows "queues_ok key N (set_ctx t c s) Q"
  using assms by (auto simp: queues_ok_def set_ctx_def)

lemma queues_append:
  assumes q: "queues_ok key N s Q" and t: "\<forall>c0. ctx s t = Some c0 \<longrightarrow> tstate c0 \<noteq> TS_READY"
    and c: "tstate c = TS_READY" "key (cpuid c) (prio c) = k" "k < N"
  shows "queues_ok key N ((set_ctx t c s)\<lparr>rq := list_append (ready_queue_node t) (queue_head k) (rq s)\<rparr>) (Q(k := Q k @ [t]))"
proof -
  note fam = queuesD(1) [OF q]
  have "t \<notin> set (Q j)" if "j < N" for j using queuesD(2) [OF q that, of t] t by auto
  then have "dl.fresh queue_head {..<N} (\<lambda>k. map ready_queue_node (Q k)) (ready_queue_node t)"
    by (auto simp: dl.fresh_def)
  from dl.family_append [OF fam _ this, of k] c(3)
  have "dl.family queue_head {..<N} (list_append (ready_queue_node t) (queue_head k) (rq s))
      ((\<lambda>k. map ready_queue_node (Q k))(k := map ready_queue_node (Q k) @ [ready_queue_node t]))" by simp
  moreover have "(\<lambda>k. map ready_queue_node (Q k))(k := map ready_queue_node (Q k) @ [ready_queue_node t])
      = (\<lambda>j. map ready_queue_node ((Q(k := Q k @ [t])) j))" by auto
  ultimately show ?thesis using q t c by (auto simp: queues_ok_def set_ctx_def)
qed

lemma queues_remove:
  assumes q: "queues_ok key N s Q" and t: "ctx s t = Some c0" "tstate c0 = TS_READY" and c: "tstate c \<noteq> TS_READY"
  shows "queues_ok key N ((set_ctx t c s)\<lparr>rq := list_del (ready_queue_node t) (rq s)\<rparr>)
    (Q(key (cpuid c0) (prio c0) := remove1 t (Q (key (cpuid c0) (prio c0)))))"
proof -
  let ?k = "key (cpuid c0) (prio c0)"
  note fam = queuesD(1) [OF q]
  have k: "?k < N" using queuesD(3) [OF q t] .
  have m: "t \<in> set (Q ?k)" using queuesD(2) [OF q k] t by blast
  have r: "remove1 (ready_queue_node t) (map ready_queue_node xs) = map ready_queue_node (remove1 t xs)" for xs
    by (induction xs) auto
  from dl.family_del [OF fam, of ?k "ready_queue_node t"] k m
  have "dl.family queue_head {..<N} (list_del (ready_queue_node t) (rq s))
      ((\<lambda>k. map ready_queue_node (Q k))(?k := map ready_queue_node (remove1 t (Q ?k))))" by (simp add: r)
  moreover have "(\<lambda>k. map ready_queue_node (Q k))(?k := map ready_queue_node (remove1 t (Q ?k)))
      = (\<lambda>j. map ready_queue_node ((Q(?k := remove1 t (Q ?k))) j))" by auto
  moreover have "distinct (Q ?k)" using queuesD(5) [OF q k] .
  ultimately show ?thesis using q t c by (auto simp: queues_ok_def set_ctx_def)
qed

text \<open>Taking and releasing a queue lock lets both tickets advance.\<close>

definition tick :: "nat \<Rightarrow> sched_state \<Rightarrow> sched_state" where
  "tick k s = s\<lparr>rq_lock := (rq_lock s)(k := (rq_lock s k)\<lparr>nxt := nxt (rq_lock s k) + 1, owner := owner (rq_lock s k) + 1\<rparr>)\<rparr>"

lemma tick_simps [simp]:
  "ctx (tick k s) = ctx s" "rq (tick k s) = rq s" "current_threads (tick k s) = current_threads s"
  "prev_thread (tick k s) = prev_thread s" "fpu_owner (tick k s) = fpu_owner s" "fpu_hw (tick k s) = fpu_hw s"
  "tpidr_hw (tick k s) = tpidr_hw s" "fpu_disable (tick k s) = fpu_disable s"
  by (simp_all add: tick_def)

lemma queues_tick [simp]: "queues_ok key N (tick k s) Q \<longleftrightarrow> queues_ok key N s Q"
proof -
  have "lock_free (rq_lock (tick k s) j) \<longleftrightarrow> lock_free (rq_lock s j)" for j
    by (simp add: tick_def lock_free_def)
  then show ?thesis by (auto simp: queues_ok_def)
qed

section \<open>Choosing a thread\<close>

definition runnable :: "nat \<Rightarrow> sched_state \<Rightarrow> tid \<Rightarrow> bool" where
  "runnable cpu s t \<longleftrightarrow> (\<exists>c. ctx s t = Some c \<and> kernel_stack_state c = KS_FREE) \<or> current_threads s cpu = Some t"

lemma find_runnable_lseg:
  assumes "lseg (rq s) p (map ready_queue_node ts) (queue_head k)" "\<forall>t \<in> set ts. ctx s t \<noteq> None"
  shows "find_runnable cpu (queue_head k) (lnext (rq s) p) s = Some (find (runnable cpu s) ts)"
  using assms
proof (induction ts arbitrary: p)
  case Nil
  then show ?case by (subst find_runnable.simps) simp
next
  case (Cons t ts)
  then obtain c where c: "ctx s t = Some c" "lnext (rq s) p = ready_queue_node t"
    "lseg (rq s) (ready_queue_node t) (map ready_queue_node ts) (queue_head k)" by auto
  have "find_runnable cpu (queue_head k) (lnext (rq s) (ready_queue_node t)) s = Some (find (runnable cpu s) ts)"
    using Cons.IH [OF c(3)] Cons.prems by simp
  then have "find_runnable cpu (queue_head k) (ready_queue_node t) s = Some (find (runnable cpu s) (t # ts))"
    using c(1) by (subst find_runnable.simps) (simp add: runnable_def)
  then show ?case by (simp only: c(2))
qed

lemma find_next_runnable_eq:
  assumes q: "queues_ok key N s Q" and k: "k < N"
  shows "find_next_runnable_thread_in_list cpu (queue_head k) s = Some (find (runnable cpu s) (Q k))"
proof -
  have "is_list (rq s) (queue_head k) (map ready_queue_node (Q k))"
    using dl.family_content [OF queuesD(1) [OF q], of k] k by simp
  moreover have "\<forall>t \<in> set (Q k). ctx s t \<noteq> None" using queuesD(2) [OF q k] by auto
  ultimately show ?thesis
    unfolding find_next_runnable_thread_in_list_def is_list_def by (intro find_runnable_lseg) auto
qed

lemma queue_empty_iff: "queues_ok key N s Q \<Longrightarrow> k < N \<Longrightarrow> list_empty (queue_head k) (rq s) \<longleftrightarrow> Q k = []"
  using dl.family_empty_iff [OF queuesD(1), of key N s Q k] by simp

lemma find_Some_mem: "find P xs = Some x \<Longrightarrow> x \<in> set xs \<and> P x"
  by (metis find_Some_iff nth_mem)

text \<open>
  The common step of both policies: the first runnable thread of a queue leaves it.
\<close>

definition take_thread :: "nat \<Rightarrow> tid \<Rightarrow> thread_ctx \<Rightarrow> sched_state \<Rightarrow> sched_state" where
  "take_thread k t c s = tick k ((set_ctx t (c\<lparr>tstate := TS_INTER\<rparr>) s)\<lparr>rq := list_del (ready_queue_node t) (rq s)\<rparr>)"

lemma lock_find:
  assumes q: "queues_ok key N s Q" and k: "k < N"
  obtains s1 where "lock_rq k s = Some s1" "find_next_runnable_thread_in_list cpu (queue_head k) s1 = Some (find (runnable cpu s) (Q k))"
    "unlock_rq k s1 = tick k s"
    "\<And>t c. ctx s t = Some c \<Longrightarrow> tstate c = TS_READY \<Longrightarrow>
       \<exists>s2. sched_dequeue_nolock t s1 = Some (0, s2) \<and> unlock_rq k s2 = take_thread k t c s"
proof -
  have l: "lock_free (rq_lock s k)" using queuesD(4) [OF q k] .
  let ?s = "s\<lparr>rq_lock := (rq_lock s)(k := (rq_lock s k)\<lparr>nxt := nxt (rq_lock s k) + 1\<rparr>)\<rparr>"
  have 1: "lock_rq k s = Some ?s" using l by (simp add: lock_rq_def lock_simps)
  have r: "runnable cpu ?s = runnable cpu s" by (auto simp: runnable_def fun_eq_iff)
  have i: "is_list (rq s) (queue_head k) (map ready_queue_node (Q k))"
    using dl.family_content [OF queuesD(1) [OF q], of k] k by simp
  moreover have "\<forall>t \<in> set (Q k). ctx ?s t \<noteq> None" using queuesD(2) [OF q k] by auto
  ultimately have 2: "find_next_runnable_thread_in_list cpu (queue_head k) ?s = Some (find (runnable cpu s) (Q k))"
    using find_runnable_lseg [of ?s "queue_head k" "Q k" k cpu]
    unfolding find_next_runnable_thread_in_list_def is_list_def r by simp
  have 3: "unlock_rq k ?s = tick k s" by (simp add: unlock_rq_def tick_def unlock_def)
  have 4: "\<exists>s2. sched_dequeue_nolock t ?s = Some (0, s2) \<and> unlock_rq k s2 = take_thread k t c s"
    if "ctx s t = Some c" "tstate c = TS_READY" for t c
    using that by (simp add: sched_dequeue_nolock_def take_thread_def unlock_rq_def tick_def set_ctx_def unlock_def)
  show ?thesis using that [OF 1 2 3 4] .
qed
lemma queues_take:
  assumes q: "queues_ok key N s Q" and t: "ctx s t = Some c" "tstate c = TS_READY"
  shows "queues_ok key N (take_thread k t c s) (Q(key (cpuid c) (prio c) := remove1 t (Q (key (cpuid c) (prio c)))))"
  using queues_remove [OF q t, of "c\<lparr>tstate := TS_INTER\<rparr>"] by (simp add: take_thread_def)

lemma take_thread_simps [simp]:
  "ctx (take_thread k t c s) = (ctx s)(t \<mapsto> c\<lparr>tstate := TS_INTER\<rparr>)"
  "current_threads (take_thread k t c s) = current_threads s" "prev_thread (take_thread k t c s) = prev_thread s"
  by (simp_all add: take_thread_def set_ctx_def)

section \<open>The two policies\<close>

abbreviation rr_ok :: "sched_state \<Rightarrow> (nat \<Rightarrow> tid list) \<Rightarrow> bool" where
  "rr_ok \<equiv> queues_ok (\<lambda>cpu pr. cpu) PLAT_CPU_NUM"

abbreviation pbrr_ok :: "sched_state \<Rightarrow> (nat \<Rightarrow> tid list) \<Rightarrow> bool" where
  "pbrr_ok \<equiv> queues_ok pbrr_queue (PLAT_CPU_NUM * PRIO_NUM)"

text \<open>\<open>put_thread\<close> is the state after a thread has been put at the end of a queue.\<close>

definition put_thread :: "nat \<Rightarrow> nat \<Rightarrow> tid \<Rightarrow> thread_ctx \<Rightarrow> sched_state \<Rightarrow> sched_state" where
  "put_thread k cpu t c s = tick k ((set_ctx t (c\<lparr>cpuid := cpu, tstate := TS_READY\<rparr>) s)\<lparr>
     rq := list_append (ready_queue_node t) (queue_head k) (rq s)\<rparr>)"

lemma queues_put:
  assumes "queues_ok key N s Q" "ctx s t = Some c0" "tstate c0 \<noteq> TS_READY"
    and "key cpu (prio c) = k" "k < N"
  shows "queues_ok key N (put_thread k cpu t c s) (Q(k := Q k @ [t]))"
  using queues_append [OF assms(1), of t "c\<lparr>cpuid := cpu, tstate := TS_READY\<rparr>" k] assms(2-) by (simp add: put_thread_def)

lemma put_thread_simps [simp]:
  "ctx (put_thread k cpu t c s) = (ctx s)(t \<mapsto> c\<lparr>cpuid := cpu, tstate := TS_READY\<rparr>)"
  "current_threads (put_thread k cpu t c s) = current_threads s" "prev_thread (put_thread k cpu t c s) = prev_thread s"
  by (simp_all add: put_thread_def set_ctx_def)

text \<open>\<open>released\<close> is the state after the floating-point registers have been given up on a migration.\<close>

definition released :: "nat \<Rightarrow> tid \<Rightarrow> thread_ctx \<Rightarrow> nat \<Rightarrow> sched_state \<Rightarrow> thread_ctx \<times> sched_state" where
  "released cpu t c target s =
     (if target \<noteq> cpu \<and> fpu_owner s cpu = Some t
      then (if user_level (ttype c) then c\<lparr>fpu_state := fpu_hw s cpu\<rparr> else c,
            (if user_level (ttype c) then set_ctx t (c\<lparr>fpu_state := fpu_hw s cpu\<rparr>) s else s)\<lparr>
               fpu_owner := (fpu_owner s)(cpu := None)\<rparr>)
      else (c, s))"

lemma release_eq:
  assumes "ctx s t = Some c"
  shows "(if target \<noteq> cpu then save_and_release_fpu cpu t s else Some s) = Some (snd (released cpu t c target s))"
    and "ctx (snd (released cpu t c target s)) t = Some (fst (released cpu t c target s))"
    and "rq_lock (snd (released cpu t c target s)) = rq_lock s" "rq (snd (released cpu t c target s)) = rq s"
    and "current_threads (snd (released cpu t c target s)) = current_threads s"
    and "tstate (fst (released cpu t c target s)) = tstate c" "prio (fst (released cpu t c target s)) = prio c"
    and "cpuid (fst (released cpu t c target s)) = cpuid c"
  using assms by (auto simp: released_def save_and_release_fpu_def save_fpu_state_def set_ctx_def)

lemma queues_released:
  assumes "queues_ok key N s Q" "ctx s t = Some c"
  shows "queues_ok key N (snd (released cpu t c target s)) Q"
  using queues_ctx_same [OF assms(1,2), of "c\<lparr>fpu_state := fpu_hw s cpu\<rparr>"] assms(1)
  by (auto simp: released_def set_ctx_def intro: queues_cong)

lemma pbrr_queue_lt: "cpu < PLAT_CPU_NUM \<Longrightarrow> pr \<le> MAX_PRIO \<Longrightarrow> pbrr_queue cpu pr < PLAT_CPU_NUM * PRIO_NUM"
  by (simp add: pbrr_queue_def PLAT_CPU_NUM_def PRIO_NUM_def MAX_PRIO_def)

lemma pbrr_queue_divmod:
  assumes "pr \<le> MAX_PRIO"
  shows "pbrr_queue cpu pr div PRIO_NUM = cpu" "pbrr_queue cpu pr mod PRIO_NUM = pr"
  using assms by (simp_all add: pbrr_queue_def PRIO_NUM_def MAX_PRIO_def)

lemma pbrr_queue_inj:
  "pr \<le> MAX_PRIO \<Longrightarrow> pr' \<le> MAX_PRIO \<Longrightarrow> pbrr_queue cpu pr = pbrr_queue cpu' pr' \<longleftrightarrow> cpu = cpu' \<and> pr = pr'"
  by (metis pbrr_queue_divmod)

lemma rr_sched_enqueue_eq:
  assumes q: "rr_ok s Q" and c: "ctx s t = Some c" "ttype c \<noteq> TYPE_IDLE" "prio c \<le> MAX_PRIO"
    and cpu: "target_cpu local c < PLAT_CPU_NUM" and st: "tstate c \<noteq> TS_READY"
  shows "rr_sched_enqueue local t s = Some (0, put_thread (target_cpu local c) (target_cpu local c) t
      (fst (released local t c (target_cpu local c) s)) (snd (released local t c (target_cpu local c) s)))"
proof -
  let ?k = "target_cpu local c"
  let ?s = "snd (released local t c ?k s)"
  note r = release_eq [OF c(1), where cpu = local and target = ?k]
  have "lock_free (rq_lock ?s ?k)" using queuesD(4) [OF q cpu] r(3) by simp
  then show ?thesis using c cpu st r
    by (simp add: rr_sched_enqueue_def Let_def lock_rq_def lock_simps rr_enqueue_nolock_def unlock_rq_def put_thread_def
      tick_def set_ctx_def unlock_def)
qed

lemma pbrr_sched_enqueue_eq:
  assumes q: "pbrr_ok s Q" and c: "ctx s t = Some c" "prio c \<le> MAX_PRIO"
    and cpu: "target_cpu local c < PLAT_CPU_NUM" and st: "tstate c \<noteq> TS_READY"
  shows "pbrr_sched_enqueue local t s = Some (0, put_thread (pbrr_queue (target_cpu local c) (prio c)) (target_cpu local c) t
      (fst (released local t c (target_cpu local c) s)) (snd (released local t c (target_cpu local c) s)))"
proof -
  let ?k = "pbrr_queue (target_cpu local c) (prio c)"
  let ?s = "snd (released local t c (target_cpu local c) s)"
  note r = release_eq [OF c(1), where cpu = local and target = "target_cpu local c"]
  have "lock_free (rq_lock ?s ?k)" using queuesD(4) [OF q, of ?k] r(3) pbrr_queue_lt [OF cpu c(2)] by simp
  then show ?thesis using c cpu st r
    by (simp add: pbrr_sched_enqueue_def Let_def lock_rq_def lock_simps pbrr_enqueue_nolock_def unlock_rq_def put_thread_def
      tick_def set_ctx_def unlock_def)
qed
section \<open>Switching\<close>

text \<open>The fields of a context that matter to scheduling.\<close>

definition sview :: "thread_ctx \<Rightarrow> u32 \<times> thread_type \<times> thread_state \<times> nat \<times> int \<times> nat \<times> thread_special_state" where
  "sview c = (budget c, ttype c, tstate c, prio c, affinity c, cpuid c, kernel_stack_state c)"

definition same_view :: "sched_state \<Rightarrow> sched_state \<Rightarrow> tid set \<Rightarrow> bool" where
  "same_view s s' A \<longleftrightarrow> (\<forall>t. t \<notin> A \<longrightarrow> map_option sview (ctx s' t) = map_option sview (ctx s t))"

lemma same_viewD:
  assumes "same_view s s' A" "t \<notin> A" "ctx s t = Some c"
  obtains c' where "ctx s' t = Some c'" "sview c' = sview c"
proof -
  from assms have "map_option sview (ctx s' t) = Some (sview c)" unfolding same_view_def by fastforce
  then show ?thesis using that by auto
qed

lemma same_view_sym: "same_view s s' A \<Longrightarrow> same_view s' s A"
  by (simp add: same_view_def)

lemma sview_fields: "sview c = sview c' \<Longrightarrow> tstate c = tstate c' \<and> cpuid c = cpuid c' \<and> prio c = prio c'
    \<and> kernel_stack_state c = kernel_stack_state c' \<and> budget c = budget c' \<and> ttype c = ttype c' \<and> affinity c = affinity c'"
  by (simp add: sview_def)

definition ready_at :: "(nat \<Rightarrow> nat \<Rightarrow> nat) \<Rightarrow> sched_state \<Rightarrow> tid \<Rightarrow> nat \<Rightarrow> bool" where
  "ready_at key s t k \<longleftrightarrow> (\<exists>c. ctx s t = Some c \<and> tstate c = TS_READY \<and> key (cpuid c) (prio c) = k)"

lemma ready_view_imp:
  assumes "same_view s s' {}" "ready_at key s t k"
  shows "ready_at key s' t k"
proof -
  from assms(2) obtain c where c: "ctx s t = Some c" "tstate c = TS_READY" "key (cpuid c) (prio c) = k"
    by (auto simp: ready_at_def)
  from same_viewD [OF assms(1) _ c(1)] obtain c' where "ctx s' t = Some c'" "sview c' = sview c" by blast
  with c sview_fields [of c' c] show ?thesis by (auto simp: ready_at_def)
qed

lemma queues_ok_ready: "queues_ok key N s Q \<longleftrightarrow>
     dl.family queue_head {..<N} (rq s) (\<lambda>k. map ready_queue_node (Q k))
     \<and> (\<forall>k < N. \<forall>t. t \<in> set (Q k) \<longleftrightarrow> ready_at key s t k) \<and> (\<forall>t k. ready_at key s t k \<longrightarrow> k < N)
     \<and> (\<forall>k < N. lock_free (rq_lock s k)) \<and> (\<forall>k \<ge> N. Q k = [])"
proof -
  have "(\<forall>t k. ready_at key s t k \<longrightarrow> k < N) \<longleftrightarrow>
      (\<forall>t c. ctx s t = Some c \<and> tstate c = TS_READY \<longrightarrow> key (cpuid c) (prio c) < N)"
    unfolding ready_at_def by blast
  then show ?thesis by (simp add: queues_ok_def ready_at_def)
qed

lemma queues_view:
  assumes q: "queues_ok key N s Q" and v: "same_view s s' {}" and r: "rq s' = rq s" "rq_lock s' = rq_lock s"
  shows "queues_ok key N s' Q"
proof -
  have "ready_at key s' t k \<longleftrightarrow> ready_at key s t k" for t k
    using ready_view_imp [OF v] ready_view_imp [OF same_view_sym [OF v]] by blast
  then show ?thesis using q r by (simp add: queues_ok_ready)
qed

lemma switch_tls_ok:
  assumes "\<forall>f. from = Some f \<longrightarrow> ctx s f \<noteq> None" "ctx s to \<noteq> None"
  shows "\<exists>s'. switch_tls_info cpu from to s = Some s' \<and> same_view s s' {} \<and> current_threads s' = current_threads s
    \<and> rq s' = rq s \<and> rq_lock s' = rq_lock s \<and> prev_thread s' = prev_thread s \<and> fpu_hw s' = fpu_hw s \<and> fpu_owner s' = fpu_owner s"
  using assms by (cases "from") (auto simp: switch_tls_info_def set_ctx_def same_view_def sview_def)

lemma switch_to_thread_ok:
  assumes q: "queues_ok key N s Q" and c: "ctx s t = Some c" "tstate c \<noteq> TS_READY"
    and cur: "\<forall>u. current_threads s cpu = Some u \<longrightarrow> ctx s u \<noteq> None"
  shows "\<exists>s' c'. switch_to_thread cpu t s = Some s' \<and> queues_ok key N s' Q \<and> current_threads s' = (current_threads s)(cpu \<mapsto> t)
    \<and> same_view s s' {t} \<and> ctx s' t = Some c'
    \<and> sview c' = (if current_threads s cpu = Some t then sview (c\<lparr>tstate := TS_RUNNING\<rparr>)
        else sview (c\<lparr>cpuid := cpu, tstate := TS_RUNNING, kernel_stack_state := KS_LOCKED\<rparr>))
    \<and> prev_thread s' = (prev_thread s)(t := (case current_threads s cpu of None \<Rightarrow> NULL_THREAD
        | Some p \<Rightarrow> if p = t then THREAD_ITSELF else PREV p))"
proof (cases "current_threads s cpu = Some t")
  case True
  let ?s = "(set_ctx t (c\<lparr>tstate := TS_RUNNING\<rparr>) s)\<lparr>prev_thread := (prev_thread s)(t := THREAD_ITSELF)\<rparr>"
  have "switch_to_thread cpu t s = Some ?s" using True c by (simp add: switch_to_thread_def)
  moreover have "queues_ok key N ?s Q"
    using queues_ctx [OF q, of t "c\<lparr>tstate := TS_RUNNING\<rparr>"] c by (auto intro: queues_cong)
  ultimately show ?thesis using True by (simp add: set_ctx_def same_view_def fun_upd_idem)
next
  case False
  let ?c = "c\<lparr>cpuid := cpu, tstate := TS_RUNNING\<rparr>"
  let ?p = "case current_threads s cpu of None \<Rightarrow> NULL_THREAD | Some p \<Rightarrow> PREV p"
  let ?s2 = "(set_ctx t ?c s)\<lparr>prev_thread := (prev_thread s)(t := ?p)\<rparr>"
  define u where "u = (if user_level (ttype c) then disable_fpu_usage cpu ?s2 else ?s2)"
  have s3: "ctx u = (ctx s)(t \<mapsto> ?c)" "current_threads u = current_threads s" "rq u = rq s" "rq_lock u = rq_lock s"
    "prev_thread u = (prev_thread s)(t := ?p)"
    by (simp_all add: u_def disable_fpu_usage_def set_ctx_def)
  have pre: "\<forall>f. current_threads s cpu = Some f \<longrightarrow> ctx u f \<noteq> None" "ctx u t \<noteq> None" using cur s3(1) by auto
  from switch_tls_ok [OF pre, of cpu] s3(2-5) obtain s4 where
    s4': "switch_tls_info cpu (current_threads s cpu) t u = Some s4" "same_view u s4 {}"
    "current_threads s4 = current_threads s" "rq s4 = rq s" "rq_lock s4 = rq_lock s" "prev_thread s4 = (prev_thread s)(t := ?p)" by auto
  moreover obtain c4 where "ctx s4 t = Some c4" "sview c4 = sview ?c"
    using same_viewD [OF s4'(2), of t ?c] s3(1) by auto
  ultimately have s4: "switch_tls_info cpu (current_threads s cpu) t u = Some s4" "same_view u s4 {}" "ctx s4 t = Some c4" "sview c4 = sview ?c"
    "current_threads s4 = current_threads s" "rq s4 = rq s" "rq_lock s4 = rq_lock s" "prev_thread s4 = (prev_thread s)(t := ?p)" by auto
  let ?s = "(set_ctx t (c4\<lparr>kernel_stack_state := KS_LOCKED\<rparr>) s4)\<lparr>current_threads := (current_threads s4)(cpu \<mapsto> t)\<rparr>"
  have "switch_to_thread cpu t s = do {
      s4 \<leftarrow> switch_tls_info cpu (current_threads u cpu) t u; c4 \<leftarrow> ctx s4 t;
      Some ((set_ctx t (c4\<lparr>kernel_stack_state := KS_LOCKED\<rparr>) s4)\<lparr>current_threads := (current_threads s4)(cpu \<mapsto> t)\<rparr>) }"
    using False c by (simp add: switch_to_thread_def Let_def u_def)
  then have sw: "switch_to_thread cpu t s = Some ?s" using s3(2) s4(1,3) by simp
  have "queues_ok key N u Q"
    using queues_ctx [OF q, of t ?c] c s3 by (auto intro: queues_cong simp: set_ctx_def)
  then have "queues_ok key N s4 Q" using s4 s3 by (intro queues_view [of key N u Q s4]) auto
  then have "queues_ok key N (set_ctx t (c4\<lparr>kernel_stack_state := KS_LOCKED\<rparr>) s4) Q"
    using s4(3,4) by (intro queues_ctx) (auto dest: sview_fields)
  then have "queues_ok key N ?s Q" by (auto intro: queues_cong)
  moreover have "same_view s ?s {t}" using s4(2) s3(1) by (auto simp: same_view_def set_ctx_def)
  moreover have "sview (c4\<lparr>kernel_stack_state := KS_LOCKED\<rparr>) = sview (?c\<lparr>kernel_stack_state := KS_LOCKED\<rparr>)"
    using s4(4) by (simp add: sview_def)
  ultimately show ?thesis using sw False s4(5,8)
    by (intro exI [of _ ?s] exI [of _ "c4\<lparr>kernel_stack_state := KS_LOCKED\<rparr>"]) (auto simp: set_ctx_def split: option.splits)
qed
section \<open>Scheduling\<close>

text \<open>What choosing the thread \<open>t\<close> of queue \<open>k\<close> does.\<close>

definition picked :: "(nat \<Rightarrow> nat \<Rightarrow> nat) \<Rightarrow> nat \<Rightarrow> sched_state \<Rightarrow> (nat \<Rightarrow> tid list) \<Rightarrow> nat \<Rightarrow> tid \<Rightarrow> sched_state \<Rightarrow> bool" where
  "picked key N s Q k t s' \<longleftrightarrow> queues_ok key N s' (Q(k := remove1 t (Q k))) \<and> current_threads s' = current_threads s
     \<and> prev_thread s' = prev_thread s
     \<and> (\<exists>c. ctx s t = Some c \<and> tstate c = TS_READY \<and> ctx s' = (ctx s)(t \<mapsto> c\<lparr>tstate := TS_INTER\<rparr>))"

lemma pick_ok:
  assumes q: "queues_ok key N s Q" and k: "k < N" and f: "find (runnable cpu s) (Q k) = Some t"
  shows "\<exists>s'. do { s1 \<leftarrow> lock_rq k s; x \<leftarrow> find_next_runnable_thread_in_list cpu (queue_head k) s1;
      case x of None \<Rightarrow> g s1 | Some t \<Rightarrow> do { (ret, s2) \<leftarrow> sched_dequeue_nolock t s1; BUG_ON (ret \<noteq> 0); Some (t, unlock_rq k s2) } }
      = Some (t, s') \<and> picked key N s Q k t s'"
proof -
  have "t \<in> set (Q k)" using find_Some_mem [OF f] by blast
  then obtain c where c: "ctx s t = Some c" "tstate c = TS_READY" "key (cpuid c) (prio c) = k"
    using queuesD(2) [OF q k] by blast
  obtain s1 where s1: "lock_rq k s = Some s1" "find_next_runnable_thread_in_list cpu (queue_head k) s1 = Some (Some t)"
    "\<And>t c. ctx s t = Some c \<Longrightarrow> tstate c = TS_READY \<Longrightarrow>
       \<exists>s2. sched_dequeue_nolock t s1 = Some (0, s2) \<and> unlock_rq k s2 = take_thread k t c s"
    using f by (auto intro: lock_find [OF q k, of cpu])
  from s1(3) [OF c(1,2)] obtain s2 where "sched_dequeue_nolock t s1 = Some (0, s2)" "unlock_rq k s2 = take_thread k t c s"
    by blast
  moreover have "picked key N s Q k t (take_thread k t c s)"
    using queues_take [OF q c(1,2), of k] c by (simp add: picked_def)
  ultimately show ?thesis using s1(1,2) by (intro exI [of _ "take_thread k t c s"]) simp
qed

lemma pick_none:
  assumes q: "queues_ok key N s Q" and k: "k < N" and f: "find (runnable cpu s) (Q k) = None"
  shows "\<exists>s1. lock_rq k s = Some s1 \<and> find_next_runnable_thread_in_list cpu (queue_head k) s1 = Some None
    \<and> unlock_rq k s1 = tick k s"
  by (rule lock_find [OF q k, of cpu]) (auto simp: f)

lemma rr_choose_ok:
  assumes q: "rr_ok s Q" and cpu: "cpu < PLAT_CPU_NUM" and f: "find (runnable cpu s) (Q cpu) = Some t"
  shows "\<exists>s'. rr_sched_choose_thread cpu s = Some (t, s') \<and> picked (\<lambda>cpu pr. cpu) PLAT_CPU_NUM s Q cpu t s'"
proof -
  have "Q cpu \<noteq> []" using f by auto
  then show ?thesis using pick_ok [OF q cpu f] queue_empty_iff [OF q cpu] by (simp add: rr_sched_choose_thread_def)
qed

lemma runnable_tick [simp]: "runnable cpu (tick k s) = runnable cpu s"
  by (auto simp: runnable_def fun_eq_iff)

lemma pbrr_choose_from_ok:
  assumes q: "pbrr_ok s Q" and cpu: "cpu < PLAT_CPU_NUM" and "\<forall>i \<in> set (as @ i # bs). i \<le> MAX_PRIO"
    and "\<forall>j \<in> set as. find (runnable cpu s) (Q (pbrr_queue cpu j)) = None"
    and "find (runnable cpu s) (Q (pbrr_queue cpu i)) = Some t"
  shows "\<exists>s'. pbrr_choose_from (as @ i # bs) cpu s = Some (t, s')
    \<and> picked pbrr_queue (PLAT_CPU_NUM * PRIO_NUM) s Q (pbrr_queue cpu i) t s'"
  using assms
proof (induction as arbitrary: s)
  case Nil
  have k: "pbrr_queue cpu i < PLAT_CPU_NUM * PRIO_NUM" using Nil.prems by (intro pbrr_queue_lt) auto
  have "Q (pbrr_queue cpu i) \<noteq> []" using Nil.prems(5) by auto
  then show ?case using pick_ok [OF Nil.prems(1) k Nil.prems(5)] queue_empty_iff [OF Nil.prems(1) k] by simp
next
  case (Cons j as)
  have k: "pbrr_queue cpu j < PLAT_CPU_NUM * PRIO_NUM" using Cons.prems by (intro pbrr_queue_lt) auto
  have f: "find (runnable cpu s) (Q (pbrr_queue cpu j)) = None" using Cons.prems(4) by simp
  show ?case
  proof (cases "Q (pbrr_queue cpu j) = []")
    case True
    then show ?thesis using Cons queue_empty_iff [OF Cons.prems(1) k] by simp
  next
    case False
    let ?t = "tick (pbrr_queue cpu j) s"
    from Cons.IH [of ?t] Cons.prems obtain s' where
      s': "pbrr_choose_from (as @ i # bs) cpu ?t = Some (t, s')"
      "picked pbrr_queue (PLAT_CPU_NUM * PRIO_NUM) ?t Q (pbrr_queue cpu i) t s'" by auto
    then have "picked pbrr_queue (PLAT_CPU_NUM * PRIO_NUM) s Q (pbrr_queue cpu i) t s'" by (simp add: picked_def)
    moreover from pick_none [OF Cons.prems(1) k f] obtain s1 where "lock_rq (pbrr_queue cpu j) s = Some s1"
      "find_next_runnable_thread_in_list cpu (queue_head (pbrr_queue cpu j)) s1 = Some None"
      "unlock_rq (pbrr_queue cpu j) s1 = ?t" by blast
    ultimately show ?thesis using s'(1) False queue_empty_iff [OF Cons.prems(1) k] by simp
  qed
qed

lemma priorities_split:
  assumes "i \<le> MAX_PRIO"
  shows "\<exists>as bs. rev [MIN_PRIO..<MAX_PRIO + 1] = as @ i # bs \<and> (\<forall>j. j \<in> set as \<longleftrightarrow> i < j \<and> j \<le> MAX_PRIO)
    \<and> (\<forall>j \<in> set bs. j \<le> MAX_PRIO)"
proof -
  have "[MIN_PRIO..<MAX_PRIO + 1] = [MIN_PRIO..<i] @ i # [i + 1..<MAX_PRIO + 1]"
    using assms upt_add_eq_append [of MIN_PRIO i "MAX_PRIO + 1 - i"] by (simp add: MIN_PRIO_def upt_conv_Cons)
  then have "rev [MIN_PRIO..<MAX_PRIO + 1] = rev [i + 1..<MAX_PRIO + 1] @ i # rev [MIN_PRIO..<i]" by simp
  then show ?thesis using assms by (intro exI conjI) auto
qed

lemma pbrr_choose_ok:
  assumes q: "pbrr_ok s Q" and cpu: "cpu < PLAT_CPU_NUM" and i: "i \<le> MAX_PRIO"
    and "\<forall>j. i < j \<and> j \<le> MAX_PRIO \<longrightarrow> find (runnable cpu s) (Q (pbrr_queue cpu j)) = None"
    and "find (runnable cpu s) (Q (pbrr_queue cpu i)) = Some t"
  shows "\<exists>s'. pbrr_sched_choose_thread cpu s = Some (t, s')
    \<and> picked pbrr_queue (PLAT_CPU_NUM * PRIO_NUM) s Q (pbrr_queue cpu i) t s'"
proof -
  from priorities_split [OF i] obtain as bs where
    a: "rev [MIN_PRIO..<MAX_PRIO + 1] = as @ i # bs" "\<forall>j. j \<in> set as \<longleftrightarrow> i < j \<and> j \<le> MAX_PRIO" "\<forall>j \<in> set bs. j \<le> MAX_PRIO"
    by blast
  show ?thesis unfolding pbrr_sched_choose_thread_def a(1)
    using a(2,3) i assms(4,5) by (intro pbrr_choose_from_ok [OF q cpu]) auto
qed
text \<open>Choosing and switching; the previous thread may be the one that is chosen.\<close>

lemma switch_picked:
  assumes p: "picked key N s Q k t s1" and cur: "\<forall>u. current_threads s cpu = Some u \<longrightarrow> ctx s u \<noteq> None"
  shows "\<exists>s' c c'. switch_to_thread cpu t s1 = Some s' \<and> queues_ok key N s' (Q(k := remove1 t (Q k)))
    \<and> current_threads s' = (current_threads s)(cpu \<mapsto> t) \<and> same_view s s' {t}
    \<and> ctx s t = Some c \<and> ctx s' t = Some c'
    \<and> sview c' = (if current_threads s cpu = Some t then sview (c\<lparr>tstate := TS_RUNNING\<rparr>)
        else sview (c\<lparr>cpuid := cpu, tstate := TS_RUNNING, kernel_stack_state := KS_LOCKED\<rparr>))
    \<and> prev_thread s' = (prev_thread s)(t := (case current_threads s cpu of None \<Rightarrow> NULL_THREAD
        | Some p \<Rightarrow> if p = t then THREAD_ITSELF else PREV p))"
proof -
  from p obtain c where c: "ctx s t = Some c" "ctx s1 = (ctx s)(t \<mapsto> c\<lparr>tstate := TS_INTER\<rparr>)"
    "queues_ok key N s1 (Q(k := remove1 t (Q k)))" "current_threads s1 = current_threads s" "prev_thread s1 = prev_thread s"
    by (auto simp: picked_def)
  have "\<forall>u. current_threads s1 cpu = Some u \<longrightarrow> ctx s1 u \<noteq> None" using cur c by auto
  from switch_to_thread_ok [OF c(3) _ _ this, of t "c\<lparr>tstate := TS_INTER\<rparr>"] c obtain s' c' where
    s': "switch_to_thread cpu t s1 = Some s'" "queues_ok key N s' (Q(k := remove1 t (Q k)))"
    "current_threads s' = (current_threads s)(cpu \<mapsto> t)" "same_view s1 s' {t}" "ctx s' t = Some c'"
    "sview c' = (if current_threads s cpu = Some t then sview (c\<lparr>tstate := TS_INTER, tstate := TS_RUNNING\<rparr>)
        else sview (c\<lparr>tstate := TS_INTER, cpuid := cpu, tstate := TS_RUNNING, kernel_stack_state := KS_LOCKED\<rparr>))"
    "prev_thread s' = (prev_thread s)(t := (case current_threads s cpu of None \<Rightarrow> NULL_THREAD
        | Some p \<Rightarrow> if p = t then THREAD_ITSELF else PREV p))" by auto
  have "same_view s s' {t}" using s'(4) c(2) by (simp add: same_view_def)
  moreover have "sview c' = (if current_threads s cpu = Some t then sview (c\<lparr>tstate := TS_RUNNING\<rparr>)
        else sview (c\<lparr>cpuid := cpu, tstate := TS_RUNNING, kernel_stack_state := KS_LOCKED\<rparr>))"
    using s'(6) by (simp add: sview_def)
  ultimately show ?thesis using s' c(1) by blast
qed

text \<open>A running thread whose budget is used up, going back to its queue.\<close>

definition back_to :: "nat \<Rightarrow> nat \<Rightarrow> tid \<Rightarrow> thread_ctx \<Rightarrow> sched_state \<Rightarrow> sched_state" where
  "back_to k cpu t c s = put_thread k cpu t (c\<lparr>budget := DEFAULT_BUDGET, tstate := TS_INTER\<rparr>)
     (set_ctx t (c\<lparr>budget := DEFAULT_BUDGET, tstate := TS_INTER\<rparr>) (set_ctx t (c\<lparr>budget := DEFAULT_BUDGET\<rparr>) s))"

lemma back_to_simps [simp]:
  "ctx (back_to k cpu t c s) = (ctx s)(t \<mapsto> c\<lparr>budget := DEFAULT_BUDGET, tstate := TS_INTER, cpuid := cpu, tstate := TS_READY\<rparr>)"
  "current_threads (back_to k cpu t c s) = current_threads s" "prev_thread (back_to k cpu t c s) = prev_thread s"
  by (simp_all add: back_to_def)

lemma queues_back_to:
  assumes q: "queues_ok key N s Q" and c: "ctx s t = Some c" "tstate c = TS_RUNNING" and k: "key cpu (prio c) = k" "k < N"
  shows "queues_ok key N (back_to k cpu t c s) (Q(k := Q k @ [t]))"
proof -
  let ?s = "set_ctx t (c\<lparr>budget := DEFAULT_BUDGET, tstate := TS_INTER\<rparr>) (set_ctx t (c\<lparr>budget := DEFAULT_BUDGET\<rparr>) s)"
  have "queues_ok key N (set_ctx t (c\<lparr>budget := DEFAULT_BUDGET\<rparr>) s) Q" using c by (intro queues_ctx [OF q]) auto
  then have "queues_ok key N ?s Q" by (rule queues_ctx) (use c in auto)
  then show ?thesis unfolding back_to_def
    by (rule queues_put [where c0 = "c\<lparr>budget := DEFAULT_BUDGET, tstate := TS_INTER\<rparr>"]) (use k in auto)
qed

lemma runnable_back_to: "current_threads s cpu = Some t \<Longrightarrow> runnable cpu (back_to k cpu' t c s) = runnable cpu s"
  by (auto simp: runnable_def fun_eq_iff)

definition stays :: "nat \<Rightarrow> thread_ctx \<Rightarrow> bool" where
  "stays cpu c \<longleftrightarrow> prio c \<le> MAX_PRIO \<and> target_cpu cpu c = cpu"

lemma rr_sched_requeue:
  assumes q: "rr_ok s Q" and cpu: "cpu < PLAT_CPU_NUM" and cur: "current_threads s cpu = Some old"
    and c: "ctx s old = Some c" "tstate c = TS_RUNNING" "budget c = 0" "ttype c \<noteq> TYPE_IDLE" "stays cpu c"
  shows "rr_sched cpu s = do { (new, s2) \<leftarrow> rr_sched_choose_thread cpu (back_to cpu cpu old c s); switch_to_thread cpu new s2 }"
proof -
  let ?c = "c\<lparr>budget := DEFAULT_BUDGET, tstate := TS_INTER\<rparr>"
  let ?s = "set_ctx old ?c (set_ctx old (c\<lparr>budget := DEFAULT_BUDGET\<rparr>) s)"
  have "rr_ok (set_ctx old (c\<lparr>budget := DEFAULT_BUDGET\<rparr>) s) Q" using c by (intro queues_ctx [OF q]) auto
  then have q': "rr_ok ?s Q" by (rule queues_ctx) (use c in auto)
  have "target_cpu cpu ?c = cpu" "prio ?c \<le> MAX_PRIO" using c(5) by (auto simp: stays_def target_cpu_def)
  with rr_sched_enqueue_eq [OF q', of old ?c cpu] cpu c(4)
  have "rr_sched_enqueue cpu old ?s = Some (0, back_to cpu cpu old c s)"
    by (simp add: released_def back_to_def)
  then show ?thesis using cur c by (simp add: rr_sched_def sched_refill_budget_def)
qed

lemma pbrr_sched_requeue:
  assumes q: "pbrr_ok s Q" and cpu: "cpu < PLAT_CPU_NUM" and cur: "current_threads s cpu = Some old"
    and c: "ctx s old = Some c" "tstate c = TS_RUNNING" "budget c = 0" "stays cpu c"
  shows "pbrr_sched cpu s = do { (new, s2) \<leftarrow> pbrr_sched_choose_thread cpu (back_to (pbrr_queue cpu (prio c)) cpu old c s);
    switch_to_thread cpu new s2 }"
proof -
  let ?c = "c\<lparr>budget := DEFAULT_BUDGET, tstate := TS_INTER\<rparr>"
  let ?s = "set_ctx old ?c (set_ctx old (c\<lparr>budget := DEFAULT_BUDGET\<rparr>) s)"
  have "pbrr_ok (set_ctx old (c\<lparr>budget := DEFAULT_BUDGET\<rparr>) s) Q" using c by (intro queues_ctx [OF q]) auto
  then have q': "pbrr_ok ?s Q" by (rule queues_ctx) (use c in auto)
  have "target_cpu cpu ?c = cpu" "prio ?c \<le> MAX_PRIO" using c(4) by (auto simp: stays_def target_cpu_def)
  with pbrr_sched_enqueue_eq [OF q', of old ?c cpu] cpu
  have "pbrr_sched_enqueue cpu old ?s = Some (0, back_to (pbrr_queue cpu (prio c)) cpu old c s)"
    by (simp add: released_def back_to_def)
  then show ?thesis using cur c by (simp add: pbrr_sched_def sched_refill_budget_def)
qed
section \<open>Round robin makes progress\<close>

definition fit :: "nat \<Rightarrow> thread_ctx \<Rightarrow> bool" where
  "fit cpu c \<longleftrightarrow> ttype c \<noteq> TYPE_IDLE \<and> stays cpu c"

definition settled :: "nat \<Rightarrow> sched_state \<Rightarrow> (nat \<Rightarrow> tid list) \<Rightarrow> bool" where
  "settled cpu s Q \<longleftrightarrow> rr_ok s Q \<and> cpu < PLAT_CPU_NUM
     \<and> (\<exists>u c. current_threads s cpu = Some u \<and> ctx s u = Some c \<and> tstate c = TS_RUNNING \<and> fit cpu c)
     \<and> (\<forall>t \<in> set (Q cpu). \<exists>c. ctx s t = Some c \<and> kernel_stack_state c = KS_FREE \<and> fit cpu c)"

lemma fit_sview: "sview c = sview c' \<Longrightarrow> fit cpu c = fit cpu c'"
  by (auto simp: sview_def fit_def stays_def target_cpu_def)

lemma fit_upd [simp]:
  "fit cpu (c\<lparr>budget := b\<rparr>) = fit cpu c" "fit cpu (c\<lparr>tstate := x\<rparr>) = fit cpu c"
  "fit cpu (c\<lparr>cpuid := i\<rparr>) = fit cpu c" "fit cpu (c\<lparr>kernel_stack_state := k\<rparr>) = fit cpu c"
  by (auto simp: fit_def stays_def target_cpu_def)

text \<open>\<^verbatim>\<open>rr_sched\<close> with the budget used up: the head of the queue, the old thread behind it, comes next.\<close>

lemma rr_sched_next:
  assumes s: "settled cpu s Q" and cur: "current_threads s cpu = Some u" and c: "ctx s u = Some c" "budget c = 0"
    and t: "Q cpu @ [u] = t # rest"
  shows "\<exists>s' c'. rr_sched cpu s = Some s' \<and> rr_ok s' (Q(cpu := rest)) \<and> current_threads s' cpu = Some t
    \<and> same_view (back_to cpu cpu u c s) s' {t} \<and> ctx s' t = Some c' \<and> tstate c' = TS_RUNNING \<and> fit cpu c'
    \<and> prev_thread s' t = (if t = u then THREAD_ITSELF else PREV u)"
proof -
  have q: "rr_ok s Q" and cpu: "cpu < PLAT_CPU_NUM" and r: "tstate c = TS_RUNNING" "fit cpu c"
    using s cur c(1) by (auto simp: settled_def)
  let ?s = "back_to cpu cpu u c s" and ?Q = "Q(cpu := Q cpu @ [u])"
  have q1: "rr_ok ?s ?Q" using queues_back_to [OF q c(1) r(1), of cpu cpu] cpu by simp
  have tq: "t = u \<or> t \<in> set (Q cpu)" using t by (cases "Q cpu") auto
  have "runnable cpu s t" using tq cur s by (auto simp: runnable_def settled_def)
  then have "runnable cpu ?s t" using runnable_back_to [OF cur] by simp
  then have "find (runnable cpu ?s) (?Q cpu) = Some t" using t by simp
  from rr_choose_ok [OF q1 cpu this] obtain s1 where
    s1: "rr_sched_choose_thread cpu ?s = Some (t, s1)" "picked (\<lambda>cpu pr. cpu) PLAT_CPU_NUM ?s ?Q cpu t s1" by blast
  have "\<forall>v. current_threads ?s cpu = Some v \<longrightarrow> ctx ?s v \<noteq> None" using cur by simp
  from switch_picked [OF s1(2) this] obtain s' ct ct' where
    s': "switch_to_thread cpu t s1 = Some s'" "rr_ok s' (?Q(cpu := remove1 t (?Q cpu)))"
    "current_threads s' = (current_threads s)(cpu \<mapsto> t)" "same_view ?s s' {t}" "ctx ?s t = Some ct" "ctx s' t = Some ct'"
    "sview ct' = (if u = t then sview (ct\<lparr>tstate := TS_RUNNING\<rparr>)
        else sview (ct\<lparr>cpuid := cpu, tstate := TS_RUNNING, kernel_stack_state := KS_LOCKED\<rparr>))"
    "prev_thread s' t = (if u = t then THREAD_ITSELF else PREV u)" using cur by auto
  have "fit cpu ct" using s'(5) tq s r by (auto simp: settled_def split: if_splits)
  then have "fit cpu ct'" "tstate ct' = TS_RUNNING"
    using fit_sview [of ct' "ct\<lparr>tstate := TS_RUNNING\<rparr>"] s'(7)
      fit_sview [of ct' "ct\<lparr>cpuid := cpu, tstate := TS_RUNNING, kernel_stack_state := KS_LOCKED\<rparr>"]
    by (auto dest: sview_fields split: if_splits)
  moreover have "rr_sched cpu s = Some s'"
    using rr_sched_requeue [OF q cpu cur c(1) r(1) c(2)] r(2) s1(1) s'(1) by (simp add: fit_def)
  moreover have "rr_ok s' (Q(cpu := rest))" using s'(2) t by simp
  ultimately show ?thesis using s' by (intro exI [of _ s'] exI [of _ ct']) auto
qed

lemma yield_step:
  assumes s: "settled cpu s Q" and cur: "current_threads s cpu = Some u" and t: "Q cpu @ [u] = t # rest"
  shows "\<exists>s'. sys_yield rr cpu s = Some s' \<and> settled cpu s' (Q(cpu := rest)) \<and> current_threads s' cpu = Some t"
proof -
  from s cur obtain c where c: "ctx s u = Some c" "tstate c = TS_RUNNING" "fit cpu c" by (auto simp: settled_def)
  have cpu: "cpu < PLAT_CPU_NUM" and q: "rr_ok s Q" using s by (simp_all add: settled_def)
  let ?c = "c\<lparr>budget := 0\<rparr>" and ?s = "set_ctx u (c\<lparr>budget := 0\<rparr>) s"
  have "rr_ok ?s Q" using c by (intro queues_ctx [OF q]) auto
  then have s0: "settled cpu ?s Q" using s c cur by (auto simp: settled_def)
  from rr_sched_next [OF s0 _ _ _ t, of ?c] cur obtain s1 c1 where
    s1: "rr_sched cpu ?s = Some s1" "rr_ok s1 (Q(cpu := rest))" "current_threads s1 cpu = Some t"
    "same_view (back_to cpu cpu u ?c ?s) s1 {t}" "ctx s1 t = Some c1" "tstate c1 = TS_RUNNING" "fit cpu c1"
    "prev_thread s1 t = (if t = u then THREAD_ITSELF else PREV u)" by auto
  have rest: "\<exists>cv. ctx s1 v = Some cv \<and> (kernel_stack_state cv = KS_FREE \<or> v = u) \<and> fit cpu cv" if v: "v \<in> set rest" for v
  proof -
    have vt: "v \<noteq> t" "v = u \<or> v \<in> set (Q cpu)"
      using queuesD(2) [OF s1(2) cpu, of v] v s1(5,6) t by (auto, cases "Q cpu", auto)
    obtain cv where cv: "ctx (back_to cpu cpu u ?c ?s) v = Some cv" "kernel_stack_state cv = KS_FREE \<or> v = u" "fit cpu cv"
    proof (cases "v = u")
      case True
      with c(3) show ?thesis using that [of "c\<lparr>budget := DEFAULT_BUDGET, cpuid := cpu, tstate := TS_READY\<rparr>"] by simp
    next
      case False
      with vt(2) s obtain cv where "ctx s v = Some cv" "kernel_stack_state cv = KS_FREE" "fit cpu cv" by (auto simp: settled_def)
      with False show ?thesis by (intro that [of cv]) auto
    qed
    from same_viewD [OF s1(4) _ cv(1)] vt(1) obtain cv' where "ctx s1 v = Some cv'" "sview cv' = sview cv" by auto
    with cv(2,3) fit_sview [of cv' cv cpu] show ?thesis by (auto dest: sview_fields)
  qed
  show ?thesis
  proof (cases "t = u")
    case True
    then have "Q cpu = []" using t queuesD(2) [OF q cpu, of u] c by (cases "Q cpu") auto
    with t have "rest = []" by simp
    then have "settled cpu s1 (Q(cpu := rest))" using s1 cpu by (auto simp: settled_def)
    with True s1 cur c(1) show ?thesis by (simp add: sys_yield_def rr_def finish_switch_def)
  next
    case False
    then have "u \<in> set rest" using t by (cases "Q cpu") auto
    from rest [OF this] obtain cu where cu: "ctx s1 u = Some cu" "fit cpu cu" by blast
    let ?s' = "set_ctx u (cu\<lparr>kernel_stack_state := KS_FREE\<rparr>) s1"
    have "rr_ok ?s' (Q(cpu := rest))" using cu by (intro queues_ctx_same [OF s1(2)]) auto
    then have "settled cpu ?s' (Q(cpu := rest))" using s1 cpu False cu rest by (fastforce simp: settled_def)
    moreover have "sys_yield rr cpu s = Some ?s'" using s1(1,3,8) False cu cur c(1) by (simp add: sys_yield_def rr_def finish_switch_def)
    ultimately show ?thesis using s1(3) by auto
  qed
qed

text \<open>\<open>n\<close> time slices in a row.\<close>

primrec yields :: "nat \<Rightarrow> nat \<Rightarrow> sched_state \<Rightarrow> sched_state option" where
  "yields 0 cpu s = Some s"
| "yields (Suc n) cpu s = do { s1 \<leftarrow> sys_yield rr cpu s; yields n cpu s1 }"

lemma yields_reach:
  assumes "settled cpu s Q" "Q cpu = xs @ t # ys"
  shows "\<exists>s' Q'. yields (Suc (length xs)) cpu s = Some s' \<and> settled cpu s' Q' \<and> current_threads s' cpu = Some t"
  using assms
proof (induction xs arbitrary: s Q ys)
  case Nil
  from Nil.prems(1) obtain u where u: "current_threads s cpu = Some u" by (auto simp: settled_def)
  from yield_step [OF Nil.prems(1) u, of t "ys @ [u]"] Nil.prems(2) show ?case by auto
next
  case (Cons x xs)
  from Cons.prems(1) obtain u where u: "current_threads s cpu = Some u" by (auto simp: settled_def)
  from yield_step [OF Cons.prems(1) u, of x "xs @ t # ys @ [u]"] Cons.prems(2) obtain s1 where
    s1: "sys_yield rr cpu s = Some s1" "settled cpu s1 (Q(cpu := xs @ t # ys @ [u]))" by auto
  with Cons.IH [OF s1(2), of "ys @ [u]"] show ?case by auto
qed
section \<open>Initialisation\<close>

lemma family_init: "dl.family queue_head {..<N} (fold (\<lambda>i. init_list_head (queue_head i)) [0..<N] h) (\<lambda>k. [])"
proof (induction N)
  case 0
  show ?case by (simp add: dl.family_def)
next
  case (Suc N)
  have e: "insert N {..<N} = {..<Suc N}" "(\<lambda>k. [])(N := []) = (\<lambda>k. [])" by auto
  from dl.family_new [OF Suc, of N] show ?case by (simp add: dl.fresh_def e)
qed

definition blank_sched :: sched_state where
  "blank_sched = \<lparr>ctx = Map.empty, prev_thread = (\<lambda>_. NULL_THREAD), current_threads = (\<lambda>_. None),
     rq = \<lparr>lprev = (\<lambda>_. 0), lnext = (\<lambda>_. 0)\<rparr>, rq_lock = (\<lambda>_. lock_init), fpu_owner = (\<lambda>_. None),
     fpu_disable = (\<lambda>_. False), fpu_hw = (\<lambda>_. zero_fpu_area), tpidr_hw = (\<lambda>_. 0)\<rparr>"

lemma rr_init_idle_ok:
  assumes "rr_ok s (\<lambda>_. [])" "\<forall>i \<in> set is. mem i" "\<forall>i \<in> set is. ctx s i = None \<or> (\<exists>c. ctx s i = Some c \<and> tstate c \<noteq> TS_READY)"
  shows "\<exists>s'. rr_init_idle mem is s = Some s' \<and> rr_ok s' (\<lambda>_. []) \<and> rq s' = rq s \<and> current_threads s' = current_threads s
    \<and> (\<forall>t. ctx s' t = (if t \<in> set is then Some (init_thread_ctx MIN_PRIO TYPE_IDLE (int t)) else ctx s t))"
  using assms
proof (induction "is" arbitrary: s)
  case (Cons i "is")
  let ?s = "set_ctx i (init_thread_ctx MIN_PRIO TYPE_IDLE (int i)) s"
  have "rr_ok ?s (\<lambda>_. [])" using Cons.prems(3) by (intro queues_ctx [OF Cons.prems(1)]) (auto simp: init_thread_ctx_def)
  from Cons.IH [OF this] Cons.prems(2,3) show ?case by (fastforce simp: idle_thread_def init_thread_ctx_def)
qed simp

text \<open>From any state without ready threads, as at boot, \<^verbatim>\<open>rr_sched_init\<close> gives empty queues.\<close>

lemma rr_sched_init_ok:
  assumes "\<forall>t c. ctx s t = Some c \<longrightarrow> tstate c \<noteq> TS_READY" "\<forall>i < PLAT_CPU_NUM. mem i"
  shows "\<exists>s'. rr_sched_init mem s = Some s' \<and> rr_ok s' (\<lambda>_. []) \<and> (\<forall>i < PLAT_CPU_NUM. current_threads s' i = None)
    \<and> (\<forall>t. ctx s' t = (if t < PLAT_CPU_NUM then Some (init_thread_ctx MIN_PRIO TYPE_IDLE (int t)) else ctx s t))"
proof -
  let ?s = "s\<lparr>current_threads := (\<lambda>i. if i < PLAT_CPU_NUM then None else current_threads s i),
        rq := fold (\<lambda>i. init_list_head (queue_head i)) [0..<PLAT_CPU_NUM] (rq s),
        rq_lock := (\<lambda>i. if i < PLAT_CPU_NUM then lock_init else rq_lock s i)\<rparr>"
  have "rr_ok ?s (\<lambda>_. [])"
    using assms(1) family_init [of PLAT_CPU_NUM "rq s"] by (auto simp: queues_ok_def lock_simps)
  from rr_init_idle_ok [OF this, of "[0..<PLAT_CPU_NUM]" mem] assms show ?thesis
    by (fastforce simp: rr_sched_init_def)
qed

section \<open>The interface of the ready queues\<close>

text \<open>
  What the users of a scheduling policy rely on, with the queues as lists.  \<open>home\<close> is the queue in
  which the policy puts a thread, if it accepts it.
\<close>

locale ready_queues =
  fixes inv :: "'s \<Rightarrow> (nat \<Rightarrow> tid list) \<Rightarrow> bool"
    and ready :: "'s \<Rightarrow> tid \<Rightarrow> bool"
    and home :: "nat \<Rightarrow> 's \<Rightarrow> tid \<Rightarrow> nat option"
    and enqueue :: "nat \<Rightarrow> tid \<Rightarrow> 's \<Rightarrow> (int \<times> 's) option"
    and dequeue :: "tid \<Rightarrow> 's \<Rightarrow> (int \<times> 's) option"
  assumes enqueue_law: "inv s Q \<Longrightarrow> \<not> ready s t \<Longrightarrow> home cpu s t = Some k \<Longrightarrow>
      \<exists>s'. enqueue cpu t s = Some (0, s') \<and> inv s' (Q(k := Q k @ [t])) \<and> ready s' t
        \<and> (\<forall>u. u \<noteq> t \<longrightarrow> (ready s' u \<longleftrightarrow> ready s u) \<and> (\<forall>cpu. home cpu s' u = home cpu s u))"
    and dequeue_law: "inv s Q \<Longrightarrow> ready s t \<Longrightarrow> home cpu s t \<noteq> None \<Longrightarrow>
      \<exists>k s'. dequeue t s = Some (0, s') \<and> t \<in> set (Q k) \<and> inv s' (Q(k := remove1 t (Q k))) \<and> \<not> ready s' t"
    and home_kept: "inv s Q \<Longrightarrow> \<not> ready s t \<Longrightarrow> home cpu s t = Some k \<Longrightarrow> enqueue cpu t s = Some (r, s') \<Longrightarrow> home cpu s' t \<noteq> None"
    and not_ready: "inv s Q \<Longrightarrow> \<not> ready s t \<Longrightarrow> home cpu s t = Some k \<Longrightarrow> t \<notin> set (Q j)"
begin

text \<open>Putting a thread on its queue and taking it off again leaves the queues as they were.\<close>

lemma enqueue_dequeue:
  assumes "inv s Q" "\<not> ready s t" "home cpu s t = Some k"
  shows "\<exists>s1 s2. enqueue cpu t s = Some (0, s1) \<and> inv s1 (Q(k := Q k @ [t])) \<and> dequeue t s1 = Some (0, s2) \<and> inv s2 Q"
proof -
  from enqueue_law [OF assms] obtain s1 where
    s1: "enqueue cpu t s = Some (0, s1)" "inv s1 (Q(k := Q k @ [t]))" "ready s1 t" by blast
  from dequeue_law [OF s1(2,3) home_kept [OF assms s1(1)]] obtain j s2 where
    s2: "dequeue t s1 = Some (0, s2)" "t \<in> set ((Q(k := Q k @ [t])) j)"
    "inv s2 ((Q(k := Q k @ [t]))(j := remove1 t ((Q(k := Q k @ [t])) j)))" by blast
  have n: "t \<notin> set (Q i)" for i by (rule not_ready [OF assms])
  then have "j = k" using s2(2) by (auto split: if_splits)
  moreover have "remove1 t (Q k @ [t]) = Q k" using n by (simp add: remove1_append)
  ultimately have "(Q(k := Q k @ [t]))(j := remove1 t ((Q(k := Q k @ [t])) j)) = Q" by auto
  with s1 s2 show ?thesis by auto
qed

text \<open>Waking several threads: they line up behind the queue in the order of their wake-up.\<close>

fun enqueue_all :: "nat \<Rightarrow> tid list \<Rightarrow> 's \<Rightarrow> 's option" where
  "enqueue_all cpu [] s = Some s"
| "enqueue_all cpu (t # ts) s = do { (r, s1) \<leftarrow> enqueue cpu t s; enqueue_all cpu ts s1 }"

lemma enqueue_all_in_order:
  "inv s Q \<Longrightarrow> distinct ts \<Longrightarrow> \<forall>t \<in> set ts. \<not> ready s t \<and> home cpu s t = Some k \<Longrightarrow>
   \<exists>s'. enqueue_all cpu ts s = Some s' \<and> inv s' (Q(k := Q k @ ts))"
proof (induction ts arbitrary: s Q)
  case (Cons t ts)
  from enqueue_law [of s Q t cpu k] Cons.prems obtain s1 where
    s1: "enqueue cpu t s = Some (0, s1)" "inv s1 (Q(k := Q k @ [t]))"
    "\<forall>u. u \<noteq> t \<longrightarrow> (ready s1 u \<longleftrightarrow> ready s u) \<and> (\<forall>cpu. home cpu s1 u = home cpu s u)" by auto
  have "\<forall>u \<in> set ts. \<not> ready s1 u \<and> home cpu s1 u = Some k" using s1(3) Cons.prems(2,3) by auto
  from Cons.IH [OF s1(2) _ this] Cons.prems(2) obtain s' where
    "enqueue_all cpu ts s1 = Some s'" "inv s' (Q(k := Q k @ t # ts))" by (auto simp del: fun_upd_apply simp: fun_upd_same)
  with s1(1) show ?case by (simp del: fun_upd_apply)
qed (auto simp: fun_upd_idem)

end

definition ready :: "sched_state \<Rightarrow> tid \<Rightarrow> bool" where
  "ready s t \<longleftrightarrow> (\<exists>c. ctx s t = Some c \<and> tstate c = TS_READY)"

definition rr_home :: "nat \<Rightarrow> sched_state \<Rightarrow> tid \<Rightarrow> nat option" where
  "rr_home cpu s t = (case ctx s t of None \<Rightarrow> None
     | Some c \<Rightarrow> if ttype c \<noteq> TYPE_IDLE \<and> prio c \<le> MAX_PRIO \<and> target_cpu cpu c < PLAT_CPU_NUM
         then Some (target_cpu cpu c) else None)"

definition pbrr_home :: "nat \<Rightarrow> sched_state \<Rightarrow> tid \<Rightarrow> nat option" where
  "pbrr_home cpu s t = (case ctx s t of None \<Rightarrow> None
     | Some c \<Rightarrow> if prio c \<le> MAX_PRIO \<and> target_cpu cpu c < PLAT_CPU_NUM
         then Some (pbrr_queue (target_cpu cpu c) (prio c)) else None)"

lemma released_fields:
  "ttype (fst (released cpu t c k s)) = ttype c" "affinity (fst (released cpu t c k s)) = affinity c"
  "u \<noteq> t \<Longrightarrow> ctx (snd (released cpu t c k s)) u = ctx s u"
  by (auto simp: released_def)

lemma not_ready_not_queued:
  assumes "queues_ok key N s Q" "\<not> ready s t"
  shows "t \<notin> set (Q k)"
  using queuesD(2) [OF assms(1), of k t] queuesD(6) [OF assms(1), of k] assms(2)
  by (cases "k < N") (auto simp: ready_def)

lemma dequeue_ok:
  assumes q: "queues_ok key N s Q" and c: "ctx s t = Some c" "tstate c = TS_READY"
  shows "\<exists>s'. do { s1 \<leftarrow> lock_rq (key (cpuid c) (prio c)) s; (ret, s2) \<leftarrow> sched_dequeue_nolock t s1;
      Some (ret, unlock_rq (key (cpuid c) (prio c)) s2) } = Some (0, s')
    \<and> queues_ok key N s' (Q(key (cpuid c) (prio c) := remove1 t (Q (key (cpuid c) (prio c)))))
    \<and> t \<in> set (Q (key (cpuid c) (prio c))) \<and> \<not> ready s' t"
proof -
  let ?k = "key (cpuid c) (prio c)"
  have k: "?k < N" using queuesD(3) [OF q c] .
  obtain s1 where s1: "lock_rq ?k s = Some s1"
    "\<And>t c. ctx s t = Some c \<Longrightarrow> tstate c = TS_READY \<Longrightarrow>
       \<exists>s2. sched_dequeue_nolock t s1 = Some (0, s2) \<and> unlock_rq ?k s2 = take_thread ?k t c s"
    by (rule lock_find [OF q k, of 0]) blast
  from s1(2) [OF c] obtain s2 where "sched_dequeue_nolock t s1 = Some (0, s2)" "unlock_rq ?k s2 = take_thread ?k t c s" by blast
  moreover have "t \<in> set (Q ?k)" using queuesD(2) [OF q k] c by blast
  moreover have "\<not> ready (take_thread ?k t c s) t" by (simp add: ready_def)
  ultimately show ?thesis using s1(1) queues_take [OF q c, of ?k] by (intro exI [of _ "take_thread ?k t c s"]) simp
qed

lemma put_released_ok:
  assumes q: "queues_ok key N s Q" and c: "ctx s t = Some c" "tstate c \<noteq> TS_READY" and k: "key cpu (prio c) = k" "k < N"
  shows "queues_ok key N (put_thread k cpu t (fst (released local t c cpu s)) (snd (released local t c cpu s))) (Q(k := Q k @ [t]))"
    "u \<noteq> t \<Longrightarrow> ctx (put_thread k cpu t (fst (released local t c cpu s)) (snd (released local t c cpu s))) u = ctx s u"
    "ctx (put_thread k cpu t (fst (released local t c cpu s)) (snd (released local t c cpu s))) t
      = Some ((fst (released local t c cpu s))\<lparr>cpuid := cpu, tstate := TS_READY\<rparr>)"
proof -
  note r = release_eq [OF c(1), where cpu = local and target = cpu]
  show "queues_ok key N (put_thread k cpu t (fst (released local t c cpu s)) (snd (released local t c cpu s))) (Q(k := Q k @ [t]))"
    by (rule queues_put [OF queues_released [OF q c(1)] r(2)]) (use r c k in simp_all)
qed (simp_all add: released_fields)

interpretation rrq: ready_queues rr_ok ready rr_home rr_sched_enqueue rr_sched_dequeue
proof unfold_locales
  fix s Q t cpu k
  assume q: "rr_ok s Q" and nr: "\<not> ready s t" and h: "rr_home cpu s t = Some k"
  then obtain c where c: "ctx s t = Some c" "ttype c \<noteq> TYPE_IDLE" "prio c \<le> MAX_PRIO" "target_cpu cpu c < PLAT_CPU_NUM"
    "k = target_cpu cpu c" "tstate c \<noteq> TS_READY"
    by (auto simp: rr_home_def ready_def split: option.splits if_splits)
  let ?s = "put_thread k k t (fst (released cpu t c k s)) (snd (released cpu t c k s))"
  have e: "rr_sched_enqueue cpu t s = Some (0, ?s)" using rr_sched_enqueue_eq [OF q c(1-4,6)] c(5) by simp
  have k: "k < PLAT_CPU_NUM" using c(4,5) by simp
  note p = put_released_ok [OF q c(1,6) refl k, where local = cpu]
  show "\<exists>s'. rr_sched_enqueue cpu t s = Some (0, s') \<and> rr_ok s' (Q(k := Q k @ [t])) \<and> ready s' t
        \<and> (\<forall>u. u \<noteq> t \<longrightarrow> (ready s' u \<longleftrightarrow> ready s u) \<and> (\<forall>cpu. rr_home cpu s' u = rr_home cpu s u))"
    using e p(1) by (intro exI [of _ ?s]) (auto simp: ready_def rr_home_def p(2,3) simp del: put_thread_simps)
  show "rr_home cpu s' t \<noteq> None" if "rr_sched_enqueue cpu t s = Some (r, s')" for r s'
    using that e p(3) c release_eq(7) [OF c(1)] by (auto simp: rr_home_def target_cpu_def released_fields)
  show "t \<notin> set (Q j)" for j by (rule not_ready_not_queued [OF q nr])
next
  fix s Q t cpu
  assume q: "rr_ok s Q" and r: "ready s t" and h: "rr_home cpu s t \<noteq> None"
  then obtain c where c: "ctx s t = Some c" "tstate c = TS_READY" "ttype c \<noteq> TYPE_IDLE"
    by (auto simp: ready_def rr_home_def split: if_splits)
  from dequeue_ok [OF q c(1,2)] obtain s' where d: "do { s1 \<leftarrow> lock_rq (cpuid c) s; (ret, s2) \<leftarrow> sched_dequeue_nolock t s1;
      Some (ret, unlock_rq (cpuid c) s2) } = Some (0, s')" "rr_ok s' (Q(cpuid c := remove1 t (Q (cpuid c))))"
    "t \<in> set (Q (cpuid c))" "\<not> ready s' t" by blast
  have "rr_sched_dequeue t s = Some (0, s')" using c d(1) by (simp add: rr_sched_dequeue_def)
  with d(2-4) show "\<exists>k s'. rr_sched_dequeue t s = Some (0, s') \<and> t \<in> set (Q k) \<and> rr_ok s' (Q(k := remove1 t (Q k))) \<and> \<not> ready s' t" by blast
qed

interpretation pbq: ready_queues pbrr_ok ready pbrr_home pbrr_sched_enqueue pbrr_sched_dequeue
proof unfold_locales
  fix s Q t cpu k
  assume q: "pbrr_ok s Q" and nr: "\<not> ready s t" and h: "pbrr_home cpu s t = Some k"
  then obtain c where c: "ctx s t = Some c" "prio c \<le> MAX_PRIO" "target_cpu cpu c < PLAT_CPU_NUM"
    "k = pbrr_queue (target_cpu cpu c) (prio c)" "tstate c \<noteq> TS_READY"
    by (auto simp: pbrr_home_def ready_def split: option.splits if_splits)
  let ?s = "put_thread k (target_cpu cpu c) t (fst (released cpu t c (target_cpu cpu c) s)) (snd (released cpu t c (target_cpu cpu c) s))"
  have e: "pbrr_sched_enqueue cpu t s = Some (0, ?s)" using pbrr_sched_enqueue_eq [OF q c(1-3,5)] c(4) by simp
  have k: "k < PLAT_CPU_NUM * PRIO_NUM" using pbrr_queue_lt [OF c(3,2)] c(4) by simp
  note p = put_released_ok [OF q c(1,5) c(4) [symmetric] k, where local = cpu]
  show "\<exists>s'. pbrr_sched_enqueue cpu t s = Some (0, s') \<and> pbrr_ok s' (Q(k := Q k @ [t])) \<and> ready s' t
        \<and> (\<forall>u. u \<noteq> t \<longrightarrow> (ready s' u \<longleftrightarrow> ready s u) \<and> (\<forall>cpu. pbrr_home cpu s' u = pbrr_home cpu s u))"
    using e p(1) by (intro exI [of _ ?s]) (auto simp: ready_def pbrr_home_def p(2,3) simp del: put_thread_simps)
  show "pbrr_home cpu s' t \<noteq> None" if "pbrr_sched_enqueue cpu t s = Some (r, s')" for r s'
    using that e p(3) c k release_eq(7) [OF c(1)] by (auto simp: pbrr_home_def target_cpu_def released_fields)
  show "t \<notin> set (Q j)" for j by (rule not_ready_not_queued [OF q nr])
next
  fix s Q t cpu
  assume q: "pbrr_ok s Q" and r: "ready s t" and h: "pbrr_home cpu s t \<noteq> None"
  then obtain c where c: "ctx s t = Some c" "tstate c = TS_READY" by (auto simp: ready_def)
  let ?k = "pbrr_queue (cpuid c) (prio c)"
  from dequeue_ok [OF q c] obtain s' where d: "do { s1 \<leftarrow> lock_rq ?k s; (ret, s2) \<leftarrow> sched_dequeue_nolock t s1;
      Some (ret, unlock_rq ?k s2) } = Some (0, s')" "pbrr_ok s' (Q(?k := remove1 t (Q ?k)))"
    "t \<in> set (Q ?k)" "\<not> ready s' t" by blast
  have "pbrr_sched_dequeue t s = Some (0, s')" using c d(1) by (simp add: pbrr_sched_dequeue_def)
  with d(2-4) show "\<exists>k s'. pbrr_sched_dequeue t s = Some (0, s') \<and> t \<in> set (Q k) \<and> pbrr_ok s' (Q(k := remove1 t (Q k))) \<and> \<not> ready s' t" by blast
qed

section \<open>Floating-point state\<close>

text \<open>
  The value of the floating-point registers that belongs to a thread: in the registers of the
  CPU it owns, else in its context.
\<close>

definition fpu_of :: "sched_state \<Rightarrow> tid \<Rightarrow> aarch64_fpu_area \<Rightarrow> bool" where
  "fpu_of s t v \<longleftrightarrow> (\<exists>i. fpu_owner s i = Some t \<and> fpu_hw s i = v)
     \<or> ((\<forall>i. fpu_owner s i \<noteq> Some t) \<and> (\<exists>c. ctx s t = Some c \<and> fpu_state c = v))"

definition owners_ok :: "sched_state \<Rightarrow> bool" where
  "owners_ok s \<longleftrightarrow> (\<forall>i j t. fpu_owner s i = Some t \<and> fpu_owner s j = Some t \<longrightarrow> i = j)
     \<and> (\<forall>i t. fpu_owner s i = Some t \<longrightarrow> (\<exists>c. ctx s t = Some c \<and> user_level (ttype c)))"

lemma owners_okI:
  assumes "\<And>i j t. fpu_owner s i = Some t \<Longrightarrow> fpu_owner s j = Some t \<Longrightarrow> i = j"
    and "\<And>i t. fpu_owner s i = Some t \<Longrightarrow> \<exists>c. ctx s t = Some c \<and> user_level (ttype c)"
  shows "owners_ok s"
  using assms unfolding owners_ok_def by blast

lemma owners_okD:
  assumes "owners_ok s" "fpu_owner s i = Some t"
  shows "\<exists>c. ctx s t = Some c \<and> user_level (ttype c)" "fpu_owner s j = Some t \<Longrightarrow> j = i"
  using assms unfolding owners_ok_def by blast+

lemma save_owner:
  assumes ok: "owners_ok s" and w: "fpu_owner s cpu = Some w"
  shows "\<exists>s'. save_fpu_state cpu w s = Some s' \<and> fpu_owner s' = fpu_owner s \<and> fpu_hw s' = fpu_hw s
    \<and> current_threads s' = current_threads s \<and> fpu_disable s' = fpu_disable s
    \<and> (\<exists>c. ctx s w = Some c \<and> ctx s' = (ctx s)(w \<mapsto> c\<lparr>fpu_state := fpu_hw s cpu\<rparr>))"
proof -
  from assms obtain c where "ctx s w = Some c" "user_level (ttype c)" using owners_okD by blast
  then show ?thesis by (auto simp: save_fpu_state_def set_ctx_def)
qed

text \<open>Giving up the registers, with their value saved, changes no thread's value.\<close>

lemma release_fpu_of:
  assumes ok: "owners_ok s" and w: "fpu_owner s cpu = Some w" and c: "ctx s w = Some c"
    and s': "fpu_owner s' = (fpu_owner s)(cpu := None)" "fpu_hw s' = fpu_hw s"
      "ctx s' = (ctx s)(w \<mapsto> c\<lparr>fpu_state := fpu_hw s cpu\<rparr>)"
  shows "owners_ok s'" "fpu_of s' t v \<longleftrightarrow> fpu_of s t v"
proof -
  have only: "fpu_owner s i = Some w \<longleftrightarrow> i = cpu" for i using owners_okD(2) [OF ok w] w by blast
  have o: "fpu_owner s i = Some u" if "fpu_owner s' i = Some u" for i u
    using that s'(1) by (cases "i = cpu") auto
  show "owners_ok s'"
  proof (rule owners_okI)
    show "i = j" if "fpu_owner s' i = Some t" "fpu_owner s' j = Some t" for i j t
      by (rule owners_okD(2) [OF ok o o, OF that(2,1)])
    show "\<exists>c. ctx s' t = Some c \<and> user_level (ttype c)" if t: "fpu_owner s' i = Some t" for i t
    proof -
      obtain d where "ctx s t = Some d" "user_level (ttype d)" using owners_okD(1) [OF ok o [OF t]] by blast
      then show ?thesis using c s'(3) by auto
    qed
  qed
  show "fpu_of s' t v \<longleftrightarrow> fpu_of s t v"
  proof (cases "t = w")
    case True
    then show ?thesis by (auto simp: fpu_of_def s' only)
  next
    case False
    then have "fpu_owner s' i = Some t \<longleftrightarrow> fpu_owner s i = Some t" for i using w s'(1) by (cases "i = cpu") auto
    then show ?thesis using False by (simp add: fpu_of_def s'(2,3))
  qed
qed

lemma acquire_fpu_of:
  assumes ok: "owners_ok s" and n: "\<forall>i. fpu_owner s i \<noteq> Some u" "fpu_owner s cpu = None"
    and c: "ctx s u = Some c" "user_level (ttype c)"
    and s': "fpu_owner s' = (fpu_owner s)(cpu \<mapsto> u)" "fpu_hw s' = (fpu_hw s)(cpu := fpu_state c)" "ctx s' = ctx s"
  shows "owners_ok s'" "fpu_of s' t v \<longleftrightarrow> fpu_of s t v"
proof -
  show "owners_ok s'"
  proof (rule owners_okI)
    fix i j t assume o: "fpu_owner s' i = Some t" "fpu_owner s' j = Some t"
    consider "i = cpu" "j = cpu" | "i \<noteq> cpu" "j \<noteq> cpu" using o n(1) s'(1) by (cases "i = cpu"; cases "j = cpu") auto
    then show "i = j" using o s'(1) owners_okD(2) [OF ok] by cases auto
  next
    fix i t assume "fpu_owner s' i = Some t"
    then show "\<exists>c. ctx s' t = Some c \<and> user_level (ttype c)"
      using c s'(1,3) owners_okD(1) [OF ok] by (cases "i = cpu") auto
  qed
  show "fpu_of s' t v \<longleftrightarrow> fpu_of s t v"
  proof (cases "t = u")
    case True
    have "fpu_owner s' i = Some u \<longleftrightarrow> i = cpu" for i using n(1) s'(1) by (cases "i = cpu") auto
    then show ?thesis using n(1) True c by (auto simp: fpu_of_def s'(2,3))
  next
    case False
    then have o: "fpu_owner s' i = Some t \<longleftrightarrow> fpu_owner s i = Some t" for i using n(2) s'(1) by (cases "i = cpu") auto
    have "fpu_hw s' i = fpu_hw s i" if "fpu_owner s i = Some t" for i using that n(2) s'(2) by (cases "i = cpu") auto
    then show ?thesis using o by (auto simp: fpu_of_def s'(3))
  qed
qed

lemma change_fpu_owner_ok:
  assumes ok: "owners_ok s" and cur: "current_threads s cpu = Some t" and c: "ctx s t = Some c" "user_level (ttype c)"
    and el: "\<forall>i. i \<noteq> cpu \<longrightarrow> fpu_owner s i \<noteq> Some t"
  shows "\<exists>s'. change_fpu_owner cpu s = Some s' \<and> owners_ok s' \<and> fpu_owner s' cpu = Some t \<and> \<not> fpu_disable s' cpu
    \<and> (\<forall>u v. fpu_of s' u v \<longleftrightarrow> fpu_of s u v)"
proof -
  let ?e = "enable_fpu_usage cpu s"
  have e: "owners_ok ?e" "fpu_of ?e = fpu_of s" "fpu_owner ?e = fpu_owner s" "current_threads ?e = current_threads s"
    "ctx ?e = ctx s" "\<not> fpu_disable ?e cpu" "fpu_hw ?e = fpu_hw s"
    using ok by (auto simp: enable_fpu_usage_def owners_ok_def fpu_of_def fun_eq_iff)
  consider (same) "fpu_owner s cpu = Some t" | (none) "fpu_owner s cpu = None" | (other) w where "fpu_owner s cpu = Some w" "w \<noteq> t"
    by (cases "fpu_owner s cpu") auto
  then show ?thesis
  proof cases
    case same
    then show ?thesis using e cur by (simp add: change_fpu_owner_def Let_def)
  next
    case none
    let ?s = "?e\<lparr>fpu_owner := (fpu_owner s)(cpu \<mapsto> t), fpu_hw := (fpu_hw s)(cpu := fpu_state c)\<rparr>"
    have "change_fpu_owner cpu s = Some ?s" using none e cur c by (simp add: change_fpu_owner_def Let_def restore_fpu_state_def)
    moreover have "\<forall>i. fpu_owner ?e i \<noteq> Some t" using el none e(3) by (metis option.distinct(1))
    ultimately show ?thesis using acquire_fpu_of [OF e(1), of t cpu c ?s] none e c by auto
  next
    case other
    from save_owner [OF e(1), of cpu w] other e obtain s1 cw where
      s1: "save_fpu_state cpu w ?e = Some s1" "fpu_owner s1 = fpu_owner s" "fpu_hw s1 = fpu_hw s" "current_threads s1 = current_threads s"
      "fpu_disable s1 = fpu_disable ?e" "ctx s w = Some cw" "ctx s1 = (ctx s)(w \<mapsto> cw\<lparr>fpu_state := fpu_hw s cpu\<rparr>)" by auto
    let ?r = "s1\<lparr>fpu_owner := (fpu_owner s)(cpu := None)\<rparr>"
    have r: "owners_ok ?r" "\<And>u v. fpu_of ?r u v \<longleftrightarrow> fpu_of s u v"
      using release_fpu_of [OF ok other(1) s1(6), of ?r] s1(3,7) by auto
    let ?s = "s1\<lparr>fpu_owner := (fpu_owner s)(cpu \<mapsto> t), fpu_hw := (fpu_hw s)(cpu := fpu_state c)\<rparr>"
    have "change_fpu_owner cpu s = Some ?s"
      using other e cur c s1 by (simp add: change_fpu_owner_def Let_def restore_fpu_state_def)
    moreover have "\<forall>i. fpu_owner ?r i \<noteq> Some t" using el by auto
    ultimately show ?thesis using acquire_fpu_of [OF r(1), of t cpu c ?s] r(2) other s1 e(6) c by auto
  qed
qed

lemma save_and_release_ok:
  assumes ok: "owners_ok s"
  shows "\<exists>s'. save_and_release_fpu cpu t s = Some s' \<and> owners_ok s' \<and> fpu_owner s' cpu \<noteq> Some t
    \<and> (\<forall>u v. fpu_of s' u v \<longleftrightarrow> fpu_of s u v)"
proof (cases "fpu_owner s cpu = Some t")
  case True
  from save_owner [OF ok True] obtain s1 c where
    s1: "save_fpu_state cpu t s = Some s1" "fpu_owner s1 = fpu_owner s" "fpu_hw s1 = fpu_hw s" "ctx s t = Some c"
    "ctx s1 = (ctx s)(t \<mapsto> c\<lparr>fpu_state := fpu_hw s cpu\<rparr>)" by auto
  let ?s = "s1\<lparr>fpu_owner := (fpu_owner s)(cpu := None)\<rparr>"
  have "save_and_release_fpu cpu t s = Some ?s" using True s1(1,2) by (simp add: save_and_release_fpu_def)
  moreover have "owners_ok ?s" "\<forall>u v. fpu_of ?s u v \<longleftrightarrow> fpu_of s u v" "fpu_owner ?s cpu \<noteq> Some t"
    using release_fpu_of [OF ok True s1(4), of ?s] s1(3,5) by auto
  ultimately show ?thesis by blast
next
  case False
  then show ?thesis using ok by (simp add: save_and_release_fpu_def)
qed

section \<open>Properties\<close>

text \<open>A start: thread 10 runs on CPU 0, the threads 11 and 12 are ready there.\<close>

definition with_running :: "sched_state \<Rightarrow> sched_state" where
  "with_running s = (set_ctx 10 ((init_thread_ctx 10 TYPE_USER NO_AFF)\<lparr>tstate := TS_RUNNING\<rparr>)
     (set_ctx 11 (init_thread_ctx 10 TYPE_USER NO_AFF) (set_ctx 12 (init_thread_ctx 20 TYPE_USER NO_AFF) s)))
     \<lparr>current_threads := (\<lambda>_. None)(0 \<mapsto> 10)\<rparr>"

lemma with_running_queues: "queues_ok key N s (\<lambda>_. []) \<Longrightarrow> ctx s = Map.empty \<Longrightarrow> queues_ok key N (with_running s) (\<lambda>_. [])"
  unfolding with_running_def
  by (rule queues_cong [OF queues_ctx [OF queues_ctx [OF queues_ctx]]]) (auto simp: init_thread_ctx_def)

lemma with_running_ctx:
  "ctx (with_running s) = (ctx s)(12 \<mapsto> init_thread_ctx 20 TYPE_USER NO_AFF, 11 \<mapsto> init_thread_ctx 10 TYPE_USER NO_AFF,
     10 \<mapsto> (init_thread_ctx 10 TYPE_USER NO_AFF)\<lparr>tstate := TS_RUNNING\<rparr>)"
  "current_threads (with_running s) = (\<lambda>_. None)(0 \<mapsto> 10)"
  by (simp_all add: with_running_def)

definition no_queues :: "nat \<Rightarrow> sched_state" where
  "no_queues N = blank_sched\<lparr>rq := fold (\<lambda>i. init_list_head (queue_head i)) [0..<N] (rq blank_sched)\<rparr>"

lemma no_queues_ok: "queues_ok key N (no_queues N) (\<lambda>_. [])"
  using family_init [of N "rq blank_sched"] by (simp add: queues_ok_def no_queues_def blank_sched_def lock_simps)

lemma no_queues_ctx [simp]: "ctx (no_queues N) = Map.empty"
  by (simp add: no_queues_def blank_sched_def)

definition two_ready :: "(nat \<Rightarrow> nat \<Rightarrow> nat) \<Rightarrow> nat \<Rightarrow> sched_state" where
  "two_ready key N = put_thread (key 0 20) 0 12 (init_thread_ctx 20 TYPE_USER NO_AFF)
     (put_thread (key 0 10) 0 11 (init_thread_ctx 10 TYPE_USER NO_AFF) (with_running (no_queues N)))"

lemma two_ready_ok:
  assumes "key 0 10 < N" "key 0 20 < N"
  shows "queues_ok key N (two_ready key N) (((\<lambda>_. [])(key 0 10 := [11]))(key 0 20 := ((\<lambda>_. [])(key 0 10 := [11])) (key 0 20) @ [12]))"
proof -
  have 1: "queues_ok key N (with_running (no_queues N)) (\<lambda>_. [])" by (rule with_running_queues [OF no_queues_ok no_queues_ctx])
  have 2: "queues_ok key N (put_thread (key 0 10) 0 11 (init_thread_ctx 10 TYPE_USER NO_AFF) (with_running (no_queues N)))
      ((\<lambda>_. [])(key 0 10 := [11]))"
    using queues_put [OF 1, of 11 "init_thread_ctx 10 TYPE_USER NO_AFF" 0 "init_thread_ctx 10 TYPE_USER NO_AFF" "key 0 10"] assms
    by (simp add: with_running_ctx init_thread_ctx_def)
  show ?thesis
    unfolding two_ready_def
    by (rule queues_put [OF 2, of 12 "init_thread_ctx 20 TYPE_USER NO_AFF"]) (use assms in \<open>simp_all add: with_running_ctx init_thread_ctx_def\<close>)
qed

lemma two_ready_ctx:
  "ctx (two_ready key N) 10 = Some ((init_thread_ctx 10 TYPE_USER NO_AFF)\<lparr>tstate := TS_RUNNING\<rparr>)"
  "ctx (two_ready key N) 11 = Some ((init_thread_ctx 10 TYPE_USER NO_AFF)\<lparr>cpuid := 0, tstate := TS_READY\<rparr>)"
  "ctx (two_ready key N) 12 = Some ((init_thread_ctx 20 TYPE_USER NO_AFF)\<lparr>cpuid := 0, tstate := TS_READY\<rparr>)"
  "current_threads (two_ready key N) = (\<lambda>_. None)(0 \<mapsto> 10)"
  by (simp_all add: two_ready_def with_running_ctx)

lemma two_ready_settled: "settled 0 (two_ready (\<lambda>cpu pr. cpu) PLAT_CPU_NUM) ((\<lambda>_. [])(0 := [11, 12]))"
  using two_ready_ok [of "\<lambda>cpu pr. cpu" PLAT_CPU_NUM]
  by (simp add: settled_def two_ready_ctx init_thread_ctx_def fit_def stays_def target_cpu_def MAX_PRIO_def PLAT_CPU_NUM_def)

text \<open>
  C21: no thread starves under round robin.  When the running thread of a CPU and the threads on
  its ready queue are threads that may run there, the thread at position \<open>n\<close> of the queue runs
  after \<open>n + 1\<close> yields on that CPU: none of the yields fails, and the one in question makes it the
  current thread.
\<close>

theorem rr_yield_liveness:
  assumes "settled cpu s Q" "Q cpu = xs @ t # ys"
  shows "\<exists>s'. yields (Suc (length xs)) cpu s = Some s' \<and> current_threads s' cpu = Some t"
  using yields_reach [OF assms] by blast

theorem rr_yield_liveness_witness:
  "\<exists>s'. yields 2 0 (two_ready (\<lambda>cpu pr. cpu) PLAT_CPU_NUM) = Some s' \<and> current_threads s' 0 = Some 12"
  using rr_yield_liveness [OF two_ready_settled, of "[11]" 12 "[]"] by (simp add: numeral_2_eq_2)

text \<open>
  C22: the priority scheduler, entered with a running thread whose budget is used up.  The old
  thread goes to the end of the queue of its priority with a new budget; among all queues of the
  CPU after that, the first thread that can run, of the highest priority \<open>i\<close> that has one,
  becomes the current thread and leaves its queue, its kernel stack taken; every other thread
  keeps what the queues depend on, and the queues still hold exactly the ready threads.
\<close>

theorem pbrr_sched_correct:
  assumes q: "pbrr_ok s Q" and cpu: "cpu < PLAT_CPU_NUM" and cur: "current_threads s cpu = Some old"
    and c: "ctx s old = Some c" "tstate c = TS_RUNNING" "budget c = 0" "stays cpu c"
    and Q': "Q' = Q(pbrr_queue cpu (prio c) := Q (pbrr_queue cpu (prio c)) @ [old])"
    and hi: "i \<le> MAX_PRIO" "\<forall>j. i < j \<and> j \<le> MAX_PRIO \<longrightarrow> find (runnable cpu s) (Q' (pbrr_queue cpu j)) = None"
    and t: "find (runnable cpu s) (Q' (pbrr_queue cpu i)) = Some t"
  shows "\<exists>s' d. pbrr_sched cpu s = Some s' \<and> pbrr_ok s' (Q'(pbrr_queue cpu i := remove1 t (Q' (pbrr_queue cpu i))))
    \<and> current_threads s' = (current_threads s)(cpu \<mapsto> t) \<and> ctx s' t = Some d \<and> tstate d = TS_RUNNING
    \<and> same_view s s' {t, old}
    \<and> (t \<noteq> old \<longrightarrow> kernel_stack_state d = KS_LOCKED \<and> cpuid d = cpu
         \<and> (\<exists>c'. ctx s' old = Some c' \<and> tstate c' = TS_READY \<and> budget c' = DEFAULT_BUDGET))"
proof -
  let ?k = "pbrr_queue cpu (prio c)"
  let ?s = "back_to ?k cpu old c s"
  have k: "?k < PLAT_CPU_NUM * PRIO_NUM" using pbrr_queue_lt [OF cpu] c(4) by (simp add: stays_def)
  have q': "pbrr_ok ?s Q'" unfolding Q' by (rule queues_back_to [OF q c(1,2) refl k])
  have r: "runnable cpu ?s = runnable cpu s" by (rule runnable_back_to [OF cur])
  obtain s1 where s1: "pbrr_sched_choose_thread cpu ?s = Some (t, s1)"
    and p: "picked pbrr_queue (PLAT_CPU_NUM * PRIO_NUM) ?s Q' (pbrr_queue cpu i) t s1"
    using pbrr_choose_ok [OF q' cpu hi(1)] hi(2) t unfolding r by blast
  from switch_picked [OF p, of cpu] cur obtain s' c0 d where s': "switch_to_thread cpu t s1 = Some s'"
    "pbrr_ok s' (Q'(pbrr_queue cpu i := remove1 t (Q' (pbrr_queue cpu i))))"
    "current_threads s' = (current_threads s)(cpu \<mapsto> t)" "same_view ?s s' {t}" "ctx s' t = Some d"
    "sview d = (if old = t then sview (c0\<lparr>tstate := TS_RUNNING\<rparr>)
        else sview (c0\<lparr>cpuid := cpu, tstate := TS_RUNNING, kernel_stack_state := KS_LOCKED\<rparr>))"
    by auto
  have "pbrr_sched cpu s = Some s'" using pbrr_sched_requeue [OF q cpu cur c] s1 s'(1) by simp
  moreover have "tstate d = TS_RUNNING" "t \<noteq> old \<Longrightarrow> kernel_stack_state d = KS_LOCKED \<and> cpuid d = cpu"
    using s'(6) by (auto simp: sview_def split: if_splits)
  moreover have "\<exists>c'. ctx s' old = Some c' \<and> tstate c' = TS_READY \<and> budget c' = DEFAULT_BUDGET" if "t \<noteq> old"
  proof -
    from same_viewD [OF s'(4), of old] that obtain c' where
      "ctx s' old = Some c'" "sview c' = sview (c\<lparr>budget := DEFAULT_BUDGET, tstate := TS_INTER, cpuid := cpu, tstate := TS_READY\<rparr>)"
      by auto
    then show ?thesis by (auto simp: sview_def)
  qed
  moreover have "same_view s s' {t, old}" using s'(4) by (simp add: same_view_def)
  ultimately show ?thesis using s'(2,3,5) by blast
qed

lemma pbrr_queue_0 [simp]: "pbrr_queue 0 p = p"
  by (simp add: pbrr_queue_def)

lemma two_ready_pbrr:
  "pbrr_ok (set_ctx 10 ((init_thread_ctx 10 TYPE_USER NO_AFF)\<lparr>tstate := TS_RUNNING, budget := 0\<rparr>)
     (two_ready pbrr_queue (PLAT_CPU_NUM * PRIO_NUM))) ((\<lambda>_. [])(10 := [11], 20 := [12]))"
  using two_ready_ok [of pbrr_queue "PLAT_CPU_NUM * PRIO_NUM"]
  by (intro queues_ctx) (simp_all add: two_ready_ctx init_thread_ctx_def PLAT_CPU_NUM_def PRIO_NUM_def MAX_PRIO_def)

theorem pbrr_sched_correct_witness:
  "\<exists>s'. pbrr_sched 0 (set_ctx 10 ((init_thread_ctx 10 TYPE_USER NO_AFF)\<lparr>tstate := TS_RUNNING, budget := 0\<rparr>)
      (two_ready pbrr_queue (PLAT_CPU_NUM * PRIO_NUM))) = Some s' \<and> current_threads s' 0 = Some 12
    \<and> pbrr_ok s' ((\<lambda>_. [])(10 := [11, 10], 20 := []))"
proof -
  let ?s = "set_ctx 10 ((init_thread_ctx 10 TYPE_USER NO_AFF)\<lparr>tstate := TS_RUNNING, budget := 0\<rparr>)
      (two_ready pbrr_queue (PLAT_CPU_NUM * PRIO_NUM))"
  let ?Q = "((\<lambda>_. [])(10 := [11], 20 := [12]))(pbrr_queue 0 10 := [11, 10])"
  have h: "\<forall>j. 20 < j \<and> j \<le> MAX_PRIO \<longrightarrow> find (runnable 0 ?s) (?Q (pbrr_queue 0 j)) = None" by simp
  have f: "find (runnable 0 ?s) (?Q (pbrr_queue 0 20)) = Some 12"
    by (simp add: runnable_def two_ready_ctx init_thread_ctx_def)
  have c: "0 < PLAT_CPU_NUM" "current_threads ?s 0 = Some 10" "20 \<le> MAX_PRIO"
    by (simp_all add: PLAT_CPU_NUM_def two_ready_ctx MAX_PRIO_def)
  have d: "ctx ?s 10 = Some ((init_thread_ctx 10 TYPE_USER NO_AFF)\<lparr>tstate := TS_RUNNING, budget := 0\<rparr>)" by simp
  let ?c = "(init_thread_ctx 10 TYPE_USER NO_AFF)\<lparr>tstate := TS_RUNNING, budget := 0\<rparr>"
  have g: "tstate ?c = TS_RUNNING" "budget ?c = 0" "stays 0 ?c"
    "?Q = ((\<lambda>_. [])(10 := [11], 20 := [12]))(pbrr_queue 0 (prio ?c) := ((\<lambda>_. [])(10 := [11], 20 := [12])) (pbrr_queue 0 (prio ?c)) @ [10])"
    by (simp_all add: init_thread_ctx_def stays_def target_cpu_def MAX_PRIO_def)
  from pbrr_sched_correct [OF two_ready_pbrr c(1,2) d g c(3) h f] obtain s' where
    "pbrr_sched 0 ?s = Some s'" "pbrr_ok s' (?Q(pbrr_queue 0 20 := remove1 12 (?Q (pbrr_queue 0 20))))"
    "current_threads s' = (current_threads ?s)(0 \<mapsto> 12)"
    by blast
  then show ?thesis by (intro exI [of _ s']) simp
qed

text \<open>
  A thread that is put on a ready queue of the priority scheduler and taken off again leaves
  the queues as they were: both operations return 0, in between the thread is the last of the
  queue of its CPU and priority, and after it every queue has its old content.
\<close>

theorem pbrr_enqueue_dequeue:
  assumes "pbrr_ok s Q" "ctx s t = Some c" "tstate c \<noteq> TS_READY" "prio c \<le> MAX_PRIO" "target_cpu cpu c < PLAT_CPU_NUM"
    and k: "k = pbrr_queue (target_cpu cpu c) (prio c)"
  shows "\<exists>s1 s2. pbrr_sched_enqueue cpu t s = Some (0, s1) \<and> pbrr_ok s1 (Q(k := Q k @ [t]))
    \<and> pbrr_sched_dequeue t s1 = Some (0, s2) \<and> pbrr_ok s2 Q"
  unfolding k by (rule pbq.enqueue_dequeue [OF assms(1)]) (use assms in \<open>simp_all add: ready_def pbrr_home_def\<close>)

theorem pbrr_enqueue_dequeue_witness:
  "\<exists>s1 s2. pbrr_sched_enqueue 0 11 (with_running (no_queues (PLAT_CPU_NUM * PRIO_NUM))) = Some (0, s1)
    \<and> pbrr_ok s1 ((\<lambda>_. [])(10 := [11])) \<and> pbrr_sched_dequeue 11 s1 = Some (0, s2) \<and> pbrr_ok s2 (\<lambda>_. [])"
  using pbrr_enqueue_dequeue [OF with_running_queues [OF no_queues_ok no_queues_ctx], of 11 "init_thread_ctx 10 TYPE_USER NO_AFF" 0 10]
  by (simp add: with_running_ctx init_thread_ctx_def target_cpu_def MAX_PRIO_def PLAT_CPU_NUM_def)



end
