(* ===== verification/Node_Tree.thy ===== *)
theory Node_Tree
  imports Prelude
begin

text \<open>
  Trees whose nodes are arrays in a store, as the radix tree and the page tables have them.  \<open>nx\<close>
  gives the node an entry points to, \<open>N\<close> is the number of entries of a node and \<open>L\<close> the number of
  levels: the entries of the lowest level are data and lead to no node.
\<close>

type_synonym ('n, 'e) store = "'n \<Rightarrow> 'e list option"

fun walk :: "('e \<Rightarrow> 'n option) \<Rightarrow> ('n, 'e) store \<Rightarrow> 'n \<Rightarrow> nat list \<Rightarrow> 'n option" where
  "walk nx st n [] = Some n"
| "walk nx st n (k # ks) = do { xs \<leftarrow> st n; e \<leftarrow> nth_opt xs k; m \<leftarrow> nx e; walk nx st m ks }"

definition entry_at :: "('e \<Rightarrow> 'n option) \<Rightarrow> ('n, 'e) store \<Rightarrow> 'n \<Rightarrow> nat list \<Rightarrow> nat \<Rightarrow> 'e option" where
  "entry_at nx st n p k = do { m \<leftarrow> walk nx st n p; xs \<leftarrow> st m; nth_opt xs k }"

definition node_tree :: "('e \<Rightarrow> 'n option) \<Rightarrow> nat \<Rightarrow> nat \<Rightarrow> ('n, 'e) store \<Rightarrow> 'n \<Rightarrow> bool" where
  "node_tree nx N L st r \<longleftrightarrow> 0 < L \<and>
     (\<forall>p n. length p < L \<and> walk nx st r p = Some n \<longrightarrow> (\<exists>xs. st n = Some xs \<and> length xs = N)) \<and>
     (\<forall>p q n. length p < L \<and> length q < L \<and> walk nx st r p = Some n \<and> walk nx st r q = Some n \<longrightarrow> p = q)"

lemma walk_append: "walk nx st n (p @ q) = do { m \<leftarrow> walk nx st n p; walk nx st m q }"
  by (induction p arbitrary: n) (auto simp: bind_assoc)

lemma walk_snoc: "walk nx st n (p @ [k]) = do { e \<leftarrow> entry_at nx st n p k; nx e }"
  by (auto simp: walk_append entry_at_def bind_eq_None_conv split: Option.bind_splits)

lemma treeI:
  assumes "0 < L"
    and "\<And>p n. length p < L \<Longrightarrow> walk nx st r p = Some n \<Longrightarrow> \<exists>xs. st n = Some xs \<and> length xs = N"
    and "\<And>p q n. length p < L \<Longrightarrow> length q < L \<Longrightarrow> walk nx st r p = Some n \<Longrightarrow> walk nx st r q = Some n \<Longrightarrow> p = q"
  shows "node_tree nx N L st r"
  using assms unfolding node_tree_def by blast

lemma treeD:
  assumes "node_tree nx N L st r" "length p < L" "walk nx st r p = Some n"
  shows "\<exists>xs. st n = Some xs \<and> length xs = N" "length q < L \<Longrightarrow> walk nx st r q = Some n \<Longrightarrow> q = p"
  using assms unfolding node_tree_def by blast+

lemma entry_at_tree:
  assumes "node_tree nx N L st r" "length p < L" "walk nx st r p = Some n" "st n = Some xs"
  shows "entry_at nx st r p k = (if k < N then Some (xs ! k) else None)"
  using treeD(1) [OF assms(1-3)] assms(3,4) by (auto simp: entry_at_def)

text \<open>Changing one entry of a node changes nothing on the paths that do not use it.\<close>

lemma walk_other:
  assumes t: "node_tree nx N L st r" and p: "length p < L" "walk nx st r p = Some n" and xs: "st n = Some xs"
    and st': "st' = st(n \<mapsto> xs[k := e])"
  shows "length q \<le> L \<Longrightarrow> (\<forall>s. q \<noteq> p @ k # s) \<Longrightarrow> walk nx st' r q = walk nx st r q"
proof (induction q rule: rev_induct)
  case (snoc j q)
  have u: "st' n = Some (xs[k := e])" "\<And>m. m \<noteq> n \<Longrightarrow> st' m = st m" by (simp_all add: st')
  have "\<forall>s. q \<noteq> p @ k # s" using snoc.prems(2) by auto
  then have IH: "walk nx st' r q = walk nx st r q" using snoc by simp
  show ?case
  proof (cases "walk nx st r q = Some n")
    case True
    then have "q = p" using treeD(2) [OF t p, of q] snoc.prems(1) by simp
    then have "j \<noteq> k" using snoc.prems(2) by auto
    then show ?thesis using IH True xs u(1) by (simp add: walk_append nth_opt_def)
  next
    case False
    then show ?thesis using IH u(2) by (cases "walk nx st r q") (simp_all add: walk_append)
  qed
qed simp

lemma entry_at_upd:
  assumes t: "node_tree nx N L st r" and p: "length p < L" "walk nx st r p = Some n" and xs: "st n = Some xs"
    and st': "st' = st(n \<mapsto> xs[k := e])" and q: "length q < L" "\<forall>s. q \<noteq> p @ k # s"
  shows "entry_at nx st' r q j = (if q = p \<and> j = k \<and> k < N then Some e else entry_at nx st r q j)"
proof -
  have u: "st' n = Some (xs[k := e])" "\<And>m. m \<noteq> n \<Longrightarrow> st' m = st m" by (simp_all add: st')
  have w: "walk nx st' r q = walk nx st r q" using walk_other [OF t p xs st'] q by simp
  have N: "length xs = N" using treeD(1) [OF t p] xs by simp
  show ?thesis
  proof (cases "q = p")
    case True
    then show ?thesis using w p(2) xs N u(1) by (auto simp: entry_at_def nth_opt_def)
  next
    case False
    then have "walk nx st r q \<noteq> Some n" using treeD(2) [OF t p q(1)] by blast
    then show ?thesis using w False u(2) by (cases "walk nx st r q") (auto simp: entry_at_def)
  qed
qed

text \<open>An entry of the lowest level.\<close>

lemma tree_set_data:
  assumes t: "node_tree nx N L st r" and p: "length p = L - 1" "walk nx st r p = Some n" and xs: "st n = Some xs"
    and st': "st' = st(n \<mapsto> xs[k := e])"
  shows "node_tree nx N L st' r"
    "length q < L \<Longrightarrow> walk nx st' r q = walk nx st r q"
    "length q < L \<Longrightarrow> entry_at nx st' r q j = (if q = p \<and> j = k \<and> k < N then Some e else entry_at nx st r q j)"
proof -
  have u: "st' n = Some (xs[k := e])" "\<And>m. m \<noteq> n \<Longrightarrow> st' m = st m" by (simp_all add: st')
  have L: "length p < L" using t p(1) by (auto simp: node_tree_def)
  show w: "walk nx st' r q = walk nx st r q" if "length q < L" for q
    by (rule walk_other [OF t L p(2) xs st']) (use that p(1) in auto)
  show "entry_at nx st' r q j = (if q = p \<and> j = k \<and> k < N then Some e else entry_at nx st r q j)" if "length q < L"
    using that p(1) by (intro entry_at_upd [OF t L p(2) xs st']) auto
  show "node_tree nx N L st' r"
  proof (rule treeI)
    fix q m assume q: "length q < L" "walk nx st' r q = Some m"
    then show "\<exists>ys. st' m = Some ys \<and> length ys = N"
      using treeD(1) [OF t q(1), of m] treeD(1) [OF t L p(2)] w [of q] xs u by (cases "m = n") auto
  next
    fix q s m assume "length q < L" "length s < L" "walk nx st' r q = Some m" "walk nx st' r s = Some m"
    then show "q = s" using treeD(2) [OF t, of s m q] w by simp
  qed (use t in \<open>simp add: node_tree_def\<close>)
qed

text \<open>A node that no path leads to.\<close>

lemma tree_new_node:
  assumes t: "node_tree nx N L st r" and m: "st m = None" and st': "st' = st(m \<mapsto> ys)"
  shows "length q < L \<Longrightarrow> walk nx st r q \<noteq> Some m" "length q < L \<Longrightarrow> walk nx st' r q = walk nx st r q" "node_tree nx N L st' r"
proof -
  have u: "\<And>i. i \<noteq> m \<Longrightarrow> st' i = st i" by (simp add: st')
  show dead: "walk nx st r q \<noteq> Some m" if "length q < L" for q using treeD(1) [OF t that] m by force
  show same: "walk nx st' r q = walk nx st r q" if "length q < L" for q
    using that
  proof (induction q rule: rev_induct)
    case (snoc i q)
    then show ?case using dead [of q] u by (cases "walk nx st r q") (auto simp: walk_append)
  qed simp
  show "node_tree nx N L st' r"
  proof (rule treeI)
    fix q i assume q: "length q < L" "walk nx st' r q = Some i"
    then show "\<exists>ys. st' i = Some ys \<and> length ys = N" using treeD(1) [OF t, of q i] same [of q] dead [of q] u [of i] by auto
  next
    fix q q' i assume "length q < L" "length q' < L" "walk nx st' r q = Some i" "walk nx st' r q' = Some i"
    then show "q = q'" using treeD(2) [OF t, of q' i q] same by simp
  qed (use t in \<open>simp add: node_tree_def\<close>)
qed

text \<open>A new, empty node below an entry that led nowhere.\<close>

lemma tree_link:
  assumes t: "node_tree nx N L st r" and p: "length p < L - 1" "walk nx st r p = Some n" and xs: "st n = Some xs"
    and k: "k < N" "nx (xs ! k) = None" and e: "nx e = Some m" "nx z = None"
    and m: "st m = None" "m \<noteq> n"
    and st': "st' = st(m \<mapsto> replicate N z, n \<mapsto> xs[k := e])"
  shows "node_tree nx N L st' r"
    "length q < L \<Longrightarrow> walk nx st' r q = (if q = p @ [k] then Some m else walk nx st r q)"
    "length q < L \<Longrightarrow> entry_at nx st' r q j = (if q = p \<and> j = k then Some e
       else if q = p @ [k] \<and> j < N then Some z else entry_at nx st r q j)"
proof -
  define s where "s = st(m \<mapsto> replicate N z)"
  have st'': "st' = s(n \<mapsto> xs[k := e])" by (simp add: st' s_def)
  have v: "st' n = Some (xs[k := e])" "st' m = Some (replicate N z)" "\<And>i. i \<noteq> m \<Longrightarrow> i \<noteq> n \<Longrightarrow> st' i = st i"
    using m(2) by (simp_all add: st')
  have L: "length p < L" using p(1) by simp
  have N: "length xs = N" using treeD(1) [OF t L p(2)] xs by simp
  note dead = tree_new_node(1) [OF t m(1) s_def] and same = tree_new_node(2) [OF t m(1) s_def] and ts = tree_new_node(3) [OF t m(1) s_def]
  have pn: "walk nx s r p = Some n" "s n = Some xs" using same [OF L] p(2) xs m(2) by (auto simp: s_def)
  note other = walk_other [OF ts L pn st''] and upd = entry_at_upd [OF ts L pn st'']
  have pk: "walk nx st' r (p @ [k]) = Some m"
    using upd [of p k] L k(1) e(1) by (simp add: walk_snoc)
  have below: "walk nx st' r (p @ k # i # w) = None" for i w
    using pk e(2) v(2) walk_append [of nx st' r "p @ [k]" "i # w"] by (simp add: nth_opt_def)
  have old: "walk nx st r (p @ k # w) = None" for w
    using walk_append [of nx st r "p @ [k]" w] p(2) xs k N by (simp add: walk_append)
  show w: "walk nx st' r q = (if q = p @ [k] then Some m else walk nx st r q)" if q: "length q < L" for q
  proof (cases "\<exists>w. q = p @ k # w")
    case True
    then obtain w where w: "q = p @ k # w" by blast
    show ?thesis using pk below old by (cases w) (auto simp: w)
  next
    case False
    then show ?thesis using other [of q] q same [OF q] by auto
  qed
  show "node_tree nx N L st' r"
  proof (rule treeI)
    fix q i assume q: "length q < L" "walk nx st' r q = Some i"
    show "\<exists>ys. st' i = Some ys \<and> length ys = N"
      using w [OF q(1)] treeD(1) [OF t q(1), of i] q(2) N v by (cases "i = m"; cases "i = n") (auto split: if_splits)
  next
    fix q q' i assume "length q < L" "length q' < L" "walk nx st' r q = Some i" "walk nx st' r q' = Some i"
    then show "q = q'" using w [of q] w [of q'] dead [of q] dead [of q'] treeD(2) [OF t, of q' i q] by (auto split: if_splits)
  qed (use t in \<open>simp add: node_tree_def\<close>)
  show "entry_at nx st' r q j = (if q = p \<and> j = k then Some e
       else if q = p @ [k] \<and> j < N then Some z else entry_at nx st r q j)" if q: "length q < L"
  proof (cases "q = p @ [k]")
    case True
    have "entry_at nx st r (p @ [k]) j = None" using old [of "[]"] by (simp add: entry_at_def)
    then show ?thesis using True pk v(2) by (auto simp: entry_at_def nth_opt_def)
  next
    case False
    consider "q = p" | "q \<noteq> p" "walk nx st r q = None" | i where "q \<noteq> p" "walk nx st r q = Some i" by blast
    then show ?thesis
    proof cases
      case 1
      then show ?thesis using w [OF L] p(2) xs N k(1) v(1) by (auto simp: entry_at_def nth_opt_def)
    next
      case 2
      then show ?thesis using w [OF q] False by (simp add: entry_at_def)
    next
      case 3
      then have "i \<noteq> n" "i \<noteq> m" using treeD(2) [OF t L p(2) q] dead [OF q] by auto
      then show ?thesis using w [OF q] False 3 v(3) by (simp add: entry_at_def)
    qed
  qed
qed

end
