(* ===== verification/Radix.thy ===== *)
theory Radix
  imports Ticket_Lock Node_Tree
begin

text \<open>
  The radix tree of \<^verbatim>\<open>kernel/lib/radix.c\<close>: a map from 64-bit keys to pointers, used for the pages
  of a memory object.  The nodes live in a store of arrays with sixteen entries; an entry is a
  child or, at the lowest level, a value (the \<^verbatim>\<open>union\<close> of the source).  A pointer is a number and
  \<^verbatim>\<open>NULL\<close> is 0; \<open>nodes_left\<close> is the number of nodes \<^verbatim>\<open>kzalloc\<close> can still provide.
\<close>

section \<open>The code\<close>

definition RADIX_NODE_BITS :: nat where "RADIX_NODE_BITS = 4"
definition RADIX_NODE_SIZE :: nat where "RADIX_NODE_SIZE = 2 ^ RADIX_NODE_BITS"
definition RADIX_NODE_MASK :: u64 where "RADIX_NODE_MASK = of_nat (RADIX_NODE_SIZE - 1)"
definition RADIX_MAX_BITS :: nat where "RADIX_MAX_BITS = 64"
definition RADIX_LEVELS :: nat where "RADIX_LEVELS = DIV_ROUND_UP RADIX_MAX_BITS RADIX_NODE_BITS"

type_synonym rptr = nat

record radix =
  rnodes :: "rptr \<Rightarrow> rptr list option"
  next_node :: rptr
  nodes_left :: nat
  root :: rptr
  radix_lock :: lock_impl
  value_deleter :: bool

definition new_radix_node :: "radix \<Rightarrow> rptr \<times> radix" where
  "new_radix_node r =
     (if nodes_left r = 0 then (0, r)
      else (next_node r, r\<lparr>rnodes := (rnodes r)(next_node r \<mapsto> replicate RADIX_NODE_SIZE 0),
              next_node := next_node r + 1, nodes_left := nodes_left r - 1\<rparr>))"

definition new_radix :: "bool \<Rightarrow> nat \<Rightarrow> radix option" where
  "new_radix mem n = do { BUG_ON (\<not> mem); Some \<lparr>rnodes = Map.empty, next_node = 1, nodes_left = n, root = 0, radix_lock = \<lparr>owner = 0, nxt = 0\<rparr>,
     value_deleter = False\<rparr> }"

definition init_radix :: "radix \<Rightarrow> radix option" where
  "init_radix r = do {
     let (p, r1) = new_radix_node r;
     BUG_ON (p = 0);
     Some (r1\<lparr>root := p, value_deleter := False, radix_lock := lock_init\<rparr>) }"

definition init_radix_w_deleter :: "bool \<Rightarrow> radix \<Rightarrow> radix option" where
  "init_radix_w_deleter d r = map_option (\<lambda>r. r\<lparr>value_deleter := d\<rparr>) (init_radix r)"

text \<open>The loop that computes \<^verbatim>\<open>index\<close>, lowest level first.\<close>

fun radix_index :: "nat \<Rightarrow> u64 \<Rightarrow> nat list" where
  "radix_index 0 key = []"
| "radix_index (Suc n) key = unat (and key RADIX_NODE_MASK) # radix_index n (drop_bit RADIX_NODE_BITS key)"

definition get_entry :: "radix \<Rightarrow> rptr \<Rightarrow> nat \<Rightarrow> rptr option" where
  "get_entry r n k = do { xs \<leftarrow> rnodes r n; nth_opt xs k }"

definition set_entry :: "rptr \<Rightarrow> nat \<Rightarrow> rptr \<Rightarrow> radix \<Rightarrow> radix option" where
  "set_entry n k v r = do { xs \<leftarrow> rnodes r n; ys \<leftarrow> upd_opt xs k v; Some (r\<lparr>rnodes := (rnodes r)(n \<mapsto> ys)\<rparr>) }"

text \<open>The intermediate levels of \<^verbatim>\<open>radix_add\<close>; 0 stands for the exit on \<^verbatim>\<open>-ENOMEM\<close>.\<close>

fun add_path :: "nat list \<Rightarrow> rptr \<Rightarrow> radix \<Rightarrow> (rptr \<times> radix) option" where
  "add_path [] node r = Some (node, r)"
| "add_path (k # ks) node r = do {
     child \<leftarrow> get_entry r node k;
     if child = 0 then do {
       let (new, r1) = new_radix_node r;
       if new = 0 then Some (0, r1)
       else do {
         r2 \<leftarrow> set_entry node k new r1;
         add_path ks new r2 } }
     else add_path ks child r }"

definition radix_add :: "u64 \<Rightarrow> rptr \<Rightarrow> radix \<Rightarrow> (int \<times> radix) option" where
  "radix_add key value r = do {
     l \<leftarrow> lock (radix_lock r);
     let r0 = r\<lparr>radix_lock := l\<rparr>;
     let (p, r1) = (if root r0 = 0 then new_radix_node r0 else (root r0, r0));
     if p = 0 then Some (- ENOMEM, r1\<lparr>radix_lock := unlock (radix_lock r1)\<rparr>)
     else do {
       let index = radix_index RADIX_LEVELS key;
       (node, r2) \<leftarrow> add_path (rev (tl index)) p (r1\<lparr>root := p\<rparr>);
       if node = 0 then Some (- ENOMEM, r2\<lparr>radix_lock := unlock (radix_lock r2)\<rparr>)
       else do {
         old \<leftarrow> get_entry r2 node (hd index);
         BUG_ON (old \<noteq> 0 \<and> value \<noteq> 0);
         r3 \<leftarrow> set_entry node (hd index) value r2;
         Some (0, r3\<lparr>radix_lock := unlock (radix_lock r3)\<rparr>) } } }"

fun get_path :: "nat list \<Rightarrow> rptr \<Rightarrow> radix \<Rightarrow> rptr option" where
  "get_path [] node r = Some node"
| "get_path (k # ks) node r = do {
     child \<leftarrow> get_entry r node k;
     if child = 0 then Some 0 else get_path ks child r }"

definition radix_get :: "u64 \<Rightarrow> radix \<Rightarrow> (rptr \<times> radix) option" where
  "radix_get key r = do {
     l \<leftarrow> lock (radix_lock r);
     let r0 = r\<lparr>radix_lock := l\<rparr>;
     let index = radix_index RADIX_LEVELS key;
     node \<leftarrow> (if root r0 = 0 then Some 0 else get_path (rev (tl index)) (root r0) r0);
     ret \<leftarrow> (if node = 0 then Some 0 else get_entry r0 node (hd index));
     Some (ret, r0\<lparr>radix_lock := unlock (radix_lock r0)\<rparr>) }"

definition radix_del :: "u64 \<Rightarrow> radix \<Rightarrow> (int \<times> radix) option" where
  "radix_del key r = radix_add key 0 r"

text \<open>
  \<^verbatim>\<open>radix_free_node\<close> for a node with \<open>n\<close> levels below it: the values handed to the deleter, in
  order.  No node is freed.
\<close>

fun radix_free_node :: "nat \<Rightarrow> rptr \<Rightarrow> radix \<Rightarrow> rptr list option" where
  "radix_free_node 0 node r = do {
     xs \<leftarrow> rnodes r node;
     Some (if value_deleter r then filter (\<lambda>v. v \<noteq> 0) xs else []) }"
| "radix_free_node (Suc n) node r = do {
     xs \<leftarrow> rnodes r node;
     fold (\<lambda>c acc. do { vs \<leftarrow> acc; if c = 0 then Some vs else do { ws \<leftarrow> radix_free_node n c r; Some (vs @ ws) } }) xs (Some []) }"

definition radix_free :: "radix \<Rightarrow> (int \<times> rptr list \<times> radix) option" where
  "radix_free r = do {
     l \<leftarrow> lock (radix_lock r);
     let r0 = r\<lparr>radix_lock := l\<rparr>;
     if root r0 = 0 then Some (- EINVAL, [], r0)
     else do {
       vs \<leftarrow> radix_free_node (RADIX_LEVELS - 1) (root r0) r0;
       Some (0, vs, r0\<lparr>radix_lock := unlock (radix_lock r0)\<rparr>) } }"
section \<open>The tree\<close>

definition radix_child :: "rptr \<Rightarrow> rptr option" where
  "radix_child v = (if v = 0 then None else Some v)"

lemma radix_child_simps [simp]: "radix_child 0 = None" "v \<noteq> 0 \<Longrightarrow> radix_child v = Some v"
  by (simp_all add: radix_child_def)

abbreviation radix_walk :: "radix \<Rightarrow> nat list \<Rightarrow> rptr option" where
  "radix_walk r \<equiv> walk radix_child (rnodes r) (root r)"

abbreviation radix_entry :: "radix \<Rightarrow> nat list \<Rightarrow> nat \<Rightarrow> rptr option" where
  "radix_entry r \<equiv> entry_at radix_child (rnodes r) (root r)"

definition radix_tree :: "radix \<Rightarrow> bool" where
  "radix_tree r \<longleftrightarrow> root r \<noteq> 0 \<and> node_tree radix_child RADIX_NODE_SIZE RADIX_LEVELS (rnodes r) (root r)
     \<and> rnodes r 0 = None \<and> 0 < next_node r \<and> (\<forall>n \<ge> next_node r. rnodes r n = None)"

definition radix_inv :: "radix \<Rightarrow> bool" where
  "radix_inv r \<longleftrightarrow> radix_tree r \<and> lock_free (radix_lock r)"

text \<open>The path of a key, from the root down, and the value at its end.\<close>

definition key_path :: "u64 \<Rightarrow> nat list" where
  "key_path key = rev (tl (radix_index RADIX_LEVELS key))"

definition key_slot :: "u64 \<Rightarrow> nat" where
  "key_slot key = hd (radix_index RADIX_LEVELS key)"

definition radix_map :: "radix \<Rightarrow> u64 \<Rightarrow> rptr" where
  "radix_map r key = (case radix_entry r (key_path key) (key_slot key) of None \<Rightarrow> 0 | Some v \<Rightarrow> v)"

lemma RADIX_NODE_SIZE_eq [simp]: "RADIX_NODE_SIZE = 16"
  by (simp add: RADIX_NODE_SIZE_def RADIX_NODE_BITS_def)

lemma RADIX_LEVELS_eq: "RADIX_LEVELS = 16"
  by (simp add: RADIX_LEVELS_def DIV_ROUND_UP_def RADIX_MAX_BITS_def RADIX_NODE_BITS_def)

lemma radix_index_length [simp]: "length (radix_index n key) = n"
  by (induction n arbitrary: key) auto

lemma RADIX_NODE_MASK_eq: "RADIX_NODE_MASK = mask 4"
  by (simp add: RADIX_NODE_MASK_def mask_eq_exp_minus_1)

lemma radix_index_bound: "k \<in> set (radix_index n key) \<Longrightarrow> k < RADIX_NODE_SIZE"
proof (induction n arbitrary: key)
  case (Suc n)
  have "unat (key AND RADIX_NODE_MASK) < 16"
    unfolding RADIX_NODE_MASK_eq using unat_mod [of key 16] by (simp add: take_bit_eq_mask [symmetric] take_bit_eq_mod unat_mod)
  then show ?case using Suc by auto
qed simp

lemma radix_index_inj: "radix_index n a = radix_index n b \<Longrightarrow> take_bit (4 * n) a = take_bit (4 * n) b"
proof (induction n arbitrary: a b)
  case (Suc n)
  from Suc.prems have "unat (take_bit 4 a) = unat (take_bit 4 b)" by (simp add: RADIX_NODE_MASK_eq take_bit_eq_mask)
  then have "take_bit 4 a = take_bit 4 b" by (rule unsigned_word_eqI)
  moreover have "take_bit (4 * n) (drop_bit 4 a) = take_bit (4 * n) (drop_bit 4 b)"
    by (rule Suc.IH) (use Suc.prems in \<open>simp add: RADIX_NODE_BITS_def\<close>)
  ultimately have e: "bit (take_bit 4 a) j = bit (take_bit 4 b) j"
    "bit (take_bit (4 * n) (drop_bit 4 a)) j = bit (take_bit (4 * n) (drop_bit 4 b)) j" for j by simp_all
  show ?case
  proof (rule bit_eqI)
    fix j
    show "bit (take_bit (4 * Suc n) a) j = bit (take_bit (4 * Suc n) b) j"
    proof (cases "j < 4")
      case True
      then show ?thesis using e(1) [of j] by (simp add: bit_simps)
    next
      case False
      then show ?thesis using e(2) [of "j - 4"] by (auto simp: bit_simps)
    qed
  qed
qed simp

lemma key_parts: "radix_index RADIX_LEVELS key = key_slot key # rev (key_path key)"
  by (simp add: key_slot_def key_path_def RADIX_LEVELS_eq numeral_eq_Suc)

lemma key_path_length [simp]: "length (key_path key) = RADIX_LEVELS - 1"
  by (simp add: key_path_def)

lemma key_slot_bound: "key_slot key < RADIX_NODE_SIZE" "\<forall>k \<in> set (key_path key). k < RADIX_NODE_SIZE"
  using radix_index_bound [of _ RADIX_LEVELS key] unfolding key_parts by auto

lemma key_inj: "key_path a = key_path b \<and> key_slot a = key_slot b \<longleftrightarrow> a = b"
  using radix_index_inj [of RADIX_LEVELS a b] key_parts [of a] key_parts [of b] by (auto simp: RADIX_LEVELS_eq take_bit_word_eq_self)

section \<open>The operations on the tree\<close>

lemma radix_treeD:
  assumes "radix_tree r" "length p < RADIX_LEVELS" "radix_walk r p = Some n"
  obtains xs where "rnodes r n = Some xs" "length xs = RADIX_NODE_SIZE" "n < next_node r" "n \<noteq> 0"
    "\<And>k. radix_entry r p k = (if k < RADIX_NODE_SIZE then Some (xs ! k) else None)"
proof -
  have t: "node_tree radix_child RADIX_NODE_SIZE RADIX_LEVELS (rnodes r) (root r)" using assms(1) by (simp add: radix_tree_def)
  from treeD(1) [OF t assms(2,3)] obtain xs where xs: "rnodes r n = Some xs" "length xs = RADIX_NODE_SIZE" by blast
  have "n < next_node r"
  proof (rule ccontr)
    assume "\<not> n < next_node r"
    then have "rnodes r n = None" using assms(1) by (simp add: radix_tree_def)
    then show False using xs(1) by simp
  qed
  moreover have "n \<noteq> 0"
  proof
    assume "n = 0"
    then show False using assms(1) xs(1) by (simp add: radix_tree_def)
  qed
  ultimately show ?thesis using that [OF xs] entry_at_tree [OF t assms(2,3) xs(1)] by blast
qed

lemma get_entry_at:
  assumes "radix_tree r" "length p < RADIX_LEVELS" "radix_walk r p = Some n" "k < RADIX_NODE_SIZE"
  shows "\<exists>v. get_entry r n k = Some v \<and> radix_entry r p k = Some v \<and> radix_walk r (p @ [k]) = radix_child v"
proof -
  obtain xs where xs: "rnodes r n = Some xs" "length xs = RADIX_NODE_SIZE"
    "radix_entry r p k = (if k < RADIX_NODE_SIZE then Some (xs ! k) else None)" by (rule radix_treeD [OF assms(1-3)]) blast
  then show ?thesis using assms(4) by (simp add: get_entry_def walk_snoc)
qed

lemma get_path_at:
  assumes "radix_tree r"
  shows "\<forall>k \<in> set ks. k < RADIX_NODE_SIZE \<Longrightarrow> length (p @ ks) < RADIX_LEVELS \<Longrightarrow> radix_walk r p = Some n \<Longrightarrow>
    get_path ks n r = Some (case radix_walk r (p @ ks) of None \<Rightarrow> 0 | Some m \<Rightarrow> m)"
proof (induction ks arbitrary: p n)
  case (Cons k ks)
  from get_entry_at [OF assms, of p n k] Cons.prems obtain v where
    v: "get_entry r n k = Some v" "radix_walk r (p @ [k]) = radix_child v" by auto
  show ?case
  proof (cases "v = 0")
    case True
    then have "radix_walk r (p @ k # ks) = None"
      using v(2) walk_append [of radix_child "rnodes r" "root r" "p @ [k]" ks] by simp
    then show ?thesis using v True by simp
  next
    case False
    then show ?thesis using v Cons.IH [of "p @ [k]" v] Cons.prems by simp
  qed
qed simp

text \<open>At the lowest level the entry is a value, above it a new node is linked.\<close>

lemma set_value:
  assumes t: "radix_tree r" and p: "length p = RADIX_LEVELS - 1" "radix_walk r p = Some n" and k: "k < RADIX_NODE_SIZE"
  shows "\<exists>r'. set_entry n k v r = Some r' \<and> radix_tree r' \<and> radix_lock r' = radix_lock r \<and> nodes_left r' = nodes_left r
    \<and> (\<forall>q j. length q < RADIX_LEVELS \<longrightarrow> radix_entry r' q j = (if q = p \<and> j = k then Some v else radix_entry r q j))"
proof -
  have L: "length p < RADIX_LEVELS" using p(1) by (simp add: RADIX_LEVELS_eq)
  obtain xs where xs: "rnodes r n = Some xs" "length xs = RADIX_NODE_SIZE" "n < next_node r" "n \<noteq> 0" by (rule radix_treeD [OF t L p(2)]) blast
  have nt: "node_tree radix_child RADIX_NODE_SIZE RADIX_LEVELS (rnodes r) (root r)" using t by (simp add: radix_tree_def)
  define st where "st = (rnodes r)(n \<mapsto> xs[k := v])"
  note d = tree_set_data [OF nt p xs(1) st_def]
  have "set_entry n k v r = Some (r\<lparr>rnodes := st\<rparr>)" using xs k by (simp add: set_entry_def st_def)
  moreover have "radix_tree (r\<lparr>rnodes := st\<rparr>)" using t d(1) xs(3,4) by (simp add: radix_tree_def) (simp add: st_def)
  ultimately show ?thesis using d(3) k by (intro exI [of _ "r\<lparr>rnodes := st\<rparr>"]) simp
qed

lemma new_child:
  assumes t: "radix_tree r" and p: "length p < RADIX_LEVELS - 1" "radix_walk r p = Some n"
    and k: "k < RADIX_NODE_SIZE" "radix_walk r (p @ [k]) = None" and left: "nodes_left r \<noteq> 0"
  shows "\<exists>m r1 r'. new_radix_node r = (m, r1) \<and> m \<noteq> 0 \<and> set_entry n k m r1 = Some r'
    \<and> radix_tree r' \<and> radix_lock r' = radix_lock r \<and> nodes_left r = Suc (nodes_left r') \<and> radix_walk r' (p @ [k]) = Some m
    \<and> radix_map r' = radix_map r"
proof -
  let ?m = "next_node r"
  have L: "length p < RADIX_LEVELS" using p(1) by simp
  obtain xs where xs: "rnodes r n = Some xs" "length xs = RADIX_NODE_SIZE" "n < ?m"
    "radix_entry r p k = (if k < RADIX_NODE_SIZE then Some (xs ! k) else None)" "n \<noteq> 0" by (rule radix_treeD [OF t L p(2)]) blast
  have nt: "node_tree radix_child RADIX_NODE_SIZE RADIX_LEVELS (rnodes r) (root r)" and m: "rnodes r ?m = None" "0 < ?m"
    using t by (simp_all add: radix_tree_def)
  define st where "st = (rnodes r)(?m \<mapsto> replicate RADIX_NODE_SIZE 0, n \<mapsto> xs[k := ?m])"
  have c: "radix_child (xs ! k) = None" using k xs(4) by (simp add: walk_snoc)
  have e: "radix_child ?m = Some ?m" "radix_child 0 = None" using m(2) by simp_all
  have ne: "?m \<noteq> n" using xs(3) by simp
  note l = tree_link [OF nt p xs(1) k(1) c e m(1) ne st_def]
  let ?r = "r\<lparr>rnodes := st, next_node := ?m + 1, nodes_left := nodes_left r - 1\<rparr>"
  have "radix_map ?r key = radix_map r key" for key
  proof -
    have "radix_entry r (p @ [k]) j = None" for j using k(2) by (simp add: entry_at_def)
    then show ?thesis using l(3) [of "key_path key"] p(1) by (auto simp: radix_map_def RADIX_LEVELS_eq)
  qed
  moreover have "radix_tree ?r" using t l(1) xs(3,5) by (simp add: radix_tree_def) (simp add: st_def)
  moreover have "radix_walk ?r (p @ [k]) = Some ?m" using l(2) [of "p @ [k]"] p(1) by simp
  moreover have "set_entry n k ?m (snd (new_radix_node r)) = Some ?r"
    using xs(1,2) ne k(1) left by (simp add: set_entry_def new_radix_node_def st_def)
  ultimately show ?thesis using m(2) left
    by (intro exI [of _ ?m] exI [of _ "snd (new_radix_node r)"] exI [of _ ?r]) (auto simp: new_radix_node_def)
qed

text \<open>The descent of \<^verbatim>\<open>radix_add\<close> reaches the node of the lowest level, or runs out of memory on the way.\<close>

lemma add_path_ok:
  assumes "radix_tree r" "\<forall>k \<in> set ks. k < RADIX_NODE_SIZE" "length (p @ ks) < RADIX_LEVELS" "radix_walk r p = Some n"
  shows "\<exists>m r'. add_path ks n r = Some (m, r') \<and> radix_tree r' \<and> radix_map r' = radix_map r
    \<and> radix_lock r' = radix_lock r \<and> (m \<noteq> 0 \<longrightarrow> radix_walk r' (p @ ks) = Some m) \<and> (m = 0 \<longrightarrow> n = 0 \<or> nodes_left r < length ks)
    \<and> nodes_left r \<le> nodes_left r' + length ks"
  using assms
proof (induction ks arbitrary: r p n)
  case (Cons k ks)
  have kk: "k < RADIX_NODE_SIZE" "length p < RADIX_LEVELS - 1" "length p < RADIX_LEVELS" using Cons.prems by auto
  from get_entry_at [OF Cons.prems(1) kk(3) Cons.prems(4) kk(1)] obtain v where
    v: "get_entry r n k = Some v" "radix_walk r (p @ [k]) = radix_child v" by blast
  consider (there) "v \<noteq> 0" | (full) "v = 0" "nodes_left r = 0" | (new) "v = 0" "nodes_left r \<noteq> 0" by blast
  then show ?case
  proof cases
    case there
    from Cons.IH [of r "p @ [k]" v] Cons.prems v(2) there show ?thesis by (fastforce simp: v(1))
  next
    case full
    then show ?thesis using v Cons.prems(1) by (simp add: new_radix_node_def)
  next
    case new
    from new_child [OF Cons.prems(1) kk(2) Cons.prems(4) kk(1) _ new(2)] v(2) new(1) obtain m r1 r2 where
      r: "new_radix_node r = (m, r1)" "m \<noteq> 0" "set_entry n k m r1 = Some r2" "radix_tree r2" "radix_lock r2 = radix_lock r"
        "nodes_left r = Suc (nodes_left r2)" "radix_walk r2 (p @ [k]) = Some m" "radix_map r2 = radix_map r"
      by auto
    from Cons.IH [OF r(4) _ _ r(7)] Cons.prems(2,3) obtain m' r' where
      i: "add_path ks m r2 = Some (m', r')" "radix_tree r'" "radix_map r' = radix_map r2" "radix_lock r' = radix_lock r2"
        "m' \<noteq> 0 \<longrightarrow> radix_walk r' (p @ k # ks) = Some m'" "m' = 0 \<longrightarrow> m = 0 \<or> nodes_left r2 < length ks" "nodes_left r2 \<le> nodes_left r' + length ks"
      by auto
    then show ?thesis using v(1) new r by simp
  qed
qed simp
section \<open>The map\<close>

lemma radix_cong:
  assumes "rnodes r' = rnodes r" "root r' = root r" "next_node r' = next_node r"
  shows "radix_tree r' \<longleftrightarrow> radix_tree r" "radix_map r' = radix_map r"
  using assms by (auto simp: radix_tree_def radix_map_def)

lemma radix_get_ok:
  assumes "radix_inv r"
  shows "\<exists>r'. radix_get key r = Some (radix_map r key, r') \<and> radix_inv r' \<and> radix_map r' = radix_map r \<and> nodes_left r' = nodes_left r"
proof -
  let ?l = "(radix_lock r)\<lparr>nxt := nxt (radix_lock r) + 1\<rparr>"
  let ?r = "r\<lparr>radix_lock := ?l\<rparr>" and ?r' = "r\<lparr>radix_lock := unlock ?l\<rparr>"
  have t: "radix_tree ?r" and l: "lock_free (radix_lock r)" and root: "root r \<noteq> 0"
    using assms radix_cong(1) [of ?r r] by (auto simp: radix_inv_def radix_tree_def)
  have L: "length (key_path key) < RADIX_LEVELS" by (simp add: RADIX_LEVELS_eq)
  have idx: "rev (tl (radix_index RADIX_LEVELS key)) = key_path key" "hd (radix_index RADIX_LEVELS key) = key_slot key"
    by (simp_all add: key_path_def key_slot_def)
  have g: "get_path (key_path key) (root r) ?r = Some (case radix_walk r (key_path key) of None \<Rightarrow> 0 | Some m \<Rightarrow> m)"
    using get_path_at [OF t key_slot_bound(2), of "[]" key] L by simp
  have "radix_get key r = Some (radix_map r key, ?r')"
  proof (cases "radix_walk r (key_path key)")
    case None
    then show ?thesis using g l root by (simp add: radix_get_def lock_simps idx radix_map_def entry_at_def)
  next
    case (Some m)
    from get_entry_at [OF t L _ key_slot_bound(1) [of key], of m] Some have "get_entry ?r m (key_slot key) = Some (radix_map r key)"
      by (auto simp: radix_map_def)
    moreover have "m \<noteq> 0" by (rule radix_treeD [OF t L, of m]) (use Some in simp_all)
    ultimately show ?thesis using g l root Some by (simp add: radix_get_def lock_simps idx)
  qed
  moreover have "radix_inv ?r'" using assms radix_cong(1) [of ?r' r] by (simp add: radix_inv_def lock_simps)
  moreover have "radix_map ?r' = radix_map r" using radix_cong(2) [of ?r' r] by simp
  ultimately show ?thesis by simp
qed

lemma radix_add_ok:
  assumes i: "radix_inv r" and v: "value = 0 \<or> radix_map r key = 0"
  shows "\<exists>ret r'. radix_add key value r = Some (ret, r') \<and> radix_inv r' \<and> nodes_left r \<le> nodes_left r' + 15
    \<and> (ret = 0 \<and> radix_map r' = (radix_map r)(key := value) \<or> ret = - ENOMEM \<and> radix_map r' = radix_map r \<and> nodes_left r < 15)"
proof -
  let ?r = "r\<lparr>radix_lock := (radix_lock r)\<lparr>nxt := nxt (radix_lock r) + 1\<rparr>\<rparr>"
  have t: "radix_tree ?r" and l: "lock_free (radix_lock r)" and root: "root r \<noteq> 0"
    using i radix_cong(1) [of ?r r] by (auto simp: radix_inv_def radix_tree_def)
  have L: "length (key_path key) < RADIX_LEVELS" "length (key_path key) = 15" by (simp_all add: RADIX_LEVELS_eq)
  have idx: "rev (tl (radix_index RADIX_LEVELS key)) = key_path key" "hd (radix_index RADIX_LEVELS key) = key_slot key"
    by (simp_all add: key_path_def key_slot_def)
  from add_path_ok [OF t key_slot_bound(2), of "[]" key "root r"] L root obtain n r2 where
    a: "add_path (key_path key) (root r) ?r = Some (n, r2)" "radix_tree r2" "radix_map r2 = radix_map ?r" "radix_lock r2 = radix_lock ?r"
      "n \<noteq> 0 \<longrightarrow> radix_walk r2 (key_path key) = Some n" "n = 0 \<longrightarrow> nodes_left r < 15" "nodes_left r \<le> nodes_left r2 + 15" by auto
  have m2: "radix_map r2 = radix_map r" using a(3) radix_cong(2) [of ?r r] by simp
  have free: "lock_free (unlock (radix_lock r2))" using l a(4) by (simp add: lock_simps)
  show ?thesis
  proof (cases "n = 0")
    case True
    let ?r' = "r2\<lparr>radix_lock := unlock (radix_lock r2)\<rparr>"
    have "radix_add key value r = Some (- ENOMEM, ?r')" using a(1) True l root by (simp add: radix_add_def lock_simps Let_def idx)
    moreover have "radix_inv ?r'" "radix_map ?r' = radix_map r"
      using a(2) free m2 radix_cong [of ?r' r2] by (auto simp: radix_inv_def)
    ultimately show ?thesis using a(6,7) True by (intro exI [of _ "- ENOMEM"] exI [of _ ?r']) simp
  next
    case False
    then have w: "radix_walk r2 (key_path key) = Some n" using a(5) by simp
    have old: "get_entry r2 n (key_slot key) = Some (radix_map r key)"
      using get_entry_at [OF a(2) L(1) w key_slot_bound(1) [of key]] unfolding m2 [symmetric] by (auto simp: radix_map_def)
    from set_value [OF a(2) key_path_length w key_slot_bound(1) [of key], where v = "value"] obtain r3 where
      s: "set_entry n (key_slot key) value r2 = Some r3" "radix_tree r3" "radix_lock r3 = radix_lock r2" "nodes_left r3 = nodes_left r2"
      "\<forall>q j. length q < RADIX_LEVELS \<longrightarrow> radix_entry r3 q j = (if q = key_path key \<and> j = key_slot key then Some value else radix_entry r2 q j)"
      by blast
    have "radix_map r3 k = ((radix_map r)(key := value)) k" for k
      using s(5) key_inj [of k key] unfolding m2 [symmetric] by (auto simp: radix_map_def RADIX_LEVELS_eq)
    then have m3: "radix_map r3 = (radix_map r)(key := value)" by blast
    let ?r' = "r3\<lparr>radix_lock := unlock (radix_lock r3)\<rparr>"
    have "radix_add key value r = Some (0, ?r')"
      using a(1) False l root old s(1) v by (auto simp: radix_add_def lock_simps Let_def idx)
    moreover have "radix_inv ?r'" "radix_map ?r' = (radix_map r)(key := value)"
      using s(2,3) free m3 radix_cong [of ?r' r3] by (auto simp: radix_inv_def)
    ultimately show ?thesis using a(7) s(4) by (intro exI [of _ 0] exI [of _ ?r']) simp
  qed
qed
section \<open>The interface\<close>

text \<open>
  What the users of the tree rely on: \<open>lookup\<close> is the content (0 where there is nothing), and
  while \<open>room\<close> is at least \<open>cost\<close>, adding does not run out of memory.
\<close>

locale key_store =
  fixes inv :: "'s \<Rightarrow> bool" and lookup :: "'s \<Rightarrow> 'k \<Rightarrow> nat" and room :: "'s \<Rightarrow> nat" and cost :: nat
    and add :: "'k \<Rightarrow> nat \<Rightarrow> 's \<Rightarrow> (int \<times> 's) option" and get :: "'k \<Rightarrow> 's \<Rightarrow> (nat \<times> 's) option"
  assumes get_law: "inv s \<Longrightarrow> \<exists>s'. get k s = Some (lookup s k, s') \<and> inv s' \<and> lookup s' = lookup s \<and> room s' = room s"
    and add_law: "inv s \<Longrightarrow> v = 0 \<or> lookup s k = 0 \<Longrightarrow> \<exists>ret s'. add k v s = Some (ret, s') \<and> inv s' \<and> room s \<le> room s' + cost
      \<and> (ret = 0 \<and> lookup s' = (lookup s)(k := v) \<or> ret < 0 \<and> lookup s' = lookup s \<and> room s < cost)"
begin

lemma add_room:
  assumes "inv s" "v = 0 \<or> lookup s k = 0" "cost \<le> room s"
  shows "\<exists>s'. add k v s = Some (0, s') \<and> inv s' \<and> lookup s' = (lookup s)(k := v) \<and> room s \<le> room s' + cost"
  using add_law [OF assms(1,2)] assms(3) by fastforce

lemma add_get:
  assumes "inv s" "lookup s k = 0" "cost \<le> room s"
  shows "\<exists>s1 s2. add k v s = Some (0, s1) \<and> get j s1 = Some (if j = k then v else lookup s j, s2) \<and> inv s2"
proof -
  from add_room [OF assms(1) disjI2 [OF assms(2)] assms(3)] obtain s1 where
    s1: "add k v s = Some (0, s1)" "inv s1" "lookup s1 = (lookup s)(k := v)" by blast
  from get_law [OF s1(2), of j] s1 show ?thesis by auto
qed

text \<open>Adding under new keys, one after the other.\<close>

fun add_all :: "('k \<times> nat) list \<Rightarrow> 's \<Rightarrow> 's option" where
  "add_all [] s = Some s"
| "add_all ((k, v) # kvs) s = do { (r, s1) \<leftarrow> add k v s; if r = 0 then add_all kvs s1 else None }"

lemma add_all_lookup:
  assumes "inv s" "distinct (map fst kvs)" "\<forall>(k, v) \<in> set kvs. lookup s k = 0" "cost * length kvs \<le> room s"
  shows "\<exists>s'. add_all kvs s = Some s' \<and> inv s' \<and> (\<forall>(k, v) \<in> set kvs. lookup s' k = v)
    \<and> (\<forall>k. k \<notin> fst ` set kvs \<longrightarrow> lookup s' k = lookup s k)"
  using assms
proof (induction kvs arbitrary: s)
  case (Cons kv kvs)
  obtain k v where kv: "kv = (k, v)" by (cases kv)
  from add_room [OF Cons.prems(1), of v k] Cons.prems(3,4) kv obtain s1 where
    s1: "add k v s = Some (0, s1)" "inv s1" "lookup s1 = (lookup s)(k := v)" "room s \<le> room s1 + cost" by auto
  have "\<forall>(j, w) \<in> set kvs. lookup s1 j = 0" using Cons.prems(2,3) s1(3) kv by (force simp: image_iff)
  from Cons.IH [OF s1(2) _ this] Cons.prems(2,4) s1(4) obtain s' where
    s': "add_all kvs s1 = Some s'" "inv s'" "\<forall>(j, w) \<in> set kvs. lookup s' j = w" "\<forall>j. j \<notin> fst ` set kvs \<longrightarrow> lookup s' j = lookup s1 j"
    by auto
  then show ?case using s1 kv Cons.prems(2) by auto
qed simp

end

interpretation rt: key_store radix_inv radix_map nodes_left 15 radix_add radix_get
proof unfold_locales
  fix s and v :: nat and k assume "radix_inv s" "v = 0 \<or> radix_map s k = 0"
  from radix_add_ok [OF this] show "\<exists>ret s'. radix_add k v s = Some (ret, s') \<and> radix_inv s' \<and> nodes_left s \<le> nodes_left s' + 15
      \<and> (ret = 0 \<and> radix_map s' = (radix_map s)(k := v) \<or> ret < 0 \<and> radix_map s' = radix_map s \<and> nodes_left s < 15)"
    by (elim exE conjE disjE) (auto simp: ENOMEM_def)
qed (rule radix_get_ok)

lemma init_radix_ok:
  assumes "nodes_left r \<noteq> 0" "0 < next_node r" "\<forall>n \<ge> next_node r. rnodes r n = None" "rnodes r 0 = None"
  shows "\<exists>r'. init_radix r = Some r' \<and> radix_inv r' \<and> radix_map r' = (\<lambda>_. 0) \<and> nodes_left r = Suc (nodes_left r')"
proof -
  let ?r = "r\<lparr>rnodes := (rnodes r)(next_node r \<mapsto> replicate RADIX_NODE_SIZE 0), next_node := next_node r + 1,
      nodes_left := nodes_left r - 1, root := next_node r, value_deleter := False, radix_lock := lock_init\<rparr>"
  define st where "st = (rnodes r)(next_node r \<mapsto> replicate RADIX_NODE_SIZE 0)"
  have n: "walk radix_child st (next_node r) q = (if q = [] then Some (next_node r) else None)" for q
    by (cases q) (auto simp: st_def nth_opt_def)
  have st: "st (next_node r) = Some (replicate RADIX_NODE_SIZE 0)" by (simp add: st_def)
  have "node_tree radix_child RADIX_NODE_SIZE RADIX_LEVELS st (next_node r)"
    using st by (intro treeI) (auto simp: n RADIX_LEVELS_eq split: if_splits)
  then have "radix_tree ?r" using assms by (simp add: radix_tree_def st_def)
  moreover have "radix_map ?r key = 0" for key
    using n [of "key_path key"] unfolding st_def by (auto simp: radix_map_def entry_at_def nth_opt_def split: if_splits)
  ultimately show ?thesis using assms
    by (intro exI [of _ ?r]) (auto simp: init_radix_def new_radix_node_def radix_inv_def lock_simps)
qed

section \<open>Properties\<close>



text \<open>
  \<^verbatim>\<open>radix_free\<close> of a tree that was never given a root takes the lock and returns \<^verbatim>\<open>-EINVAL\<close> with
  the lock held, so that the next operation on the tree waits forever.
\<close>

theorem radix_free_keeps_lock:
  assumes "lock_free (radix_lock r)" "root r = 0"
  shows "\<exists>r'. radix_free r = Some (- EINVAL, [], r') \<and> radix_get key r' = None"
  using assms by (auto simp: radix_free_def radix_get_def lock_def Let_def lock_free_def)

theorem radix_free_keeps_lock_witness: "\<exists>r'. radix_free (the (new_radix True 0)) = Some (- EINVAL, [], r') \<and> radix_get 5 r' = None"
  by (rule radix_free_keeps_lock) (simp_all add: new_radix_def lock_free_def)

end
