(* ===== verification/Page_Table.thy ===== *)
theory Page_Table
  imports Node_Tree
begin

text \<open>
  The aarch64 page tables of \<^verbatim>\<open>kernel/arch/aarch64/mm/page_table.c\<close> and \<^verbatim>\<open>page_table.h\<close>.  A page
  table page is an array of 512 descriptors under its kernel virtual address; a descriptor is a
  64-bit word with the bit fields of \<^verbatim>\<open>pte_t\<close>.  \<^verbatim>\<open>get_pages(0)\<close> hands out the addresses of the
  list \<open>free_pages\<close>.  The translation cache is the partial map \<open>tlb\<close>.
\<close>

section \<open>Descriptors\<close>

definition PAGE_SHIFT :: nat where "PAGE_SHIFT = 12"
definition PAGE_SIZE :: u64 where "PAGE_SIZE = push_bit PAGE_SHIFT 1"
definition PAGE_ORDER :: nat where "PAGE_ORDER = 9"
definition PTP_ENTRIES :: nat where "PTP_ENTRIES = 2 ^ PAGE_ORDER"
definition PTP_INDEX_MASK :: u64 where "PTP_INDEX_MASK = push_bit PAGE_ORDER 1 - 1"

definition L2_PER_ENTRY_PAGES :: nat where "L2_PER_ENTRY_PAGES = 2 ^ 9"
definition L1_PER_ENTRY_PAGES :: nat where "L1_PER_ENTRY_PAGES = 2 ^ 18"
definition L0_PER_ENTRY_PAGES :: nat where "L0_PER_ENTRY_PAGES = PTP_ENTRIES * L1_PER_ENTRY_PAGES"

definition VMR_READ :: u64 where "VMR_READ = push_bit 0 1"
definition VMR_WRITE :: u64 where "VMR_WRITE = push_bit 1 1"
definition VMR_EXEC :: u64 where "VMR_EXEC = push_bit 2 1"
definition VMR_DEVICE :: u64 where "VMR_DEVICE = push_bit 3 1"

text \<open>A bit field of width \<open>w\<close> at bit \<open>lo\<close>.\<close>

definition get_field :: "nat \<Rightarrow> nat \<Rightarrow> u64 \<Rightarrow> u64" where
  "get_field lo w x = take_bit w (drop_bit lo x)"

definition set_field :: "nat \<Rightarrow> nat \<Rightarrow> u64 \<Rightarrow> u64 \<Rightarrow> u64" where
  "set_field lo w v x = (x AND NOT (push_bit lo (mask w))) OR push_bit lo (take_bit w v)"

definition set_is_valid :: "u64 \<Rightarrow> u64 \<Rightarrow> u64" where "set_is_valid = set_field 0 1"
definition set_is_table :: "u64 \<Rightarrow> u64 \<Rightarrow> u64" where "set_is_table = set_field 1 1"
definition set_next_table_addr :: "u64 \<Rightarrow> u64 \<Rightarrow> u64" where "set_next_table_addr = set_field 12 36"
definition next_table_addr :: "u64 \<Rightarrow> u64" where "next_table_addr = get_field 12 36"
definition set_is_page :: "u64 \<Rightarrow> u64 \<Rightarrow> u64" where "set_is_page = set_field 1 1"
definition set_attr_index :: "u64 \<Rightarrow> u64 \<Rightarrow> u64" where "set_attr_index = set_field 2 3"
definition set_AP :: "u64 \<Rightarrow> u64 \<Rightarrow> u64" where "set_AP = set_field 6 2"
definition set_SH :: "u64 \<Rightarrow> u64 \<Rightarrow> u64" where "set_SH = set_field 8 2"
definition set_AF :: "u64 \<Rightarrow> u64 \<Rightarrow> u64" where "set_AF = set_field 10 1"
definition set_pfn :: "u64 \<Rightarrow> u64 \<Rightarrow> u64" where "set_pfn = set_field 12 36"
definition set_PXN :: "u64 \<Rightarrow> u64 \<Rightarrow> u64" where "set_PXN = set_field 53 1"
definition set_UXN :: "u64 \<Rightarrow> u64 \<Rightarrow> u64" where "set_UXN = set_field 54 1"

definition IS_PTE_INVALID :: "u64 \<Rightarrow> bool" where "IS_PTE_INVALID pte \<longleftrightarrow> pte AND 1 = 0"
definition IS_PTE_TABLE :: "u64 \<Rightarrow> bool" where "IS_PTE_TABLE pte \<longleftrightarrow> pte AND 2 \<noteq> 0"

definition GET_PADDR_IN_PTE :: "u64 \<Rightarrow> u64" where "GET_PADDR_IN_PTE e = push_bit PAGE_SHIFT (next_table_addr e)"
definition GET_NEXT_PTP :: "u64 \<Rightarrow> u64" where "GET_NEXT_PTP e = phys_to_virt (GET_PADDR_IN_PTE e)"

text \<open>\<^verbatim>\<open>GET_L0_INDEX\<close> to \<^verbatim>\<open>GET_L3_INDEX\<close>, and the offsets in a block or page.\<close>

definition GET_INDEX :: "nat \<Rightarrow> u64 \<Rightarrow> nat" where
  "GET_INDEX level va = unat (drop_bit ((3 - level) * PAGE_ORDER + PAGE_SHIFT) va AND PTP_INDEX_MASK)"

definition GET_VA_OFFSET :: "nat \<Rightarrow> u64 \<Rightarrow> u64" where
  "GET_VA_OFFSET level va = va AND (push_bit ((3 - level) * PAGE_ORDER + PAGE_SHIFT) 1 - 1)"

definition set_pte_flags :: "u64 \<Rightarrow> u64 \<Rightarrow> u64" where
  "set_pte_flags flags e0 =
     (let e1 = set_AP (if flags AND VMR_WRITE \<noteq> 0 then 1 else 3) e0;
          e2 = set_UXN (if flags AND VMR_EXEC \<noteq> 0 then 0 else 1) e1;
          e3 = set_PXN 1 e2;
          e4 = set_AF 1 e3;
          e5 = set_SH 3 e4
      in set_attr_index (if flags AND VMR_DEVICE \<noteq> 0 then 0 else 4) e5)"

definition table_pte :: "u64 \<Rightarrow> u64" where
  "table_pte new_ptp = set_next_table_addr (drop_bit PAGE_SHIFT (virt_to_phys new_ptp)) (set_is_table 1 (set_is_valid 1 0))"

definition page_pte :: "u64 \<Rightarrow> u64 \<Rightarrow> u64" where
  "page_pte pa flags = set_pte_flags flags (set_pfn (drop_bit PAGE_SHIFT pa) (set_is_page 1 (set_is_valid 1 0)))"

section \<open>The code\<close>

record pgtbl =
  ptps :: "u64 \<Rightarrow> u64 list option"
  free_pages :: "u64 list"
  tlb :: "u64 \<Rightarrow> u64 option"

definition flush_tlb :: "pgtbl \<Rightarrow> pgtbl" where
  "flush_tlb s = s\<lparr>tlb := Map.empty\<rparr>"

definition set_pte :: "u64 \<Rightarrow> nat \<Rightarrow> u64 \<Rightarrow> pgtbl \<Rightarrow> pgtbl option" where
  "set_pte ptp i v s = do {
     xs \<leftarrow> ptps s ptp;
     ys \<leftarrow> upd_opt xs i v;
     Some (s\<lparr>ptps := (ptps s)(ptp \<mapsto> ys)\<rparr>) }"

definition NORMAL_PTP :: int where "NORMAL_PTP = 0"
definition BLOCK_PTP :: int where "BLOCK_PTP = 1"

text \<open>The result is the return value, \<^verbatim>\<open>*next_ptp\<close>, the entry \<^verbatim>\<open>*pte\<close> and the new state.\<close>

definition get_next_ptp :: "u64 \<Rightarrow> nat \<Rightarrow> u64 \<Rightarrow> bool \<Rightarrow> pgtbl \<Rightarrow> (int \<times> u64 \<times> u64 \<times> pgtbl) option" where
  "get_next_ptp cur_ptp level va alloc s =
     (if cur_ptp = 0 then Some (- ENOMAPPING, 0, 0, s)
      else do {
        BUG_ON (level > 3);
        let index = GET_INDEX level va;
        xs \<leftarrow> ptps s cur_ptp;
        entry \<leftarrow> nth_opt xs index;
        if IS_PTE_INVALID entry \<and> \<not> alloc then Some (- ENOMAPPING, 0, 0, s)
        else do {
          (e, s1) \<leftarrow> (if IS_PTE_INVALID entry then
              case free_pages s of
                [] \<Rightarrow> None
              | new_ptp # rest \<Rightarrow> do {
                  s1 \<leftarrow> set_pte cur_ptp index (table_pte new_ptp)
                    (s\<lparr>free_pages := rest, ptps := (ptps s)(new_ptp \<mapsto> replicate PTP_ENTRIES 0)\<rparr>);
                  Some (table_pte new_ptp, s1) }
            else Some (entry, s));
          Some (if IS_PTE_TABLE e then NORMAL_PTP else BLOCK_PTP, GET_NEXT_PTP e, e, s1) } })"

text \<open>The result holds the physical address and the entry.\<close>

definition query_in_pgtbl :: "u64 \<Rightarrow> u64 \<Rightarrow> pgtbl \<Rightarrow> (int \<times> u64 \<times> u64) option" where
  "query_in_pgtbl pgtbl va s = do {
     (ret0, l1_ptp, _, _) \<leftarrow> get_next_ptp pgtbl 0 va False s;
     if ret0 < 0 then Some (ret0, 0, 0)
     else do {
       (ret1, l2_ptp, pte1, _) \<leftarrow> get_next_ptp l1_ptp 1 va False s;
       if ret1 < 0 then Some (ret1, 0, 0)
       else if ret1 = BLOCK_PTP then Some (0, virt_to_phys l2_ptp + GET_VA_OFFSET 1 va, pte1)
       else do {
         (ret2, l3_ptp, pte2, _) \<leftarrow> get_next_ptp l2_ptp 2 va False s;
         if ret2 < 0 then Some (ret2, 0, 0)
         else if ret2 = BLOCK_PTP then Some (0, virt_to_phys l3_ptp + GET_VA_OFFSET 2 va, pte2)
         else do {
           (ret3, phys_page, pte3, _) \<leftarrow> get_next_ptp l3_ptp 3 va False s;
           if ret3 < 0 then Some (ret3, 0, 0)
           else Some (0, virt_to_phys phys_page + GET_VA_OFFSET 3 va, pte3) } } } }"

text \<open>The debugging variant takes every entry for a table.\<close>

definition debug_query_in_pgtbl :: "u64 \<Rightarrow> u64 \<Rightarrow> pgtbl \<Rightarrow> (int \<times> u64 \<times> u64) option" where
  "debug_query_in_pgtbl pgtbl va s = do {
     (ret0, l1_ptp, _, _) \<leftarrow> get_next_ptp pgtbl 0 va False s;
     if ret0 < 0 then Some (ret0, 0, 0)
     else do {
       (ret1, l2_ptp, _, _) \<leftarrow> get_next_ptp l1_ptp 1 va False s;
       if ret1 < 0 then Some (ret1, 0, 0)
       else do {
         (ret2, l3_ptp, _, _) \<leftarrow> get_next_ptp l2_ptp 2 va False s;
         if ret2 < 0 then Some (ret2, 0, 0)
         else do {
           (ret3, phys_page, pte, _) \<leftarrow> get_next_ptp l3_ptp 3 va False s;
           if ret3 < 0 then Some (ret3, 0, 0)
           else Some (0, virt_to_phys phys_page + GET_VA_OFFSET 3 va, pte) } } } }"

definition total_page_cnt :: "u64 \<Rightarrow> nat" where
  "total_page_cnt len = unat (len div PAGE_SIZE) + (if len mod PAGE_SIZE > 0 then 1 else 0)"

text \<open>The loop over the entries of a last-level table, of which \<open>n\<close> are left.\<close>

fun map_l3 :: "nat \<Rightarrow> u64 \<Rightarrow> u64 \<Rightarrow> u64 \<Rightarrow> nat \<Rightarrow> u64 \<Rightarrow> pgtbl \<Rightarrow> (u64 \<times> u64 \<times> nat \<times> pgtbl) option" where
  "map_l3 0 l3_ptp va pa cnt flags s = Some (va, pa, cnt, s)"
| "map_l3 (Suc n) l3_ptp va pa cnt flags s = do {
     s1 \<leftarrow> set_pte l3_ptp (PTP_ENTRIES - Suc n) (page_pte pa flags) s;
     if cnt - 1 = 0 then Some (va + PAGE_SIZE, pa + PAGE_SIZE, cnt - 1, s1)
     else map_l3 n l3_ptp (va + PAGE_SIZE) (pa + PAGE_SIZE) (cnt - 1) flags s1 }"

partial_function (option) map_loop :: "u64 \<Rightarrow> u64 \<Rightarrow> u64 \<Rightarrow> nat \<Rightarrow> u64 \<Rightarrow> pgtbl \<Rightarrow> pgtbl option" where
  [code]: "map_loop pgtbl va pa cnt flags s =
     (if cnt = 0 then Some s
      else do {
        (ret0, l1_ptp, _, s0) \<leftarrow> get_next_ptp pgtbl 0 va True s;
        BUG_ON (ret0 \<noteq> 0);
        (ret1, l2_ptp, _, s1) \<leftarrow> get_next_ptp l1_ptp 1 va True s0;
        BUG_ON (ret1 \<noteq> 0);
        (ret2, l3_ptp, _, s2) \<leftarrow> get_next_ptp l2_ptp 2 va True s1;
        BUG_ON (ret2 \<noteq> 0);
        (va', pa', cnt', s3) \<leftarrow> map_l3 (PTP_ENTRIES - GET_INDEX 3 va) l3_ptp va pa cnt flags s2;
        map_loop pgtbl va' pa' cnt' flags s3 })"

definition map_range_in_pgtbl :: "u64 \<Rightarrow> u64 \<Rightarrow> u64 \<Rightarrow> u64 \<Rightarrow> u64 \<Rightarrow> pgtbl \<Rightarrow> (int \<times> pgtbl) option" where
  "map_range_in_pgtbl pgtbl va pa len flags s = do {
     BUG_ON (pgtbl = 0);
     s1 \<leftarrow> map_loop pgtbl va pa (total_page_cnt len) flags s;
     Some (0, flush_tlb s1) }"

text \<open>
  \<^verbatim>\<open>unmap_range_in_pgtbl\<close> and \<^verbatim>\<open>mprotect_in_pgtbl\<close> have the same loops and differ in the change \<open>f\<close>
  of an entry.
\<close>

fun update_l3 :: "(u64 \<Rightarrow> u64) \<Rightarrow> nat \<Rightarrow> u64 \<Rightarrow> u64 \<Rightarrow> int \<Rightarrow> pgtbl \<Rightarrow> (u64 \<times> int \<times> pgtbl) option" where
  "update_l3 f 0 l3_ptp va cnt s = Some (va, cnt, s)"
| "update_l3 f (Suc n) l3_ptp va cnt s = do {
     xs \<leftarrow> ptps s l3_ptp;
     e \<leftarrow> nth_opt xs (PTP_ENTRIES - Suc n);
     s1 \<leftarrow> set_pte l3_ptp (PTP_ENTRIES - Suc n) (f e) s;
     if cnt - 1 = 0 then Some (va + PAGE_SIZE, cnt - 1, s1)
     else update_l3 f n l3_ptp (va + PAGE_SIZE) (cnt - 1) s1 }"

partial_function (option) update_loop :: "(u64 \<Rightarrow> u64) \<Rightarrow> u64 \<Rightarrow> u64 \<Rightarrow> int \<Rightarrow> pgtbl \<Rightarrow> pgtbl option" where
  [code]: "update_loop f pgtbl va cnt s =
     (if cnt \<le> 0 then Some s
      else do {
        (ret0, l1_ptp, _, _) \<leftarrow> get_next_ptp pgtbl 0 va False s;
        if ret0 = - ENOMAPPING
        then update_loop f pgtbl (va + of_nat L0_PER_ENTRY_PAGES * PAGE_SIZE) (cnt - int L0_PER_ENTRY_PAGES) s
        else do {
          (ret1, l2_ptp, _, _) \<leftarrow> get_next_ptp l1_ptp 1 va False s;
          if ret1 = - ENOMAPPING
          then update_loop f pgtbl (va + of_nat L1_PER_ENTRY_PAGES * PAGE_SIZE) (cnt - int L1_PER_ENTRY_PAGES) s
          else do {
            (ret2, l3_ptp, _, _) \<leftarrow> get_next_ptp l2_ptp 2 va False s;
            if ret2 = - ENOMAPPING
            then update_loop f pgtbl (va + of_nat L2_PER_ENTRY_PAGES * PAGE_SIZE) (cnt - int L2_PER_ENTRY_PAGES) s
            else do {
              (va', cnt', s1) \<leftarrow> update_l3 f (PTP_ENTRIES - GET_INDEX 3 va) l3_ptp va cnt s;
              update_loop f pgtbl va' cnt' s1 } } } })"

definition PTE_DESCRIPTOR_INVALID :: u64 where "PTE_DESCRIPTOR_INVALID = 0"

definition unmap_range_in_pgtbl :: "u64 \<Rightarrow> u64 \<Rightarrow> u64 \<Rightarrow> pgtbl \<Rightarrow> (int \<times> pgtbl) option" where
  "unmap_range_in_pgtbl pgtbl va len s =
     (if pgtbl = 0 then Some (0, s)
      else do {
        s1 \<leftarrow> update_loop (\<lambda>_. PTE_DESCRIPTOR_INVALID) pgtbl va (int (total_page_cnt len)) s;
        Some (0, flush_tlb s1) })"

definition mprotect_in_pgtbl :: "u64 \<Rightarrow> u64 \<Rightarrow> u64 \<Rightarrow> u64 \<Rightarrow> pgtbl \<Rightarrow> (int \<times> pgtbl) option" where
  "mprotect_in_pgtbl pgtbl va len flags s =
     (if pgtbl = 0 then Some (0, s)
      else do {
        s1 \<leftarrow> update_loop (\<lambda>e. if IS_PTE_INVALID e then e else set_pte_flags flags e) pgtbl va (int (total_page_cnt len)) s;
        Some (0, flush_tlb s1) })"
section \<open>Bit fields\<close>

lemma bit_set_field:
  "bit (set_field lo w v x) i \<longleftrightarrow> (if lo \<le> i \<and> i < lo + w \<and> i < 64 then bit v (i - lo) else bit x i)"
  by (auto simp: set_field_def bit_simps dest: bit_imp_le_length)

lemma bit_set_field_other: "i < lo \<or> lo + w \<le> i \<Longrightarrow> bit (set_field lo w v x) i = bit x i"
  by (auto simp: bit_set_field)

lemmas set_field_defs = set_is_valid_def set_is_table_def set_next_table_addr_def set_is_page_def set_attr_index_def set_AP_def
  set_SH_def set_AF_def set_pfn_def set_PXN_def set_UXN_def

lemma IS_PTE_INVALID_bit: "IS_PTE_INVALID e \<longleftrightarrow> \<not> bit e 0"
  by (simp add: IS_PTE_INVALID_def and_one_eq odd_iff_mod_2_eq_one bit_0 even_iff_mod_2_eq_zero)

lemma IS_PTE_TABLE_bit: "IS_PTE_TABLE e \<longleftrightarrow> bit e 1"
proof -
  have "e AND 2 = (if bit e 1 then 2 else 0)" by (rule bit_eqI) (auto simp: bit_simps bit_2_iff)
  then show ?thesis by (simp add: IS_PTE_TABLE_def)
qed

lemma bit_set_pte_flags:
  "i \<notin> {2..4} \<union> {6..10} \<union> {53, 54} \<Longrightarrow> bit (set_pte_flags flags e) i = bit e i"
proof -
  assume "i \<notin> {2..4} \<union> {6..10} \<union> {53, 54}"
  then have "i < 2 \<or> 2 + 3 \<le> i" "i < 6 \<or> 6 + 2 \<le> i" "i < 8 \<or> 8 + 2 \<le> i" "i < 10 \<or> 10 + 1 \<le> i" "i < 53 \<or> 53 + 1 \<le> i" "i < 54 \<or> 54 + 1 \<le> i"
    by auto
  then show ?thesis unfolding set_pte_flags_def Let_def set_field_defs by (simp only: bit_set_field_other)
qed

lemma next_table_addr_flags: "next_table_addr (set_pte_flags flags e) = next_table_addr e"
  by (rule bit_eqI) (auto simp: next_table_addr_def get_field_def bit_simps bit_set_pte_flags)

lemma table_pte_bits [simp]: "\<not> IS_PTE_INVALID (table_pte a)" "IS_PTE_TABLE (table_pte a)"
  by (simp_all add: IS_PTE_INVALID_bit IS_PTE_TABLE_bit table_pte_def set_field_defs bit_set_field)

lemma page_pte_bits [simp]: "\<not> IS_PTE_INVALID (page_pte pa flags)" "IS_PTE_TABLE (page_pte pa flags)"
  by (simp_all add: IS_PTE_INVALID_bit IS_PTE_TABLE_bit page_pte_def bit_set_pte_flags set_field_defs bit_set_field)

lemma flags_valid [simp]: "IS_PTE_INVALID (set_pte_flags flags e) \<longleftrightarrow> IS_PTE_INVALID e"
  by (simp add: IS_PTE_INVALID_bit bit_set_pte_flags)

lemma zero_invalid [simp]: "IS_PTE_INVALID 0"
  by (simp add: IS_PTE_INVALID_def)

definition page_aligned :: "u64 \<Rightarrow> bool" where
  "page_aligned pa \<longleftrightarrow> (\<forall>i. i < 12 \<or> 48 \<le> i \<longrightarrow> \<not> bit pa i)"

lemma table_addr_page: "page_aligned pa \<Longrightarrow> push_bit 12 (take_bit 36 (drop_bit 12 pa)) = pa"
proof (rule bit_eqI)
  fix n assume a: "page_aligned pa"
  then have "12 \<le> n \<and> n < 48" if "bit pa n" using that unfolding page_aligned_def by (meson not_le)
  then show "bit (push_bit 12 (take_bit 36 (drop_bit 12 pa))) n = bit pa n" by (auto simp: bit_simps)
qed

lemma GET_NEXT_PTP_table:
  assumes "page_aligned (virt_to_phys a)"
  shows "GET_NEXT_PTP (table_pte a) = a"
proof -
  have "next_table_addr (table_pte a) = take_bit 36 (drop_bit 12 (virt_to_phys a))"
    by (rule bit_eqI) (auto simp: next_table_addr_def get_field_def table_pte_def set_field_defs bit_simps bit_set_field PAGE_SHIFT_def)
  then show ?thesis using table_addr_page [OF assms] by (simp add: GET_NEXT_PTP_def GET_PADDR_IN_PTE_def PAGE_SHIFT_def)
qed

lemma GET_PADDR_page:
  assumes "page_aligned pa"
  shows "GET_PADDR_IN_PTE (page_pte pa flags) = pa"
proof -
  have "next_table_addr (page_pte pa flags) = take_bit 36 (drop_bit 12 pa)"
    unfolding page_pte_def next_table_addr_flags
    by (rule bit_eqI) (auto simp: next_table_addr_def get_field_def set_field_defs bit_simps bit_set_field PAGE_SHIFT_def)
  then show ?thesis using table_addr_page [OF assms] by (simp add: GET_PADDR_IN_PTE_def PAGE_SHIFT_def)
qed

section \<open>Page numbers\<close>

text \<open>The number of the page of an address; an address has 48 bits that count.\<close>

definition vpn :: "u64 \<Rightarrow> nat" where
  "vpn va = unat va div 4096"

definition vpath :: "nat \<Rightarrow> nat list" where
  "vpath v = [v div 512 ^ 3 mod 512, v div 512 ^ 2 mod 512, v div 512 mod 512]"

lemma PTP_ENTRIES_eq [simp]: "PTP_ENTRIES = 512"
  by (simp add: PTP_ENTRIES_def PAGE_ORDER_def)

lemma PAGE_SIZE_eq [simp]: "PAGE_SIZE = 4096"
  by (simp add: PAGE_SIZE_def PAGE_SHIFT_def)

lemma GET_INDEX_eq: "GET_INDEX level va = vpn va div 512 ^ (3 - level) mod 512"
proof -
  have m: "PTP_INDEX_MASK = mask 9" by (simp add: PTP_INDEX_MASK_def PAGE_ORDER_def mask_eq_exp_minus_1)
  have "unat (drop_bit n va AND PTP_INDEX_MASK) = unat va div 2 ^ n mod 512" for n
    unfolding m take_bit_eq_mask [symmetric] unsigned_take_bit_eq unat_drop_bit_eq by (simp add: drop_bit_eq_div take_bit_eq_mod)
  moreover have "2 ^ ((3 - level) * 9 + 12) = 4096 * (512::nat) ^ (3 - level)" by (simp add: power_add mult.commute [of "3 - level"] power_mult)
  ultimately show ?thesis by (simp add: GET_INDEX_def PAGE_ORDER_def PAGE_SHIFT_def vpn_def div_mult2_eq)
qed

lemma vpath_index: "vpath (vpn va) = [GET_INDEX 0 va, GET_INDEX 1 va, GET_INDEX 2 va]" "GET_INDEX 3 va = vpn va mod 512"
  by (simp_all add: GET_INDEX_eq vpath_def numeral_2_eq_2)

lemma vpath_eq:
  assumes "v < 2 ^ 36" "w < 2 ^ 36"
  shows "vpath v = vpath w \<longleftrightarrow> v div 512 = w div 512"
proof
  assume e: "vpath v = vpath w"
  have d: "x div 512 = x div 512 ^ 3 mod 512 * 512 ^ 2 + x div 512 ^ 2 mod 512 * 512 + x div 512 mod 512" if "x < 2 ^ 36" for x :: nat
  proof -
    have "x div 512 ^ 3 < 512" using that by (simp add: div_less_iff_less_mult)
    moreover have "x div 512 = x div 512 div 512 div 512 * 512 ^ 2 + x div 512 div 512 mod 512 * 512 + x div 512 mod 512"
      using div_mult_mod_eq [of "x div 512" 512] div_mult_mod_eq [of "x div 512 div 512" 512] unfolding power2_eq_square by linarith
    ultimately show ?thesis by (simp add: div_mult2_eq [symmetric])
  qed
  from e have "v div 512 ^ 3 mod 512 = w div 512 ^ 3 mod 512" "v div 512 ^ 2 mod 512 = w div 512 ^ 2 mod 512" "v div 512 mod 512 = w div 512 mod 512"
    by (simp_all only: vpath_def list.inject)
  then show "v div 512 = w div 512" using d [OF assms(1)] d [OF assms(2)] by metis
next
  assume e: "v div 512 = w div 512"
  have "x div 512 ^ 3 = x div 512 div 512 ^ 2" "x div 512 ^ 2 = x div 512 div 512" for x :: nat by (simp_all add: div_mult2_eq [symmetric])
  then show "vpath v = vpath w" using e by (simp add: vpath_def)
qed

lemma unat_add_pages: "unat va + 4096 * n < 2 ^ 64 \<Longrightarrow> unat (va + of_nat n * 4096) = unat va + 4096 * n" for va :: u64
proof -
  assume a: "unat va + 4096 * n < 2 ^ 64"
  have "of_nat n * 4096 = (of_nat (4096 * n) :: u64)" by (simp add: mult.commute)
  moreover have "unat (of_nat (4096 * n) :: u64) = 4096 * n" using a by (intro unat_of_nat_lt) simp
  ultimately show ?thesis using a by (simp add: unat_word_ariths del: of_nat_mult)
qed

lemma vpn_add: "unat va + 4096 * n < 2 ^ 64 \<Longrightarrow> vpn (va + of_nat n * 4096) = vpn va + n"
  by (simp add: vpn_def unat_add_pages)
section \<open>Page tables as trees\<close>

definition pt_next :: "u64 \<Rightarrow> u64 option" where
  "pt_next e = (if IS_PTE_INVALID e then None else Some (GET_NEXT_PTP e))"

lemma pt_next_simps [simp]:
  "IS_PTE_INVALID e \<Longrightarrow> pt_next e = None" "\<not> IS_PTE_INVALID e \<Longrightarrow> pt_next e = Some (GET_NEXT_PTP e)"
  by (simp_all add: pt_next_def)

abbreviation pt_walk :: "u64 \<Rightarrow> pgtbl \<Rightarrow> nat list \<Rightarrow> u64 option" where
  "pt_walk pgtbl s \<equiv> walk pt_next (ptps s) pgtbl"

abbreviation pt_at :: "u64 \<Rightarrow> pgtbl \<Rightarrow> nat list \<Rightarrow> nat \<Rightarrow> u64 option" where
  "pt_at pgtbl s \<equiv> entry_at pt_next (ptps s) pgtbl"

text \<open>
  The tables are a tree with four levels, the upper three of which hold table descriptors only;
  the pages that are still free are not part of it and have addresses a descriptor can hold.
\<close>

definition pt_inv :: "u64 \<Rightarrow> pgtbl \<Rightarrow> bool" where
  "pt_inv pgtbl s \<longleftrightarrow> pgtbl \<noteq> 0 \<and> node_tree pt_next PTP_ENTRIES 4 (ptps s) pgtbl \<and> ptps s 0 = None
     \<and> (\<forall>p k e. length p < 3 \<and> pt_at pgtbl s p k = Some e \<and> \<not> IS_PTE_INVALID e \<longrightarrow> IS_PTE_TABLE e)
     \<and> distinct (free_pages s) \<and> (\<forall>a \<in> set (free_pages s). a \<noteq> 0 \<and> ptps s a = None \<and> page_aligned (virt_to_phys a))"

text \<open>The descriptor of a page, 0 when there is none.\<close>

definition pt_entry :: "u64 \<Rightarrow> pgtbl \<Rightarrow> nat \<Rightarrow> u64" where
  "pt_entry pgtbl s v = (case pt_at pgtbl s (vpath v) (v mod 512) of None \<Rightarrow> 0 | Some e \<Rightarrow> e)"

definition tables_kept :: "u64 \<Rightarrow> pgtbl \<Rightarrow> pgtbl \<Rightarrow> bool" where
  "tables_kept pgtbl s s' \<longleftrightarrow> (\<forall>q n. length q < 4 \<and> pt_walk pgtbl s q = Some n \<longrightarrow> pt_walk pgtbl s' q = Some n)"

lemma tables_kept_refl [simp]: "tables_kept pgtbl s s"
  by (simp add: tables_kept_def)

lemma tables_kept_trans [trans]: "tables_kept pgtbl s t \<Longrightarrow> tables_kept pgtbl t u \<Longrightarrow> tables_kept pgtbl s u"
  by (simp add: tables_kept_def)

lemma pt_node:
  assumes "pt_inv pgtbl s" "length p < 4" "pt_walk pgtbl s p = Some n"
  obtains xs where "ptps s n = Some xs" "length xs = 512" "n \<noteq> 0" "\<And>k. pt_at pgtbl s p k = (if k < 512 then Some (xs ! k) else None)"
proof -
  have t: "node_tree pt_next PTP_ENTRIES 4 (ptps s) pgtbl" using assms(1) by (simp add: pt_inv_def)
  from treeD(1) [OF t assms(2,3)] obtain xs where xs: "ptps s n = Some xs" "length xs = 512" by auto
  have "n \<noteq> 0"
  proof
    assume "n = 0"
    then show False using assms(1) xs(1) by (simp add: pt_inv_def)
  qed
  then show ?thesis using that [OF xs] entry_at_tree [OF t assms(2,3) xs(1)] by simp
qed

lemma GET_INDEX_lt [simp]: "GET_INDEX level va < 512"
  by (simp add: GET_INDEX_eq)

lemma get_next_ptp_old:
  assumes i: "pt_inv pgtbl s" and p: "length p = level" "level < 4" "pt_walk pgtbl s p = Some cur"
  shows "\<exists>e. pt_at pgtbl s p (GET_INDEX level va) = Some e
    \<and> get_next_ptp cur level va False s = (if IS_PTE_INVALID e then Some (- ENOMAPPING, 0, 0, s)
        else Some (if IS_PTE_TABLE e then NORMAL_PTP else BLOCK_PTP, GET_NEXT_PTP e, e, s))
    \<and> pt_walk pgtbl s (p @ [GET_INDEX level va]) = pt_next e \<and> (level < 3 \<and> \<not> IS_PTE_INVALID e \<longrightarrow> IS_PTE_TABLE e)"
proof -
  have L: "length p < 4" using p by simp
  obtain xs where xs: "ptps s cur = Some xs" "length xs = 512" "cur \<noteq> 0"
    "pt_at pgtbl s p (GET_INDEX level va) = Some (xs ! GET_INDEX level va)" by (rule pt_node [OF i L p(3)]) simp
  moreover have "level < 3 \<and> \<not> IS_PTE_INVALID (xs ! GET_INDEX level va) \<longrightarrow> IS_PTE_TABLE (xs ! GET_INDEX level va)"
    using i xs(4) p(1) unfolding pt_inv_def by blast
  ultimately show ?thesis using p(2) by (intro exI [of _ "xs ! GET_INDEX level va"]) (simp add: get_next_ptp_def walk_snoc Let_def)
qed

lemma pt_entry_zero: "pt_walk pgtbl s (vpath v) = None \<Longrightarrow> pt_entry pgtbl s v = 0"
  by (simp add: pt_entry_def entry_at_def)

lemma vpath_length [simp]: "length (vpath v) = 3"
  by (simp add: vpath_def)

text \<open>With \<open>alloc\<close> a missing table is added, which holds no page.\<close>

lemma get_next_ptp_alloc:
  assumes i: "pt_inv pgtbl s" and p: "length p = level" "level < 3" "pt_walk pgtbl s p = Some cur" and f: "free_pages s \<noteq> []"
  shows "\<exists>nx e s'. get_next_ptp cur level va True s = Some (0, nx, e, s') \<and> pt_inv pgtbl s'
    \<and> pt_walk pgtbl s' (p @ [GET_INDEX level va]) = Some nx \<and> pt_entry pgtbl s' = pt_entry pgtbl s \<and> tables_kept pgtbl s s'
    \<and> (\<forall>q. length q = 3 \<and> q \<noteq> p @ [GET_INDEX level va] \<longrightarrow> pt_walk pgtbl s' q = pt_walk pgtbl s q)
    \<and> length (free_pages s) \<le> Suc (length (free_pages s'))"
proof -
  let ?k = "GET_INDEX level va"
  have L: "length p < 4" "length p < 4 - 1" using p by simp_all
  obtain xs where xs: "ptps s cur = Some xs" "length xs = 512" "cur \<noteq> 0" "pt_at pgtbl s p ?k = Some (xs ! ?k)"
    by (rule pt_node [OF i L(1) p(3)]) simp
  have tab: "\<not> IS_PTE_INVALID (xs ! ?k) \<longrightarrow> IS_PTE_TABLE (xs ! ?k)" using i xs(4) p(1,2) unfolding pt_inv_def by blast
  show ?thesis
  proof (cases "IS_PTE_INVALID (xs ! ?k)")
    case False
    then show ?thesis using i p(2) xs tab by (simp add: get_next_ptp_def walk_snoc NORMAL_PTP_def Let_def)
  next
    case True
    obtain new rest where new: "free_pages s = new # rest" using f by (cases "free_pages s") auto
    have n: "new \<noteq> 0" "ptps s new = None" "page_aligned (virt_to_phys new)" using i new by (auto simp: pt_inv_def)
    have nt: "node_tree pt_next PTP_ENTRIES 4 (ptps s) pgtbl" using i by (simp add: pt_inv_def)
    have c: "pt_next (xs ! ?k) = None" "pt_next (table_pte new) = Some new" "pt_next 0 = None"
      using True GET_NEXT_PTP_table [OF n(3)] by simp_all
    have ne: "new \<noteq> cur" using n(2) xs(1) by auto
    have k: "?k < PTP_ENTRIES" by simp
    define st where "st = (ptps s)(new \<mapsto> replicate PTP_ENTRIES 0, cur \<mapsto> xs[?k := table_pte new])"
    note l = tree_link [OF nt L(2) p(3) xs(1) k c n(2) ne st_def]
    let ?s = "s\<lparr>free_pages := rest, ptps := st\<rparr>"
    have "get_next_ptp cur level va True s = Some (0, new, table_pte new, ?s)"
      using p(2) xs ne True new GET_NEXT_PTP_table [OF n(3)]
      by (simp add: get_next_ptp_def set_pte_def st_def NORMAL_PTP_def Let_def)
    moreover have "pt_inv pgtbl ?s"
      unfolding pt_inv_def
    proof (intro conjI allI impI ballI)
      fix q j e assume q: "length q < 3 \<and> pt_at pgtbl ?s q j = Some e \<and> \<not> IS_PTE_INVALID e"
      then consider "e = table_pte new" | "pt_at pgtbl s q j = Some e" using l(3) [of q j] by (auto split: if_splits)
      then show "IS_PTE_TABLE e" using i q unfolding pt_inv_def by cases (simp, blast)
    next
      fix a assume "a \<in> set (free_pages ?s)"
      then show "a \<noteq> 0" "ptps ?s a = None" "page_aligned (virt_to_phys a)"
        using i new xs(1) by (auto simp: pt_inv_def st_def)
    qed (use i l(1) new n(1) xs(3) in \<open>simp_all add: pt_inv_def\<close>, simp add: st_def)
    moreover have "pt_walk pgtbl ?s (p @ [?k]) = Some new" using l(2) [of "p @ [?k]"] L(2) by simp
    moreover have "pt_entry pgtbl ?s v = pt_entry pgtbl s v" for v
    proof -
      have "pt_at pgtbl s (p @ [?k]) j = None" for j using c(1) xs(4) by (simp add: entry_at_def walk_snoc)
      then show ?thesis using l(3) [of "vpath v" "v mod 512"] p by (auto simp: pt_entry_def)
    qed
    moreover have "tables_kept pgtbl s ?s"
      unfolding tables_kept_def using l(2) c(1) xs(4) by (auto simp: walk_snoc)
    moreover have "\<forall>q. length q = 3 \<and> q \<noteq> p @ [?k] \<longrightarrow> pt_walk pgtbl ?s q = pt_walk pgtbl s q" using l(2) by simp
    ultimately show ?thesis using new by (intro exI [of _ new] exI [of _ "table_pte new"] exI [of _ ?s]) auto
  qed
qed
section \<open>Changing the entries of a range\<close>

text \<open>One entry of a last-level table.\<close>

lemma set_pte_page:
  assumes i: "pt_inv pgtbl s" and v: "v < 2 ^ 36" and w: "pt_walk pgtbl s (vpath v) = Some l3"
  shows "\<exists>s'. set_pte l3 (v mod 512) e s = Some s' \<and> pt_inv pgtbl s' \<and> (\<forall>q. length q < 4 \<longrightarrow> pt_walk pgtbl s' q = pt_walk pgtbl s q)
    \<and> free_pages s' = free_pages s \<and> (\<forall>u < 2 ^ 36. pt_entry pgtbl s' u = (if u = v then e else pt_entry pgtbl s u))"
proof -
  have L: "length (vpath v) < 4" "length (vpath v) = 4 - 1" by simp_all
  obtain xs where xs: "ptps s l3 = Some xs" "length xs = 512" "l3 \<noteq> 0" by (rule pt_node [OF i L(1) w]) blast
  have nt: "node_tree pt_next PTP_ENTRIES 4 (ptps s) pgtbl" using i by (simp add: pt_inv_def)
  define st where "st = (ptps s)(l3 \<mapsto> xs[v mod 512 := e])"
  note d = tree_set_data [OF nt L(2) w xs(1) st_def]
  let ?s = "s\<lparr>ptps := st\<rparr>"
  have "set_pte l3 (v mod 512) e s = Some ?s" using xs by (simp add: set_pte_def st_def)
  moreover have "pt_inv pgtbl ?s"
    unfolding pt_inv_def
  proof (intro conjI allI impI ballI)
    fix q j x assume "length q < 3 \<and> pt_at pgtbl ?s q j = Some x \<and> \<not> IS_PTE_INVALID x"
    moreover from this have "pt_at pgtbl s q j = Some x" using d(3) [of q j] by (auto split: if_splits)
    ultimately show "IS_PTE_TABLE x" using i unfolding pt_inv_def by blast
  next
    fix a assume "a \<in> set (free_pages ?s)"
    then show "a \<noteq> 0" "ptps ?s a = None" "page_aligned (virt_to_phys a)" using i xs(1) by (auto simp: pt_inv_def st_def)
  qed (use i d(1) xs(3) in \<open>simp_all add: pt_inv_def\<close>, simp add: st_def)
  moreover have "pt_entry pgtbl ?s u = (if u = v then e else pt_entry pgtbl s u)" if "u < 2 ^ 36" for u
  proof -
    have "vpath u = vpath v \<and> u mod 512 = v mod 512 \<longleftrightarrow> u = v"
      using vpath_eq [OF that v] by (metis div_mult_mod_eq)
    then show ?thesis using d(3) [of "vpath u" "u mod 512"] by (auto simp: pt_entry_def)
  qed
  ultimately show ?thesis using d(2) by (intro exI [of _ ?s]) simp
qed

definition in_range :: "nat \<Rightarrow> nat \<Rightarrow> nat \<Rightarrow> bool" where
  "in_range v n u \<longleftrightarrow> v \<le> u \<and> u < v + n"

lemma same_table: "(v + 1) mod 512 \<noteq> 0 \<Longrightarrow> vpath (v + 1) = vpath v"
proof -
  assume "(v + 1) mod 512 \<noteq> 0"
  then have "(v + 1) div 512 = v div 512" by (simp add: div_Suc)
  moreover have "x div 512 ^ 3 = x div 512 div 512 ^ 2" "x div 512 ^ 2 = x div 512 div 512" for x :: nat by (simp_all add: div_mult2_eq [symmetric])
  ultimately show ?thesis by (simp add: vpath_def)
qed

text \<open>The inner loop of \<^verbatim>\<open>map_range_in_pgtbl\<close>, from page \<open>v\<close> to the end of its table.\<close>

lemma map_l3_ok:
  assumes "pt_inv pgtbl s" "v + cnt \<le> 2 ^ 36" "pt_walk pgtbl s (vpath v) = Some l3" "n = 512 - v mod 512" "0 < cnt" "0 < n"
  shows "\<exists>s'. map_l3 n l3 va pa cnt flags s = Some (va + of_nat (min n cnt) * 4096, pa + of_nat (min n cnt) * 4096, cnt - min n cnt, s')
    \<and> pt_inv pgtbl s' \<and> free_pages s' = free_pages s \<and> (\<forall>q. length q < 4 \<longrightarrow> pt_walk pgtbl s' q = pt_walk pgtbl s q)
    \<and> (\<forall>u < 2 ^ 36. pt_entry pgtbl s' u = (if in_range v (min n cnt) u then page_pte (pa + of_nat (u - v) * 4096) flags else pt_entry pgtbl s u))"
  using assms
proof (induction n arbitrary: s v va pa cnt)
  case (Suc n)
  have v: "v < 2 ^ 36" "512 - Suc n = v mod 512" using Suc.prems by auto
  from set_pte_page [OF Suc.prems(1) v(1) Suc.prems(3), of "page_pte pa flags"] obtain s1 where
    s1: "set_pte l3 (v mod 512) (page_pte pa flags) s = Some s1" "pt_inv pgtbl s1" "\<forall>q. length q < 4 \<longrightarrow> pt_walk pgtbl s1 q = pt_walk pgtbl s q"
      "free_pages s1 = free_pages s" "\<forall>u < 2 ^ 36. pt_entry pgtbl s1 u = (if u = v then page_pte pa flags else pt_entry pgtbl s u)" by blast
  show ?case
  proof (cases "cnt = 1 \<or> n = 0")
    case True
    then have "min (Suc n) cnt = 1" using Suc.prems(5) by auto
    moreover have "in_range v 1 u \<longleftrightarrow> u = v" for u by (auto simp: in_range_def)
    ultimately show ?thesis using True s1 v(2) Suc.prems(5) by (auto simp: Let_def)
  next
    case False
    have m: "min (Suc n) cnt = Suc (min n (cnt - 1))" using False Suc.prems(5) by auto
    have nz: "(v + 1) mod 512 \<noteq> 0" "n = 512 - (v + 1) mod 512" using Suc.prems(4) False by (auto simp: mod_Suc split: if_splits)
    have "pt_walk pgtbl s1 (vpath (v + 1)) = Some l3" using s1(3) Suc.prems(3) same_table [OF nz(1)] by simp
    from Suc.IH [OF s1(2) _ this nz(2), of "cnt - 1" "va + 4096" "pa + 4096"] Suc.prems False obtain s' where
      s': "map_l3 n l3 (va + 4096) (pa + 4096) (cnt - 1) flags s1 = Some (va + 4096 + of_nat (min n (cnt - 1)) * 4096,
          pa + 4096 + of_nat (min n (cnt - 1)) * 4096, cnt - 1 - min n (cnt - 1), s')"
        "pt_inv pgtbl s'" "free_pages s' = free_pages s1" "\<forall>q. length q < 4 \<longrightarrow> pt_walk pgtbl s' q = pt_walk pgtbl s1 q"
        "\<forall>u < 2 ^ 36. pt_entry pgtbl s' u = (if in_range (v + 1) (min n (cnt - 1)) u
            then page_pte (pa + 4096 + of_nat (u - (v + 1)) * 4096) flags else pt_entry pgtbl s1 u)" by auto
    have "pt_entry pgtbl s' u = (if in_range v (Suc (min n (cnt - 1))) u then page_pte (pa + of_nat (u - v) * 4096) flags else pt_entry pgtbl s u)"
      if u: "u < 2 ^ 36" for u
    proof (cases "in_range (v + 1) (min n (cnt - 1)) u")
      case True
      then have "u - v = Suc (u - (v + 1))" "in_range v (Suc (min n (cnt - 1))) u" by (auto simp: in_range_def)
      then show ?thesis using True s'(5) u by (simp add: algebra_simps)
    next
      case outside: False
      have "in_range v (Suc (min n (cnt - 1))) u \<longleftrightarrow> u = v" using outside by (auto simp: in_range_def)
      then show ?thesis using outside s'(5) s1(5) u by simp
    qed
    moreover have "map_l3 (Suc n) l3 va pa cnt flags s = Some (va + of_nat (Suc (min n (cnt - 1))) * 4096,
        pa + of_nat (Suc (min n (cnt - 1))) * 4096, cnt - Suc (min n (cnt - 1)), s')"
      using s1(1) s'(1) v(2) False Suc.prems(5) by (simp add: algebra_simps)
    ultimately show ?thesis using s1(3,4) s'(2,3,4) unfolding m by (intro exI [of _ s']) simp
  qed
qed simp
text \<open>The number of last-level tables a range touches; each may need three new pages.\<close>

definition tables_spanned :: "nat \<Rightarrow> nat \<Rightarrow> nat" where
  "tables_spanned v n = (if n = 0 then 0 else (v + n - 1) div 512 - v div 512 + 1)"

lemma map_descend:
  assumes "pt_inv pgtbl s" "3 \<le> length (free_pages s)"
  shows "\<exists>l1 l2 l3 e0 e1 e2 s0 s1 s2. get_next_ptp pgtbl 0 va True s = Some (0, l1, e0, s0)
    \<and> get_next_ptp l1 1 va True s0 = Some (0, l2, e1, s1) \<and> get_next_ptp l2 2 va True s1 = Some (0, l3, e2, s2)
    \<and> pt_inv pgtbl s2 \<and> pt_walk pgtbl s2 (vpath (vpn va)) = Some l3 \<and> pt_entry pgtbl s2 = pt_entry pgtbl s \<and> tables_kept pgtbl s s2
    \<and> length (free_pages s) \<le> length (free_pages s2) + 3
    \<and> (\<forall>q. length q = 3 \<and> q \<noteq> vpath (vpn va) \<longrightarrow> pt_walk pgtbl s2 q = pt_walk pgtbl s q)"
proof -
  have f: "free_pages s \<noteq> []" and p: "length [] = 0" "(0::nat) < 3" "pt_walk pgtbl s [] = Some pgtbl" using assms(2) by auto
  from get_next_ptp_alloc [OF assms(1) p f, of va] obtain l1 e0 s0 where
    a: "get_next_ptp pgtbl 0 va True s = Some (0, l1, e0, s0)" "pt_inv pgtbl s0" "pt_walk pgtbl s0 [GET_INDEX 0 va] = Some l1"
      "pt_entry pgtbl s0 = pt_entry pgtbl s" "tables_kept pgtbl s s0" "length (free_pages s) \<le> Suc (length (free_pages s0))"
      "\<forall>q. length q = 3 \<and> q \<noteq> [GET_INDEX 0 va] \<longrightarrow> pt_walk pgtbl s0 q = pt_walk pgtbl s q"
    unfolding append.simps by blast
  have f0: "free_pages s0 \<noteq> []" and p0: "length [GET_INDEX 0 va] = 1" "(1::nat) < 3" using a(6) assms(2) by auto
  from get_next_ptp_alloc [OF a(2) p0 a(3) f0, of va] obtain l2 e1 s1 where
    b: "get_next_ptp l1 1 va True s0 = Some (0, l2, e1, s1)" "pt_inv pgtbl s1" "pt_walk pgtbl s1 [GET_INDEX 0 va, GET_INDEX 1 va] = Some l2"
      "pt_entry pgtbl s1 = pt_entry pgtbl s0" "tables_kept pgtbl s0 s1" "length (free_pages s0) \<le> Suc (length (free_pages s1))"
      "\<forall>q. length q = 3 \<and> q \<noteq> [GET_INDEX 0 va, GET_INDEX 1 va] \<longrightarrow> pt_walk pgtbl s1 q = pt_walk pgtbl s0 q"
    unfolding append.simps by blast
  have f1: "free_pages s1 \<noteq> []" and p1: "length [GET_INDEX 0 va, GET_INDEX 1 va] = 2" "(2::nat) < 3" using a(6) b(6) assms(2) by auto
  from get_next_ptp_alloc [OF b(2) p1 b(3) f1, of va] obtain l3 e2 s2 where
    c: "get_next_ptp l2 2 va True s1 = Some (0, l3, e2, s2)" "pt_inv pgtbl s2"
      "pt_walk pgtbl s2 [GET_INDEX 0 va, GET_INDEX 1 va, GET_INDEX 2 va] = Some l3"
      "pt_entry pgtbl s2 = pt_entry pgtbl s1" "tables_kept pgtbl s1 s2" "length (free_pages s1) \<le> Suc (length (free_pages s2))"
      "\<forall>q. length q = 3 \<and> q \<noteq> [GET_INDEX 0 va, GET_INDEX 1 va, GET_INDEX 2 va] \<longrightarrow> pt_walk pgtbl s2 q = pt_walk pgtbl s1 q"
    unfolding append.simps by blast
  have "tables_kept pgtbl s s2" using a(5) b(5) c(5) by (blast intro: tables_kept_trans)
  moreover have "length (free_pages s) \<le> length (free_pages s2) + 3" using a(6) b(6) c(6) by simp
  moreover have "pt_entry pgtbl s2 = pt_entry pgtbl s" using a(4) b(4) c(4) by simp
  moreover have "pt_walk pgtbl s2 (vpath (vpn va)) = Some l3" using c(3) unfolding vpath_index .
  moreover have "\<forall>q. length q = 3 \<and> q \<noteq> vpath (vpn va) \<longrightarrow> pt_walk pgtbl s2 q = pt_walk pgtbl s q"
  proof (intro allI impI)
    fix q assume q: "length q = 3 \<and> q \<noteq> vpath (vpn va)"
    then have "q \<noteq> [GET_INDEX 0 va, GET_INDEX 1 va, GET_INDEX 2 va]" unfolding vpath_index by simp
    then have "pt_walk pgtbl s2 q = pt_walk pgtbl s1 q" using c(7) q by blast
    moreover have "pt_walk pgtbl s1 q = pt_walk pgtbl s0 q" "pt_walk pgtbl s0 q = pt_walk pgtbl s q" using a(7) b(7) q by auto
    ultimately show "pt_walk pgtbl s2 q = pt_walk pgtbl s q" by simp
  qed
  ultimately show ?thesis using a(1) b(1) c(1,2) by blast
qed

lemma page_split:
  fixes v :: nat
  obtains q r where "v = 512 * q + r" "r < 512"
  using that [of "v div 512" "v mod 512"] by simp

lemma first_table:
  assumes "n = 512 - v mod 512" "in_range v n u"
  shows "vpath u = vpath v"
proof -
  obtain q r where v: "v = 512 * q + r" "r < 512" by (rule page_split)
  then have "u div 512 = v div 512" using assms by (intro div_nat_eqI) (auto simp: in_range_def)
  moreover have "x div 512 ^ 3 = x div 512 div 512 ^ 2" "x div 512 ^ 2 = x div 512 div 512" for x :: nat by (simp_all add: div_mult2_eq [symmetric])
  ultimately show ?thesis by (simp add: vpath_def)
qed

lemma spanned_next:
  assumes "n = 512 - v mod 512" "0 < cnt"
  shows "tables_spanned v cnt = Suc (tables_spanned (v + min n cnt) (cnt - min n cnt))"
proof -
  obtain q r where v: "v = 512 * q + r" "r < 512" by (rule page_split)
  have d: "v div 512 = q" "v mod 512 = r" using v by simp_all
  show ?thesis
  proof (cases "cnt \<le> n")
    case True
    then have "(v + cnt - 1) div 512 = q" using assms v d by (intro div_nat_eqI) auto
    then show ?thesis using True assms(2) d by (simp add: tables_spanned_def)
  next
    case False
    have e: "v + n = (q + 1) * 512" using assms(1) v d by simp
    have "(v + n) div 512 = q + 1" unfolding e by simp
    moreover have "(v + n) div 512 \<le> (v + cnt - 1) div 512" using False by (intro div_le_mono) simp
    moreover have "v + n + (cnt - n) - 1 = v + cnt - 1" using False by simp
    ultimately have "(v + cnt - 1) div 512 - q = Suc ((v + n + (cnt - n) - 1) div 512 - (v + n) div 512)"
      by (metis Suc_diff_Suc Suc_le_lessD Suc_eq_plus1)
    then show ?thesis using False d by (simp add: tables_spanned_def min_def)
  qed
qed

lemma vpn_less: "unat va + 4096 * n \<le> 2 ^ 48 \<Longrightarrow> vpn va + n \<le> 2 ^ 36"
  by (simp add: vpn_def)

definition mapped :: "u64 \<Rightarrow> u64 \<Rightarrow> u64 \<Rightarrow> nat \<Rightarrow> u64 \<Rightarrow> pgtbl \<Rightarrow> pgtbl \<Rightarrow> bool" where
  "mapped pgtbl va pa n flags s s' \<longleftrightarrow> (\<forall>u < 2 ^ 36. pt_entry pgtbl s' u =
     (if in_range (vpn va) n u then page_pte (pa + of_nat (u - vpn va) * 4096) flags else pt_entry pgtbl s u))"

lemma mapped_join:
  assumes a: "mapped pgtbl va pa m flags s t" and b: "mapped pgtbl va' pa' (n - m) flags t s'"
    and va': "vpn va' = vpn va + m" and pa': "pa' = pa + of_nat m * 4096" and m: "m \<le> n"
  shows "mapped pgtbl va pa n flags s s'"
  unfolding mapped_def
proof (intro allI impI)
  fix u :: nat assume u: "u < 2 ^ 36"
  show "pt_entry pgtbl s' u = (if in_range (vpn va) n u then page_pte (pa + of_nat (u - vpn va) * 4096) flags else pt_entry pgtbl s u)"
  proof (cases "in_range (vpn va') (n - m) u")
    case True
    then have "u - vpn va = m + (u - vpn va')" "in_range (vpn va) n u" using va' m by (auto simp: in_range_def)
    then show ?thesis using b u True by (simp add: mapped_def pa' algebra_simps)
  next
    case False
    then have "in_range (vpn va) n u \<longleftrightarrow> in_range (vpn va) m u" using va' m by (auto simp: in_range_def)
    then show ?thesis using a b u False by (simp add: mapped_def)
  qed
qed

lemma map_loop_ok:
  assumes "pt_inv pgtbl s" "unat va + 4096 * cnt \<le> 2 ^ 48" "3 * tables_spanned (vpn va) cnt \<le> length (free_pages s)"
  shows "\<exists>s'. map_loop pgtbl va pa cnt flags s = Some s' \<and> pt_inv pgtbl s' \<and> tables_kept pgtbl s s' \<and> mapped pgtbl va pa cnt flags s s'
    \<and> (\<forall>u. in_range (vpn va) cnt u \<longrightarrow> pt_walk pgtbl s' (vpath u) \<noteq> None)
    \<and> (\<forall>q. length q = 3 \<and> (\<forall>u. in_range (vpn va) cnt u \<longrightarrow> q \<noteq> vpath u) \<longrightarrow> pt_walk pgtbl s' q = pt_walk pgtbl s q)"
  using assms
proof (induction cnt arbitrary: s va pa rule: less_induct)
  case (less cnt)
  show ?case
  proof (cases "cnt = 0")
    case True
    then show ?thesis using less.prems(1) by (subst map_loop.simps) (auto simp: mapped_def in_range_def)
  next
    case False
    define n where "n = 512 - vpn va mod 512"
    have n: "0 < n" "n = PTP_ENTRIES - GET_INDEX 3 va" by (simp_all add: n_def vpath_index(2))
    have sp: "tables_spanned (vpn va) cnt = Suc (tables_spanned (vpn va + min n cnt) (cnt - min n cnt))"
      using spanned_next [OF n_def] False by simp
    have "3 \<le> length (free_pages s)" using less.prems(3) sp by simp
    from map_descend [OF less.prems(1) this, of va] obtain l1 l2 l3 e0 e1 e2 s0 s1 s2 where
      d: "get_next_ptp pgtbl 0 va True s = Some (0, l1, e0, s0)" "get_next_ptp l1 1 va True s0 = Some (0, l2, e1, s1)"
        "get_next_ptp l2 2 va True s1 = Some (0, l3, e2, s2)" "pt_inv pgtbl s2" "pt_walk pgtbl s2 (vpath (vpn va)) = Some l3"
        "pt_entry pgtbl s2 = pt_entry pgtbl s" "tables_kept pgtbl s s2" "length (free_pages s) \<le> length (free_pages s2) + 3"
        "\<forall>q. length q = 3 \<and> q \<noteq> vpath (vpn va) \<longrightarrow> pt_walk pgtbl s2 q = pt_walk pgtbl s q" by blast
    from map_l3_ok [OF d(4) vpn_less [OF less.prems(2)] d(5) n_def _ n(1), of va pa flags] False obtain s3 where
      m: "map_l3 n l3 va pa cnt flags s2 = Some (va + of_nat (min n cnt) * 4096, pa + of_nat (min n cnt) * 4096, cnt - min n cnt, s3)"
        "pt_inv pgtbl s3" "free_pages s3 = free_pages s2" "\<forall>q. length q < 4 \<longrightarrow> pt_walk pgtbl s3 q = pt_walk pgtbl s2 q"
        "\<forall>u < 2 ^ 36. pt_entry pgtbl s3 u = (if in_range (vpn va) (min n cnt) u
            then page_pte (pa + of_nat (u - vpn va) * 4096) flags else pt_entry pgtbl s2 u)" by blast
    define va' where "va' = va + of_nat (min n cnt) * 4096"
    define pa' where "pa' = pa + of_nat (min n cnt) * 4096"
    have step: "map_loop pgtbl va pa cnt flags s = map_loop pgtbl va' pa' (cnt - min n cnt) flags s3"
      using False d(1-3) m(1) n(2) unfolding va'_def pa'_def by (subst map_loop.simps) simp
    have le: "unat va + 4096 * min n cnt \<le> 2 ^ 48" using less.prems(2) by (simp add: min_def split: if_splits)
    have va': "vpn va' = vpn va + min n cnt" unfolding va'_def by (rule vpn_add) (use le in simp)
    have u': "unat va' + 4096 * (cnt - min n cnt) \<le> 2 ^ 48"
    proof -
      have "unat va' = unat va + 4096 * min n cnt"
        unfolding va'_def using le by (intro unat_add_pages) simp
      then show ?thesis using less.prems(2) by simp
    qed
    from less.IH [of "cnt - min n cnt" s3 va' pa'] m(2) u' va' sp d(8) less.prems(3) m(3) n(1) False obtain s' where
      i: "map_loop pgtbl va' pa' (cnt - min n cnt) flags s3 = Some s'" "pt_inv pgtbl s'" "tables_kept pgtbl s3 s'"
        "mapped pgtbl va' pa' (cnt - min n cnt) flags s3 s'"
        "\<forall>u. in_range (vpn va') (cnt - min n cnt) u \<longrightarrow> pt_walk pgtbl s' (vpath u) \<noteq> None"
        "\<forall>q. length q = 3 \<and> (\<forall>u. in_range (vpn va') (cnt - min n cnt) u \<longrightarrow> q \<noteq> vpath u) \<longrightarrow> pt_walk pgtbl s' q = pt_walk pgtbl s3 q"
      by auto
    have "tables_kept pgtbl s s'" using d(7) i(3) m(4) by (simp add: tables_kept_def)
    moreover have "mapped pgtbl va pa cnt flags s s'"
    proof (rule mapped_join [OF _ i(4) va' pa'_def])
      show "mapped pgtbl va pa (min n cnt) flags s s3" using m(5) d(6) by (simp add: mapped_def)
    qed simp
    moreover have "pt_walk pgtbl s' (vpath u) \<noteq> None" if u: "in_range (vpn va) cnt u" for u
    proof (cases "in_range (vpn va) n u")
      case True
      then have "vpath u = vpath (vpn va)" by (rule first_table [OF n_def])
      then show ?thesis using d(5) m(4) i(3) by (simp add: tables_kept_def)
    next
      case False
      then show ?thesis using i(5) u va' by (auto simp: in_range_def)
    qed
    moreover have "pt_walk pgtbl s' q = pt_walk pgtbl s q"
      if q: "length q = 3" "\<forall>u. in_range (vpn va) cnt u \<longrightarrow> q \<noteq> vpath u" for q
    proof -
      have "q \<noteq> vpath (vpn va)" "\<forall>u. in_range (vpn va') (cnt - min n cnt) u \<longrightarrow> q \<noteq> vpath u"
        using q(2) False va' by (auto simp: in_range_def)
      then show ?thesis using i(6) d(9) m(4) q(1) by simp
    qed
    ultimately show ?thesis using step i(1,2) by (intro exI [of _ s']) simp
  qed
qed
text \<open>The inner loop of \<^verbatim>\<open>unmap_range_in_pgtbl\<close> and \<^verbatim>\<open>mprotect_in_pgtbl\<close>.\<close>

lemma update_l3_ok:
  assumes "pt_inv pgtbl s" "v + cnt \<le> 2 ^ 36" "pt_walk pgtbl s (vpath v) = Some l3" "n = 512 - v mod 512" "0 < cnt" "0 < n"
  shows "\<exists>s'. update_l3 f n l3 va (int cnt) s = Some (va + of_nat (min n cnt) * 4096, int (cnt - min n cnt), s')
    \<and> pt_inv pgtbl s' \<and> (\<forall>q. length q < 4 \<longrightarrow> pt_walk pgtbl s' q = pt_walk pgtbl s q)
    \<and> (\<forall>u < 2 ^ 36. pt_entry pgtbl s' u = (if in_range v (min n cnt) u then f (pt_entry pgtbl s u) else pt_entry pgtbl s u))"
  using assms
proof (induction n arbitrary: s v va cnt)
  case (Suc n)
  have v: "v < 2 ^ 36" "512 - Suc n = v mod 512" using Suc.prems by auto
  have L: "length (vpath v) < 4" by simp
  obtain xs where xs: "ptps s l3 = Some xs" "length xs = 512" "pt_at pgtbl s (vpath v) (v mod 512) = Some (xs ! (v mod 512))"
    by (rule pt_node [OF Suc.prems(1) L Suc.prems(3)]) simp
  then have e: "xs ! (v mod 512) = pt_entry pgtbl s v" by (simp add: pt_entry_def)
  from set_pte_page [OF Suc.prems(1) v(1) Suc.prems(3), of "f (pt_entry pgtbl s v)"] obtain s1 where
    s1: "set_pte l3 (v mod 512) (f (pt_entry pgtbl s v)) s = Some s1" "pt_inv pgtbl s1" "\<forall>q. length q < 4 \<longrightarrow> pt_walk pgtbl s1 q = pt_walk pgtbl s q"
      "\<forall>u < 2 ^ 36. pt_entry pgtbl s1 u = (if u = v then f (pt_entry pgtbl s v) else pt_entry pgtbl s u)" by blast
  show ?case
  proof (cases "cnt = 1 \<or> n = 0")
    case True
    then have "min (Suc n) cnt = 1" using Suc.prems(5) by auto
    moreover have "in_range v 1 u \<longleftrightarrow> u = v" for u by (auto simp: in_range_def)
    ultimately show ?thesis using True s1 v(2) xs e Suc.prems(5) by (auto simp: of_nat_diff)
  next
    case False
    have m: "min (Suc n) cnt = Suc (min n (cnt - 1))" using False Suc.prems(5) by auto
    have nz: "(v + 1) mod 512 \<noteq> 0" "n = 512 - (v + 1) mod 512" using Suc.prems(4) False by (auto simp: mod_Suc split: if_splits)
    have "pt_walk pgtbl s1 (vpath (v + 1)) = Some l3" using s1(3) Suc.prems(3) same_table [OF nz(1)] by simp
    from Suc.IH [OF s1(2) _ this nz(2), of "cnt - 1" "va + 4096"] Suc.prems False obtain s' where
      s': "update_l3 f n l3 (va + 4096) (int (cnt - 1)) s1 = Some (va + 4096 + of_nat (min n (cnt - 1)) * 4096,
          int (cnt - 1 - min n (cnt - 1)), s')" "pt_inv pgtbl s'" "\<forall>q. length q < 4 \<longrightarrow> pt_walk pgtbl s' q = pt_walk pgtbl s1 q"
        "\<forall>u < 2 ^ 36. pt_entry pgtbl s' u = (if in_range (v + 1) (min n (cnt - 1)) u then f (pt_entry pgtbl s1 u) else pt_entry pgtbl s1 u)"
      by auto
    have "pt_entry pgtbl s' u = (if in_range v (Suc (min n (cnt - 1))) u then f (pt_entry pgtbl s u) else pt_entry pgtbl s u)"
      if u: "u < 2 ^ 36" for u
      using s'(4) s1(4) u by (auto simp: in_range_def)
    moreover have "update_l3 f (Suc n) l3 va (int cnt) s = Some (va + of_nat (Suc (min n (cnt - 1))) * 4096,
        int (cnt - Suc (min n (cnt - 1))), s')"
      using s1(1) s'(1) v(2) xs e False Suc.prems(5) by (simp add: algebra_simps of_nat_diff)
    ultimately show ?thesis using s1(3) s'(2,3) unfolding m by (intro exI [of _ s']) simp
  qed
qed simp

text \<open>
  The outer loop ends, changes entries of the range only, each at most once, and all of them when
  every page of the range has its last-level table.
\<close>

definition updated :: "(u64 \<Rightarrow> u64) \<Rightarrow> u64 \<Rightarrow> nat \<Rightarrow> nat \<Rightarrow> pgtbl \<Rightarrow> pgtbl \<Rightarrow> bool" where
  "updated f pgtbl v n s s' \<longleftrightarrow> (\<forall>q. length q < 4 \<longrightarrow> pt_walk pgtbl s' q = pt_walk pgtbl s q)
     \<and> (\<forall>u < 2 ^ 36. pt_entry pgtbl s' u = pt_entry pgtbl s u \<or> in_range v n u \<and> pt_entry pgtbl s' u = f (pt_entry pgtbl s u))
     \<and> ((\<forall>u. in_range v n u \<longrightarrow> pt_walk pgtbl s (vpath u) \<noteq> None) \<longrightarrow>
          (\<forall>u < 2 ^ 36. in_range v n u \<longrightarrow> pt_entry pgtbl s' u = f (pt_entry pgtbl s u)))"

lemma updated_none: "pt_walk pgtbl s (vpath v) = None \<Longrightarrow> updated f pgtbl (v + k) (n - k) s s' \<Longrightarrow> 0 < n \<Longrightarrow> updated f pgtbl v n s s'"
  unfolding updated_def by (auto simp: in_range_def)

lemma updated_first:
  assumes a: "\<forall>u < 2 ^ 36. pt_entry pgtbl t u = (if in_range v k u then f (pt_entry pgtbl s u) else pt_entry pgtbl s u)"
    and w: "\<forall>q. length q < 4 \<longrightarrow> pt_walk pgtbl t q = pt_walk pgtbl s q" and b: "updated f pgtbl (v + k) (n - k) t s'" and k: "k \<le> n"
  shows "updated f pgtbl v n s s'"
  unfolding updated_def
proof (intro conjI allI impI)
  show "pt_walk pgtbl s' q = pt_walk pgtbl s q" if "length q < 4" for q using b w that by (simp add: updated_def)
  fix u :: nat assume u: "u < 2 ^ 36"
  have b': "pt_entry pgtbl s' u = pt_entry pgtbl t u \<or> in_range (v + k) (n - k) u \<and> pt_entry pgtbl s' u = f (pt_entry pgtbl t u)"
    using b u by (simp add: updated_def)
  then show "pt_entry pgtbl s' u = pt_entry pgtbl s u \<or> in_range v n u \<and> pt_entry pgtbl s' u = f (pt_entry pgtbl s u)"
    using a u k by (auto simp: in_range_def split: if_splits)
  assume t: "\<forall>u. in_range v n u \<longrightarrow> pt_walk pgtbl s (vpath u) \<noteq> None" and r: "in_range v n u"
  show "pt_entry pgtbl s' u = f (pt_entry pgtbl s u)"
  proof (cases "in_range v k u")
    case True
    then show ?thesis using b' a u by (auto simp: in_range_def)
  next
    case False
    have "\<forall>u. in_range (v + k) (n - k) u \<longrightarrow> pt_walk pgtbl t (vpath u) \<noteq> None" using t w k by (auto simp: in_range_def)
    then have "pt_entry pgtbl s' u = f (pt_entry pgtbl t u)" using b u r False by (auto simp: updated_def in_range_def)
    then show ?thesis using a u False by simp
  qed
qed
lemma updated_empty [simp]: "updated f pgtbl v 0 s s"
  by (auto simp: updated_def in_range_def)

lemma walk_prefix: "walk nx st n p = None \<Longrightarrow> walk nx st n (p @ q) = None"
  by (simp add: walk_append)

text \<open>The three lookups of an iteration: a table is missing, or the last-level table is found.\<close>

lemma update_descend:
  assumes i: "pt_inv pgtbl s"
  obtains (none0) "get_next_ptp pgtbl 0 va False s = Some (- ENOMAPPING, 0, 0, s)" "pt_walk pgtbl s (vpath (vpn va)) = None"
  | (none1) l1 e0 where "get_next_ptp pgtbl 0 va False s = Some (0, l1, e0, s)"
      "get_next_ptp l1 1 va False s = Some (- ENOMAPPING, 0, 0, s)" "pt_walk pgtbl s (vpath (vpn va)) = None"
  | (none2) l1 e0 l2 e1 where "get_next_ptp pgtbl 0 va False s = Some (0, l1, e0, s)"
      "get_next_ptp l1 1 va False s = Some (0, l2, e1, s)"
      "get_next_ptp l2 2 va False s = Some (- ENOMAPPING, 0, 0, s)" "pt_walk pgtbl s (vpath (vpn va)) = None"
  | (table) l1 e0 l2 e1 l3 e2 where "get_next_ptp pgtbl 0 va False s = Some (0, l1, e0, s)"
      "get_next_ptp l1 1 va False s = Some (0, l2, e1, s)"
      "get_next_ptp l2 2 va False s = Some (0, l3, e2, s)" "pt_walk pgtbl s (vpath (vpn va)) = Some l3"
proof -
  let ?i = "\<lambda>l. GET_INDEX l va"
  have path: "vpath (vpn va) = [?i 0] @ [?i 1] @ [?i 2]" by (simp add: vpath_index)
  have p0: "length [] = 0" "(0::nat) < 4" "pt_walk pgtbl s [] = Some pgtbl" by simp_all
  from get_next_ptp_old [OF i p0, of va] obtain e0 where a: "get_next_ptp pgtbl 0 va False s = (if IS_PTE_INVALID e0
      then Some (- ENOMAPPING, 0, 0, s) else Some (if IS_PTE_TABLE e0 then NORMAL_PTP else BLOCK_PTP, GET_NEXT_PTP e0, e0, s))"
    "pt_walk pgtbl s [?i 0] = pt_next e0" "\<not> IS_PTE_INVALID e0 \<longrightarrow> IS_PTE_TABLE e0" unfolding append.simps by auto
  show ?thesis
  proof (cases "IS_PTE_INVALID e0")
    case True
    show ?thesis by (rule none0) (use a(1,2) True walk_prefix [of pt_next "ptps s" pgtbl "[?i 0]" "[?i 1] @ [?i 2]"] in \<open>simp_all only: path if_True pt_next_simps\<close>)
  next
    case v0: False
    define l1 where "l1 = GET_NEXT_PTP e0"
    have g0: "get_next_ptp pgtbl 0 va False s = Some (0, l1, e0, s)" using a v0 by (simp add: l1_def NORMAL_PTP_def)
    have p1: "length [?i 0] = 1" "(1::nat) < 4" "pt_walk pgtbl s [?i 0] = Some l1" using a(2) v0 by (simp_all add: l1_def)
    from get_next_ptp_old [OF i p1, of va] obtain e1 where b: "get_next_ptp l1 1 va False s = (if IS_PTE_INVALID e1
        then Some (- ENOMAPPING, 0, 0, s) else Some (if IS_PTE_TABLE e1 then NORMAL_PTP else BLOCK_PTP, GET_NEXT_PTP e1, e1, s))"
      "pt_walk pgtbl s ([?i 0] @ [?i 1]) = pt_next e1" "\<not> IS_PTE_INVALID e1 \<longrightarrow> IS_PTE_TABLE e1" by auto
    show ?thesis
    proof (cases "IS_PTE_INVALID e1")
      case True
      show ?thesis by (rule none1 [OF g0]) (use b(1,2) True walk_prefix [of pt_next "ptps s" pgtbl "[?i 0] @ [?i 1]" "[?i 2]"] in \<open>simp_all only: path append_assoc if_True pt_next_simps\<close>)
    next
      case v1: False
      define l2 where "l2 = GET_NEXT_PTP e1"
      have g1: "get_next_ptp l1 1 va False s = Some (0, l2, e1, s)" using b v1 by (simp add: l2_def NORMAL_PTP_def)
      have p2: "length ([?i 0] @ [?i 1]) = 2" "(2::nat) < 4" "pt_walk pgtbl s ([?i 0] @ [?i 1]) = Some l2"
        unfolding b(2) using v1 by (simp_all add: l2_def)
      from get_next_ptp_old [OF i p2, of va] obtain e2 where c: "get_next_ptp l2 2 va False s = (if IS_PTE_INVALID e2
          then Some (- ENOMAPPING, 0, 0, s) else Some (if IS_PTE_TABLE e2 then NORMAL_PTP else BLOCK_PTP, GET_NEXT_PTP e2, e2, s))"
        "pt_walk pgtbl s (vpath (vpn va)) = pt_next e2" "\<not> IS_PTE_INVALID e2 \<longrightarrow> IS_PTE_TABLE e2" unfolding path by auto
      show ?thesis
      proof (cases "IS_PTE_INVALID e2")
        case True
        show ?thesis by (rule none2 [OF g0 g1]) (use c(1,2) True in simp_all)
      next
        case False
        show ?thesis by (rule table [OF g0 g1, of "GET_NEXT_PTP e2" e2]) (use c False in \<open>simp_all add: NORMAL_PTP_def\<close>)
      qed
    qed
  qed
qed

lemma update_loop_ok:
  assumes "pt_inv pgtbl s" "unat va + 4096 * nat cnt \<le> 2 ^ 48"
  shows "\<exists>s'. update_loop f pgtbl va cnt s = Some s' \<and> pt_inv pgtbl s' \<and> updated f pgtbl (vpn va) (nat cnt) s s'"
  using assms
proof (induction "nat cnt" arbitrary: s va cnt rule: less_induct)
  case less
  show ?case
  proof (cases "cnt \<le> 0")
    case True
    then show ?thesis using less.prems(1) by (subst update_loop.simps) simp
  next
    case False
    have skip: "\<exists>s'. update_loop f pgtbl (va + of_nat K * PAGE_SIZE) (cnt - int K) s = Some s' \<and> pt_inv pgtbl s' \<and> updated f pgtbl (vpn va) (nat cnt) s s'"
      if K: "0 < K" and w: "pt_walk pgtbl s (vpath (vpn va)) = None" for K
    proof (cases "cnt \<le> int K")
      case True
      then have "update_loop f pgtbl (va + of_nat K * PAGE_SIZE) (cnt - int K) s = Some s" by (subst update_loop.simps) simp
      then show ?thesis using less.prems(1) updated_none [OF w, of f "nat cnt" "nat cnt" s] False by simp
    next
      case lt: False
      have le: "unat va + 4096 * K \<le> 2 ^ 48" "unat (va + of_nat K * 4096) = unat va + 4096 * K"
        using less.prems(2) lt unat_add_pages [of va K] by simp_all
      have n: "nat (cnt - int K) = nat cnt - K" using lt by simp
      have "vpn (va + of_nat K * 4096) = vpn va + K" by (rule vpn_add) (use le in simp)
      with less.hyps [of "cnt - int K" s "va + of_nat K * 4096"] less.prems lt K le(2) n show ?thesis
        using updated_none [OF w, of f K "nat cnt"] False by fastforce
    qed
    from less.prems(1) show ?thesis
    proof (cases rule: update_descend [where va = va])
      case none0
      then show ?thesis using skip [of L0_PER_ENTRY_PAGES] False
        by (subst update_loop.simps) (simp add: L0_PER_ENTRY_PAGES_def L1_PER_ENTRY_PAGES_def)
    next
      case none1
      then show ?thesis using skip [of L1_PER_ENTRY_PAGES] False
        by (subst update_loop.simps) (simp add: L1_PER_ENTRY_PAGES_def ENOMAPPING_def)
    next
      case none2
      then show ?thesis using skip [of L2_PER_ENTRY_PAGES] False
        by (subst update_loop.simps) (simp add: L2_PER_ENTRY_PAGES_def ENOMAPPING_def)
    next
      case (table l1 e0 l2 e1 l3 e2)
      define n where "n = 512 - vpn va mod 512"
      have n: "0 < n" "n = PTP_ENTRIES - GET_INDEX 3 va" by (simp_all add: n_def vpath_index(2))
      from update_l3_ok [OF less.prems(1) vpn_less [OF less.prems(2)] table(4) n_def _ n(1), of f va] False obtain t where
        t: "update_l3 f n l3 va cnt s = Some (va + of_nat (min n (nat cnt)) * 4096, int (nat cnt - min n (nat cnt)), t)"
          "pt_inv pgtbl t" "\<forall>q. length q < 4 \<longrightarrow> pt_walk pgtbl t q = pt_walk pgtbl s q"
          "\<forall>u < 2 ^ 36. pt_entry pgtbl t u = (if in_range (vpn va) (min n (nat cnt)) u then f (pt_entry pgtbl s u) else pt_entry pgtbl s u)"
        by auto
      let ?va = "va + of_nat (min n (nat cnt)) * 4096" and ?c = "int (nat cnt - min n (nat cnt))"
      have step: "update_loop f pgtbl va cnt s = update_loop f pgtbl ?va ?c t"
        using False table t(1) n(2) by (subst update_loop.simps) (simp add: ENOMAPPING_def)
      have "unat va + 4096 * min n (nat cnt) \<le> 2 ^ 48" using less.prems(2) by (simp add: min_def split: if_splits)
      then have va: "unat ?va = unat va + 4096 * min n (nat cnt)" "vpn ?va = vpn va + min n (nat cnt)"
        using unat_add_pages [of va "min n (nat cnt)"] vpn_add [of va "min n (nat cnt)"] by simp_all
      have "nat ?c < nat cnt" "unat ?va + 4096 * nat ?c \<le> 2 ^ 48"
        unfolding nat_int va(1) using n(1) False less.prems(2) by (auto simp: min_def)
      from less.hyps [OF this(1) t(2) this(2)] obtain s' where
        s': "update_loop f pgtbl ?va ?c t = Some s'" "pt_inv pgtbl s'" "updated f pgtbl (vpn ?va) (nat ?c) t s'" by blast
      have "updated f pgtbl (vpn va) (nat cnt) s s'"
        by (rule updated_first [OF t(4,3) s'(3) [unfolded nat_int va(2)]]) simp
      then show ?thesis using step s'(1,2) by simp
    qed
  qed
qed
section \<open>Lookup\<close>

lemma get_page_entry:
  assumes i: "pt_inv pgtbl s" and w: "pt_walk pgtbl s (vpath (vpn va)) = Some l3"
  shows "get_next_ptp l3 3 va False s = (if IS_PTE_INVALID (pt_entry pgtbl s (vpn va)) then Some (- ENOMAPPING, 0, 0, s)
    else Some (if IS_PTE_TABLE (pt_entry pgtbl s (vpn va)) then NORMAL_PTP else BLOCK_PTP,
      GET_NEXT_PTP (pt_entry pgtbl s (vpn va)), pt_entry pgtbl s (vpn va), s))"
proof -
  from get_next_ptp_old [OF i _ _ w, of 3 va] obtain e where
    "pt_at pgtbl s (vpath (vpn va)) (GET_INDEX 3 va) = Some e"
    "get_next_ptp l3 3 va False s = (if IS_PTE_INVALID e then Some (- ENOMAPPING, 0, 0, s)
        else Some (if IS_PTE_TABLE e then NORMAL_PTP else BLOCK_PTP, GET_NEXT_PTP e, e, s))" by auto
  then show ?thesis by (simp add: pt_entry_def vpath_index(2))
qed

text \<open>\<^verbatim>\<open>query_in_pgtbl\<close> finds the descriptor of the page, and its address.\<close>

lemma query_ok:
  assumes i: "pt_inv pgtbl s"
  shows "query_in_pgtbl pgtbl va s = Some (if IS_PTE_INVALID (pt_entry pgtbl s (vpn va)) then (- ENOMAPPING, 0, 0)
    else (0, GET_PADDR_IN_PTE (pt_entry pgtbl s (vpn va)) + GET_VA_OFFSET 3 va, pt_entry pgtbl s (vpn va)))"
  using i
proof (cases rule: update_descend [where va = va])
  case none0
  then show ?thesis using pt_entry_zero [OF none0(2)] by (simp add: query_in_pgtbl_def ENOMAPPING_def)
next
  case none1
  then show ?thesis using pt_entry_zero [OF none1(3)] by (simp add: query_in_pgtbl_def ENOMAPPING_def)
next
  case none2
  then show ?thesis using pt_entry_zero [OF none2(4)] by (simp add: query_in_pgtbl_def ENOMAPPING_def BLOCK_PTP_def)
next
  case table
  then show ?thesis using get_page_entry [OF i table(4)]
    by (simp add: query_in_pgtbl_def ENOMAPPING_def BLOCK_PTP_def NORMAL_PTP_def GET_NEXT_PTP_def)
qed

text \<open>The debugging variant gives the same answer on the tables the kernel builds.\<close>

lemma debug_query_eq:
  assumes i: "pt_inv pgtbl s"
  shows "debug_query_in_pgtbl pgtbl va s = query_in_pgtbl pgtbl va s"
  using i
  by (cases rule: update_descend [where va = va])
    (simp_all add: query_in_pgtbl_def debug_query_in_pgtbl_def ENOMAPPING_def BLOCK_PTP_def)

lemma pt_entry_flush [simp]: "pt_entry pgtbl (flush_tlb s) = pt_entry pgtbl s" "pt_inv pgtbl (flush_tlb s) = pt_inv pgtbl s"
  by (simp_all add: pt_entry_def pt_inv_def flush_tlb_def fun_eq_iff)

section \<open>Properties\<close>

definition empty_table :: pgtbl where
  "empty_table = \<lparr>ptps = [phys_to_virt 0x1000 \<mapsto> replicate 512 0], free_pages = map (\<lambda>i. phys_to_virt (of_nat i * 0x1000)) [2..<12],
     tlb = Map.empty\<rparr>"

text \<open>
  C14: mapping a range of pages.  With three free pages for every last-level table the range
  touches, \<^verbatim>\<open>map_range_in_pgtbl\<close> returns 0 and keeps the invariant; after it \<^verbatim>\<open>query_in_pgtbl\<close> answers
  for an address of the range with the physical address at the same distance from \<open>pa\<close>, in a
  descriptor with the requested flags, and answers for every other address what it answered
  before.
\<close>

theorem map_range_correct:
  assumes i: "pt_inv pgtbl s" and va: "unat va + 4096 * total_page_cnt len \<le> 2 ^ 48"
    and free: "3 * tables_spanned (vpn va) (total_page_cnt len) \<le> length (free_pages s)"
    and pa: "\<forall>n < total_page_cnt len. page_aligned (pa + of_nat n * 4096)" and x: "vpn x < 2 ^ 36"
  shows "\<exists>s'. map_range_in_pgtbl pgtbl va pa len flags s = Some (0, s') \<and> pt_inv pgtbl s' \<and>
    query_in_pgtbl pgtbl x s' = (if in_range (vpn va) (total_page_cnt len) (vpn x)
      then Some (0, pa + of_nat (vpn x - vpn va) * 4096 + GET_VA_OFFSET 3 x, page_pte (pa + of_nat (vpn x - vpn va) * 4096) flags)
      else query_in_pgtbl pgtbl x s)"
proof -
  from map_loop_ok [OF i va free, of pa flags] obtain s1 where
    s1: "map_loop pgtbl va pa (total_page_cnt len) flags s = Some s1" "pt_inv pgtbl s1" "mapped pgtbl va pa (total_page_cnt len) flags s s1" by blast
  have "pgtbl \<noteq> 0" using i by (simp add: pt_inv_def)
  then have "map_range_in_pgtbl pgtbl va pa len flags s = Some (0, flush_tlb s1)" using s1(1) by (simp add: map_range_in_pgtbl_def)
  moreover have "GET_PADDR_IN_PTE (page_pte (pa + of_nat (vpn x - vpn va) * 4096) flags) = pa + of_nat (vpn x - vpn va) * 4096"
    if "in_range (vpn va) (total_page_cnt len) (vpn x)"
  proof (rule GET_PADDR_page)
    have "vpn x - vpn va < total_page_cnt len" using that by (auto simp: in_range_def)
    then show "page_aligned (pa + of_nat (vpn x - vpn va) * 4096)" using pa by blast
  qed
  ultimately show ?thesis using s1(2,3) x query_ok [OF i, of x] query_ok [of pgtbl "flush_tlb s1" x]
    by (intro exI [of _ "flush_tlb s1"]) (simp add: mapped_def)
qed

lemma page_aligned_mult: "n < 2 ^ 36 \<Longrightarrow> page_aligned (of_nat n * 0x1000)"
proof -
  assume n: "n < 2 ^ 36"
  have "of_nat n * 0x1000 = (push_bit 12 (of_nat n) :: u64)" by (simp add: push_bit_eq_mult)
  moreover have "\<not> bit (of_nat n :: u64) j" if "36 \<le> j" for j
  proof -
    have "n < 2 ^ j" using n power_increasing [OF that, of "2::nat"] by simp
    then have "\<not> bit n j" by (simp add: bit_iff_odd)
    moreover have "unat (of_nat n :: u64) = n" using n by (intro unat_of_nat_lt) simp
    ultimately show ?thesis using bit_unsigned_iff [where ?'a = nat, of "of_nat n :: u64" j] by simp
  qed
  ultimately show ?thesis by (auto simp: page_aligned_def bit_simps)
qed

lemma empty_table_inv: "pt_inv (phys_to_virt 0x1000) empty_table"
proof -
  let ?r = "phys_to_virt 0x1000"
  have w: "pt_walk ?r empty_table q = (if q = [] then Some ?r else None)" for q
    by (cases q) (auto simp: empty_table_def nth_opt_def)
  have r: "ptps empty_table ?r = Some (replicate 512 0)" by (simp add: empty_table_def)
  have "node_tree pt_next PTP_ENTRIES 4 (ptps empty_table) ?r"
    using r by (intro treeI) (auto simp: w split: if_splits)
  moreover have "pt_at ?r empty_table p k = Some e \<Longrightarrow> IS_PTE_INVALID e" for p k e
    using w [of p] r by (auto simp: entry_at_def nth_opt_def split: if_splits)
  moreover have "distinct (free_pages empty_table)" "\<forall>a \<in> set (free_pages empty_table). a \<noteq> 0 \<and> ptps empty_table a = None"
    by (auto simp: empty_table_def upt_rec phys_to_virt_def KBASE_def)
  moreover have "\<forall>a \<in> set (free_pages empty_table). page_aligned (virt_to_phys a)"
    by (auto simp: empty_table_def intro!: page_aligned_mult simp del: upt_rec_numeral)
  ultimately show ?thesis by (auto simp: pt_inv_def) (simp_all add: empty_table_def phys_to_virt_def KBASE_def)
qed

lemma total_page_cnt_page [simp]: "total_page_cnt 0x1000 = 1" "total_page_cnt 0x2000 = 2"
  by (simp_all add: total_page_cnt_def)

theorem map_range_correct_witness:
  "\<exists>s'. map_range_in_pgtbl (phys_to_virt 0x1000) 0x200000 0x5000 0x1000 3 empty_table = Some (0, s')
    \<and> query_in_pgtbl (phys_to_virt 0x1000) 0x200123 s' = Some (0, 0x5123, page_pte 0x5000 3)"
proof -
  have "vpn 0x200000 = 512" "vpn 0x200123 = 512" by (simp_all add: vpn_def)
  moreover have "page_aligned 0x5000" using page_aligned_mult [of 5] by simp
  moreover have "length (free_pages empty_table) = 10" by (simp add: empty_table_def)
  moreover have "GET_VA_OFFSET 3 0x200123 = 0x123" by (simp add: GET_VA_OFFSET_def PAGE_SHIFT_def PAGE_ORDER_def)
  ultimately show ?thesis
    using map_range_correct [OF empty_table_inv, of "0x200000" "0x1000" "0x5000" "0x200123" 3]
    by (auto simp: tables_spanned_def in_range_def)
qed

text \<open>
  C13: mapping and unmapping.  When pages are mapped and the same range is unmapped, every page
  outside the range has the descriptor it had at the start and every page of the range has none;
  both operations return 0 and the translation cache is empty afterwards.
\<close>

theorem map_unmap_roundtrip:
  assumes i: "pt_inv pgtbl s" and va: "unat va + 4096 * total_page_cnt len \<le> 2 ^ 48"
    and free: "3 * tables_spanned (vpn va) (total_page_cnt len) \<le> length (free_pages s)" and u: "u < 2 ^ 36"
  shows "\<exists>s1 s2. map_range_in_pgtbl pgtbl va pa len flags s = Some (0, s1) \<and> unmap_range_in_pgtbl pgtbl va len s1 = Some (0, s2)
    \<and> pt_inv pgtbl s2 \<and> tlb s2 = Map.empty
    \<and> pt_entry pgtbl s2 u = (if in_range (vpn va) (total_page_cnt len) u then 0 else pt_entry pgtbl s u)"
proof -
  from map_loop_ok [OF i va free, of pa flags] obtain s1 where
    s1: "map_loop pgtbl va pa (total_page_cnt len) flags s = Some s1" "pt_inv pgtbl s1" "mapped pgtbl va pa (total_page_cnt len) flags s s1"
      "\<forall>u. in_range (vpn va) (total_page_cnt len) u \<longrightarrow> pt_walk pgtbl s1 (vpath u) \<noteq> None" by blast
  have i1: "pt_inv pgtbl (flush_tlb s1)" and va': "unat va + 4096 * nat (int (total_page_cnt len)) \<le> 2 ^ 48" using s1(2) va by simp_all
  from update_loop_ok [OF i1 va', of "\<lambda>_. PTE_DESCRIPTOR_INVALID"] obtain s2 where
    s2: "update_loop (\<lambda>_. PTE_DESCRIPTOR_INVALID) pgtbl va (int (total_page_cnt len)) (flush_tlb s1) = Some s2" "pt_inv pgtbl s2"
      "updated (\<lambda>_. PTE_DESCRIPTOR_INVALID) pgtbl (vpn va) (total_page_cnt len) (flush_tlb s1) s2" by auto
  have "pt_walk pgtbl (flush_tlb s1) = pt_walk pgtbl s1" by (simp add: flush_tlb_def)
  then have "pt_entry pgtbl s2 u = (if in_range (vpn va) (total_page_cnt len) u then 0 else pt_entry pgtbl s u)"
    using s2(3) s1(3,4) u by (auto simp: updated_def mapped_def PTE_DESCRIPTOR_INVALID_def)
  moreover have "pgtbl \<noteq> 0" using i by (simp add: pt_inv_def)
  ultimately show ?thesis using s1(1) s2(1,2)
    by (intro exI [of _ "flush_tlb s1"] exI [of _ "flush_tlb s2"])
      (simp add: map_range_in_pgtbl_def unmap_range_in_pgtbl_def, simp add: flush_tlb_def)
qed

theorem map_unmap_roundtrip_witness:
  "\<exists>s1 s2. map_range_in_pgtbl (phys_to_virt 0x1000) 0x200000 0x5000 0x1000 3 empty_table = Some (0, s1)
    \<and> unmap_range_in_pgtbl (phys_to_virt 0x1000) 0x200000 0x1000 s1 = Some (0, s2) \<and> pt_entry (phys_to_virt 0x1000) s2 512 = 0"
proof -
  have "vpn 0x200000 = 512" "length (free_pages empty_table) = 10" by (simp_all add: vpn_def empty_table_def)
  then show ?thesis using map_unmap_roundtrip [OF empty_table_inv, of "0x200000" "0x1000" 512 "0x5000" 3]
    by (auto simp: tables_spanned_def in_range_def)
qed

text \<open>
  Changing the protection of a range whose pages have their last-level tables changes the
  permission bits of the pages that are mapped there and nothing else: the answer of
  \<^verbatim>\<open>query_in_pgtbl\<close> keeps its physical address, and only in the range, for a mapped page, its
  descriptor gets the new flags.
\<close>

theorem mprotect_correct:
  assumes i: "pt_inv pgtbl s" and va: "unat va + 4096 * total_page_cnt len \<le> 2 ^ 48" and x: "vpn x < 2 ^ 36"
    and t: "\<forall>u. in_range (vpn va) (total_page_cnt len) u \<longrightarrow> pt_walk pgtbl s (vpath u) \<noteq> None"
    and query: "query_in_pgtbl pgtbl x s = Some (ret, pa, e)"
  shows "\<exists>s'. mprotect_in_pgtbl pgtbl va len flags s = Some (0, s') \<and> pt_inv pgtbl s'
    \<and> query_in_pgtbl pgtbl x s' = Some (ret, pa,
        if ret = 0 \<and> in_range (vpn va) (total_page_cnt len) (vpn x) then set_pte_flags flags e else e)"
proof -
  let ?f = "\<lambda>e. if IS_PTE_INVALID e then e else set_pte_flags flags e"
  have va': "unat va + 4096 * nat (int (total_page_cnt len)) \<le> 2 ^ 48" using va by simp
  from update_loop_ok [OF i va', of ?f] obtain s1 where
    s1: "update_loop ?f pgtbl va (int (total_page_cnt len)) s = Some s1" "pt_inv pgtbl s1" "updated ?f pgtbl (vpn va) (total_page_cnt len) s s1" by auto
  have e: "pt_entry pgtbl s1 (vpn x) = (if in_range (vpn va) (total_page_cnt len) (vpn x) then ?f (pt_entry pgtbl s (vpn x)) else pt_entry pgtbl s (vpn x))"
    using s1(3) t x by (auto simp: updated_def)
  have p: "GET_PADDR_IN_PTE (set_pte_flags flags y) = GET_PADDR_IN_PTE y" for y by (simp add: GET_PADDR_IN_PTE_def next_table_addr_flags)
  have "pgtbl \<noteq> 0" using i by (simp add: pt_inv_def)
  then show ?thesis using s1(1,2) query query_ok [OF i, of x] query_ok [of pgtbl "flush_tlb s1" x] e p
    by (intro exI [of _ "flush_tlb s1"]) (auto simp: mprotect_in_pgtbl_def ENOMAPPING_def split: if_splits)
qed

lemma map_range_tables:
  assumes "pt_inv pgtbl s" "unat va + 4096 * total_page_cnt len \<le> 2 ^ 48"
    "3 * tables_spanned (vpn va) (total_page_cnt len) \<le> length (free_pages s)"
  shows "\<exists>s'. map_range_in_pgtbl pgtbl va pa len flags s = Some (0, s') \<and> pt_inv pgtbl s' \<and> mapped pgtbl va pa (total_page_cnt len) flags s s'
    \<and> (\<forall>u. in_range (vpn va) (total_page_cnt len) u \<longrightarrow> pt_walk pgtbl s' (vpath u) \<noteq> None)
    \<and> (\<forall>q. length q = 3 \<and> (\<forall>u. in_range (vpn va) (total_page_cnt len) u \<longrightarrow> q \<noteq> vpath u) \<longrightarrow> pt_walk pgtbl s' q = pt_walk pgtbl s q)"
proof -
  from map_loop_ok [OF assms, of pa flags] obtain s1 where
    s1: "map_loop pgtbl va pa (total_page_cnt len) flags s = Some s1" "pt_inv pgtbl s1" "mapped pgtbl va pa (total_page_cnt len) flags s s1"
      "\<forall>u. in_range (vpn va) (total_page_cnt len) u \<longrightarrow> pt_walk pgtbl s1 (vpath u) \<noteq> None"
      "\<forall>q. length q = 3 \<and> (\<forall>u. in_range (vpn va) (total_page_cnt len) u \<longrightarrow> q \<noteq> vpath u) \<longrightarrow> pt_walk pgtbl s1 q = pt_walk pgtbl s q" by blast
  have "pgtbl \<noteq> 0" "pt_walk pgtbl (flush_tlb s1) = pt_walk pgtbl s1" using assms(1) by (simp_all add: pt_inv_def flush_tlb_def)
  then show ?thesis using s1 by (intro exI [of _ "flush_tlb s1"]) (simp add: map_range_in_pgtbl_def mapped_def)
qed

lemma one_page_mapped:
  "\<exists>s. map_range_in_pgtbl (phys_to_virt 0x1000) 0x200000 0x5000 0x1000 3 empty_table = Some (0, s) \<and> pt_inv (phys_to_virt 0x1000) s
    \<and> pt_entry (phys_to_virt 0x1000) s 512 = page_pte 0x5000 3 \<and> pt_walk (phys_to_virt 0x1000) s (vpath 512) \<noteq> None
    \<and> pt_walk (phys_to_virt 0x1000) s (vpath 511) = None"
proof -
  let ?r = "phys_to_virt 0x1000"
  have v: "vpn 0x200000 = 512" "length (free_pages empty_table) = 10" by (simp_all add: vpn_def empty_table_def)
  have "vpath 511 \<noteq> vpath 512" by (simp add: vpath_def)
  moreover have "pt_walk ?r empty_table (vpath 511) = None" by (simp add: vpath_def empty_table_def)
  moreover have "in_range 512 1 u \<longleftrightarrow> u = 512" for u by (auto simp: in_range_def)
  ultimately show ?thesis
    using map_range_tables [OF empty_table_inv, of "0x200000" "0x1000" "0x5000" 3] v
    by (auto simp: tables_spanned_def mapped_def)
qed

theorem mprotect_correct_witness:
  "\<exists>s s'. map_range_in_pgtbl (phys_to_virt 0x1000) 0x200000 0x5000 0x1000 3 empty_table = Some (0, s)
    \<and> mprotect_in_pgtbl (phys_to_virt 0x1000) 0x200000 0x1000 1 s = Some (0, s')
    \<and> query_in_pgtbl (phys_to_virt 0x1000) 0x200000 s' = Some (0, 0x5000, set_pte_flags 1 (page_pte 0x5000 3))"
proof -
  let ?r = "phys_to_virt 0x1000"
  from one_page_mapped obtain s where s: "map_range_in_pgtbl ?r 0x200000 0x5000 0x1000 3 empty_table = Some (0, s)" "pt_inv ?r s"
    "pt_entry ?r s 512 = page_pte 0x5000 3" "pt_walk ?r s (vpath 512) \<noteq> None" by blast
  have v: "vpn 0x200000 = 512" by (simp add: vpn_def)
  have "GET_PADDR_IN_PTE (page_pte 0x5000 3) = 0x5000" using page_aligned_mult [of 5] by (intro GET_PADDR_page) simp
  then have q: "query_in_pgtbl ?r 0x200000 s = Some (0, 0x5000, page_pte 0x5000 3)"
    using query_ok [OF s(2), of "0x200000"] s(3) v by (simp add: GET_VA_OFFSET_def PAGE_SHIFT_def PAGE_ORDER_def)
  have "in_range 512 1 u \<longleftrightarrow> u = 512" for u by (auto simp: in_range_def)
  then have t: "\<forall>u. in_range (vpn 0x200000) (total_page_cnt 0x1000) u \<longrightarrow> pt_walk ?r s (vpath u) \<noteq> None" using s(4) v by fastforce
  show ?thesis using mprotect_correct [OF s(2) _ _ t q, of 1] s(1) v by (auto simp: in_range_def)
qed

text \<open>
  Unmapping can leave pages mapped.  When the first page of a range has no last-level table and
  the range has at most 512 pages, \<^verbatim>\<open>unmap_range_in_pgtbl\<close> advances by a whole table from an address
  that need not be at the start of one, and so changes no descriptor at all, also not those of
  mapped pages further on in the range.
\<close>

theorem unmap_range_skips:
  assumes i: "pt_inv pgtbl s" and t: "pt_walk pgtbl s (vpath (vpn va)) = None" and n: "total_page_cnt len \<le> 512"
  shows "\<exists>s'. unmap_range_in_pgtbl pgtbl va len s = Some (0, s') \<and> pt_entry pgtbl s' = pt_entry pgtbl s"
proof -
  have stop: "update_loop f pgtbl va' c s = Some s" if "c \<le> 0" for f va' c
    using that by (subst update_loop.simps) simp
  have p: "pgtbl \<noteq> 0" using i by (simp add: pt_inv_def)
  have "update_loop f pgtbl va (int (total_page_cnt len)) s = Some s" for f
    using i
  proof (cases rule: update_descend [where va = va])
    case none0
    then show ?thesis using n by (subst update_loop.simps) (simp add: stop L0_PER_ENTRY_PAGES_def L1_PER_ENTRY_PAGES_def)
  next
    case none1
    then show ?thesis using n by (subst update_loop.simps) (simp add: stop L1_PER_ENTRY_PAGES_def ENOMAPPING_def)
  next
    case none2
    then show ?thesis using n by (subst update_loop.simps) (simp add: stop L2_PER_ENTRY_PAGES_def ENOMAPPING_def)
  next
    case table
    then show ?thesis using t by simp
  qed
  then show ?thesis using p by (simp add: unmap_range_in_pgtbl_def)
qed

theorem unmap_range_skips_witness:
  "\<exists>s s'. map_range_in_pgtbl (phys_to_virt 0x1000) 0x200000 0x5000 0x1000 3 empty_table = Some (0, s)
    \<and> unmap_range_in_pgtbl (phys_to_virt 0x1000) 0x1FF000 0x2000 s = Some (0, s')
    \<and> pt_entry (phys_to_virt 0x1000) s' 512 = page_pte 0x5000 3"
proof -
  let ?r = "phys_to_virt 0x1000"
  from one_page_mapped obtain s where s: "map_range_in_pgtbl ?r 0x200000 0x5000 0x1000 3 empty_table = Some (0, s)" "pt_inv ?r s"
    "pt_entry ?r s 512 = page_pte 0x5000 3" "pt_walk ?r s (vpath 511) = None" by blast
  have "vpn 0x1FF000 = 511" by (simp add: vpn_def)
  then show ?thesis using unmap_range_skips [OF s(2), of "0x1FF000" "0x2000"] s by fastforce
qed

end
