(* ===== verification/Vmspace.thy ===== *)
theory Vmspace
  imports Sched Radix Page_Table
begin

text \<open>
  Address spaces: the regions of \<^verbatim>\<open>kernel/mm/vmregion.c\<close> with the memory objects behind them, and the
  page fault handler of \<^verbatim>\<open>kernel/mm/pgfault_handler.c\<close>.  The list \<^verbatim>\<open>vmr_list\<close> is the list of the
  regions linked on it, in the order of a walk (the theory of the intrusive lists shows that
  \<^verbatim>\<open>list_add\<close> and \<^verbatim>\<open>list_del\<close> act on such a list as \<open>Cons\<close> and removal).  A region that was freed keeps
  its contents past the first word until the memory is handed out again, which the code relies
  on; \<open>regions\<close> therefore still has it.  \<^verbatim>\<open>kmalloc\<close> of a region stops the kernel when the memory is
  used up (see the slab allocator); \<open>regions_left\<close> counts what it can still provide.
\<close>

section \<open>State\<close>

type_synonym u8 = "8 word"

record vmregion =
  vmr_start :: u64
  vmr_size :: u64
  vmr_perm :: u64
  vmr_pmo :: "nat option"

definition PMO_ANONYM :: u64 where "PMO_ANONYM = 0"
definition PMO_DATA :: u64 where "PMO_DATA = 1"
definition PMO_FILE :: u64 where "PMO_FILE = 2"
definition PMO_SHM :: u64 where "PMO_SHM = 3"
definition PMO_USER_PAGER :: u64 where "PMO_USER_PAGER = 4"
definition PMO_DEVICE :: u64 where "PMO_DEVICE = 5"
definition PMO_FORBID :: u64 where "PMO_FORBID = 10"

lemmas pmo_types = PMO_ANONYM_def PMO_DATA_def PMO_FILE_def PMO_SHM_def PMO_USER_PAGER_def PMO_DEVICE_def PMO_FORBID_def

record pmobject =
  pmo_radix :: "radix option"
  pmo_start :: u64
  pmo_size :: u64
  pmo_type :: u64

record vmspace =
  vmr_list :: "nat list"
  vm_pgtbl :: u64
  vmspace_lock :: lock_impl
  pgtbl_lock :: lock_impl
  history_cpus :: "u8 list"
  heap_lock :: lock_impl
  heap_vmr :: "nat option"
  user_current_heap :: u64
  user_current_mmap_addr :: u64

text \<open>
  \<open>chunks\<close> are the addresses the next requests for contiguous memory get (0 for \<^verbatim>\<open>NULL\<close>);
  \<open>radix_room\<close> is the number of nodes a new radix tree can have; \<open>pmem\<close> is the physical memory.
\<close>

record vm_state =
  spaces :: "nat \<Rightarrow> vmspace option"
  regions :: "nat \<Rightarrow> vmregion option"
  next_region :: nat
  regions_left :: nat
  pmos :: "nat \<Rightarrow> pmobject option"
  radix_room :: nat
  chunks :: "u64 list"
  pgt :: pgtbl
  pmem :: "u64 \<Rightarrow> u8"

definition upd_space :: "nat \<Rightarrow> (vmspace \<Rightarrow> vmspace) \<Rightarrow> vm_state \<Rightarrow> vm_state option" where
  "upd_space vs f s = map_option (\<lambda>v. s\<lparr>spaces := (spaces s)(vs \<mapsto> f v)\<rparr>) (spaces s vs)"

definition set_region :: "nat \<Rightarrow> vmregion \<Rightarrow> vm_state \<Rightarrow> vm_state" where
  "set_region p r s = s\<lparr>regions := (regions s)(p \<mapsto> r)\<rparr>"

definition set_pmo :: "nat \<Rightarrow> pmobject \<Rightarrow> vm_state \<Rightarrow> vm_state" where
  "set_pmo p x s = s\<lparr>pmos := (pmos s)(p \<mapsto> x)\<rparr>"

definition pmo_of :: "vmregion \<Rightarrow> vm_state \<Rightarrow> pmobject option" where
  "pmo_of r s = do { p \<leftarrow> vmr_pmo r; pmos s p }"

definition lock_space :: "nat \<Rightarrow> vm_state \<Rightarrow> vm_state option" where
  "lock_space vs s = do { v \<leftarrow> spaces s vs; l \<leftarrow> lock (vmspace_lock v); upd_space vs (\<lambda>v. v\<lparr>vmspace_lock := l\<rparr>) s }"

definition unlock_space :: "nat \<Rightarrow> vm_state \<Rightarrow> vm_state option" where
  "unlock_space vs s = upd_space vs (\<lambda>v. v\<lparr>vmspace_lock := unlock (vmspace_lock v)\<rparr>) s"

text \<open>An operation on the page table under \<^verbatim>\<open>pgtbl_lock\<close>.\<close>

definition with_pgtbl :: "nat \<Rightarrow> (u64 \<Rightarrow> pgtbl \<Rightarrow> (int \<times> pgtbl) option) \<Rightarrow> vm_state \<Rightarrow> (int \<times> vm_state) option" where
  "with_pgtbl vs f s = do {
     v \<leftarrow> spaces s vs;
     l \<leftarrow> lock (pgtbl_lock v);
     (ret, t) \<leftarrow> f (vm_pgtbl v) (pgt s);
     s1 \<leftarrow> upd_space vs (\<lambda>v. v\<lparr>pgtbl_lock := unlock l\<rparr>) (s\<lparr>pgt := t\<rparr>);
     Some (ret, s1) }"

section \<open>Regions\<close>

definition alloc_vmregion :: "vm_state \<Rightarrow> (nat \<times> vm_state) option" where
  "alloc_vmregion s =
     (if regions_left s = 0 then None
      else Some (next_region s, s\<lparr>next_region := next_region s + 1, regions_left := regions_left s - 1\<rparr>))"

text \<open>The walk of \<^verbatim>\<open>check_vmr_intersect\<close>.\<close>

fun intersects :: "u64 \<Rightarrow> u64 \<Rightarrow> nat list \<Rightarrow> vm_state \<Rightarrow> int option" where
  "intersects new_start new_end [] s = Some 0"
| "intersects new_start new_end (p # ps) s = do {
     r \<leftarrow> regions s p;
     let start = vmr_start r;
     let end = start + vmr_size r;
     if \<not> (new_start \<ge> end \<or> new_end \<le> start) then Some 1
     else intersects new_start new_end ps s }"

definition check_vmr_intersect :: "nat \<Rightarrow> vmregion \<Rightarrow> vm_state \<Rightarrow> int option" where
  "check_vmr_intersect vs r s =
     (if vmr_size r = 0 then Some 0
      else do {
        v \<leftarrow> spaces s vs;
        intersects (vmr_start r) (vmr_start r + vmr_size r - 1) (vmr_list v) s })"

definition is_vmr_in_vmspace :: "nat \<Rightarrow> nat \<Rightarrow> vm_state \<Rightarrow> bool option" where
  "is_vmr_in_vmspace vs p s = do { v \<leftarrow> spaces s vs; Some (p \<in> set (vmr_list v)) }"

definition add_vmr_to_vmspace :: "nat \<Rightarrow> nat \<Rightarrow> vm_state \<Rightarrow> (int \<times> vm_state) option" where
  "add_vmr_to_vmspace vs p s = do {
     r \<leftarrow> regions s p;
     i \<leftarrow> check_vmr_intersect vs r s;
     BUG_ON (i \<noteq> 0);
     s1 \<leftarrow> upd_space vs (\<lambda>v. v\<lparr>vmr_list := p # vmr_list v\<rparr>) s;
     Some (0, s1) }"

definition del_vmr_from_vmspace :: "nat \<Rightarrow> nat \<Rightarrow> vm_state \<Rightarrow> vm_state option" where
  "del_vmr_from_vmspace vs p s = do {
     b \<leftarrow> is_vmr_in_vmspace vs p s;
     s1 \<leftarrow> (if b then upd_space vs (\<lambda>v. v\<lparr>vmr_list := remove1 p (vmr_list v)\<rparr>) s else Some s);
     Some (s1\<lparr>regions_left := regions_left s1 + 1\<rparr>) }"

definition fill_page_table :: "nat \<Rightarrow> vmregion \<Rightarrow> vm_state \<Rightarrow> (int \<times> vm_state) option" where
  "fill_page_table vs r s = do {
     pmo \<leftarrow> pmo_of r s;
     with_pgtbl vs (\<lambda>t. map_range_in_pgtbl t (vmr_start r) (pmo_start pmo) (pmo_size pmo) (vmr_perm r)) s }"

fun find_vmr :: "u64 \<Rightarrow> nat list \<Rightarrow> vm_state \<Rightarrow> nat option option" where
  "find_vmr addr [] s = Some None"
| "find_vmr addr (p # ps) s = do {
     r \<leftarrow> regions s p;
     let start = vmr_start r;
     let end = start + vmr_size r;
     if addr \<ge> start \<and> addr < end then Some (Some p) else find_vmr addr ps s }"

definition find_vmr_for_va :: "nat \<Rightarrow> u64 \<Rightarrow> vm_state \<Rightarrow> nat option option" where
  "find_vmr_for_va vs addr s = do { v \<leftarrow> spaces s vs; find_vmr addr (vmr_list v) s }"

partial_function (option) unmap_vmrs :: "nat \<Rightarrow> u64 \<Rightarrow> u64 \<Rightarrow> vm_state \<Rightarrow> (int \<times> vm_state) option" where
  [code]: "unmap_vmrs vs va len s =
     (if len = 0 then Some (0, s)
      else do {
        x \<leftarrow> find_vmr_for_va vs va s;
        case x of
          None \<Rightarrow> Some (0, s)
        | Some p \<Rightarrow> do {
            r \<leftarrow> regions s p;
            if vmr_size r > len then do {
              pmo \<leftarrow> pmo_of r s;
              BUG_ON (pmo_type pmo \<noteq> PMO_ANONYM);
              let s1 = set_region p (r\<lparr>vmr_size := vmr_size r - len, vmr_start := vmr_start r + len\<rparr>) s;
              (_, s2) \<leftarrow> with_pgtbl vs (\<lambda>t. unmap_range_in_pgtbl t va len) s1;
              Some (0, s2) }
            else do {
              (_, s1) \<leftarrow> with_pgtbl vs (\<lambda>t. unmap_range_in_pgtbl t va len) s;
              s2 \<leftarrow> del_vmr_from_vmspace vs p s1;
              unmap_vmrs vs (va + vmr_size r) (len - vmr_size r) s2 } } })"

section \<open>Operations on an address space\<close>

definition vmspace_map_range :: "nat \<Rightarrow> u64 \<Rightarrow> u64 \<Rightarrow> u64 \<Rightarrow> nat \<Rightarrow> vm_state \<Rightarrow> (int \<times> vm_state) option" where
  "vmspace_map_range vs va len flags pmo s = do {
     x \<leftarrow> pmos s pmo;
     BUG_ON (pmo_type x \<noteq> PMO_DATA \<and> pmo_type x \<noteq> PMO_ANONYM \<and> pmo_type x \<noteq> PMO_DEVICE \<and> pmo_type x \<noteq> PMO_SHM);
     let va = ROUND_DOWN va PAGE_SIZE;
     let len = (if len < PAGE_SIZE then PAGE_SIZE else len);
     (p, s1) \<leftarrow> alloc_vmregion s;
     let r = \<lparr>vmr_start = va, vmr_size = len, vmr_perm = (if pmo_type x = PMO_DEVICE then flags OR VMR_DEVICE else flags), vmr_pmo = Some pmo\<rparr>;
     s2 \<leftarrow> lock_space vs (set_region p r s1);
     (ret, s3) \<leftarrow> add_vmr_to_vmspace vs p s2;
     s4 \<leftarrow> unlock_space vs s3;
     if ret < 0 then Some (ret, s4\<lparr>regions_left := regions_left s4 + 1\<rparr>)
     else if pmo_type x = PMO_DATA \<or> pmo_type x = PMO_DEVICE
     then do { (_, s5) \<leftarrow> fill_page_table vs r s4; Some (0, s5) }
     else Some (0, s4) }"

definition vmspace_unmap_range :: "nat \<Rightarrow> u64 \<Rightarrow> u64 \<Rightarrow> vm_state \<Rightarrow> (int \<times> vm_state) option" where
  "vmspace_unmap_range vs va len s = do {
     s1 \<leftarrow> lock_space vs s;
     x \<leftarrow> find_vmr_for_va vs va s1;
     case x of
       None \<Rightarrow> Some (- 1, s1)
     | Some p \<Rightarrow> do {
         r \<leftarrow> regions s1 p;
         BUG_ON ((va \<noteq> vmr_start r \<or> len \<noteq> vmr_size r) \<and> len \<noteq> 0);
         s2 \<leftarrow> del_vmr_from_vmspace vs p s1;
         s3 \<leftarrow> unlock_space vs s2;
         if vmr_pmo r = None then Some (0, s3)
         else if len \<noteq> 0 then do { (_, s4) \<leftarrow> with_pgtbl vs (\<lambda>t. unmap_range_in_pgtbl t va len) s3; Some (0, s4) }
         else Some (0, s3) } }"

definition reset_history_cpus :: "vmspace \<Rightarrow> vmspace" where
  "reset_history_cpus v = v\<lparr>history_cpus := replicate PLAT_CPU_NUM 0\<rparr>"

definition record_history_cpu :: "nat \<Rightarrow> vmspace \<Rightarrow> vmspace option" where
  "record_history_cpu cpu v = do {
     BUG_ON (cpu \<ge> PLAT_CPU_NUM);
     h \<leftarrow> upd_opt (history_cpus v) cpu 1;
     Some (v\<lparr>history_cpus := h\<rparr>) }"

definition clear_history_cpu :: "nat \<Rightarrow> vmspace \<Rightarrow> vmspace option" where
  "clear_history_cpu cpu v = do {
     BUG_ON (cpu \<ge> PLAT_CPU_NUM);
     h \<leftarrow> upd_opt (history_cpus v) cpu 0;
     Some (v\<lparr>history_cpus := h\<rparr>) }"

definition HEAP_START :: u64 where "HEAP_START = 0x600000000000"
definition MMAP_START :: u64 where "MMAP_START = 0x700000000000"
definition USER_SPACE_END :: u64 where "USER_SPACE_END = 0x800000000000"

definition init_heap_vmr :: "nat \<Rightarrow> u64 \<Rightarrow> nat \<Rightarrow> vm_state \<Rightarrow> (nat option \<times> vm_state) option" where
  "init_heap_vmr vs va pmo s = do {
     (p, s1) \<leftarrow> alloc_vmregion s;
     s2 \<leftarrow> lock_space vs (set_region p \<lparr>vmr_start = va, vmr_size = 0, vmr_perm = VMR_READ OR VMR_WRITE, vmr_pmo = Some pmo\<rparr> s1);
     (ret, s3) \<leftarrow> add_vmr_to_vmspace vs p s2;
     s4 \<leftarrow> unlock_space vs s3;
     if ret < 0 then Some (None, s4\<lparr>regions_left := regions_left s4 + 1\<rparr>) else Some (Some p, s4) }"

definition vmspace_mmap_with_pmo :: "nat \<Rightarrow> nat \<Rightarrow> u64 \<Rightarrow> u64 \<Rightarrow> vm_state \<Rightarrow> (u64 \<times> vm_state) option" where
  "vmspace_mmap_with_pmo vs pmo len perm s = do {
     (p, s1) \<leftarrow> alloc_vmregion s;
     s2 \<leftarrow> lock_space vs s1;
     v \<leftarrow> spaces s2 vs;
     let start = user_current_mmap_addr v;
     BUG_ON (len mod PAGE_SIZE \<noteq> 0);
     s3 \<leftarrow> upd_space vs (\<lambda>v. v\<lparr>user_current_mmap_addr := user_current_mmap_addr v + len\<rparr>) s2;
     x \<leftarrow> pmos s3 pmo;
     BUG_ON (pmo_type x \<noteq> PMO_ANONYM \<and> pmo_type x \<noteq> PMO_SHM \<and> pmo_type x \<noteq> PMO_FILE);
     (ret, s4) \<leftarrow> add_vmr_to_vmspace vs p (set_region p \<lparr>vmr_start = start, vmr_size = len, vmr_perm = perm, vmr_pmo = Some pmo\<rparr> s3);
     s5 \<leftarrow> unlock_space vs s4;
     if ret < 0 then Some (- 1, s5\<lparr>regions_left := regions_left s5 + 1\<rparr>) else Some (start, s5) }"

definition vmspace_munmap_with_addr :: "nat \<Rightarrow> u64 \<Rightarrow> u64 \<Rightarrow> vm_state \<Rightarrow> (int \<times> vm_state) option" where
  "vmspace_munmap_with_addr vs va len s = do {
     s1 \<leftarrow> lock_space vs s;
     (ret, s2) \<leftarrow> unmap_vmrs vs va len s1;
     s3 \<leftarrow> unlock_space vs s2;
     Some (ret, s3) }"

definition vmspace_unmap_shm_vmr :: "nat \<Rightarrow> u64 \<Rightarrow> vm_state \<Rightarrow> (int \<times> vm_state) option" where
  "vmspace_unmap_shm_vmr vs va s = do {
     s1 \<leftarrow> lock_space vs s;
     x \<leftarrow> find_vmr_for_va vs va s1;
     case x of
       None \<Rightarrow> do { s2 \<leftarrow> unlock_space vs s1; Some (- EINVAL, s2) }
     | Some p \<Rightarrow> do {
         r \<leftarrow> regions s1 p;
         pmo \<leftarrow> pmo_of r s1;
         BUG_ON (pmo_type pmo \<noteq> PMO_SHM);
         BUG_ON (va \<noteq> vmr_start r);
         (_, s2) \<leftarrow> with_pgtbl vs (\<lambda>t. unmap_range_in_pgtbl t (vmr_start r) (vmr_size r)) s1;
         s3 \<leftarrow> del_vmr_from_vmspace vs p s2;
         s4 \<leftarrow> unlock_space vs s3;
         Some (0, s4) } }"

text \<open>\<^verbatim>\<open>get_pages(0)\<close>, as in the page tables; 0 is \<^verbatim>\<open>NULL\<close>.\<close>

definition get_page :: "vm_state \<Rightarrow> u64 \<times> vm_state" where
  "get_page s = (case free_pages (pgt s) of [] \<Rightarrow> (0, s) | a # rest \<Rightarrow> (a, s\<lparr>pgt := (pgt s)\<lparr>free_pages := rest\<rparr>\<rparr>))"

text \<open>The new address space \<open>vs\<close>; a root page that is in use as a table is an array of entries.\<close>

definition vmspace_init :: "nat \<Rightarrow> vmspace \<Rightarrow> vm_state \<Rightarrow> (int \<times> vm_state) option" where
  "vmspace_init vs junk s = (
     let (pg, s1) = get_page s
     in do {
       BUG_ON (pg = 0);
       let v = junk\<lparr>vmr_list := [], vm_pgtbl := pg, vmspace_lock := lock_init, pgtbl_lock := lock_init,
                 user_current_heap := HEAP_START, heap_lock := lock_init\<rparr>;
       let v2 = (reset_history_cpus v)\<lparr>user_current_mmap_addr := MMAP_START\<rparr>;
       Some (0, s1\<lparr>spaces := (spaces s1)(vs \<mapsto> v2), pgt := (pgt s1)\<lparr>ptps := (ptps (pgt s1))(pg \<mapsto> replicate PTP_ENTRIES 0)\<rparr>\<rparr>) })"

text \<open>The loop of \<^verbatim>\<open>destroy_vmspace\<close> over the regions that were linked at its start.\<close>

fun destroy_regions :: "nat \<Rightarrow> nat list \<Rightarrow> vm_state \<Rightarrow> vm_state option" where
  "destroy_regions vs [] s = Some s"
| "destroy_regions vs (p # ps) s = do {
     r \<leftarrow> regions s p;
     s1 \<leftarrow> del_vmr_from_vmspace vs p s;
     v \<leftarrow> spaces s1 vs;
     (_, t) \<leftarrow> unmap_range_in_pgtbl (vm_pgtbl v) (vmr_start r) (vmr_size r) (pgt s1);
     destroy_regions vs ps (s1\<lparr>pgt := t\<rparr>) }"

definition destroy_vmspace :: "nat \<Rightarrow> vm_state \<Rightarrow> (int \<times> vm_state) option" where
  "destroy_vmspace vs s = do {
     v \<leftarrow> spaces s vs;
     s1 \<leftarrow> destroy_regions vs (vmr_list v) s;
     Some (0, s1\<lparr>spaces := (spaces s1)(vs := None)\<rparr>) }"

section \<open>Memory objects\<close>

definition blank_pmo :: pmobject where
  "blank_pmo = \<lparr>pmo_radix = None, pmo_start = 0, pmo_size = 0, pmo_type = 0\<rparr>"

definition pmo_init :: "nat \<Rightarrow> u64 \<Rightarrow> u64 \<Rightarrow> u64 \<Rightarrow> vm_state \<Rightarrow> vm_state option" where
  "pmo_init pmo type len paddr s = (
     let len = ROUND_UP len PAGE_SIZE; x = blank_pmo\<lparr>pmo_size := len, pmo_type := type\<rparr>
     in if type = PMO_DATA then
          (let (a, s1) = (case chunks s of [] \<Rightarrow> (0, s) | a # rest \<Rightarrow> (a, s\<lparr>chunks := rest\<rparr>))
           in Some (set_pmo pmo (x\<lparr>pmo_start := virt_to_phys a\<rparr>) s1))
        else if type = PMO_FILE \<or> type = PMO_ANONYM \<or> type = PMO_SHM then do {
          r \<leftarrow> new_radix True (radix_room s);
          r1 \<leftarrow> init_radix r;
          Some (set_pmo pmo (x\<lparr>pmo_radix := Some r1\<rparr>) s) }
        else if type = PMO_DEVICE then Some (set_pmo pmo (x\<lparr>pmo_start := paddr\<rparr>) s)
        else if type = PMO_FORBID then Some (set_pmo pmo x s)
        else None)"

definition commit_page_to_pmo :: "nat \<Rightarrow> u64 \<Rightarrow> u64 \<Rightarrow> vm_state \<Rightarrow> vm_state option" where
  "commit_page_to_pmo pmo index pa s = do {
     x \<leftarrow> pmos s pmo;
     BUG_ON (pmo_type x \<noteq> PMO_ANONYM \<and> pmo_type x \<noteq> PMO_SHM \<and> pmo_type x \<noteq> PMO_FILE);
     r \<leftarrow> pmo_radix x;
     (ret, r1) \<leftarrow> radix_add index (unat pa) r;
     BUG_ON (ret \<noteq> 0);
     Some (set_pmo pmo (x\<lparr>pmo_radix := Some r1\<rparr>) s) }"

definition get_page_from_pmo :: "nat \<Rightarrow> u64 \<Rightarrow> vm_state \<Rightarrow> (u64 \<times> vm_state) option" where
  "get_page_from_pmo pmo index s = do {
     x \<leftarrow> pmos s pmo;
     r \<leftarrow> pmo_radix x;
     (v, r1) \<leftarrow> radix_get index r;
     Some (of_nat v, set_pmo pmo (x\<lparr>pmo_radix := Some r1\<rparr>) s) }"

definition switch_vmspace_to :: "nat \<Rightarrow> vm_state \<Rightarrow> u64 option" where
  "switch_vmspace_to vs s = do { v \<leftarrow> spaces s vs; Some (virt_to_phys (vm_pgtbl v)) }"

section \<open>Page faults\<close>

definition memset_page :: "u64 \<Rightarrow> (u64 \<Rightarrow> u8) \<Rightarrow> u64 \<Rightarrow> u8" where
  "memset_page pa m a = (if a - pa < PAGE_SIZE then 0 else m a)"

text \<open>A page for the entry \<open>index\<close> of a memory object, as at a page fault.  Clearing the page at \<^verbatim>\<open>NULL\<close> faults.\<close>

definition new_pmo_page :: "nat \<Rightarrow> u64 \<Rightarrow> vm_state \<Rightarrow> (u64 \<times> vm_state) option" where
  "new_pmo_page pmo index s = (
     let (kva, s1) = get_page s; pa = virt_to_phys kva
     in do {
       BUG_ON (pa = 0);
       BUG_ON (kva = 0);
       s2 \<leftarrow> commit_page_to_pmo pmo index pa (s1\<lparr>pmem := memset_page pa (pmem s1)\<rparr>);
       Some (pa, s2) })"

definition handle_trans_fault :: "nat \<Rightarrow> u64 \<Rightarrow> vm_state \<Rightarrow> (int \<times> vm_state) option" where
  "handle_trans_fault vs fault_addr s = do {
     s1 \<leftarrow> lock_space vs s;
     x \<leftarrow> find_vmr_for_va vs fault_addr s1;
     case x of
       None \<Rightarrow> Some (- ENOMAPPING, s1)
     | Some p \<Rightarrow> do {
         r \<leftarrow> regions s1 p;
         o' \<leftarrow> vmr_pmo r;
         pmo \<leftarrow> pmos s1 o';
         if pmo_type pmo = PMO_FILE \<or> pmo_type pmo = PMO_ANONYM \<or> pmo_type pmo = PMO_SHM then do {
           let offset = ROUND_DOWN fault_addr PAGE_SIZE - vmr_start r;
           BUG_ON (offset \<ge> pmo_size pmo \<and> pmo_type pmo \<noteq> PMO_FILE);
           let perm = (if offset \<ge> pmo_size pmo \<and> pmo_type pmo = PMO_FILE then VMR_READ OR VMR_WRITE OR VMR_EXEC else vmr_perm r);
           let index = offset div PAGE_SIZE;
           (pa0, s2) \<leftarrow> get_page_from_pmo o' index s1;
           (pa, s3) \<leftarrow> (if pa0 = 0 then new_pmo_page o' index s2 else Some (pa0, s2));
           (_, s4) \<leftarrow> with_pgtbl vs (\<lambda>t. map_range_in_pgtbl t (ROUND_DOWN fault_addr PAGE_SIZE) pa PAGE_SIZE perm) s3;
           s5 \<leftarrow> unlock_space vs s4;
           Some (0, s5) }
         else None } }"

text \<open>
  The entry from the exception vector, \<^verbatim>\<open>do_page_fault\<close>: the fault status code of the syndrome
  register selects the handler; every other code and every failure of the handler stops the kernel.
\<close>

definition GET_ESR_EL1_FSC :: "u64 \<Rightarrow> u64" where "GET_ESR_EL1_FSC esr = esr AND 0x3F"
definition DFSC_TRANS_FAULT_L0 :: u64 where "DFSC_TRANS_FAULT_L0 = 4"
definition DFSC_TRANS_FAULT_L1 :: u64 where "DFSC_TRANS_FAULT_L1 = 5"
definition DFSC_TRANS_FAULT_L2 :: u64 where "DFSC_TRANS_FAULT_L2 = 6"
definition DFSC_TRANS_FAULT_L3 :: u64 where "DFSC_TRANS_FAULT_L3 = 7"

definition do_page_fault :: "nat \<Rightarrow> u64 \<Rightarrow> u64 \<Rightarrow> vm_state \<Rightarrow> vm_state option" where
  "do_page_fault vs esr fault_addr s = (
     let fsc = GET_ESR_EL1_FSC esr
     in if fsc = DFSC_TRANS_FAULT_L0 \<or> fsc = DFSC_TRANS_FAULT_L1 \<or> fsc = DFSC_TRANS_FAULT_L2 \<or> fsc = DFSC_TRANS_FAULT_L3
        then do {
          (ret, s1) \<leftarrow> handle_trans_fault vs fault_addr s;
          BUG_ON (ret \<noteq> 0);
          Some s1 }
        else None)"

section \<open>Regions as intervals\<close>

definition lo :: "vmregion \<Rightarrow> nat" where "lo r = unat (vmr_start r)"
definition hi :: "vmregion \<Rightarrow> nat" where "hi r = unat (vmr_start r) + unat (vmr_size r)"

text \<open>A region starts at a page and lies in the user's half of the addresses.\<close>

definition region_ok :: "vmregion \<Rightarrow> bool" where
  "region_ok r \<longleftrightarrow> 4096 dvd lo r \<and> hi r \<le> 2 ^ 48"

definition apart :: "vmregion \<Rightarrow> vmregion \<Rightarrow> bool" where
  "apart r q \<longleftrightarrow> hi r \<le> lo q \<or> hi q \<le> lo r"

definition holds :: "vmregion \<Rightarrow> u64 \<Rightarrow> bool" where
  "holds r a \<longleftrightarrow> lo r \<le> unat a \<and> unat a < hi r"

lemma apart_sym: "apart r q \<longleftrightarrow> apart q r"
  by (auto simp: apart_def)

lemma apart_holds: "apart r q \<Longrightarrow> holds r a \<Longrightarrow> \<not> holds q a"
  by (auto simp: apart_def holds_def)

lemma unat_end: "region_ok r \<Longrightarrow> unat (vmr_start r + vmr_size r) = hi r"
  by (simp add: region_ok_def hi_def unat_word_ariths)

lemma holds_iff: "region_ok r \<Longrightarrow> a \<ge> vmr_start r \<and> a < vmr_start r + vmr_size r \<longleftrightarrow> holds r a"
  by (simp add: holds_def word_le_nat_alt word_less_nat_alt unat_end lo_def)

definition regions_ok :: "nat list \<Rightarrow> nat \<Rightarrow> (nat \<Rightarrow> vmregion option) \<Rightarrow> bool" where
  "regions_ok l n R \<longleftrightarrow> distinct l \<and> (\<forall>p \<in> set l. p < n \<and> (\<exists>r. R p = Some r \<and> region_ok r))
     \<and> (\<forall>p \<in> set l. \<forall>q \<in> set l. p \<noteq> q \<longrightarrow> apart (the (R p)) (the (R q)))"

lemma regions_okD:
  assumes "regions_ok l n R" "p \<in> set l"
  obtains r where "R p = Some r" "region_ok r" "p < n"
  using assms by (auto simp: regions_ok_def)

lemma regions_ok_Cons:
  assumes "regions_ok (p # ps) n R"
  shows "regions_ok ps n R" "p \<notin> set ps"
  using assms by (auto simp: regions_ok_def)

definition hit :: "(nat \<Rightarrow> vmregion option) \<Rightarrow> u64 \<Rightarrow> nat \<Rightarrow> bool" where
  "hit R a p \<longleftrightarrow> (\<exists>r. R p = Some r \<and> holds r a)"

lemma find_vmr_eq:
  assumes "regions_ok l n (regions s)"
  shows "find_vmr a l s = Some (find (hit (regions s) a) l)"
  using assms
proof (induction l)
  case (Cons p ps)
  from Cons.prems obtain r where r: "regions s p = Some r" "region_ok r" by (rule regions_okD) auto
  have "hit (regions s) a p \<longleftrightarrow> a \<ge> vmr_start r \<and> a < vmr_start r + vmr_size r" using r holds_iff [OF r(2), of a] by (simp add: hit_def)
  then show ?case using Cons.IH [OF regions_ok_Cons(1) [OF Cons.prems]] r(1) by (auto simp: Let_def)
qed simp

lemma hit_unique:
  assumes "regions_ok l n R" "p \<in> set l" "q \<in> set l" "hit R a p" "hit R a q"
  shows "p = q"
  using assms apart_holds unfolding regions_ok_def hit_def by fastforce

lemma find_hit:
  assumes "regions_ok l n R"
  shows "find (hit R a) l = Some p \<longleftrightarrow> p \<in> set l \<and> hit R a p"
proof
  assume "p \<in> set l \<and> hit R a p"
  then obtain q where q: "find (hit R a) l = Some q" by (cases "find (hit R a) l") (auto simp: find_None_iff)
  then have "q \<in> set l" "hit R a q" by (auto simp: find_Some_iff)
  then show "find (hit R a) l = Some p" using hit_unique [OF assms] q \<open>p \<in> set l \<and> hit R a p\<close> by blast
qed (auto simp: find_Some_iff)

text \<open>
  The test for an intersection takes the last byte of the new region against the first of the old
  one, which is exact for a region whose length is a multiple of the page size.
\<close>

lemma no_gap_of_one: "(4096::nat) dvd a \<Longrightarrow> 4096 dvd b \<Longrightarrow> a \<noteq> b + 1"
  using dvd_add_right_iff [of 4096 b 1] by auto

lemma intersects_eq:
  assumes "\<forall>p \<in> set l. \<exists>q. regions s p = Some q \<and> region_ok q" and r: "region_ok r" "4096 dvd hi r" "vmr_size r \<noteq> 0"
  shows "intersects (vmr_start r) (vmr_start r + vmr_size r - 1) l s = Some (if \<forall>p \<in> set l. apart r (the (regions s p)) then 0 else 1)"
  using assms(1)
proof (induction l)
  case (Cons p ps)
  then obtain q where q: "regions s p = Some q" "region_ok q" by auto
  have pos: "0 < hi r" using r(3) by (simp add: hi_def unat_gt_0)
  then have "vmr_start r + vmr_size r \<noteq> 0" using unat_end [OF r(1)] by (metis less_irrefl unat_0)
  then have "unat (vmr_start r + vmr_size r - 1) = hi r - 1" using unat_end [OF r(1)] by (simp add: unat_minus_one)
  moreover have "hi r \<noteq> lo q + 1" using r(2) q(2) by (intro no_gap_of_one) (simp_all add: region_ok_def)
  ultimately have "(vmr_start r \<ge> vmr_start q + vmr_size q \<or> vmr_start r + vmr_size r - 1 \<le> vmr_start q) \<longleftrightarrow> apart r q"
    unfolding word_le_nat_alt unat_end [OF q(2)] apart_def lo_def using pos by auto
  then show ?case using Cons q by (simp add: Let_def)
qed simp

lemma regions_ok_add:
  assumes "regions_ok l n R" "region_ok r" "\<forall>p \<in> set l. apart r (the (R p))"
  shows "regions_ok (n # l) (n + 1) (R(n \<mapsto> r))"
proof -
  have "\<forall>p \<in> set l. apart (the (R p)) r" using assms(3) apart_sym by blast
  then show ?thesis using assms by (auto simp: regions_ok_def)
qed

lemma regions_ok_remove: "regions_ok l n R \<Longrightarrow> regions_ok (remove1 p l) n R"
  unfolding regions_ok_def by (meson distinct_remove1 notin_set_remove1)

lemma regions_ok_set: "regions_ok l n R \<Longrightarrow> regions_ok l n (R(q := x))" if "q \<notin> set l"
  using that unfolding regions_ok_def by auto

section \<open>The invariant of an address space\<close>

definition mem_ok_in :: "vmspace \<Rightarrow> vm_state \<Rightarrow> bool" where
  "mem_ok_in v s \<longleftrightarrow> lock_free (pgtbl_lock v) \<and> pt_inv (vm_pgtbl v) (pgt s) \<and> regions_ok (vmr_list v) (next_region s) (regions s)"

definition space_ok :: "vmspace \<Rightarrow> vm_state \<Rightarrow> bool" where
  "space_ok v s \<longleftrightarrow> lock_free (vmspace_lock v) \<and> mem_ok_in v s"

definition space_inv :: "nat \<Rightarrow> vm_state \<Rightarrow> bool" where
  "space_inv vs s \<longleftrightarrow> (\<exists>v. spaces s vs = Some v \<and> space_ok v s)"

text \<open>
  The abstract view of an address space: what is behind an address, that is the memory object,
  the offset in it and the permissions.
\<close>

definition view :: "nat \<Rightarrow> vm_state \<Rightarrow> u64 \<Rightarrow> (nat option \<times> u64 \<times> u64) option" where
  "view vs s a = (case find_vmr_for_va vs a s of
     Some (Some p) \<Rightarrow> map_option (\<lambda>r. (vmr_pmo r, a - vmr_start r, vmr_perm r)) (regions s p)
   | _ \<Rightarrow> None)"

definition behind :: "vmregion \<Rightarrow> u64 \<Rightarrow> nat option \<times> u64 \<times> u64" where
  "behind r a = (vmr_pmo r, a - vmr_start r, vmr_perm r)"

lemma view_eq:
  assumes "spaces s vs = Some v" "regions_ok (vmr_list v) n (regions s)"
  shows "view vs s a = (case find (hit (regions s) a) (vmr_list v) of None \<Rightarrow> None | Some p \<Rightarrow> Some (behind (the (regions s p)) a))"
proof (cases "find (hit (regions s) a) (vmr_list v)")
  case (Some p)
  then have "hit (regions s) a p" using find_hit [OF assms(2)] by blast
  then show ?thesis using Some find_vmr_eq [OF assms(2), of a] assms(1) by (auto simp: view_def behind_def find_vmr_for_va_def hit_def)
qed (use find_vmr_eq [OF assms(2), of a] assms(1) in \<open>simp add: view_def find_vmr_for_va_def\<close>)

lemma view_Some:
  assumes "spaces s vs = Some v" "regions_ok (vmr_list v) n (regions s)"
  shows "view vs s a = Some y \<longleftrightarrow> (\<exists>p \<in> set (vmr_list v). hit (regions s) a p \<and> y = behind (the (regions s p)) a)"
proof (cases "find (hit (regions s) a) (vmr_list v)")
  case None
  then have "view vs s a = None" using view_eq [OF assms, of a] by simp
  then show ?thesis using None by (auto simp: find_None_iff)
next
  case (Some q)
  have q: "q \<in> set (vmr_list v)" "hit (regions s) a q" using Some find_hit [OF assms(2)] by auto
  have "view vs s a = Some (behind (the (regions s q)) a)" using Some view_eq [OF assms, of a] by simp
  then show ?thesis using q hit_unique [OF assms(2)] by (metis option.inject)
qed

lemma view_None:
  assumes "spaces s vs = Some v" "regions_ok (vmr_list v) n (regions s)"
  shows "view vs s a = None \<longleftrightarrow> (\<forall>p \<in> set (vmr_list v). \<not> hit (regions s) a p)"
  using view_Some [OF assms, of a] by (metis not_None_eq)

section \<open>The operations on regions\<close>

definition taken :: "lock_impl \<Rightarrow> lock_impl" where
  "taken l = l\<lparr>nxt := nxt l + 1\<rparr>"

lemma taken_simps [simp]: "lock_free l \<Longrightarrow> lock l = Some (taken l)" "lock_free l \<Longrightarrow> lock_free (unlock (taken l))"
    "lock_free l \<Longrightarrow> lock_held (taken l)"
  by (simp_all add: taken_def lock_Some_iff unlock_def lock_held_def lock_free_def)

lemma upd_space_eq [simp]: "spaces s vs = Some v \<Longrightarrow> upd_space vs f s = Some (s\<lparr>spaces := (spaces s)(vs \<mapsto> f v)\<rparr>)"
  by (simp add: upd_space_def)

lemma lock_space_eq:
  "spaces s vs = Some v \<Longrightarrow> lock_free (vmspace_lock v) \<Longrightarrow>
     lock_space vs s = Some (s\<lparr>spaces := (spaces s)(vs \<mapsto> v\<lparr>vmspace_lock := taken (vmspace_lock v)\<rparr>)\<rparr>)"
  by (simp add: lock_space_def)

lemma lock_space_stuck: "spaces s vs = Some v \<Longrightarrow> \<not> lock_free (vmspace_lock v) \<Longrightarrow> lock_space vs s = None"
  by (simp add: lock_space_def lock_None_iff [THEN iffD2])

lemma check_vmr_intersect_eq:
  assumes v: "spaces s vs = Some v" and l: "\<forall>p \<in> set (vmr_list v). \<exists>q. regions s p = Some q \<and> region_ok q"
    and r: "region_ok r" "4096 dvd hi r"
  shows "check_vmr_intersect vs r s = Some (if vmr_size r = 0 \<or> (\<forall>p \<in> set (vmr_list v). apart r (the (regions s p))) then 0 else 1)"
  using intersects_eq [OF l r] v by (simp add: check_vmr_intersect_def)

text \<open>Linking a new region in: the kernel stops when it is not apart from the others.\<close>

definition linked :: "nat \<Rightarrow> vmspace \<Rightarrow> vmregion \<Rightarrow> nat \<Rightarrow> vm_state \<Rightarrow> vm_state" where
  "linked vs v r p s = s\<lparr>regions := (regions s)(p \<mapsto> r), spaces := (spaces s)(vs \<mapsto> v\<lparr>vmr_list := p # vmr_list v\<rparr>)\<rparr>"

lemma add_vmr_eq:
  assumes v: "spaces s vs = Some v" "regions_ok (vmr_list v) p (regions s)" and r: "region_ok r" "4096 dvd hi r"
  shows "add_vmr_to_vmspace vs p (set_region p r s) =
    (if vmr_size r = 0 \<or> (\<forall>q \<in> set (vmr_list v). apart r (the (regions s q))) then Some (0, linked vs v r p s) else None)"
proof -
  have p: "p \<notin> set (vmr_list v)" using v(2) by (auto simp: regions_ok_def)
  have "\<exists>q. regions (set_region p r s) i = Some q \<and> region_ok q" if "i \<in> set (vmr_list v)" for i
    using v(2) r(1) that by (auto simp: regions_ok_def set_region_def)
  moreover have "(\<forall>q \<in> set (vmr_list v). apart r (the (regions (set_region p r s) q))) \<longleftrightarrow> (\<forall>q \<in> set (vmr_list v). apart r (the (regions s q)))"
    using p by (auto simp: set_region_def)
  moreover have "spaces (set_region p r s) vs = Some v" using v(1) by (simp add: set_region_def)
  ultimately show ?thesis using check_vmr_intersect_eq [of "set_region p r s" vs v r] r
    by (auto simp: add_vmr_to_vmspace_def linked_def set_region_def)
qed

lemma view_linked:
  assumes v: "spaces s vs = Some v" "regions_ok (vmr_list v) n (regions s)" and r: "region_ok r" "\<forall>p \<in> set (vmr_list v). apart r (the (regions s p))"
    and s': "spaces s' vs = Some v'" "vmr_list v' = n # vmr_list v" "regions s' = (regions s)(n \<mapsto> r)"
  shows "regions_ok (vmr_list v') (n + 1) (regions s')"
    "view vs s' = (\<lambda>a. if holds r a then Some (behind r a) else view vs s a)"
proof -
  show ok: "regions_ok (vmr_list v') (n + 1) (regions s')" unfolding s' by (rule regions_ok_add [OF v(2) r])
  have n: "n \<notin> set (vmr_list v)" using v(2) by (auto simp: regions_ok_def)
  have h: "hit (regions s') a n \<longleftrightarrow> holds r a" "p \<in> set (vmr_list v) \<Longrightarrow> hit (regions s') a p = hit (regions s) a p" for a p
    using n s'(3) by (auto simp: hit_def)
  have f: "find (hit (regions s') a) (vmr_list v) = find (hit (regions s) a) (vmr_list v)" for a
    using h(2) by (intro find_cong) auto
  show "view vs s' = (\<lambda>a. if holds r a then Some (behind r a) else view vs s a)"
  proof
    fix a
    have "find (hit (regions s) a) (vmr_list v) = Some p \<Longrightarrow> regions s' p = regions s p" for p
      using find_hit [OF v(2)] n s'(3) by auto
    then show "view vs s' a = (if holds r a then Some (behind r a) else view vs s a)"
      using view_eq [OF s'(1) ok, of a] view_eq [OF v, of a] f [of a] h(1) [of a] s'(2,3) by (auto split: option.split)
  qed
qed

text \<open>
  \<^verbatim>\<open>vmspace_map_range\<close> for the memory objects that are mapped on demand.
\<close>

definition new_region :: "u64 \<Rightarrow> u64 \<Rightarrow> u64 \<Rightarrow> nat \<Rightarrow> vmregion" where
  "new_region va len flags pmo = \<lparr>vmr_start = ROUND_DOWN va PAGE_SIZE, vmr_size = (if len < PAGE_SIZE then PAGE_SIZE else len),
     vmr_perm = flags, vmr_pmo = Some pmo\<rparr>"

definition free_for :: "nat \<Rightarrow> vm_state \<Rightarrow> vmregion \<Rightarrow> bool" where
  "free_for vs s r \<longleftrightarrow> (\<exists>v. spaces s vs = Some v \<and> (\<forall>p \<in> set (vmr_list v). apart r (the (regions s p))))"

lemma dvd_page_hi: "region_ok r \<Longrightarrow> 4096 dvd unat (vmr_size r) \<Longrightarrow> 4096 dvd hi r"
  by (auto simp: region_ok_def hi_def lo_def)

lemma new_region_ok:
  assumes "unat (ROUND_DOWN va PAGE_SIZE) + unat len \<le> 2 ^ 48" "4096 dvd unat len" "len \<noteq> 0"
  shows "region_ok (new_region va len flags pmo)" "4096 dvd hi (new_region va len flags pmo)" "vmr_size (new_region va len flags pmo) = len"
proof -
  have "4096 \<le> unat len" using assms(2,3) by (intro dvd_imp_le) (auto simp: unat_gt_0)
  then have "\<not> len < 4096" by (simp add: word_less_nat_alt)
  then show "vmr_size (new_region va len flags pmo) = len" by (simp add: new_region_def)
  then show "region_ok (new_region va len flags pmo)" "4096 dvd hi (new_region va len flags pmo)"
    using assms(1,2) ROUND_DOWN_page [of va] by (auto simp: region_ok_def lo_def hi_def new_region_def)
qed

lemma vmspace_map_range_eq:
  assumes i: "space_inv vs s" and x: "pmos s pmo = Some x" "pmo_type x = PMO_ANONYM \<or> pmo_type x = PMO_SHM" and left: "regions_left s \<noteq> 0"
    and r: "region_ok (new_region va len flags pmo)" "4096 dvd hi (new_region va len flags pmo)"
  shows "if free_for vs s (new_region va len flags pmo)
    then \<exists>s'. vmspace_map_range vs va len flags pmo s = Some (0, s') \<and> space_inv vs s' \<and> pmos s' = pmos s \<and> pgt s' = pgt s \<and> pmem s' = pmem s \<and> regions_left s' = regions_left s - 1
      \<and> (\<exists>v'. spaces s' = (spaces s)(vs \<mapsto> v') \<and> vm_pgtbl v' = vm_pgtbl (the (spaces s vs)) \<and> vmr_list v' = next_region s # vmr_list (the (spaces s vs)))
      \<and> regions s' = (regions s)(next_region s \<mapsto> new_region va len flags pmo)
      \<and> view vs s' = (\<lambda>a. if holds (new_region va len flags pmo) a then Some (behind (new_region va len flags pmo) a) else view vs s a)
    else vmspace_map_range vs va len flags pmo s = None"
proof -
  let ?r = "new_region va len flags pmo" and ?p = "next_region s"
  from i obtain v where v: "spaces s vs = Some v" "lock_free (vmspace_lock v)" "mem_ok_in v s" by (auto simp: space_inv_def space_ok_def)
  have rs: "regions_ok (vmr_list v) ?p (regions s)" using v(3) by (simp add: mem_ok_in_def)
  define t where "t = s\<lparr>next_region := ?p + 1, regions_left := regions_left s - 1, spaces := (spaces s)(vs \<mapsto> v\<lparr>vmspace_lock := taken (vmspace_lock v)\<rparr>)\<rparr>"
  let ?v = "v\<lparr>vmspace_lock := taken (vmspace_lock v)\<rparr>"
  have t: "spaces t vs = Some ?v" "regions_ok (vmr_list ?v) ?p (regions t)" "regions t = regions s" using rs by (simp_all add: t_def)
  have ty: "pmo_type x \<noteq> PMO_DATA" "pmo_type x \<noteq> PMO_DEVICE" using x(2) by (auto simp: pmo_types)
  have sz: "vmr_size ?r \<noteq> 0" by (auto simp: new_region_def)
  have t2: "set_region ?p ?r t = s\<lparr>next_region := ?p + 1, regions_left := regions_left s - 1, regions := (regions s)(?p \<mapsto> ?r), spaces := (spaces s)(vs \<mapsto> ?v)\<rparr>"
    by (rule vm_state.equality) (simp_all add: set_region_def t_def)
  note a = add_vmr_eq [OF t(1,2) r, unfolded t2]
  note defs = vmspace_map_range_def alloc_vmregion_def new_region_def set_region_def lock_space_def unlock_space_def
  show ?thesis
  proof (cases "free_for vs s ?r")
    case True
    then have ap: "\<forall>q \<in> set (vmr_list v). apart ?r (the (regions s q))" using v(1) by (auto simp: free_for_def)
    let ?w = "?v\<lparr>vmr_list := ?p # vmr_list v, vmspace_lock := unlock (taken (vmspace_lock v))\<rparr>"
    let ?s = "t\<lparr>regions := (regions t)(?p \<mapsto> ?r), spaces := (spaces t)(vs \<mapsto> ?w)\<rparr>"
    have "vmspace_map_range vs va len flags pmo s = Some (0, ?s)"
      using a ap x v ty left t(3) by (auto simp: defs linked_def t_def)
    moreover have "regions_ok (vmr_list ?w) (?p + 1) (regions ?s)"
        "view vs ?s = (\<lambda>a. if holds ?r a then Some (behind ?r a) else view vs s a)"
      using view_linked [OF v(1) rs r(1) ap, of ?s ?w] by (simp_all add: t_def)
    moreover have "\<exists>v'. spaces ?s = (spaces s)(vs \<mapsto> v') \<and> vm_pgtbl v' = vm_pgtbl (the (spaces s vs)) \<and> vmr_list v' = next_region s # vmr_list (the (spaces s vs))"
      using v(1) by (intro exI [of _ ?w]) (simp add: t_def)
    ultimately show ?thesis using True v by (auto simp: t_def space_inv_def space_ok_def mem_ok_in_def)
  next
    case False
    then have "\<not> (\<forall>q \<in> set (vmr_list v). apart ?r (the (regions s q)))" using v(1) by (auto simp: free_for_def)
    then have "add_vmr_to_vmspace vs ?p (set_region ?p ?r t) = None" using a sz t(3) unfolding t2 by simp
    then show ?thesis using False x v left ty unfolding t2 by (auto simp: defs Let_def)
  qed
qed

end
