(* ===== verification/Vmspace_Fault.thy ===== *)
theory Vmspace_Fault
  imports Vmspace
begin

text \<open>
  The page fault handler: it finds or commits the page of the memory object and maps it.  The main
  fact is \<open>handle_trans_fault_ok\<close>, with what it takes from the free pages.
\<close>

section \<open>Page faults\<close>

lemma with_pgtbl_eq:
  assumes "spaces s vs = Some v" "lock_free (pgtbl_lock v)" "f (vm_pgtbl v) (pgt s) = Some (ret, t)"
  shows "with_pgtbl vs f s = Some (ret, s\<lparr>pgt := t, spaces := (spaces s)(vs \<mapsto> v\<lparr>pgtbl_lock := unlock (taken (pgtbl_lock v))\<rparr>)\<rparr>)"
  using assms by (simp add: with_pgtbl_def)

text \<open>The page of an address of a region, in the memory object.\<close>

lemma fault_index:
  assumes r: "region_ok r" "holds r a"
  shows "(ROUND_DOWN a PAGE_SIZE - vmr_start r) div PAGE_SIZE = (a - vmr_start r) div PAGE_SIZE"
    "ROUND_DOWN a PAGE_SIZE - vmr_start r = (a - vmr_start r) div PAGE_SIZE * PAGE_SIZE"
    "vpn (ROUND_DOWN a PAGE_SIZE) = vpn a" "unat (ROUND_DOWN a PAGE_SIZE) + 4096 \<le> 2 ^ 48" "vpn a < 2 ^ 36"
unfolding PAGE_SIZE_eq
proof -
  from r(1) obtain k where k: "unat (vmr_start r) = 4096 * k" by (auto simp: region_ok_def lo_def)
  have le: "4096 * k \<le> unat a" "unat a < 2 ^ 48" using r k by (auto simp: holds_def lo_def region_ok_def)
  have rd: "unat (ROUND_DOWN a 4096) = unat a div 4096 * 4096" using ROUND_DOWN_page [of a] by simp
  have kd: "k \<le> unat a div 4096" using le(1) by (simp add: less_eq_div_iff_mult_less_eq mult.commute)
  have o: "unat (a - vmr_start r) = unat a - 4096 * k" using le(1) k by (simp add: unat_sub word_le_nat_alt)
  have p: "unat (ROUND_DOWN a 4096 - vmr_start r) = unat a div 4096 * 4096 - 4096 * k"
    using rd kd k by (subst unat_sub) (auto simp: word_le_nat_alt)
  have q: "(unat a - 4096 * k) div 4096 = unat a div 4096 - k" by (metis div_mult_self4 le(1) le_add_diff_inverse diff_add_inverse zero_neq_numeral)
  show i: "(ROUND_DOWN a 4096 - vmr_start r) div 4096 = (a - vmr_start r) div 4096"
    by (simp add: word_unat_eq_iff unat_div o p q)
  show "ROUND_DOWN a 4096 - vmr_start r = (a - vmr_start r) div 4096 * 4096"
  proof -
    have "(unat a div 4096 - k) * 4096 = unat a div 4096 * 4096 - 4096 * k" by (simp add: diff_mult_distrib)
    moreover have "unat a div 4096 * 4096 - 4096 * k \<le> unat a" by (meson diff_le_self div_times_less_eq_dividend le_trans)
    ultimately show ?thesis using o p q le(2) by (simp add: word_unat_eq_iff unat_div unat_word_ariths)
  qed
  show "vpn (ROUND_DOWN a 4096) = vpn a" using rd by (simp add: vpn_def)
  show "unat (ROUND_DOWN a 4096) + 4096 \<le> 2 ^ 48" "vpn a < 2 ^ 36" using rd le(2) by (simp_all add: vpn_def) 
qed

section \<open>Where the pages of the tables come from\<close>

text \<open>A page table takes its pages from the free list and nothing else.\<close>

definition grown :: "pgtbl \<Rightarrow> pgtbl \<Rightarrow> bool" where
  "grown t t' \<longleftrightarrow> set (free_pages t') \<subseteq> set (free_pages t) \<and> dom (ptps t') \<subseteq> dom (ptps t) \<union> set (free_pages t)"

lemma grown_refl [simp]: "grown t t"
  by (simp add: grown_def)

lemma grown_trans: "grown t u \<Longrightarrow> grown u w \<Longrightarrow> grown t w"
  unfolding grown_def by blast

lemma grown_set_pte: "set_pte p i e t = Some t' \<Longrightarrow> grown t t'"
  by (fastforce simp: set_pte_def grown_def domIff split: bind_splits if_splits)

lemma grown_next_ptp:
  assumes "get_next_ptp p level va alloc t = Some (r, q, e, t')"
  shows "grown t t'"
proof -
  have new: "grown t t'" if "free_pages t = a # rest" "set_pte p i w (t\<lparr>free_pages := rest, ptps := (ptps t)(a \<mapsto> z)\<rparr>) = Some t'" for a rest i w z t'
    using that(1) grown_set_pte [OF that(2)] unfolding grown_def by (simp add: subset_insert_iff) blast
  show ?thesis using assms by (auto simp: get_next_ptp_def Let_def intro: new split: if_splits bind_splits list.splits)
qed

lemma grown_map_l3: "map_l3 n p va pa cnt flags t = Some (va', pa', cnt', t') \<Longrightarrow> grown t t'"
proof (induction n p va pa cnt flags t rule: map_l3.induct)
  case (2 n p va pa cnt flags t)
  from 2(2) obtain u where u: "set_pte p (PTP_ENTRIES - Suc n) (page_pte pa flags) t = Some u" by (auto split: bind_splits)
  show ?case
  proof (cases "cnt - 1 = 0")
    case True
    then show ?thesis using 2(2) u grown_set_pte [OF u] by simp
  next
    case False
    then have "grown u t'" using 2 u by simp
    then show ?thesis using grown_set_pte [OF u] grown_trans by blast
  qed
qed simp

lemma grown_map_loop: "map_loop pg va pa cnt flags t = Some t' \<Longrightarrow> grown t t'"
proof (induction rule: map_loop.raw_induct [rotated, consumes 1])
  case (1 f pg va pa cnt flags t t')
  show ?case
  proof (cases "cnt = 0")
    case False
    with 1(2) obtain r0 l1 e0 s0 r1 l2 e1 s1 r2 l3 e2 s2 va' pa' cnt' s3 where
      d: "get_next_ptp pg 0 va True t = Some (r0, l1, e0, s0)" "get_next_ptp l1 1 va True s0 = Some (r1, l2, e1, s1)"
        "get_next_ptp l2 2 va True s1 = Some (r2, l3, e2, s2)"
        "map_l3 (PTP_ENTRIES - GET_INDEX 3 va) l3 va pa cnt flags s2 = Some (va', pa', cnt', s3)" "f pg va' pa' cnt' flags s3 = Some t'"
      by (auto split: bind_splits)
    from d(1-3) [THEN grown_next_ptp] grown_map_l3 [OF d(4)] 1(1) [OF d(5)] show ?thesis by (meson grown_trans)
  qed (use 1(2) in simp)
qed

lemma grown_map_range:
  assumes "map_range_in_pgtbl pg va pa len flags t = Some (r, t')"
  shows "grown t t'"
proof -
  from assms obtain u where "map_loop pg va pa (total_page_cnt len) flags t = Some u" "t' = flush_tlb u"
    by (auto simp: map_range_in_pgtbl_def split: bind_splits)
  then show ?thesis using grown_map_loop by (simp add: grown_def flush_tlb_def)
qed

text \<open>The page of a memory object under an index, 0 when none is committed.\<close>

definition page_of :: "pmobject \<Rightarrow> u64 \<Rightarrow> u64" where
  "page_of x k = (case pmo_radix x of None \<Rightarrow> 0 | Some r \<Rightarrow> of_nat (radix_map r k))"

definition pmo_room :: "pmobject \<Rightarrow> nat" where
  "pmo_room x = (case pmo_radix x of None \<Rightarrow> 0 | Some r \<Rightarrow> nodes_left r)"

definition pmo_ok :: "pmobject \<Rightarrow> bool" where
  "pmo_ok x \<longleftrightarrow> (\<exists>r. pmo_radix x = Some r \<and> radix_inv r \<and> (\<forall>k. radix_map r k < 2 ^ 64 \<and> page_aligned (of_nat (radix_map r k))))
     \<and> (pmo_type x = PMO_ANONYM \<or> pmo_type x = PMO_SHM \<or> pmo_type x = PMO_FILE)"

definition same_shape :: "pmobject \<Rightarrow> pmobject \<Rightarrow> bool" where
  "same_shape x y \<longleftrightarrow> pmo_start y = pmo_start x \<and> pmo_size y = pmo_size x \<and> pmo_type y = pmo_type x"

lemma page_aligned_0 [simp]: "page_aligned 0"
  by (simp add: page_aligned_def)

lemma pmo_ok_aligned: "pmo_ok x \<Longrightarrow> page_aligned (page_of x k)"
  by (auto simp: pmo_ok_def page_of_def)

lemma get_page_from_pmo_ok:
  assumes "pmos s ob = Some x" "pmo_ok x"
  shows "\<exists>y. get_page_from_pmo ob k s = Some (page_of x k, set_pmo ob y s) \<and> pmo_ok y \<and> page_of y = page_of x \<and> same_shape x y \<and> pmo_room y = pmo_room x"
proof -
  from assms(2) obtain r where r: "pmo_radix x = Some r" "radix_inv r" "\<forall>k. radix_map r k < 2 ^ 64 \<and> page_aligned (of_nat (radix_map r k))"
    by (auto simp: pmo_ok_def)
  from radix_get_ok [OF r(2), of k] obtain r' where
    r': "radix_get k r = Some (radix_map r k, r')" "radix_inv r'" "radix_map r' = radix_map r" "nodes_left r' = nodes_left r" by blast
  then show ?thesis using assms r
    by (intro exI [of _ "x\<lparr>pmo_radix := Some r'\<rparr>"])
      (simp add: get_page_from_pmo_def page_of_def pmo_ok_def same_shape_def pmo_room_def fun_eq_iff)
qed

lemma commit_page_to_pmo_ok:
  assumes "pmos s ob = Some x" "pmo_ok x" "page_of x k = 0" "15 \<le> pmo_room x" "page_aligned pa"
  shows "\<exists>y. commit_page_to_pmo ob k pa s = Some (set_pmo ob y s) \<and> pmo_ok y \<and> page_of y = (page_of x)(k := pa) \<and> same_shape x y
    \<and> pmo_room x \<le> pmo_room y + 15"
proof -
  from assms(2) obtain r where r: "pmo_radix x = Some r" "radix_inv r" "\<forall>k. radix_map r k < 2 ^ 64 \<and> page_aligned (of_nat (radix_map r k))"
    by (auto simp: pmo_ok_def)
  have ty: "pmo_type x = PMO_ANONYM \<or> pmo_type x = PMO_SHM \<or> pmo_type x = PMO_FILE" using assms(2) by (auto simp: pmo_ok_def)
  have "(of_nat (radix_map r k) :: u64) = 0" using assms(3) r(1) by (simp add: page_of_def)
  moreover have "unat (of_nat (radix_map r k) :: u64) = radix_map r k" using r(3) by (intro unat_of_nat_lt) simp
  ultimately have z: "radix_map r k = 0" by simp
  from rt.add_room [OF r(2) disjI2 [OF z], of "unat pa"] assms(4) r(1) obtain r' where
    r': "radix_add k (unat pa) r = Some (0, r')" "radix_inv r'" "radix_map r' = (radix_map r)(k := unat pa)" "nodes_left r \<le> nodes_left r' + 15"
    by (auto simp: pmo_room_def)
  let ?y = "x\<lparr>pmo_radix := Some r'\<rparr>"
  have "unat pa < 2 ^ 64" using unsigned_less [of pa] by simp
  then have "pmo_ok ?y" using r'(2,3) r(3) assms(5) ty by (simp add: pmo_ok_def)
  moreover have "page_of ?y = (page_of x)(k := pa)" using r'(3) r(1) by (auto simp: page_of_def)
  ultimately show ?thesis using assms(1) r(1) r' ty
    by (intro exI [of _ ?y]) (auto simp: commit_page_to_pmo_def same_shape_def pmo_room_def)
qed

lemma pt_inv_next_page:
  assumes "pt_inv pg t" "free_pages t = a # rest"
  shows "pt_inv pg (t\<lparr>free_pages := rest\<rparr>)" "a \<noteq> 0" "page_aligned (virt_to_phys a)" "pt_entry pg (t\<lparr>free_pages := rest\<rparr>) = pt_entry pg t"
  using assms by (auto simp: pt_inv_def pt_entry_def)

lemma new_pmo_page_ok:
  assumes x: "pmos s ob = Some x" "pmo_ok x" "page_of x k = 0" "15 \<le> pmo_room x" and t: "pt_inv pg (pgt s)" "free_pages (pgt s) = a # rest" "a \<noteq> KBASE"
  shows "\<exists>y. new_pmo_page ob k s = Some (virt_to_phys a, set_pmo ob y (s\<lparr>pgt := (pgt s)\<lparr>free_pages := rest\<rparr>, pmem := memset_page (virt_to_phys a) (pmem s)\<rparr>))
    \<and> pmo_ok y \<and> page_of y = (page_of x)(k := virt_to_phys a) \<and> same_shape x y"
proof -
  note n = pt_inv_next_page [OF t(1,2)]
  let ?s = "s\<lparr>pgt := (pgt s)\<lparr>free_pages := rest\<rparr>, pmem := memset_page (virt_to_phys a) (pmem s)\<rparr>"
  have "pmos ?s ob = Some x" using x(1) by simp
  from commit_page_to_pmo_ok [OF this x(2-4) n(3)] obtain y where
    y: "commit_page_to_pmo ob k (virt_to_phys a) ?s = Some (set_pmo ob y ?s)" "pmo_ok y" "page_of y = (page_of x)(k := virt_to_phys a)" "same_shape x y"
    by blast
  have "virt_to_phys a \<noteq> 0" using t(3) by (simp add: virt_to_phys_def)
  then show ?thesis using y n(2) t(2) by (intro exI [of _ y]) (simp add: new_pmo_page_def get_page_def Let_def)
qed

lemma map_page_ok:
  assumes "pt_inv pg t" "unat va + 4096 \<le> 2 ^ 48" "3 \<le> length (free_pages t)"
  shows "\<exists>t'. map_range_in_pgtbl pg va pa PAGE_SIZE flags t = Some (0, t') \<and> pt_inv pg t'
    \<and> (\<forall>u < 2 ^ 36. pt_entry pg t' u = (if u = vpn va then page_pte pa flags else pt_entry pg t u))"
proof -
  have c: "total_page_cnt PAGE_SIZE = 1" by (simp add: total_page_cnt_def)
  have "in_range (vpn va) 1 u \<longleftrightarrow> u = vpn va" for u by (auto simp: in_range_def)
  then show ?thesis using map_range_tables [OF assms(1), of va PAGE_SIZE pa flags] assms(2,3) c
    by (auto simp: tables_spanned_def mapped_def)
qed

text \<open>The frame that a fault on page \<open>k\<close> of a memory object maps: the one committed, or the next free page.\<close>

definition fault_frame :: "pmobject \<Rightarrow> u64 \<Rightarrow> vm_state \<Rightarrow> u64" where
  "fault_frame x k s = (if page_of x k = 0 then virt_to_phys (hd (free_pages (pgt s))) else page_of x k)"

definition fault_room :: "pmobject \<Rightarrow> vm_state \<Rightarrow> bool" where
  "fault_room x s \<longleftrightarrow> 4 \<le> length (free_pages (pgt s)) \<and> hd (free_pages (pgt s)) \<noteq> KBASE \<and> 15 \<le> pmo_room x"

lemma committed_page:
  assumes x: "pmos s ob = Some x" "pmo_ok x" and t: "pt_inv pg (pgt s)" and room: "fault_room x s"
  shows "\<exists>y t m s2. get_page_from_pmo ob k s = Some (page_of x k, s2)
    \<and> (if page_of x k = 0 then new_pmo_page ob k s2 else Some (page_of x k, s2)) = Some (fault_frame x k s, set_pmo ob y (s\<lparr>pgt := t, pmem := m\<rparr>))
    \<and> pmo_ok y \<and> page_of y = (page_of x)(k := fault_frame x k s) \<and> same_shape x y
    \<and> pt_inv pg t \<and> pt_entry pg t = pt_entry pg (pgt s) \<and> 3 \<le> length (free_pages t)
    \<and> m = (if page_of x k = 0 then memset_page (fault_frame x k s) (pmem s) else pmem s)
    \<and> page_aligned (fault_frame x k s) \<and> fault_frame x k s \<noteq> 0 \<and> grown (pgt s) t
    \<and> (page_of x k = 0 \<longrightarrow> phys_to_virt (fault_frame x k s) \<in> set (free_pages (pgt s))
         \<and> phys_to_virt (fault_frame x k s) \<notin> set (free_pages t) \<union> dom (ptps t))"
proof -
  from get_page_from_pmo_ok [OF x, of k] obtain y where
    y: "get_page_from_pmo ob k s = Some (page_of x k, set_pmo ob y s)" "pmo_ok y" "page_of y = page_of x" "same_shape x y" "pmo_room y = pmo_room x" by blast
  show ?thesis
  proof (cases "page_of x k = 0")
    case True
    from room obtain a rest where a: "free_pages (pgt s) = a # rest" "a \<noteq> KBASE" "3 \<le> length rest"
      by (cases "free_pages (pgt s)") (auto simp: fault_room_def)
    have "pmos (set_pmo ob y s) ob = Some y" "page_of y k = 0" "15 \<le> pmo_room y" "pt_inv pg (pgt (set_pmo ob y s))" "free_pages (pgt (set_pmo ob y s)) = a # rest"
      using True y(3,5) room t a by (simp_all add: set_pmo_def fault_room_def)
    from new_pmo_page_ok [OF this(1) y(2) this(2-5) a(2)] obtain z where
      z: "new_pmo_page ob k (set_pmo ob y s) = Some (virt_to_phys a,
          set_pmo ob z ((set_pmo ob y s)\<lparr>pgt := (pgt (set_pmo ob y s))\<lparr>free_pages := rest\<rparr>, pmem := memset_page (virt_to_phys a) (pmem (set_pmo ob y s))\<rparr>))"
        "pmo_ok z" "page_of z = (page_of y)(k := virt_to_phys a)" "same_shape y z" by blast
    have f: "fault_frame x k s = virt_to_phys a" using True a(1) by (simp add: fault_frame_def)
    have e: "set_pmo ob z ((set_pmo ob y s)\<lparr>pgt := (pgt (set_pmo ob y s))\<lparr>free_pages := rest\<rparr>, pmem := memset_page (virt_to_phys a) (pmem (set_pmo ob y s))\<rparr>)
        = set_pmo ob z (s\<lparr>pgt := (pgt s)\<lparr>free_pages := rest\<rparr>, pmem := memset_page (virt_to_phys a) (pmem s)\<rparr>)"
      by (rule vm_state.equality) (simp_all add: set_pmo_def)
    note n = pt_inv_next_page [OF t a(1)]
    have g: "grown (pgt s) ((pgt s)\<lparr>free_pages := rest\<rparr>)" "a \<in> set (free_pages (pgt s))" "a \<notin> set rest \<union> dom (ptps (pgt s))"
      using a(1) t by (auto simp: grown_def pt_inv_def)
    have "virt_to_phys a \<noteq> 0" using a(2) by (simp add: virt_to_phys_def)
    then show ?thesis using True y(1,3,4) z [unfolded e] n(1,3,4) a(3) g unfolding f
      by (intro exI [of _ z] exI [of _ "(pgt s)\<lparr>free_pages := rest\<rparr>"] exI [of _ "memset_page (virt_to_phys a) (pmem s)"] exI [of _ "set_pmo ob y s"])
        (simp add: same_shape_def)
  next
    case False
    then have f: "fault_frame x k s = page_of x k" by (simp add: fault_frame_def)
    have "s\<lparr>pgt := pgt s, pmem := pmem s\<rparr> = s" by simp
    then show ?thesis using False y t room pmo_ok_aligned [OF x(2), of k] unfolding f
      by (intro exI [of _ y] exI [of _ "pgt s"] exI [of _ "pmem s"] exI [of _ "set_pmo ob y s"]) (simp add: fault_room_def)
  qed
qed

lemma find_vmr_cong: "regions s' = regions s \<Longrightarrow> find_vmr a l s' = find_vmr a l s"
  by (induction l) (auto simp: Let_def split: bind_split)

lemma view_cong:
  assumes "spaces s vs = Some v" "spaces s' vs = Some v'" "vmr_list v' = vmr_list v" "regions s' = regions s"
  shows "view vs s' = view vs s"
proof
  fix a show "view vs s' a = view vs s a" using assms find_vmr_cong [OF assms(4), of a "vmr_list v"] by (simp add: view_def find_vmr_for_va_def split: option.split)
qed

lemma space_ok_cong:
  assumes "vmspace_lock v' = vmspace_lock v" "pgtbl_lock v' = pgtbl_lock v" "vmr_list v' = vmr_list v" "vm_pgtbl v' = vm_pgtbl v"
    "next_region s' = next_region s" "regions s' = regions s" "pgt s' = pgt s"
  shows "space_ok v' s' = space_ok v s" "mem_ok_in v' s' = mem_ok_in v s"
  using assms by (simp_all add: space_ok_def mem_ok_in_def)

text \<open>The region at an address that the view has something for.\<close>

lemma view_region:
  assumes "spaces s vs = Some v" "mem_ok_in v s" "view vs s a = Some (ob, off, perm)"
  obtains p r where "find_vmr a (vmr_list v) s = Some (Some p)" "p \<in> set (vmr_list v)" "regions s p = Some r" "region_ok r" "holds r a"
    "vmr_pmo r = ob" "off = a - vmr_start r" "vmr_perm r = perm"
proof -
  have rs: "regions_ok (vmr_list v) (next_region s) (regions s)" using assms(2) by (simp add: mem_ok_in_def)
  from assms(3) view_Some [OF assms(1) rs] obtain p where
    p: "p \<in> set (vmr_list v)" "hit (regions s) a p" "(ob, off, perm) = behind (the (regions s p)) a" by blast
  from rs p(1) obtain r where r: "regions s p = Some r" "region_ok r" by (rule regions_okD)
  have "find_vmr a (vmr_list v) s = Some (Some p)" using find_vmr_eq [OF rs, of a] find_hit [OF rs, of a p] p(1,2) by simp
  with that p r show ?thesis by (auto simp: hit_def behind_def)
qed

lemma handle_trans_fault_ok:
  assumes i: "space_inv vs s" and v: "spaces s vs = Some v" and w: "view vs s a = Some (Some ob, off, perm)"
    and x: "pmos s ob = Some x" "pmo_ok x" and room: "fault_room x s" and b: "off div PAGE_SIZE * PAGE_SIZE < pmo_size x"
    and k: "k = off div PAGE_SIZE" and f: "f = fault_frame x k s"
  shows "\<exists>s' y v'. handle_trans_fault vs a s = Some (0, s') \<and> space_inv vs s' \<and> view vs s' = view vs s
    \<and> pmos s' = (pmos s)(ob \<mapsto> y) \<and> pmo_ok y \<and> page_of y = (page_of x)(k := f) \<and> same_shape x y \<and> page_aligned f
    \<and> spaces s' = (spaces s)(vs \<mapsto> v') \<and> vm_pgtbl v' = vm_pgtbl v
    \<and> (\<forall>u < 2 ^ 36. pt_entry (vm_pgtbl v) (pgt s') u = (if u = vpn a then page_pte f perm else pt_entry (vm_pgtbl v) (pgt s) u))
    \<and> pt_inv (vm_pgtbl v) (pgt s') \<and> pmem s' = (if page_of x k = 0 then memset_page f (pmem s) else pmem s)
    \<and> f \<noteq> 0 \<and> grown (pgt s) (pgt s')
    \<and> (page_of x k = 0 \<longrightarrow> phys_to_virt f \<in> set (free_pages (pgt s)) \<and> phys_to_virt f \<notin> set (free_pages (pgt s')) \<union> dom (ptps (pgt s')))"
proof -
  have ok: "lock_free (vmspace_lock v)" "mem_ok_in v s" using i v by (auto simp: space_inv_def space_ok_def)
  obtain p r where r: "find_vmr a (vmr_list v) s = Some (Some p)" "regions s p = Some r" "region_ok r" "holds r a"
    "vmr_pmo r = Some ob" "off = a - vmr_start r" "vmr_perm r = perm" by (rule view_region [OF v ok(2) w])
  note fi = fault_index [OF r(3,4)]
  let ?v = "v\<lparr>vmspace_lock := taken (vmspace_lock v)\<rparr>"
  let ?s = "s\<lparr>spaces := (spaces s)(vs \<mapsto> ?v)\<rparr>"
  have pt: "pt_inv (vm_pgtbl v) (pgt s)" and lp: "lock_free (pgtbl_lock v)" using ok(2) by (simp_all add: mem_ok_in_def)
  have q: "pmos ?s ob = Some x" "pt_inv (vm_pgtbl v) (pgt ?s)" "fault_room x ?s" "fault_frame x k ?s = f" "pgt ?s = pgt s" "pmem ?s = pmem s"
    using x(1) pt room by (simp_all add: fault_room_def fault_frame_def f)
  from committed_page [OF q(1) x(2) q(2,3), of k, unfolded q(4-6)] obtain y t m s2 where
    c: "get_page_from_pmo ob k ?s = Some (page_of x k, s2)"
      "(if page_of x k = 0 then new_pmo_page ob k s2 else Some (page_of x k, s2)) = Some (f, set_pmo ob y (?s\<lparr>pgt := t, pmem := m\<rparr>))"
      "pmo_ok y" "page_of y = (page_of x)(k := f)" "same_shape x y" "pt_inv (vm_pgtbl v) t" "pt_entry (vm_pgtbl v) t = pt_entry (vm_pgtbl v) (pgt s)"
      "3 \<le> length (free_pages t)" "m = (if page_of x k = 0 then memset_page f (pmem s) else pmem s)" "page_aligned f"
      "f \<noteq> 0" "grown (pgt s) t" "page_of x k = 0 \<longrightarrow> phys_to_virt f \<in> set (free_pages (pgt s)) \<and> phys_to_virt f \<notin> set (free_pages t) \<union> dom (ptps t)" by blast
  from map_page_ok [OF c(6) fi(4) c(8), of f perm] obtain t' where
    t': "map_range_in_pgtbl (vm_pgtbl v) (ROUND_DOWN a PAGE_SIZE) f PAGE_SIZE perm t = Some (0, t')" "pt_inv (vm_pgtbl v) t'"
      "\<forall>u < 2 ^ 36. pt_entry (vm_pgtbl v) t' u = (if u = vpn a then page_pte f perm else pt_entry (vm_pgtbl v) t u)" unfolding fi(3) by blast
  let ?s3 = "set_pmo ob y (?s\<lparr>pgt := t, pmem := m\<rparr>)"
  let ?v4 = "?v\<lparr>pgtbl_lock := unlock (taken (pgtbl_lock v))\<rparr>" and ?v5 = "v\<lparr>pgtbl_lock := unlock (taken (pgtbl_lock v)), vmspace_lock := unlock (taken (vmspace_lock v))\<rparr>"
  let ?s4 = "?s3\<lparr>pgt := t', spaces := (spaces ?s3)(vs \<mapsto> ?v4)\<rparr>"
  have m: "with_pgtbl vs (\<lambda>pg. map_range_in_pgtbl pg (ROUND_DOWN a PAGE_SIZE) f PAGE_SIZE perm) ?s3 = Some (0, ?s4)"
    using t'(1) lp with_pgtbl_eq [of ?s3 vs ?v "\<lambda>pg. map_range_in_pgtbl pg (ROUND_DOWN a PAGE_SIZE) f PAGE_SIZE perm" 0 t']
    by (simp add: set_pmo_def)
  have ty: "pmo_type x = PMO_FILE \<or> pmo_type x = PMO_ANONYM \<or> pmo_type x = PMO_SHM" using x(2) by (auto simp: pmo_ok_def)
  have u: "unlock_space vs ?s4 = Some (?s4\<lparr>spaces := (spaces s)(vs \<mapsto> ?v5)\<rparr>)" by (simp add: unlock_space_def set_pmo_def)
  have nb: "\<not> pmo_size x \<le> k * PAGE_SIZE" using b k by simp
  have kk: "(ROUND_DOWN a PAGE_SIZE - vmr_start r) div PAGE_SIZE = k" "ROUND_DOWN a PAGE_SIZE - vmr_start r = k * PAGE_SIZE"
    using fi(1,2) k r(6) by simp_all
  have "handle_trans_fault vs a s = Some (0, ?s4\<lparr>spaces := (spaces s)(vs \<mapsto> ?v5)\<rparr>)"
    using v ok(1) r(1-5,7) find_vmr_cong [of ?s s a "vmr_list v"] x(1) ty kk c(1,2) m u nb
    by (simp add: handle_trans_fault_def lock_space_eq find_vmr_for_va_def Let_def cong: if_cong split del: if_split)
  moreover have "space_inv vs (?s4\<lparr>spaces := (spaces s)(vs \<mapsto> ?v5)\<rparr>)"
    using ok t'(2) by (simp add: space_inv_def space_ok_def mem_ok_in_def set_pmo_def)
  moreover have "view vs (?s4\<lparr>spaces := (spaces s)(vs \<mapsto> ?v5)\<rparr>) = view vs s"
    by (rule view_cong [OF v, where v' = ?v5]) (simp_all add: set_pmo_def)
  moreover note g = grown_map_range [OF t'(1)]
  moreover have "grown (pgt s) t'" using grown_trans [OF c(12) g] .
  moreover have "page_of x k = 0 \<longrightarrow> phys_to_virt f \<in> set (free_pages (pgt s)) \<and> phys_to_virt f \<notin> set (free_pages t') \<union> dom (ptps t')"
    using c(13) g unfolding grown_def by blast
  ultimately show ?thesis using c(3-5,7,9-11) t'(2,3)
    by (intro exI [of _ "?s4\<lparr>spaces := (spaces s)(vs \<mapsto> ?v5)\<rparr>"] exI [of _ y] exI [of _ ?v5]) (simp add: set_pmo_def)
qed

end
