(* ===== verification/Vmspace_Inv.thy ===== *)
theory Vmspace_Inv
  imports Vmspace_Fault
begin

text \<open>
  Unmapping, the coherence of the page table with the regions and the objects along every run, and
  the properties of the address spaces.
\<close>

section \<open>Unmapping\<close>

lemma view_unlinked:
  assumes v: "spaces s vs = Some v" "regions_ok (vmr_list v) n (regions s)" and p: "p \<in> set (vmr_list v)" "regions s p = Some r"
    and s': "spaces s' vs = Some v'" "vmr_list v' = remove1 p (vmr_list v)" "regions s' = regions s"
  shows "regions_ok (vmr_list v') n (regions s')" "view vs s' = (\<lambda>a. if holds r a then None else view vs s a)"
proof -
  show ok: "regions_ok (vmr_list v') n (regions s')" using v(2) s'(2,3) by (simp add: regions_ok_remove)
  have set: "set (vmr_list v') = set (vmr_list v) - {p}" using s'(2) v(2) by (simp add: regions_ok_def)
  show "view vs s' = (\<lambda>a. if holds r a then None else view vs s a)"
  proof
    fix a
    show "view vs s' a = (if holds r a then None else view vs s a)"
    proof (cases "holds r a")
      case True
      then have "\<forall>q \<in> set (vmr_list v'). \<not> hit (regions s') a q" using hit_unique [OF v(2) p(1), of _ a] p(2) s'(3) set by (auto simp: hit_def)
      then show ?thesis using view_None [OF s'(1) ok] True by simp
    next
      case False
      then have "\<not> hit (regions s) a p" using p(2) by (simp add: hit_def)
      then have "view vs s' a = Some y \<longleftrightarrow> view vs s a = Some y" for y
        unfolding view_Some [OF s'(1) ok] view_Some [OF v] set s'(3) by auto
      then show ?thesis using False by (metis not_None_eq)
    qed
  qed
qed

lemma unmap_pages_ok:
  assumes "pt_inv pg t" "unat va + 4096 * total_page_cnt len \<le> 2 ^ 48"
  shows "\<exists>t'. unmap_range_in_pgtbl pg va len t = Some (0, t') \<and> pt_inv pg t' \<and> updated (\<lambda>_. 0) pg (vpn va) (total_page_cnt len) t t'"
proof -
  from update_loop_ok [OF assms(1), of va "int (total_page_cnt len)" "\<lambda>_. PTE_DESCRIPTOR_INVALID"] assms(2) obtain t' where
    t': "update_loop (\<lambda>_. PTE_DESCRIPTOR_INVALID) pg va (int (total_page_cnt len)) t = Some t'" "pt_inv pg t'"
      "updated (\<lambda>_. 0) pg (vpn va) (total_page_cnt len) t t'" by (auto simp: PTE_DESCRIPTOR_INVALID_def)
  have "pg \<noteq> 0" using assms(1) by (simp add: pt_inv_def)
  moreover have "updated (\<lambda>_. 0) pg (vpn va) (total_page_cnt len) t (flush_tlb t')" using t'(3) by (simp add: updated_def flush_tlb_def pt_entry_def)
  ultimately show ?thesis using t'(1,2) by (intro exI [of _ "flush_tlb t'"]) (simp add: unmap_range_in_pgtbl_def)
qed

lemma total_page_cnt_dvd: "4096 dvd unat len \<Longrightarrow> 4096 * total_page_cnt len = unat len"
proof -
  assume d: "4096 dvd unat len"
  then have "len mod 4096 = 0" by (simp add: word_unat_eq_iff unat_mod)
  then show ?thesis using d by (simp add: total_page_cnt_def unat_div)
qed

lemma total_page_cnt_bound: "4096 dvd n \<Longrightarrow> unat len \<le> n \<Longrightarrow> 4096 * total_page_cnt len \<le> n"
proof -
  assume d: "4096 dvd n" "unat len \<le> n"
  have "total_page_cnt len \<le> (unat len + 4095) div 4096"
  proof (cases "len mod 4096 = 0")
    case True
    then show ?thesis by (simp add: total_page_cnt_def unat_div div_le_mono)
  next
    case False
    then have m: "unat len mod 4096 \<noteq> 0" by (simp add: word_unat_eq_iff unat_mod)
    define q m where "q = unat len div 4096" and "m = unat len mod 4096"
    have "unat len = q * 4096 + m" "m \<noteq> 0" using m by (simp_all add: q_def m_def)
    then have "(q + 1) * 4096 \<le> unat len + 4095" by simp
    then have "unat len div 4096 + 1 \<le> (unat len + 4095) div 4096" unfolding q_def by (simp add: less_eq_div_iff_mult_less_eq)
    then show ?thesis by (simp add: total_page_cnt_def unat_div)
  qed
  moreover obtain k where k: "n = 4096 * k" using d(1) by (rule dvdE)
  moreover have "(unat len + 4095) div 4096 < Suc k" using d(2) k by (simp add: div_less_iff_less_mult)
  ultimately show ?thesis by simp
qed

text \<open>Taking a region out, with its pages.\<close>

definition dropped :: "nat \<Rightarrow> vmspace \<Rightarrow> nat \<Rightarrow> vm_state \<Rightarrow> vm_state" where
  "dropped vs v p s = s\<lparr>spaces := (spaces s)(vs \<mapsto> v\<lparr>vmr_list := remove1 p (vmr_list v)\<rparr>), regions_left := regions_left s + 1\<rparr>"

lemma del_vmr_eq: "spaces s vs = Some v \<Longrightarrow> p \<in> set (vmr_list v) \<Longrightarrow> del_vmr_from_vmspace vs p s = Some (dropped vs v p s)"
  by (simp add: del_vmr_from_vmspace_def is_vmr_in_vmspace_def dropped_def)

text \<open>
  \<^verbatim>\<open>vmspace_unmap_range\<close> of a whole region: its addresses are gone, every page outside it keeps its
  descriptor, and a page of it that changes has none.
\<close>

lemma vmspace_unmap_range_ok:
  assumes i: "space_inv vs s" and v: "spaces s vs = Some v" and p: "p \<in> set (vmr_list v)" "regions s p = Some r" "vmr_pmo r \<noteq> None" "vmr_size r \<noteq> 0"
  shows "\<exists>s' v'. vmspace_unmap_range vs (vmr_start r) (vmr_size r) s = Some (0, s') \<and> space_inv vs s' \<and> pmos s' = pmos s
    \<and> spaces s' = (spaces s)(vs \<mapsto> v') \<and> vm_pgtbl v' = vm_pgtbl v
    \<and> view vs s' = (\<lambda>a. if holds r a then None else view vs s a)
    \<and> updated (\<lambda>_. 0) (vm_pgtbl v) (vpn (vmr_start r)) (total_page_cnt (vmr_size r)) (pgt s) (pgt s')"
proof -
  have ok: "lock_free (vmspace_lock v)" "lock_free (pgtbl_lock v)" "pt_inv (vm_pgtbl v) (pgt s)" "regions_ok (vmr_list v) (next_region s) (regions s)"
    using i v by (auto simp: space_inv_def space_ok_def mem_ok_in_def)
  have r: "region_ok r" using regions_okD [OF ok(4) p(1)] p(2) by auto
  have h: "holds r (vmr_start r)" using p(4) by (simp add: holds_def lo_def hi_def unat_gt_0)
  have "4096 dvd (2 ^ 48 - lo r)" "unat (vmr_size r) \<le> 2 ^ 48 - lo r" using r by (auto simp: region_ok_def hi_def lo_def intro!: dvd_diff_nat)
  from total_page_cnt_bound [OF this] r have "unat (vmr_start r) + 4096 * total_page_cnt (vmr_size r) \<le> 2 ^ 48"
    by (auto simp: region_ok_def hi_def lo_def)
  from unmap_pages_ok [OF ok(3) this] obtain t where
    t: "unmap_range_in_pgtbl (vm_pgtbl v) (vmr_start r) (vmr_size r) (pgt s) = Some (0, t)" "pt_inv (vm_pgtbl v) t"
      "updated (\<lambda>_. 0) (vm_pgtbl v) (vpn (vmr_start r)) (total_page_cnt (vmr_size r)) (pgt s) t" by blast
  let ?v = "v\<lparr>vmr_list := remove1 p (vmr_list v), vmspace_lock := unlock (taken (vmspace_lock v)), pgtbl_lock := unlock (taken (pgtbl_lock v))\<rparr>"
  let ?s = "s\<lparr>regions_left := regions_left s + 1, pgt := t, spaces := (spaces s)(vs \<mapsto> ?v)\<rparr>"
  obtain ob where ob: "vmr_pmo r = Some ob" using p(3) by blast
  have "find_vmr (vmr_start r) (vmr_list v) s = Some (Some p)"
    using find_vmr_eq [OF ok(4)] find_hit [OF ok(4), of "vmr_start r" p] p(1,2) h by (simp add: hit_def)
  then have f: "find_vmr (vmr_start r) (vmr_list v) (s\<lparr>spaces := q\<rparr>) = Some (Some p)" for q
    by (subst find_vmr_cong [of "s\<lparr>spaces := q\<rparr>" s]) simp_all
  have "vmspace_unmap_range vs (vmr_start r) (vmr_size r) s = Some (0, ?s)"
    using v ok(1,2) f p(1,2,4) ob t(1)
    by (simp add: vmspace_unmap_range_def lock_space_eq find_vmr_for_va_def del_vmr_from_vmspace_def is_vmr_in_vmspace_def unlock_space_def with_pgtbl_def)
  moreover have "regions_ok (vmr_list ?v) (next_region s) (regions ?s)" "view vs ?s = (\<lambda>a. if holds r a then None else view vs s a)"
    using view_unlinked [OF v ok(4) p(1,2), of ?s ?v] by simp_all
  ultimately show ?thesis using ok t(2,3) by (intro exI [of _ ?s] exI [of _ ?v]) (simp add: space_inv_def space_ok_def mem_ok_in_def)
qed

text \<open>\<^verbatim>\<open>munmap\<close>: every step takes a region out or ends with a part of one.\<close>

definition anon_region :: "vm_state \<Rightarrow> nat \<Rightarrow> bool" where
  "anon_region s p \<longleftrightarrow> (\<exists>r ob x. regions s p = Some r \<and> vmr_pmo r = Some ob \<and> pmos s ob = Some x \<and> pmo_type x = PMO_ANONYM \<and> 4096 dvd unat (vmr_size r))"

lemma regions_ok_shrink:
  assumes "regions_ok l n R" "p \<in> set l" "R p = Some r" "region_ok q" "lo r \<le> lo q" "hi q \<le> hi r"
  shows "regions_ok l n (R(p \<mapsto> q))"
proof -
  have "apart q t" if "apart r t" for t using that assms(5,6) by (auto simp: apart_def)
  moreover have "apart r (the (R i)) \<and> apart (the (R i)) r" if "i \<in> set l" "i \<noteq> p" for i
    using assms(1-3) that unfolding regions_ok_def by (metis option.sel)
  moreover have "apart t q" if "apart t r" for t using that assms(5,6) by (auto simp: apart_def)
  ultimately show ?thesis using assms(1,2,4) unfolding regions_ok_def by auto
qed

lemma shrunk_region:
  assumes r: "region_ok r" and len: "4096 dvd unat len" "len < vmr_size r"
  defines "q \<equiv> r\<lparr>vmr_size := vmr_size r - len, vmr_start := vmr_start r + len\<rparr>"
  shows "region_ok q" "lo q = lo r + unat len" "hi q = hi r"
proof -
  have "unat (vmr_start r + len) = lo r + unat len" "unat (vmr_size r - len) = unat (vmr_size r) - unat len"
    using r len(2) by (simp_all add: region_ok_def hi_def lo_def unat_word_ariths word_less_nat_alt unat_sub word_le_nat_alt less_imp_le)
  then show "lo q = lo r + unat len" "hi q = hi r" using len(2) by (simp_all add: q_def lo_def hi_def word_less_nat_alt)
  then show "region_ok q" using r len(1) by (simp add: region_ok_def)
qed

lemma unmap_vmrs_ok:
  assumes "spaces s vs = Some v" "mem_ok_in v s" "\<forall>p \<in> set (vmr_list v). anon_region s p" "4096 dvd unat len" "unat va + unat len \<le> 2 ^ 48"
  shows "\<exists>s' v'. unmap_vmrs vs va len s = Some (0, s') \<and> spaces s' = (spaces s)(vs \<mapsto> v') \<and> mem_ok_in v' s' \<and> vmspace_lock v' = vmspace_lock v
    \<and> vm_pgtbl v' = vm_pgtbl v \<and> pmos s' = pmos s"
  using assms
proof (induction "unat len" arbitrary: s v va len rule: less_induct)
  case less
  note v = less.prems(1) and d = less.prems(4)
  have ok: "lock_free (pgtbl_lock v)" "pt_inv (vm_pgtbl v) (pgt s)" "regions_ok (vmr_list v) (next_region s) (regions s)"
    using less.prems(2) by (simp_all add: mem_ok_in_def)
  note find = find_vmr_eq [OF ok(3), of va] find_hit [OF ok(3), of va]
  consider "len = 0" | "len \<noteq> 0" "find (hit (regions s) va) (vmr_list v) = None" | p where "len \<noteq> 0" "find (hit (regions s) va) (vmr_list v) = Some p" by auto
  then show ?case
  proof cases
    case 1
    then show ?thesis using less.prems(2) v by (subst unmap_vmrs.simps) (intro exI [of _ s] exI [of _ v], auto)
  next
    case 2
    then show ?thesis using less.prems(2) v find(1) by (subst unmap_vmrs.simps) (intro exI [of _ s] exI [of _ v], auto simp: find_vmr_for_va_def)
  next
    case 3
    then have p: "p \<in> set (vmr_list v)" "hit (regions s) va p" using find(2) by auto
    from regions_okD [OF ok(3) p(1)] obtain r where r: "regions s p = Some r" "region_ok r" by blast
    from less.prems(3) p(1) r(1) obtain ob x where x: "vmr_pmo r = Some ob" "pmos s ob = Some x" "pmo_type x = PMO_ANONYM" "4096 dvd unat (vmr_size r)"
      by (auto simp: anon_region_def)
    have h: "holds r va" using p(2) r(1) by (simp add: hit_def)
    then have pos: "vmr_size r \<noteq> 0" by (auto simp: holds_def lo_def hi_def)
    have "unat va + 4096 * total_page_cnt len \<le> 2 ^ 48" using less.prems(5) total_page_cnt_dvd [OF d] by simp
    from unmap_pages_ok [OF ok(2) this] obtain t where
      t: "unmap_range_in_pgtbl (vm_pgtbl v) va len (pgt s) = Some (0, t)" "pt_inv (vm_pgtbl v) t" by blast
    let ?v = "v\<lparr>pgtbl_lock := unlock (taken (pgtbl_lock v))\<rparr>"
    have u: "with_pgtbl vs (\<lambda>t. unmap_range_in_pgtbl t va len) s = Some (0, s\<lparr>pgt := t, spaces := (spaces s)(vs \<mapsto> ?v)\<rparr>)"
      using with_pgtbl_eq [OF v ok(1), of "\<lambda>t. unmap_range_in_pgtbl t va len"] t(1) by simp
    show ?thesis
    proof (cases "len < vmr_size r")
      case True
      note q = shrunk_region [OF r(2) d True]
      let ?q = "r\<lparr>vmr_size := vmr_size r - len, vmr_start := vmr_start r + len\<rparr>"
      let ?s = "s\<lparr>regions := (regions s)(p \<mapsto> ?q), pgt := t, spaces := (spaces s)(vs \<mapsto> ?v)\<rparr>"
      have "unmap_vmrs vs va len s = Some (0, ?s)"
        using 3 v find(1) r(1) x True t(1) ok(1) by (subst unmap_vmrs.simps) (simp add: find_vmr_for_va_def pmo_of_def set_region_def with_pgtbl_def)
      moreover have "regions_ok (vmr_list v) (next_region s) ((regions s)(p \<mapsto> ?q))"
        using q by (intro regions_ok_shrink [OF ok(3) p(1) r(1)]) simp_all
      ultimately show ?thesis using ok t(2) by (intro exI [of _ ?s] exI [of _ ?v]) (simp add: mem_ok_in_def)
    next
      case False
      let ?w = "?v\<lparr>vmr_list := remove1 p (vmr_list v)\<rparr>"
      let ?s = "s\<lparr>pgt := t, spaces := (spaces s)(vs \<mapsto> ?w), regions_left := regions_left s + 1\<rparr>"
      have e: "unmap_vmrs vs va len s = unmap_vmrs vs (va + vmr_size r) (len - vmr_size r) ?s"
        using 3 v find(1) r(1) False u p(1)
        by (subst unmap_vmrs.simps) (simp add: find_vmr_for_va_def del_vmr_from_vmspace_def is_vmr_in_vmspace_def)
      have sz: "unat (len - vmr_size r) = unat len - unat (vmr_size r)" "unat (vmr_size r) \<le> unat len" "0 < unat (vmr_size r)"
        using False pos by (simp_all add: unat_sub not_less word_le_nat_alt unat_gt_0)
      have va: "unat (va + vmr_size r) = unat va + unat (vmr_size r)" using sz(2) less.prems(5) by (simp add: unat_word_ariths)
      have "\<forall>p \<in> set (remove1 p (vmr_list v)). anon_region s p" using less.prems(3) by (meson notin_set_remove1)
      then have "\<forall>p \<in> set (vmr_list ?w). anon_region ?s p" by (simp add: anon_region_def)
      moreover have "unat (len - vmr_size r) < unat len" "spaces ?s vs = Some ?w" "mem_ok_in ?w ?s"
          "4096 dvd unat (len - vmr_size r)" "unat (va + vmr_size r) + unat (len - vmr_size r) \<le> 2 ^ 48"
        using sz va ok t(2) less.prems(5) d x(4) by (auto simp: mem_ok_in_def regions_ok_remove dvd_diff_nat)
      ultimately show ?thesis using less.hyps [of "len - vmr_size r" ?s ?w "va + vmr_size r"] unfolding e by auto
    qed
  qed
qed

lemma munmap_returns:
  assumes i: "space_inv vs s" and v: "spaces s vs = Some v" and a: "\<forall>p \<in> set (vmr_list v). anon_region s p"
    and len: "4096 dvd unat len" "unat va + unat len \<le> 2 ^ 48"
  shows "\<exists>s'. vmspace_munmap_with_addr vs va len s = Some (0, s') \<and> space_inv vs s'"
proof -
  let ?v = "v\<lparr>vmspace_lock := taken (vmspace_lock v)\<rparr>" and ?s = "s\<lparr>spaces := (spaces s)(vs \<mapsto> v\<lparr>vmspace_lock := taken (vmspace_lock v)\<rparr>)\<rparr>"
  have l: "lock_free (vmspace_lock v)" and m: "mem_ok_in ?v ?s" using i v by (auto simp: space_inv_def space_ok_def mem_ok_in_def)
  have "\<forall>p \<in> set (vmr_list ?v). anon_region ?s p" using a by (simp add: anon_region_def)
  from unmap_vmrs_ok [of ?s vs ?v, OF _ m this len] obtain s' v' where
    u: "unmap_vmrs vs va len ?s = Some (0, s')" "spaces s' = (spaces ?s)(vs \<mapsto> v')" "mem_ok_in v' s'" "vmspace_lock v' = taken (vmspace_lock v)" by auto
  let ?s' = "s'\<lparr>spaces := (spaces s')(vs \<mapsto> v'\<lparr>vmspace_lock := unlock (taken (vmspace_lock v))\<rparr>)\<rparr>"
  have "vmspace_munmap_with_addr vs va len s = Some (0, ?s')"
    using v l u by (simp add: vmspace_munmap_with_addr_def lock_space_eq unlock_space_def)
  moreover have "space_inv vs ?s'" using u(3) l by (simp add: space_inv_def space_ok_def mem_ok_in_def)
  ultimately show ?thesis by blast
qed

section \<open>Isolation\<close>

text \<open>
  Every frame of a memory object belongs to one page of one object, and is neither free nor a page
  of a page table.
\<close>

definition frames_ok :: "vm_state \<Rightarrow> bool" where
  "frames_ok s \<longleftrightarrow> (\<forall>ob x k. pmos s ob = Some x \<and> page_of x k \<noteq> 0 \<longrightarrow>
     phys_to_virt (page_of x k) \<notin> set (free_pages (pgt s)) \<union> dom (ptps (pgt s))
     \<and> (\<forall>ob' x' k'. pmos s ob' = Some x' \<and> page_of x' k' = page_of x k \<longrightarrow> ob' = ob \<and> k' = k))"

text \<open>The descriptor of a page is empty or holds the frame of what is behind the page.\<close>

definition coherent_at :: "nat \<Rightarrow> u64 \<Rightarrow> vm_state \<Rightarrow> nat \<Rightarrow> bool" where
  "coherent_at vs pg s u \<longleftrightarrow> IS_PTE_INVALID (pt_entry pg (pgt s) u)
     \<or> (\<exists>ob off perm x. view vs s (of_nat u * 4096) = Some (Some ob, off, perm) \<and> pmos s ob = Some x
          \<and> page_of x (off div PAGE_SIZE) \<noteq> 0 \<and> GET_PADDR_IN_PTE (pt_entry pg (pgt s) u) = page_of x (off div PAGE_SIZE))"

definition vm_inv :: "nat \<Rightarrow> vm_state \<Rightarrow> bool" where
  "vm_inv vs s \<longleftrightarrow> space_inv vs s \<and> frames_ok s
     \<and> (\<forall>ob x. pmos s ob = Some x \<and> pmo_radix x \<noteq> None \<longrightarrow> pmo_ok x)
     \<and> (\<exists>v. spaces s vs = Some v \<and> (\<forall>u < 2 ^ 36. coherent_at vs (vm_pgtbl v) s u))"

lemma round_down_vpn: "of_nat (vpn a) * 4096 = ROUND_DOWN a PAGE_SIZE"
proof -
  have "unat a < 2 ^ LENGTH(64)" by (rule unsigned_less)
  then have "unat a div 4096 * 4096 < 2 ^ 64" using le_less_trans [OF div_times_less_eq_dividend] by simp
  moreover have "of_nat (vpn a) * 4096 = (of_nat (unat a div 4096 * 4096) :: u64)" by (simp add: vpn_def)
  ultimately have "unat (of_nat (vpn a) * 4096 :: u64) = unat a div 4096 * 4096" by (simp add: unat_of_nat_lt del: of_nat_mult)
  then show ?thesis using ROUND_DOWN_page [of a] by (simp add: word_unat_eq_iff)
qed

lemma page_view:
  assumes "spaces s vs = Some v" "mem_ok_in v s" "view vs s a = Some (ob, off, perm)"
  shows "\<exists>off'. view vs s (of_nat (vpn a) * 4096) = Some (ob, off', perm) \<and> off' div PAGE_SIZE = off div PAGE_SIZE" "vpn a < 2 ^ 36"
proof -
  obtain p r where r: "p \<in> set (vmr_list v)" "regions s p = Some r" "region_ok r" "holds r a" "vmr_pmo r = ob" "off = a - vmr_start r" "vmr_perm r = perm"
    by (rule view_region [OF assms])
  have rs: "regions_ok (vmr_list v) (next_region s) (regions s)" using assms(2) by (simp add: mem_ok_in_def)
  have "lo r \<le> unat a div 4096 * 4096"
  proof -
    from r(3) obtain k where k: "lo r = 4096 * k" by (auto simp: region_ok_def)
    with r(4) have "k \<le> unat a div 4096" by (simp add: holds_def less_eq_div_iff_mult_less_eq mult.commute)
    with k show ?thesis by simp
  qed
  then have "holds r (ROUND_DOWN a PAGE_SIZE)"
    using r(4) ROUND_DOWN_page [of a] div_times_less_eq_dividend [of "unat a" 4096] unfolding holds_def by (simp del: div_times_less_eq_dividend)
  then have "view vs s (ROUND_DOWN a PAGE_SIZE) = Some (behind r (ROUND_DOWN a PAGE_SIZE))"
    using view_Some [OF assms(1) rs] r(1,2) by (auto simp: hit_def intro!: bexI [of _ p])
  then show "\<exists>off'. view vs s (of_nat (vpn a) * 4096) = Some (ob, off', perm) \<and> off' div PAGE_SIZE = off div PAGE_SIZE"
    using fault_index(1) [OF r(3,4)] r(5-7) unfolding round_down_vpn by (simp add: behind_def)
  show "vpn a < 2 ^ 36" by (rule fault_index(5) [OF r(3,4)])
qed

lemma fault_keeps_frames:
  assumes f: "frames_ok s" and x: "pmos s ob = Some x" and s': "pmos s' = (pmos s)(ob \<mapsto> y)" "page_of y = (page_of x)(k := g)" "g \<noteq> 0"
    and g: "grown (pgt s) (pgt s')" "page_of x k = 0 \<longrightarrow> phys_to_virt g \<in> set (free_pages (pgt s)) \<and> phys_to_virt g \<notin> set (free_pages (pgt s')) \<union> dom (ptps (pgt s'))"
      "page_of x k \<noteq> 0 \<longrightarrow> g = page_of x k"
  shows "frames_ok s'"
proof -
  have old: "phys_to_virt (page_of z j) \<notin> set (free_pages (pgt s)) \<union> dom (ptps (pgt s))" if "pmos s o1 = Some z" "page_of z j \<noteq> 0" for o1 z j
    using f that unfolding frames_ok_def by blast
  have inj: "o1 = o2 \<and> j = i" if "pmos s o1 = Some z" "pmos s o2 = Some w" "page_of z j \<noteq> 0" "page_of z j = page_of w i" for o1 o2 z w i j
    using f that unfolding frames_ok_def by metis
  have new: "page_of z j \<noteq> g" if "page_of x k = 0" "pmos s o1 = Some z" for o1 z j
    using g(2) that old [OF that(2), of j] s'(3) by auto
  have clash: "page_of z j \<noteq> g" if z: "pmos s o1 = Some z" "(o1, j) \<noteq> (ob, k)" for o1 z j
  proof (cases "page_of x k = 0")
    case True
    then show ?thesis using new z(1) by blast
  next
    case False
    show ?thesis
    proof
      assume "page_of z j = g"
      then have "page_of x k = page_of z j" using False g(3) by simp
      from inj [OF x z(1) False this] show False using z(2) by simp
    qed
  qed
  have cases: "(o1 = ob \<and> j = k \<and> page_of z j = g) \<or> (\<exists>w. pmos s o1 = Some w \<and> page_of z j = page_of w j \<and> (o1, j) \<noteq> (ob, k))"
    if "pmos s' o1 = Some z" for o1 z j
    using that s'(1,2) x by (auto split: if_splits)
  show ?thesis unfolding frames_ok_def
  proof (intro allI impI conjI; elim conjE)
    fix o1 z j assume z: "pmos s' o1 = Some z" "page_of z j \<noteq> 0"
    have still: "phys_to_virt h \<notin> set (free_pages (pgt s')) \<union> dom (ptps (pgt s'))" if "phys_to_virt h \<notin> set (free_pages (pgt s)) \<union> dom (ptps (pgt s))" for h
      using that g(1) unfolding grown_def by blast
    from cases [OF z(1), of j] show "phys_to_virt (page_of z j) \<notin> set (free_pages (pgt s')) \<union> dom (ptps (pgt s'))"
    proof
      assume "o1 = ob \<and> j = k \<and> page_of z j = g"
      then have e: "page_of z j = g" by blast
      show ?thesis unfolding e using g(2,3) still old [OF x, of k] by (cases "page_of x k = 0") simp_all
    next
      assume "\<exists>w. pmos s o1 = Some w \<and> page_of z j = page_of w j \<and> (o1, j) \<noteq> (ob, k)"
      then show ?thesis using still old z(2) by metis
    qed
    fix o2 w i assume w: "pmos s' o2 = Some w" "page_of w i = page_of z j"
    have "(o2, i) = (o1, j)"
      using cases [OF z(1), of j] cases [OF w(1), of i]
    proof (elim disjE exE conjE)
      fix t1 t2 assume a: "pmos s o1 = Some t1" "page_of z j = page_of t1 j" "pmos s o2 = Some t2" "page_of w i = page_of t2 i"
      have "page_of t2 i = page_of t1 j" "page_of t2 i \<noteq> 0" using a(2,4) w(2) z(2) by (metis, metis)
      from inj [OF a(3,1) this(2,1)] show ?thesis by simp
    next
      fix t1 assume "page_of z j = g" "pmos s o2 = Some t1" "page_of w i = page_of t1 i" "(o2, i) \<noteq> (ob, k)"
      then show ?thesis using clash [of o2 t1 i] w(2) by metis
    next
      fix t1 assume "page_of w i = g" "pmos s o1 = Some t1" "page_of z j = page_of t1 j" "(o1, j) \<noteq> (ob, k)"
      then show ?thesis using clash [of o1 t1 j] w(2) by metis
    qed simp
    then show "o2 = o1" "i = j" by simp_all
  qed
qed

lemma fault_vm_inv:
  assumes i: "vm_inv vs s" and w: "view vs s a = Some (Some ob, off, perm)" and x: "pmos s ob = Some x" "pmo_radix x \<noteq> None" and room: "fault_room x s"
    and b: "off div PAGE_SIZE * PAGE_SIZE < pmo_size x"
  shows "\<exists>s'. handle_trans_fault vs a s = Some (0, s') \<and> vm_inv vs s'"
proof -
  from i obtain v where v: "spaces s vs = Some v" "space_inv vs s" "frames_ok s" "mem_ok_in v s" "\<forall>u < 2 ^ 36. coherent_at vs (vm_pgtbl v) s u"
    and ok: "\<forall>ob x. pmos s ob = Some x \<and> pmo_radix x \<noteq> None \<longrightarrow> pmo_ok x"
    by (auto simp: vm_inv_def space_inv_def space_ok_def)
  have po: "pmo_ok x" using ok x by blast
  let ?k = "off div PAGE_SIZE" and ?f = "fault_frame x (off div PAGE_SIZE) s"
  from handle_trans_fault_ok [OF v(2,1) w x(1) po room b refl refl] obtain s' y v' where
    s': "handle_trans_fault vs a s = Some (0, s')" "space_inv vs s'" "view vs s' = view vs s"
      "pmos s' = (pmos s)(ob \<mapsto> y)" "pmo_ok y" "page_of y = (page_of x)(?k := ?f)" "page_aligned ?f" "spaces s' = (spaces s)(vs \<mapsto> v')" "vm_pgtbl v' = vm_pgtbl v"
      "\<forall>u < 2 ^ 36. pt_entry (vm_pgtbl v) (pgt s') u = (if u = vpn a then page_pte ?f perm else pt_entry (vm_pgtbl v) (pgt s) u)"
      "?f \<noteq> 0" "grown (pgt s) (pgt s')"
      "page_of x ?k = 0 \<longrightarrow> phys_to_virt ?f \<in> set (free_pages (pgt s)) \<and> phys_to_virt ?f \<notin> set (free_pages (pgt s')) \<union> dom (ptps (pgt s'))"
    by blast
  have k: "page_of x ?k \<noteq> 0 \<longrightarrow> ?f = page_of x ?k" by (simp add: fault_frame_def)
  have "frames_ok s'" by (rule fault_keeps_frames [OF v(3) x(1) s'(4,6,11,12,13) k])
  moreover have "coherent_at vs (vm_pgtbl v') s' u" if u: "u < 2 ^ 36" for u
  proof (cases "u = vpn a")
    case True
    from page_view(1) [OF v(1,4) w] obtain off' where "view vs s (of_nat u * 4096) = Some (Some ob, off', perm)" "off' div PAGE_SIZE = ?k"
      unfolding True by blast
    moreover have "GET_PADDR_IN_PTE (pt_entry (vm_pgtbl v) (pgt s') u) = ?f" using s'(7,10) u True GET_PADDR_page by simp
    ultimately show ?thesis using s'(3,4,6,9,11) by (simp add: coherent_at_def)
  next
    case False
    have c: "coherent_at vs (vm_pgtbl v) s u" and e: "pt_entry (vm_pgtbl v) (pgt s') u = pt_entry (vm_pgtbl v) (pgt s) u" using v(5) s'(10) u False by auto
    have "\<exists>x'. pmos s' o1 = Some x' \<and> page_of x' j = page_of z j" if "pmos s o1 = Some z" "page_of z j \<noteq> 0" for o1 z j
      using that s'(4,6) x(1) k by auto
    then show ?thesis using c e s'(3,9) unfolding coherent_at_def by metis
  qed
  ultimately show ?thesis using s'(1,2,4,5,8) ok by (auto simp: vm_inv_def)
qed

lemma map_vm_inv:
  assumes i: "vm_inv vs s" and x: "pmos s pmo = Some x" "pmo_type x = PMO_ANONYM \<or> pmo_type x = PMO_SHM" and left: "regions_left s \<noteq> 0"
    and r: "region_ok (new_region va len flags pmo)" "4096 dvd hi (new_region va len flags pmo)" "free_for vs s (new_region va len flags pmo)"
  shows "\<exists>s'. vmspace_map_range vs va len flags pmo s = Some (0, s') \<and> vm_inv vs s'"
proof -
  let ?r = "new_region va len flags pmo"
  from i obtain v where v: "spaces s vs = Some v" "space_inv vs s" "frames_ok s" "mem_ok_in v s" "\<forall>u < 2 ^ 36. coherent_at vs (vm_pgtbl v) s u"
    by (auto simp: vm_inv_def space_inv_def space_ok_def)
  have rs: "regions_ok (vmr_list v) (next_region s) (regions s)" using v(4) by (simp add: mem_ok_in_def)
  from vmspace_map_range_eq [OF v(2) x left r(1,2)] r(3) obtain s' where
    s': "vmspace_map_range vs va len flags pmo s = Some (0, s')" "space_inv vs s'" "pmos s' = pmos s" "pgt s' = pgt s"
      "view vs s' = (\<lambda>a. if holds ?r a then Some (behind ?r a) else view vs s a)" "\<exists>v'. spaces s' vs = Some v' \<and> vm_pgtbl v' = vm_pgtbl v"
    using v(1) by auto
  have keep: "view vs s' a = view vs s a" if a: "view vs s a \<noteq> None" for a
  proof -
    from a view_Some [OF v(1) rs] obtain p where p: "p \<in> set (vmr_list v)" "hit (regions s) a p" by blast
    then have "apart ?r (the (regions s p))" using r(3) v(1) by (auto simp: free_for_def)
    then have "\<not> holds ?r a" using p(2) apart_holds by (auto simp: hit_def)
    then show ?thesis using s'(5) by simp
  qed
  have "coherent_at vs (vm_pgtbl v) s' u" if "coherent_at vs (vm_pgtbl v) s u" for u
    using that keep s'(3,4) unfolding coherent_at_def by (metis option.distinct(1))
  then show ?thesis using s'(1-4,6) v(3,5) i by (auto simp: vm_inv_def frames_ok_def)
qed

section \<open>A fresh address space\<close>

lemma pt_inv_new_root:
  assumes d: "distinct (a # rest)" "\<forall>b \<in> set (a # rest). b \<noteq> 0 \<and> ptps t b = None \<and> page_aligned (virt_to_phys b)" "ptps t 0 = None"
  defines "t' \<equiv> t\<lparr>free_pages := rest, ptps := (ptps t)(a \<mapsto> replicate 512 0)\<rparr>"
  shows "pt_inv a t'" "pt_entry a t' u = 0"
proof -
  have r: "ptps t' a = Some (replicate 512 0)" by (simp add: t'_def)
  have w: "pt_walk a t' q = (if q = [] then Some a else None)" for q
    by (cases q) (auto simp: r nth_opt_def)
  have e: "pt_at a t' p k = Some e \<Longrightarrow> e = 0" for p k e
    using w [of p] r by (auto simp: entry_at_def nth_opt_def split: if_splits)
  have "node_tree pt_next PTP_ENTRIES 4 (ptps t') a"
    using r by (intro treeI) (auto simp: w split: if_splits)
  moreover have "free_pages t' = rest" "ptps t' 0 = None" "\<forall>b \<in> set rest. ptps t' b = None" using d by (auto simp: t'_def)
  moreover have "pt_at a t' p k = Some e \<Longrightarrow> IS_PTE_INVALID e" for p k e using e zero_invalid by blast
  ultimately show "pt_inv a t'" using d unfolding pt_inv_def by auto
  show "pt_entry a t' u = 0" using e by (auto simp: pt_entry_def split: option.split)
qed

text \<open>The state at boot: no memory object, no page table, and usable free pages.\<close>

definition boot_mem :: "vm_state \<Rightarrow> bool" where
  "boot_mem s \<longleftrightarrow> pmos s = Map.empty \<and> ptps (pgt s) = Map.empty \<and> distinct (free_pages (pgt s)) \<and> free_pages (pgt s) \<noteq> []
     \<and> (\<forall>a \<in> set (free_pages (pgt s)). a \<noteq> 0 \<and> page_aligned (virt_to_phys a))"

lemma vmspace_init_ok:
  assumes "boot_mem s"
  shows "\<exists>s'. vmspace_init vs junk s = Some (0, s') \<and> vm_inv vs s' \<and> view vs s' = (\<lambda>_. None)
    \<and> pmos s' = Map.empty \<and> free_pages (pgt s') = tl (free_pages (pgt s)) \<and> regions_left s' = regions_left s \<and> radix_room s' = radix_room s
    \<and> (\<exists>v. spaces s' vs = Some v \<and> vmr_list v = [])"
proof -
  from assms obtain a rest where a: "free_pages (pgt s) = a # rest" by (cases "free_pages (pgt s)") (auto simp: boot_mem_def)
  have t: "distinct (a # rest)" "\<forall>b \<in> set (a # rest). b \<noteq> 0 \<and> ptps (pgt s) b = None \<and> page_aligned (virt_to_phys b)" "ptps (pgt s) 0 = None"
    using assms a by (auto simp: boot_mem_def)
  let ?t = "(pgt s)\<lparr>free_pages := rest, ptps := (ptps (pgt s))(a \<mapsto> replicate 512 0)\<rparr>"
  let ?v = "(reset_history_cpus (junk\<lparr>vmr_list := [], vm_pgtbl := a, vmspace_lock := lock_init, pgtbl_lock := lock_init,
                 user_current_heap := HEAP_START, heap_lock := lock_init\<rparr>))\<lparr>user_current_mmap_addr := MMAP_START\<rparr>"
  let ?s = "s\<lparr>pgt := ?t, spaces := (spaces s)(vs \<mapsto> ?v)\<rparr>"
  have e: "vmspace_init vs junk s = Some (0, ?s)" using a t by (simp add: vmspace_init_def get_page_def)
  have v: "vmr_list ?v = []" "vm_pgtbl ?v = a" "lock_free (vmspace_lock ?v)" "lock_free (pgtbl_lock ?v)" by (simp_all add: reset_history_cpus_def lock_simps)
  have sp: "spaces ?s vs = Some ?v" by simp
  have "regions_ok [] (next_region s) (regions s)" by (simp add: regions_ok_def)
  then have m: "mem_ok_in ?v ?s" using v pt_inv_new_root(1) [OF t] by (simp add: mem_ok_in_def)
  have "view vs ?s = (\<lambda>_. None)" using v(1) by (simp add: view_def find_vmr_for_va_def fun_eq_iff)
  moreover have "coherent_at vs (vm_pgtbl ?v) ?s u" for u using v(2) pt_inv_new_root(2) [OF t, of u] by (simp add: coherent_at_def)
  moreover have "pmos ?s = Map.empty" using assms by (simp add: boot_mem_def)
  moreover have "space_inv vs ?s" using sp m v(3) by (auto simp: space_inv_def space_ok_def)
  ultimately show ?thesis using e sp v(1) a by (intro exI [of _ ?s]) (simp add: vm_inv_def frames_ok_def)
qed

lemma pmo_init_ok:
  assumes "pmo_init ob type len paddr s = Some s'" "type = PMO_ANONYM \<or> type = PMO_SHM \<or> type = PMO_FILE"
  shows "\<exists>x. s' = set_pmo ob x s \<and> pmo_ok x \<and> page_of x = (\<lambda>_. 0) \<and> pmo_size x = ROUND_UP len PAGE_SIZE \<and> pmo_type x = type \<and> pmo_room x + 1 = radix_room s"
proof -
  have ty: "type \<noteq> PMO_DATA" using assms(2) by (auto simp: pmo_types)
  from assms ty obtain r r1 where r: "new_radix True (radix_room s) = Some r" "init_radix r = Some r1"
    "s' = set_pmo ob (blank_pmo\<lparr>pmo_size := ROUND_UP len PAGE_SIZE, pmo_type := type, pmo_radix := Some r1\<rparr>) s"
    by (auto simp: pmo_init_def split: bind_splits)
  have "nodes_left r \<noteq> 0"
  proof
    assume "nodes_left r = 0"
    then show False using r(2) by (simp add: init_radix_def new_radix_node_def)
  qed
  from init_radix_ok [OF this] r(1,2) have "radix_inv r1" "radix_map r1 = (\<lambda>_. 0)" "nodes_left r = Suc (nodes_left r1)" "nodes_left r = radix_room s"
    by (auto simp: new_radix_def)
  then show ?thesis using r(3) assms(2)
    by (intro exI [of _ "blank_pmo\<lparr>pmo_size := ROUND_UP len PAGE_SIZE, pmo_type := type, pmo_radix := Some r1\<rparr>"])
      (auto simp: pmo_ok_def page_of_def pmo_room_def blank_pmo_def)
qed

text \<open>
  The steps of a process on its memory: a new memory object, mapping one on demand, and a page
  fault the kernel has memory for.
\<close>

inductive vm_step :: "nat \<Rightarrow> vm_state \<Rightarrow> vm_state \<Rightarrow> bool" for vs where
  create: "pmos s ob = None \<Longrightarrow> type = PMO_ANONYM \<or> type = PMO_SHM \<or> type = PMO_FILE \<Longrightarrow> pmo_init ob type len paddr s = Some s' \<Longrightarrow> vm_step vs s s'"
| map: "pmos s pmo = Some x \<Longrightarrow> pmo_type x = PMO_ANONYM \<or> pmo_type x = PMO_SHM \<Longrightarrow> unat (ROUND_DOWN va PAGE_SIZE) + unat len \<le> 2 ^ 48 \<Longrightarrow>
    4096 dvd unat len \<Longrightarrow> len \<noteq> 0 \<Longrightarrow> vmspace_map_range vs va len flags pmo s = Some (ret, s') \<Longrightarrow> vm_step vs s s'"
| fault: "view vs s a = Some (Some ob, off, perm) \<Longrightarrow> pmos s ob = Some x \<Longrightarrow> off div PAGE_SIZE * PAGE_SIZE < pmo_size x \<Longrightarrow> fault_room x s \<Longrightarrow>
    pmo_radix x \<noteq> None \<Longrightarrow> handle_trans_fault vs a s = Some (ret, s') \<Longrightarrow> vm_step vs s s'"

lemma create_vm_inv:
  assumes i: "vm_inv vs s" and ob: "pmos s ob = None" and x: "pmo_ok x" "page_of x = (\<lambda>_. 0)"
  shows "vm_inv vs (set_pmo ob x s)"
proof -
  let ?s = "set_pmo ob x s"
  have eq: "spaces ?s = spaces s" "regions ?s = regions s" "pgt ?s = pgt s" "next_region ?s = next_region s" "pmos ?s = (pmos s)(ob \<mapsto> x)"
    by (simp_all add: set_pmo_def)
  from i obtain v where v: "spaces s vs = Some v" "space_ok v s" by (auto simp: vm_inv_def space_inv_def)
  have w: "view vs ?s = view vs s" by (rule view_cong [OF v(1)]) (use v eq in simp_all)
  have "frames_ok ?s" using i x(2) unfolding vm_inv_def frames_ok_def eq by (auto split: if_splits)
  moreover have "space_inv vs ?s" using v eq space_ok_cong(1) [of v v ?s s] by (auto simp: space_inv_def)
  moreover have "coherent_at vs (vm_pgtbl v) ?s u" if "coherent_at vs (vm_pgtbl v) s u" for u
    using that ob unfolding coherent_at_def w eq by (metis fun_upd_apply option.distinct(1))
  ultimately show ?thesis using i v(1) x(1) eq by (auto simp: vm_inv_def)
qed

lemma vm_step_inv: "vm_step vs s s' \<Longrightarrow> vm_inv vs s \<Longrightarrow> vm_inv vs s'"
proof (induction rule: vm_step.induct)
  case (create s ob type len paddr s')
  from pmo_init_ok [OF create(3,2)] obtain x where "s' = set_pmo ob x s" "pmo_ok x" "page_of x = (\<lambda>_. 0)" by blast
  then show ?case using create_vm_inv [OF create(4) create(1)] by simp
next
  case (map s pmo x va len flags ret s')
  note r = new_region_ok [OF map(3-5), of flags pmo]
  have left: "regions_left s \<noteq> 0"
  proof
    assume "regions_left s = 0"
    then show False using map(1,2,6) by (auto simp: vmspace_map_range_def alloc_vmregion_def)
  qed
  have "space_inv vs s" using map(7) by (simp add: vm_inv_def)
  note e = vmspace_map_range_eq [OF this map(1,2) left r(1,2)]
  have "free_for vs s (new_region va len flags pmo)"
  proof (rule ccontr)
    assume "\<not> ?thesis"
    then have "vmspace_map_range vs va len flags pmo s = None" using e by simp
    then show False using map(6) by simp
  qed
  from map_vm_inv [OF map(7,1,2) left r(1,2) this] map(6) show ?case by auto
next
  case (fault s a ob off perm x ret s')
  then show ?case using fault_vm_inv [OF fault(7,1,2,5,4,3)] by auto
qed

lemma vm_steps_inv: "(vm_step vs)\<^sup>*\<^sup>* s s' \<Longrightarrow> vm_inv vs s \<Longrightarrow> vm_inv vs s'"
  by (induction rule: rtranclp_induct) (auto intro: vm_step_inv)

section \<open>A region cut short\<close>

lemma update_l3_free: "update_l3 f n p va cnt t = Some (va', cnt', t') \<Longrightarrow> free_pages t' = free_pages t"
proof (induction f n p va cnt t rule: update_l3.induct)
  case (2 f n p va cnt t)
  from 2(2) obtain xs e u where u: "ptps t p = Some xs" "nth_opt xs (PTP_ENTRIES - Suc n) = Some e" "set_pte p (PTP_ENTRIES - Suc n) (f e) t = Some u"
    by (auto split: bind_splits)
  have "free_pages u = free_pages t" using u(3) by (auto simp: set_pte_def split: bind_splits)
  then show ?case using 2(1) [OF u] 2(2) u by (auto split: if_splits)
qed simp

lemma update_loop_free: "update_loop f pg va cnt t = Some t' \<Longrightarrow> free_pages t' = free_pages t"
proof (induction rule: update_loop.raw_induct [rotated, consumes 1])
  case (1 h f pg va cnt t t')
  note b = 1(2)
  show ?case
  proof (cases "cnt \<le> 0")
    case False
    from b False obtain r0 l1 e0 s0 where d0: "get_next_ptp pg 0 va False t = Some (r0, l1, e0, s0)" by (auto split: bind_splits)
    show ?thesis
    proof (cases "r0 = - ENOMAPPING")
      case True
      then show ?thesis using b False d0 1(1) by auto
    next
      case n0: False
      from b False d0 n0 obtain r1 l2 e1 s1 where d1: "get_next_ptp l1 1 va False t = Some (r1, l2, e1, s1)" by (auto split: bind_splits)
      show ?thesis
      proof (cases "r1 = - ENOMAPPING")
        case True
        then show ?thesis using b False d0 d1 n0 1(1) by auto
      next
        case n1: False
        from b False d0 n0 d1 n1 obtain r2 l3 e2 s2 where d2: "get_next_ptp l2 2 va False t = Some (r2, l3, e2, s2)" by (auto split: bind_splits)
        show ?thesis
        proof (cases "r2 = - ENOMAPPING")
          case True
          then show ?thesis using b False d0 d1 d2 n0 n1 1(1) by auto
        next
          case n2: False
          from b False d0 n0 d1 n1 d2 n2 obtain va' cnt' u where
            u: "update_l3 f (PTP_ENTRIES - GET_INDEX 3 va) l3 va cnt t = Some (va', cnt', u)" "h f pg va' cnt' u = Some t'" by (auto split: bind_splits)
          then show ?thesis using update_l3_free [OF u(1)] 1(1) [OF u(2)] by simp
        qed
      qed
    qed
  qed (use b in simp)
qed

lemma unmap_range_free: "unmap_range_in_pgtbl pg va len t = Some (ret, t') \<Longrightarrow> free_pages t' = free_pages t"
  by (auto simp: unmap_range_in_pgtbl_def flush_tlb_def split: if_splits bind_splits dest: update_loop_free)

text \<open>\<^verbatim>\<open>munmap\<close> of the first pages of a region moves its start but not the start in the memory object.\<close>

lemma munmap_shrink:
  assumes i: "space_inv vs s" and v: "spaces s vs = Some v" and p: "p \<in> set (vmr_list v)" "regions s p = Some r"
    and x: "vmr_pmo r = Some ob" "pmos s ob = Some x" "pmo_type x = PMO_ANONYM" and len: "4096 dvd unat len" "len < vmr_size r" "len \<noteq> 0"
  shows "\<exists>s' v'. vmspace_munmap_with_addr vs (vmr_start r) len s = Some (0, s') \<and> space_inv vs s' \<and> pmos s' = pmos s
    \<and> free_pages (pgt s') = free_pages (pgt s) \<and> spaces s' vs = Some v' \<and> vm_pgtbl v' = vm_pgtbl v
    \<and> view vs s' (vmr_start r + len) = Some (Some ob, 0, vmr_perm r)"
proof -
  have ok: "lock_free (vmspace_lock v)" "lock_free (pgtbl_lock v)" "pt_inv (vm_pgtbl v) (pgt s)" "regions_ok (vmr_list v) (next_region s) (regions s)"
    using i v by (auto simp: space_inv_def space_ok_def mem_ok_in_def)
  have r: "region_ok r" using regions_okD [OF ok(4) p(1)] p(2) by auto
  let ?va = "vmr_start r" and ?q = "r\<lparr>vmr_size := vmr_size r - len, vmr_start := vmr_start r + len\<rparr>"
  note q = shrunk_region [OF r len(1,2)]
  have "holds r ?va" using len(2) by (auto simp: holds_def lo_def hi_def word_less_nat_alt)
  then have "find_vmr ?va (vmr_list v) s = Some (Some p)"
    using find_vmr_eq [OF ok(4)] find_hit [OF ok(4), of ?va p] p by (simp add: hit_def)
  then have f: "find_vmr ?va (vmr_list v) (s\<lparr>spaces := m\<rparr>) = Some (Some p)" for m
    by (subst find_vmr_cong [of "s\<lparr>spaces := m\<rparr>" s]) simp_all
  have "unat ?va + 4096 * total_page_cnt len \<le> 2 ^ 48"
    using total_page_cnt_dvd [OF len(1)] r len(2) by (simp add: region_ok_def hi_def word_less_nat_alt)
  from unmap_pages_ok [OF ok(3) this] obtain t where
    t: "unmap_range_in_pgtbl (vm_pgtbl v) ?va len (pgt s) = Some (0, t)" "pt_inv (vm_pgtbl v) t" by blast
  let ?v = "v\<lparr>pgtbl_lock := unlock (taken (pgtbl_lock v)), vmspace_lock := unlock (taken (vmspace_lock v))\<rparr>"
  let ?s = "s\<lparr>regions := (regions s)(p \<mapsto> ?q), pgt := t, spaces := (spaces s)(vs \<mapsto> ?v)\<rparr>"
  have "vmspace_munmap_with_addr vs ?va len s = Some (0, ?s)"
    using v ok(1,2) f p x len t(1)
    by (simp add: vmspace_munmap_with_addr_def lock_space_eq unlock_space_def unmap_vmrs.simps [of vs ?va] find_vmr_for_va_def pmo_of_def set_region_def with_pgtbl_def)
  moreover have rs: "regions_ok (vmr_list ?v) (next_region ?s) (regions ?s)"
    using q by simp (intro regions_ok_shrink [OF ok(4) p], simp_all)
  moreover have "holds ?q (vmr_start r + len)" using q r len(2) by (auto simp: holds_def lo_def word_less_nat_alt hi_def)
  then have "view vs ?s (vmr_start r + len) = Some (behind ?q (vmr_start r + len))"
    using view_Some [of ?s vs ?v, OF _ rs] p(1) by (auto simp: hit_def intro!: bexI [of _ p])
  ultimately show ?thesis using ok t(2) x(1) unmap_range_free [OF t(1)]
    by (intro exI [of _ ?s] exI [of _ ?v]) (simp add: space_inv_def space_ok_def mem_ok_in_def behind_def)
qed

section \<open>Mapping at the next address\<close>

lemma vmspace_mmap_eq:
  assumes i: "space_inv vs s" and v: "spaces s vs = Some v" and x: "pmos s pmo = Some x" "pmo_type x = PMO_ANONYM \<or> pmo_type x = PMO_SHM \<or> pmo_type x = PMO_FILE"
    and left: "regions_left s \<noteq> 0" and len: "4096 dvd unat len" "len \<noteq> 0"
    and r: "r = \<lparr>vmr_start = user_current_mmap_addr v, vmr_size = len, vmr_perm = perm, vmr_pmo = Some pmo\<rparr>" "region_ok r" "free_for vs s r"
  shows "\<exists>s' v'. vmspace_mmap_with_pmo vs pmo len perm s = Some (user_current_mmap_addr v, s') \<and> space_inv vs s' \<and> pmos s' = pmos s \<and> pgt s' = pgt s
    \<and> spaces s' = (spaces s)(vs \<mapsto> v') \<and> user_current_mmap_addr v' = user_current_mmap_addr v + len
    \<and> view vs s' = (\<lambda>a. if holds r a then Some (behind r a) else view vs s a)"
proof -
  let ?p = "next_region s"
  have ok: "lock_free (vmspace_lock v)" "mem_ok_in v s" using i v by (auto simp: space_inv_def space_ok_def)
  have rs: "regions_ok (vmr_list v) ?p (regions s)" using ok(2) by (simp add: mem_ok_in_def)
  have ap: "\<forall>q \<in> set (vmr_list v). apart r (the (regions s q))" using r(3) v by (auto simp: free_for_def)
  have hi: "4096 dvd hi r" using dvd_page_hi [OF r(2)] len(1) r(1) by simp
  have m: "len mod 4096 = 0" using len(1) by (simp add: word_unat_eq_iff unat_mod)
  let ?v = "v\<lparr>vmspace_lock := taken (vmspace_lock v), user_current_mmap_addr := user_current_mmap_addr v + len\<rparr>"
  let ?t = "s\<lparr>next_region := ?p + 1, regions_left := regions_left s - 1, spaces := (spaces s)(vs \<mapsto> ?v)\<rparr>"
  let ?w = "?v\<lparr>vmr_list := ?p # vmr_list v, vmspace_lock := unlock (taken (vmspace_lock v))\<rparr>"
  let ?s = "?t\<lparr>regions := (regions s)(?p \<mapsto> r), spaces := (spaces s)(vs \<mapsto> ?w)\<rparr>"
  have "add_vmr_to_vmspace vs ?p (set_region ?p r ?t) = Some (0, linked vs ?v r ?p ?t)"
    using add_vmr_eq [of ?t vs ?v ?p r] rs r(2) hi ap by simp
  then have "vmspace_mmap_with_pmo vs pmo len perm s = Some (user_current_mmap_addr v, ?s)"
    using v x left ok(1) m r(1)
    by (auto simp: vmspace_mmap_with_pmo_def alloc_vmregion_def lock_space_eq unlock_space_def linked_def Let_def)
  moreover have "regions_ok (vmr_list ?w) (?p + 1) (regions ?s)" "view vs ?s = (\<lambda>a. if holds r a then Some (behind r a) else view vs s a)"
    using view_linked [OF v rs r(2) ap, of ?s ?w] by simp_all
  ultimately show ?thesis using ok by (intro exI [of _ ?s] exI [of _ ?w]) (simp add: space_inv_def space_ok_def mem_ok_in_def)
qed

section \<open>Properties\<close>

text \<open>A small machine: sixty free pages, one address space and one memory object of three pages.\<close>

definition boot_vm :: vm_state where
  "boot_vm = \<lparr>spaces = Map.empty, regions = Map.empty, next_region = 0, regions_left = 9, pmos = Map.empty, radix_room = 100, chunks = [],
     pgt = \<lparr>ptps = Map.empty, free_pages = map (\<lambda>n. phys_to_virt (of_nat n * 0x1000)) [1..<61], tlb = Map.empty\<rparr>, pmem = (\<lambda>_. 0)\<rparr>"

definition junk_space :: vmspace where
  "junk_space = \<lparr>vmr_list = [], vm_pgtbl = 0, vmspace_lock = lock_init, pgtbl_lock = lock_init, history_cpus = [], heap_lock = lock_init,
     heap_vmr = None, user_current_heap = 0, user_current_mmap_addr = 0\<rparr>"

lemma boot_vm_ok: "boot_mem boot_vm"
proof -
  have "inj_on (\<lambda>n. phys_to_virt (of_nat n * 0x1000)) {1..<61}"
  proof (rule inj_onI)
    fix n m :: nat assume nm: "n \<in> {1..<61}" "m \<in> {1..<61}" "phys_to_virt (of_nat n * 0x1000) = phys_to_virt (of_nat m * 0x1000)"
    then have "of_nat n * 0x1000 = (of_nat m * 0x1000 :: u64)" by (metis phys_virt_inverse(1))
    then show "n = m" using nm(1,2) by (auto simp: word_unat_eq_iff unat_word_ariths unat_of_nat_lt)
  qed
  then have "distinct (free_pages (pgt boot_vm))" by (simp add: boot_vm_def distinct_map del: upt_rec_numeral)
  moreover have "a \<noteq> 0 \<and> page_aligned (virt_to_phys a)" if "a \<in> set (free_pages (pgt boot_vm))" for a
  proof -
    from that obtain n where n: "a = phys_to_virt (of_nat n * 0x1000)" "1 \<le> n" "n < 61" by (auto simp: boot_vm_def simp del: upt_rec_numeral)
    have "a \<noteq> 0"
    proof
      assume "a = 0"
      then have "unat a = 0" by simp
      then show False using n by (simp add: phys_to_virt_def KBASE_def unat_word_ariths unat_of_nat_lt)
    qed
    then show ?thesis using n page_aligned_mult [of n] by simp
  qed
  ultimately show ?thesis by (auto simp: boot_mem_def) (simp_all add: boot_vm_def)
qed

lemma small_space_at:
  "\<exists>s0 s1 s v x. vmspace_init vs junk_space boot_vm = Some (0, s0) \<and> pmo_init ob PMO_ANONYM 0x3000 0 s0 = Some s1
    \<and> vmspace_map_range vs 0x10000 0x3000 3 ob s1 = Some (0, s) \<and> vm_inv vs s \<and> spaces s vs = Some v \<and> pmos s ob = Some x \<and> pmo_ok x
    \<and> page_of x = (\<lambda>_. 0) \<and> pmo_size x = 0x3000 \<and> pmo_type x = PMO_ANONYM \<and> 99 \<le> pmo_room x \<and> regions_left s \<noteq> 0
    \<and> length (free_pages (pgt s)) = 59 \<and> hd (free_pages (pgt s)) = phys_to_virt 0x2000
    \<and> view vs s = (\<lambda>a. if holds (new_region 0x10000 0x3000 3 ob) a then Some (behind (new_region 0x10000 0x3000 3 ob) a) else None)
    \<and> (vm_step vs)\<^sup>*\<^sup>* s0 s \<and> (\<exists>p. vmr_list v = [p] \<and> regions s p = Some (new_region 0x10000 0x3000 3 ob))"
proof -
  let ?r = "new_region 0x10000 0x3000 3 ob"
  have fp: "length (free_pages (pgt boot_vm)) = 60" "tl (free_pages (pgt boot_vm)) = map (\<lambda>n. phys_to_virt (of_nat n * 0x1000)) [2..<61]"
      "regions_left boot_vm = 9" "radix_room boot_vm = 100"
    by (simp_all add: boot_vm_def map_tl [symmetric] numeral_2_eq_2 del: upt_rec_numeral)
  from vmspace_init_ok [OF boot_vm_ok, of vs junk_space] obtain s0 v0 where
    s0: "vmspace_init vs junk_space boot_vm = Some (0, s0)" "vm_inv vs s0" "view vs s0 = (\<lambda>_. None)" "pmos s0 = Map.empty"
      "free_pages (pgt s0) = tl (free_pages (pgt boot_vm))" "regions_left s0 = 9" "radix_room s0 = 100" "spaces s0 vs = Some v0" "vmr_list v0 = []"
    unfolding fp(3,4) by blast
  have "pmo_init ob PMO_ANONYM 0x3000 0 s0 \<noteq> None"
    using s0(7) by (simp add: pmo_init_def pmo_types new_radix_def init_radix_def new_radix_node_def)
  then obtain s1 where s1: "pmo_init ob PMO_ANONYM 0x3000 0 s0 = Some s1" by blast
  from pmo_init_ok [OF s1] obtain x where
    x: "s1 = set_pmo ob x s0" "pmo_ok x" "page_of x = (\<lambda>_. 0)" "pmo_size x = 0x3000" "pmo_type x = PMO_ANONYM" "pmo_room x = 99"
    using s0(7) by (auto simp: ROUND_UP_def)
  have st1: "vm_step vs s0 s1" by (rule vm_step.create [OF _ _ s1]) (use s0(4) in simp_all)
  have i1: "vm_inv vs s1" using vm_step_inv [OF st1 s0(2)] .
  have e1: "pmos s1 ob = Some x" "regions_left s1 = 9" "spaces s1 vs = Some v0" "pgt s1 = pgt s0" using x(1) s0 by (simp_all add: set_pmo_def)
  have w1: "view vs s1 = view vs s0" by (rule view_cong [OF s0(8) e1(3)]) (simp_all add: x(1) set_pmo_def)
  have sp: "space_inv vs s1" using i1 by (simp add: vm_inv_def)
  have rd: "ROUND_DOWN 0x10000 PAGE_SIZE = 0x10000" by (simp add: ROUND_DOWN_def)
  then have r: "region_ok ?r" "4096 dvd hi ?r" "vmr_size ?r = 0x3000" by (intro new_region_ok; simp)+
  have f: "free_for vs s1 ?r" using e1(3) s0(9) by (simp add: free_for_def)
  from vmspace_map_range_eq [OF sp e1(1) _ _ r(1,2)] f x(5) e1(2) obtain s v where
    s: "vmspace_map_range vs 0x10000 0x3000 3 ob s1 = Some (0, s)" "pmos s = pmos s1" "pgt s = pgt s1"
      "view vs s = (\<lambda>a. if holds ?r a then Some (behind ?r a) else view vs s1 a)" "spaces s vs = Some v" "vmr_list v = [next_region s1]"
      "regions s = (regions s1)(next_region s1 \<mapsto> ?r)" "regions_left s = 8"
    using e1(3) s0(9) by auto
  have st2: "vm_step vs s1 s" by (rule vm_step.map [OF e1(1) _ _ _ _ s(1)]) (use x(5) rd in simp_all)
  have "vm_inv vs s" using vm_step_inv [OF st2 i1] .
  moreover have "(vm_step vs)\<^sup>*\<^sup>* s0 s" using st1 st2 by simp
  moreover have "length (free_pages (pgt s)) = 59" "hd (free_pages (pgt s)) = phys_to_virt 0x2000"
    unfolding s(3) e1(4) s0(5) fp(2) by (simp_all add: hd_map del: upt_rec_numeral)
  moreover have "view vs s = (\<lambda>a. if holds ?r a then Some (behind ?r a) else None)" unfolding s(4) w1 s0(3) ..
  moreover have "pmos s ob = Some x" "regions_left s \<noteq> 0" "99 \<le> pmo_room x" "vmr_list v = [next_region s1] \<and> regions s (next_region s1) = Some ?r"
    using s e1(1) x(6) by simp_all
  ultimately show ?thesis using s0(1) s1 s(1,5) x(2-5) by blast
qed

lemmas small_space = small_space_at [of 0 5]

lemma small_region:
  "region_ok (new_region 0x10000 0x3000 3 ob)" "4096 dvd hi (new_region 0x10000 0x3000 3 ob)" "vmr_size (new_region 0x10000 0x3000 3 ob) = 0x3000"
  "vmr_start (new_region 0x10000 0x3000 3 ob) = 0x10000"
  "holds (new_region 0x10000 0x3000 3 ob) a \<longleftrightarrow> 0x10000 \<le> unat a \<and> unat a < 0x13000"
proof -
  have rd: "ROUND_DOWN 0x10000 PAGE_SIZE = 0x10000" by (simp add: ROUND_DOWN_def)
  show r: "region_ok (new_region 0x10000 0x3000 3 ob)" "4096 dvd hi (new_region 0x10000 0x3000 3 ob)" "vmr_size (new_region 0x10000 0x3000 3 ob) = 0x3000"
    by (intro new_region_ok; simp add: rd [simplified])+
  show "vmr_start (new_region 0x10000 0x3000 3 ob) = 0x10000" using rd by (simp add: new_region_def)
  then show "holds (new_region 0x10000 0x3000 3 ob) a \<longleftrightarrow> 0x10000 \<le> unat a \<and> unat a < 0x13000" using r(3) by (simp add: holds_def lo_def hi_def)
qed



lemma fault_query:
  assumes "spaces s vs = Some v" "mem_ok_in v s" "view vs s a = Some (Some ob, off, perm)" "page_aligned f" "pt_inv pg t"
    "\<forall>u < 2 ^ 36. pt_entry pg t u = (if u = vpn a then page_pte f perm else pt_entry pg' t' u)"
  shows "query_in_pgtbl pg a t = Some (0, f + GET_VA_OFFSET 3 a, page_pte f perm)"
  using query_ok [OF assms(5), of a] assms(6) page_view(2) [OF assms(1-3)] GET_PADDR_page [OF assms(4), of perm] by simp

text \<open>
  C11: a page fault in a region of an object that is mapped on demand, with memory left.  The handler
  returns 0 and keeps the invariant and the view; from then on the address translates to the frame
  that the object has for its page.  This is the frame committed before, whoever committed it, or
  else the next free page, which the object then has for the page and which is cleared; no other
  page of the object, no other object and no other descriptor changes.
\<close>

theorem handle_trans_fault_correct:
  assumes i: "space_inv vs s" and v: "spaces s vs = Some v" and w: "view vs s a = Some (Some ob, off, perm)"
    and x: "pmos s ob = Some x" "pmo_ok x" "off div PAGE_SIZE * PAGE_SIZE < pmo_size x" and room: "fault_room x s"
    and f: "f = (if page_of x (off div PAGE_SIZE) = 0 then virt_to_phys (hd (free_pages (pgt s))) else page_of x (off div PAGE_SIZE))"
  shows "\<exists>s' y. handle_trans_fault vs a s = Some (0, s') \<and> space_inv vs s' \<and> view vs s' = view vs s
    \<and> query_in_pgtbl (vm_pgtbl v) a (pgt s') = Some (0, f + GET_VA_OFFSET 3 a, page_pte f perm)
    \<and> pmos s' = (pmos s)(ob \<mapsto> y) \<and> page_of y = (page_of x)(off div PAGE_SIZE := f)
    \<and> (\<forall>u < 2 ^ 36. u \<noteq> vpn a \<longrightarrow> pt_entry (vm_pgtbl v) (pgt s') u = pt_entry (vm_pgtbl v) (pgt s) u)
    \<and> pmem s' = (if page_of x (off div PAGE_SIZE) = 0 then memset_page f (pmem s) else pmem s)"
proof -
  have f': "f = fault_frame x (off div PAGE_SIZE) s" by (simp add: f fault_frame_def)
  from handle_trans_fault_ok [OF i v w x(1,2) room x(3) refl f'] obtain s' y v' where
    s': "handle_trans_fault vs a s = Some (0, s')" "space_inv vs s'" "view vs s' = view vs s" "pmos s' = (pmos s)(ob \<mapsto> y)"
      "page_of y = (page_of x)(off div PAGE_SIZE := f)" "page_aligned f" "pt_inv (vm_pgtbl v) (pgt s')"
      "\<forall>u < 2 ^ 36. pt_entry (vm_pgtbl v) (pgt s') u = (if u = vpn a then page_pte f perm else pt_entry (vm_pgtbl v) (pgt s) u)"
      "pmem s' = (if page_of x (off div PAGE_SIZE) = 0 then memset_page f (pmem s) else pmem s)" by blast
  have "mem_ok_in v s" using i v by (auto simp: space_inv_def space_ok_def)
  from fault_query [OF v this w s'(6-8)] s' show ?thesis by (intro exI [of _ s'] exI [of _ y]) simp
qed

lemma small_view: "behind (new_region 0x10000 0x3000 3 ob) a = (Some ob, a - 0x10000, 3)"
  using small_region(4) by (simp add: behind_def) (simp add: new_region_def)

theorem handle_trans_fault_correct_witness:
  "\<exists>s s' v. spaces s 0 = Some v \<and> handle_trans_fault 0 0x11234 s = Some (0, s')
     \<and> query_in_pgtbl (vm_pgtbl v) 0x11234 (pgt s') = Some (0, 0x2234, page_pte 0x2000 3)"
proof -
  obtain s v x where s: "vm_inv 0 s" "spaces s 0 = Some v" "pmos s 5 = Some x" "pmo_ok x" "page_of x = (\<lambda>_. 0)" "pmo_size x = 0x3000"
    "99 \<le> pmo_room x" "length (free_pages (pgt s)) = 59" "hd (free_pages (pgt s)) = phys_to_virt 0x2000"
    "view 0 s = (\<lambda>a. if holds (new_region 0x10000 0x3000 3 5) a then Some (behind (new_region 0x10000 0x3000 3 5) a) else None)"
    using small_space by blast
  have si: "space_inv 0 s" using s(1) by (simp add: vm_inv_def)
  have w: "view 0 s 0x11234 = Some (Some 5, 0x1234, 3)" by (simp add: s(10) small_region(5) small_view)
  have room: "fault_room x s" using s(7-9) by (simp add: fault_room_def phys_to_virt_def KBASE_def)
  have f: "virt_to_phys (hd (free_pages (pgt s))) = 0x2000" using s(9) by simp
  have o: "GET_VA_OFFSET 3 0x11234 = 0x234" by code_simp
  from handle_trans_fault_correct [OF si s(2) w s(3,4) _ room refl] s(5,6) f o obtain s' where
    "handle_trans_fault 0 0x11234 s = Some (0, s')" "query_in_pgtbl (vm_pgtbl v) 0x11234 (pgt s') = Some (0, 0x2234, page_pte 0x2000 3)"
    by auto
  then show ?thesis using s(2) by blast
qed

text \<open>What a translation tells, from the invariant.\<close>

lemma translation:
  assumes i: "vm_inv vs s" and v: "spaces s vs = Some v" and a: "unat a < 2 ^ 48" and q: "query_in_pgtbl (vm_pgtbl v) a (pgt s) = Some (0, pa, pte)"
  shows "\<exists>ob off perm x. view vs s (ROUND_DOWN a PAGE_SIZE) = Some (Some ob, off, perm) \<and> pmos s ob = Some x \<and> page_of x (off div PAGE_SIZE) \<noteq> 0
    \<and> GET_PADDR_IN_PTE pte = page_of x (off div PAGE_SIZE) \<and> pa = page_of x (off div PAGE_SIZE) + GET_VA_OFFSET 3 a
    \<and> phys_to_virt (page_of x (off div PAGE_SIZE)) \<notin> set (free_pages (pgt s)) \<union> dom (ptps (pgt s))"
proof -
  have p: "pt_inv (vm_pgtbl v) (pgt s)" using i v by (auto simp: vm_inv_def space_inv_def space_ok_def mem_ok_in_def)
  from a have u: "vpn a < 2 ^ 36" by (simp add: vpn_def)
  from q query_ok [OF p, of a] have e: "\<not> IS_PTE_INVALID (pt_entry (vm_pgtbl v) (pgt s) (vpn a))" "pte = pt_entry (vm_pgtbl v) (pgt s) (vpn a)"
    "pa = GET_PADDR_IN_PTE pte + GET_VA_OFFSET 3 a" by (auto simp: ENOMAPPING_def split: if_splits)
  have "coherent_at vs (vm_pgtbl v) s (vpn a)" using i v u by (auto simp: vm_inv_def)
  with e obtain ob off perm x where x: "view vs s (ROUND_DOWN a PAGE_SIZE) = Some (Some ob, off, perm)" "pmos s ob = Some x"
      "page_of x (off div PAGE_SIZE) \<noteq> 0" "GET_PADDR_IN_PTE pte = page_of x (off div PAGE_SIZE)"
    unfolding coherent_at_def round_down_vpn by blast
  moreover have "phys_to_virt (page_of x (off div PAGE_SIZE)) \<notin> set (free_pages (pgt s)) \<union> dom (ptps (pgt s))"
    using i x(2,3) unfolding vm_inv_def frames_ok_def by blast
  ultimately show ?thesis using e(3) by auto
qed

lemma frames_inj:
  assumes "vm_inv vs s" "pmos s o1 = Some x" "pmos s o2 = Some y" "page_of x j \<noteq> 0" "page_of x j = page_of y k"
  shows "o1 = o2 \<and> j = k"
  using assms unfolding vm_inv_def frames_ok_def by metis


lemma small_fault_at:
  "\<exists>s0 s v. vmspace_init vs junk_space boot_vm = Some (0, s0) \<and> (vm_step vs)\<^sup>*\<^sup>* s0 s \<and> spaces s vs = Some v
     \<and> query_in_pgtbl (vm_pgtbl v) 0x11234 (pgt s) = Some (0, 0x2234, page_pte 0x2000 3) \<and> vm_inv vs s
     \<and> (\<exists>x. pmos s ob = Some x \<and> pmo_ok x \<and> page_of x 1 = 0x2000 \<and> pmo_size x = 0x3000 \<and> pmo_type x = PMO_ANONYM) \<and> pt_entry (vm_pgtbl v) (pgt s) 0x11 = page_pte 0x2000 3
     \<and> view vs s = (\<lambda>a. if holds (new_region 0x10000 0x3000 3 ob) a then Some (behind (new_region 0x10000 0x3000 3 ob) a) else None)"
proof -
  obtain s1 s v x where s: "vm_inv vs s" "spaces s vs = Some v" "pmos s ob = Some x" "pmo_ok x" "page_of x = (\<lambda>_. 0)" "pmo_size x = 0x3000"
    "pmo_type x = PMO_ANONYM" "99 \<le> pmo_room x" "length (free_pages (pgt s)) = 59" "hd (free_pages (pgt s)) = phys_to_virt 0x2000"
    "view vs s = (\<lambda>a. if holds (new_region 0x10000 0x3000 3 ob) a then Some (behind (new_region 0x10000 0x3000 3 ob) a) else None)"
    "vmspace_init vs junk_space boot_vm = Some (0, s1)" "(vm_step vs)\<^sup>*\<^sup>* s1 s"
    using small_space_at [of vs ob] by blast
  have si: "space_inv vs s" "mem_ok_in v s" using s(1,2) by (auto simp: vm_inv_def space_inv_def space_ok_def)
  have w: "view vs s 0x11234 = Some (Some ob, 0x1234, 3)" by (simp add: s(11) small_region(5) small_view)
  have room: "fault_room x s" using s(8-10) by (simp add: fault_room_def phys_to_virt_def KBASE_def)
  have f: "0x2000 = fault_frame x 1 s" using s(5,10) by (simp add: fault_frame_def)
  have b: "(0x1234 :: u64) div PAGE_SIZE * PAGE_SIZE < pmo_size x" "(1 :: u64) = 0x1234 div PAGE_SIZE" using s(6) by simp_all
  from handle_trans_fault_ok [OF si(1) s(2) w s(3,4) room b f] obtain s' v' y where
    s': "handle_trans_fault vs 0x11234 s = Some (0, s')" "page_aligned 0x2000" "pt_inv (vm_pgtbl v) (pgt s')" "spaces s' = (spaces s)(vs \<mapsto> v')" "vm_pgtbl v' = vm_pgtbl v"
      "\<forall>u < 2 ^ 36. pt_entry (vm_pgtbl v) (pgt s') u = (if u = vpn 0x11234 then page_pte 0x2000 3 else pt_entry (vm_pgtbl v) (pgt s) u)"
      "view vs s' = view vs s" "pmos s' = (pmos s)(ob \<mapsto> y)" "pmo_ok y" "page_of y = (page_of x)(1 := 0x2000)" "same_shape x y" by blast
  have o: "GET_VA_OFFSET 3 0x11234 = 0x234" by code_simp
  have "vm_step vs s s'" by (rule vm_step.fault [OF w s(3) b(1) room _ s'(1)]) (use s(4) in \<open>auto simp: pmo_ok_def\<close>)
  then have "vm_inv vs s'" using s(1) by (rule vm_step_inv)
  have "vpn 0x11234 = 0x11" by (simp add: vpn_def)
  then have "pt_entry (vm_pgtbl v') (pgt s') 0x11 = page_pte 0x2000 3" using s'(5,6) by simp
  from \<open>vm_step vs s s'\<close> s(13) have "(vm_step vs)\<^sup>*\<^sup>* s1 s'" by simp
  moreover have "query_in_pgtbl (vm_pgtbl v') 0x11234 (pgt s') = Some (0, 0x2234, page_pte 0x2000 3)"
    using fault_query [OF s(2) si(2) w s'(2,3,6)] o s'(5) by simp
  moreover have "spaces s' vs = Some v'" "pmos s' ob = Some y" "page_of y 1 = 0x2000 \<and> pmo_size y = 0x3000 \<and> pmo_type y = PMO_ANONYM"
    using s'(4,8,10,11) s(6,7) by (simp_all add: same_shape_def)
  ultimately show ?thesis using s(12) \<open>vm_inv vs s'\<close> \<open>pt_entry (vm_pgtbl v') (pgt s') 0x11 = page_pte 0x2000 3\<close> s'(7,9) s(11) by metis
qed

lemmas small_fault = small_fault_at [of 0 5]


lemma aligned_offset: "4096 dvd unat a \<Longrightarrow> GET_VA_OFFSET 3 a = 0"
proof -
  assume "4096 dvd unat a"
  moreover have "GET_VA_OFFSET 3 a = take_bit 12 a" by (simp add: GET_VA_OFFSET_def PAGE_SHIFT_def PAGE_ORDER_def take_bit_eq_mask mask_eq_exp_minus_1)
  moreover have "unat (take_bit 12 a) = unat a mod 4096" by (simp add: take_bit_eq_mod unat_mod)
  ultimately show ?thesis by (simp add: word_unat_eq_iff)
qed



text \<open>
  Unmapping an address that no region holds leaves the lock of the address space held.  The
  call returns -1, and from then on no page fault, no unmapping and no \<^verbatim>\<open>munmap\<close> of this address
  space ever returns, and no mapping succeeds.
\<close>

theorem unmap_hole_keeps_lock:
  assumes "space_inv vs s" "view vs s a = None"
  shows "\<exists>s'. vmspace_unmap_range vs a len s = Some (- 1, s') \<and> (\<forall>b. handle_trans_fault vs b s' = None)
    \<and> (\<forall>b n. vmspace_unmap_range vs b n s' = None \<and> vmspace_munmap_with_addr vs b n s' = None)
    \<and> (\<forall>b n flags pmo s''. vmspace_map_range vs b n flags pmo s' \<noteq> Some (0, s''))"
proof -
  from assms(1) obtain v where v: "spaces s vs = Some v" "lock_free (vmspace_lock v)" "mem_ok_in v s" by (auto simp: space_inv_def space_ok_def)
  let ?s = "s\<lparr>spaces := (spaces s)(vs \<mapsto> v\<lparr>vmspace_lock := taken (vmspace_lock v)\<rparr>)\<rparr>"
  have l: "lock_space vs s = Some ?s" using v by (simp add: lock_space_eq)
  have rs: "regions_ok (vmr_list v) (next_region s) (regions s)" using v(3) by (simp add: mem_ok_in_def)
  then have "regions_ok (vmr_list v) (next_region s) (regions ?s)" by simp
  from find_vmr_eq [OF this, of a] have n: "find_vmr_for_va vs a ?s = Some None"
    using assms(2) view_None [OF v(1) rs, of a] by (simp add: find_vmr_for_va_def find_None_iff)
  have "\<not> lock_free (taken (vmspace_lock v))" using v(2) by (auto simp: taken_def lock_free_def)
  then   have stuck: "lock_space vs t = None" if "spaces t vs = spaces ?s vs" for t
    using that by (intro lock_space_stuck [of _ _ "v\<lparr>vmspace_lock := taken (vmspace_lock v)\<rparr>"]) simp_all
  have "vmspace_map_range vs b m flags pmo ?s \<noteq> Some (0, s'')" for b m flags pmo s''
    by (auto simp: vmspace_map_range_def alloc_vmregion_def set_region_def stuck ENOMEM_def split: bind_splits if_splits option.splits)
  then show ?thesis using l n stuck [OF refl]
    by (intro exI [of _ ?s]) (simp add: vmspace_unmap_range_def handle_trans_fault_def vmspace_munmap_with_addr_def)
qed

theorem unmap_hole_keeps_lock_witness: "\<exists>s s'. vmspace_unmap_range 0 0x20000 0x1000 s = Some (- 1, s') \<and> handle_trans_fault 0 0x10000 s' = None"
proof -
  obtain s where s: "vm_inv 0 s" "view 0 s = (\<lambda>a. if holds (new_region 0x10000 0x3000 3 5) a then Some (behind (new_region 0x10000 0x3000 3 5) a) else None)"
    using small_space by blast
  have "view 0 s 0x20000 = None" by (simp add: s(2) small_region(5))
  then show ?thesis using unmap_hole_keeps_lock [of 0 s "0x20000" "0x1000"] s(1) by (auto simp: vm_inv_def)
qed

text \<open>
  Unmapping the first pages of a region moves what is behind the rest.  \<^verbatim>\<open>munmap\<close> of the first
  page aligned part of a region of anonymous memory advances the start of the region but not a
  start in the object.  The address after the part, which was behind the page with that distance,
  is from then on backed by page 0 of the object, and the next fault there maps the frame of page 0,
  which is the frame of the unmapped page.
\<close>

theorem munmap_part_moves_backing:
  assumes i: "space_inv vs s" and v: "spaces s vs = Some v" "p \<in> set (vmr_list v)" "regions s p = Some r"
    and x: "vmr_pmo r = Some ob" "pmos s ob = Some x" "pmo_type x = PMO_ANONYM" "pmo_ok x" "0 < pmo_size x" "fault_room x s" "page_of x 0 \<noteq> 0"
    and len: "4096 dvd unat len" "len < vmr_size r" "len \<noteq> 0"
  shows "\<exists>s' s''. view vs s (vmr_start r + len) = Some (Some ob, len, vmr_perm r)
    \<and> vmspace_munmap_with_addr vs (vmr_start r) len s = Some (0, s') \<and> view vs s' (vmr_start r + len) = Some (Some ob, 0, vmr_perm r)
    \<and> handle_trans_fault vs (vmr_start r + len) s' = Some (0, s'')
    \<and> query_in_pgtbl (vm_pgtbl v) (vmr_start r + len) (pgt s'') = Some (0, page_of x 0, page_pte (page_of x 0) (vmr_perm r))"
proof -
  let ?a = "vmr_start r + len"
  from munmap_shrink [OF i v x(1-3) len] obtain s' v' where
    s': "vmspace_munmap_with_addr vs (vmr_start r) len s = Some (0, s')" "space_inv vs s'" "pmos s' = pmos s"
      "free_pages (pgt s') = free_pages (pgt s)" "spaces s' vs = Some v'" "vm_pgtbl v' = vm_pgtbl v"
      "view vs s' ?a = Some (Some ob, 0, vmr_perm r)" by blast
  have m: "mem_ok_in v' s'" "mem_ok_in v s" using s'(2,5) i v(1) by (auto simp: space_inv_def space_ok_def)
  have room: "fault_room x s'" using x(6) s'(4) by (simp add: fault_room_def)
  have x': "pmos s' ob = Some x" using x(2) s'(3) by simp
  have z: "(0 :: u64) div PAGE_SIZE = 0" "(0 :: u64) div PAGE_SIZE * PAGE_SIZE < pmo_size x" using x(5) by simp_all
  have f: "page_of x 0 = fault_frame x 0 s'" using x(7) by (simp add: fault_frame_def)
  from handle_trans_fault_ok [OF s'(2,5,7) x' x(4) room z(2) z(1) [symmetric] f] obtain s'' where
    t: "handle_trans_fault vs ?a s' = Some (0, s'')" "page_aligned (page_of x 0)" "pt_inv (vm_pgtbl v') (pgt s'')"
      "\<forall>u < 2 ^ 36. pt_entry (vm_pgtbl v') (pgt s'') u = (if u = vpn ?a then page_pte (page_of x 0) (vmr_perm r) else pt_entry (vm_pgtbl v') (pgt s') u)"
    by blast
  have rs: "regions_ok (vmr_list v) (next_region s) (regions s)" using m(2) by (simp add: mem_ok_in_def)
  have r: "region_ok r" using regions_okD [OF rs v(2)] v(3) by auto
  note q = shrunk_region [OF r len(1,2)]
  have al: "unat ?a = lo r + unat len" using q(2) by (simp add: lo_def)
  have "4096 dvd unat ?a" using al r len(1) by (simp add: region_ok_def)
  then have off: "GET_VA_OFFSET 3 ?a = 0" by (rule aligned_offset)
  have "holds r ?a" using len(2,3) al by (simp add: holds_def hi_def lo_def word_less_nat_alt)
  then have "view vs s ?a = Some (Some ob, len, vmr_perm r)"
    using view_Some [OF v(1) rs, of ?a] v(2,3) x(1) by (auto simp: hit_def behind_def)
  then show ?thesis using s'(1,7) t(1) fault_query [OF s'(5) m(1) s'(7) t(2-4)] off s'(6) by auto
qed

theorem munmap_part_moves_backing_witness:
  "\<exists>s s' s'' v. spaces s 0 = Some v \<and> view 0 s 0x11000 = Some (Some 5, 0x1000, 3) \<and> vmspace_munmap_with_addr 0 0x10000 0x1000 s = Some (0, s')
     \<and> handle_trans_fault 0 0x11000 s' = Some (0, s'') \<and> query_in_pgtbl (vm_pgtbl v) 0x11000 (pgt s'') = Some (0, 0x7000, page_pte 0x7000 3)"
proof -
  let ?r = "new_region 0x10000 0x3000 3 5"
  obtain s v x p where s: "space_inv 0 s" "spaces s 0 = Some v" "pmos s 5 = Some x" "pmo_ok x" "page_of x = (\<lambda>_. 0)" "pmo_size x = 0x3000"
    "pmo_type x = PMO_ANONYM" "99 \<le> pmo_room x" "length (free_pages (pgt s)) = 59" "hd (free_pages (pgt s)) = phys_to_virt 0x2000"
    "vmr_list v = [p]" "regions s p = Some ?r" using small_space by (auto simp: vm_inv_def)
  have al: "page_aligned 0x7000" using page_aligned_mult [of 7] by simp
  obtain y where y: "commit_page_to_pmo 5 0 0x7000 s = Some (set_pmo 5 y s)" "pmo_ok y" "page_of y = (page_of x)(0 := 0x7000)" "same_shape x y" "pmo_room x \<le> pmo_room y + 15"
    using commit_page_to_pmo_ok [OF s(3,4) _ _ al, of 0] s(5,8) by auto
  let ?s = "set_pmo 5 y s"
  have i: "space_inv 0 ?s" "spaces ?s 0 = Some v" "p \<in> set (vmr_list v)" "regions ?s p = Some ?r" "pmos ?s 5 = Some y"
    using s(1,2,11,12) by (auto simp: space_inv_def set_pmo_def space_ok_def mem_ok_in_def)
  have r: "vmr_pmo ?r = Some 5" "vmr_perm ?r = 3" "vmr_start ?r = 0x10000" "vmr_size ?r = 0x3000" using small_region(3,4) by (simp_all add: new_region_def)
  have y': "pmo_type y = PMO_ANONYM" "0 < pmo_size y" "page_of y 0 \<noteq> 0" using y(3,4) s(6,7) by (simp_all add: same_shape_def)
  have room: "fault_room y ?s" using s(8-10) y(5) by (simp add: fault_room_def set_pmo_def phys_to_virt_def KBASE_def)
  from munmap_part_moves_backing [OF i(1-4) r(1) i(5) y'(1) y(2) y'(2) room y'(3), of "0x1000"] r y(3) i(2) show ?thesis by auto
qed

end
