(* ===== verification/Kernel.thy ===== *)
theory Kernel
  imports Cap_System Sched_Inv Vmspace_Inv
begin

text \<open>
  The state the system calls work on: the capabilities, the scheduler and the address spaces
  together, and the access of the kernel to user memory.  A thread is named by the address of its
  kernel object; an address space and a memory object are named by the addresses of theirs.  The
  state is an extensible record, so that a component adds its own fields.
\<close>

section \<open>State\<close>

text \<open>A record of the shared memory namespace of \<^verbatim>\<open>kernel/object/memory.c\<close>.\<close>

record shm_record =
  shm_key :: int
  shm_shmid :: int
  shm_length :: u64
  shm_pmo :: ptr

record kstate =
  cst :: cap_state
  sst :: sched_state
  vm :: vm_state
  thread_group :: "tid \<Rightarrow> ptr"
  thread_vmspace :: "tid \<Rightarrow> nat"
  global_shm_info :: "shm_record list"
  global_shm_id :: int
  shm_info_lock :: lock_impl

definition current_thread :: "nat \<Rightarrow> 'a kstate_scheme \<Rightarrow> tid option" where
  "current_thread cpu s = current_threads (sst s) cpu"

definition current_cap_group :: "nat \<Rightarrow> 'a kstate_scheme \<Rightarrow> ptr option" where
  "current_cap_group cpu s = map_option (thread_group s) (current_thread cpu s)"

definition current_vmspace :: "nat \<Rightarrow> 'a kstate_scheme \<Rightarrow> nat option" where
  "current_vmspace cpu s = map_option (thread_vmspace s) (current_thread cpu s)"

lemma current_simps [simp]:
  "current_thread cpu (s\<lparr>cst := d\<rparr>) = current_thread cpu s" "current_thread cpu (s\<lparr>vm := u\<rparr>) = current_thread cpu s"
  "current_cap_group cpu (s\<lparr>cst := d\<rparr>) = current_cap_group cpu s" "current_cap_group cpu (s\<lparr>vm := u\<rparr>) = current_cap_group cpu s"
  "current_vmspace cpu (s\<lparr>cst := d\<rparr>) = current_vmspace cpu s" "current_vmspace cpu (s\<lparr>vm := u\<rparr>) = current_vmspace cpu s"
  by (simp_all add: current_thread_def current_cap_group_def current_vmspace_def)

section \<open>Lifting the operations of the components\<close>

definition in_caps :: "(cap_state \<Rightarrow> ('b \<times> cap_state) option) \<Rightarrow> 'a kstate_scheme \<Rightarrow> ('b \<times> 'a kstate_scheme) option" where
  "in_caps f s = do { (r, c) \<leftarrow> f (cst s); Some (r, s\<lparr>cst := c\<rparr>) }"

definition in_vm :: "(vm_state \<Rightarrow> ('b \<times> vm_state) option) \<Rightarrow> 'a kstate_scheme \<Rightarrow> ('b \<times> 'a kstate_scheme) option" where
  "in_vm f s = do { (r, v) \<leftarrow> f (vm s); Some (r, s\<lparr>vm := v\<rparr>) }"

definition on_vm :: "(vm_state \<Rightarrow> vm_state option) \<Rightarrow> 'a kstate_scheme \<Rightarrow> 'a kstate_scheme option" where
  "on_vm f s = do { v \<leftarrow> f (vm s); Some (s\<lparr>vm := v\<rparr>) }"

definition put_obj :: "ptr option \<Rightarrow> 'a kstate_scheme \<Rightarrow> 'a kstate_scheme option" where
  "put_obj p s = do { c \<leftarrow> obj_put p (cst s); Some (s\<lparr>cst := c\<rparr>) }"

definition free_obj :: "ptr option \<Rightarrow> 'a kstate_scheme \<Rightarrow> 'a kstate_scheme option" where
  "free_obj p s = do { c \<leftarrow> obj_free p (cst s); Some (s\<lparr>cst := c\<rparr>) }"

section \<open>User memory\<close>

text \<open>
  An access of the kernel to a user address goes through the page table of the running thread.  An
  address without a descriptor faults; \<^const>\<open>do_page_fault\<close> handles the fault, at every level of
  the table in the same way, and the access is repeated.  A write to a page without the write
  permission is a permission fault and stops the kernel, and so does an address between the two
  halves of the address space, where a retry never succeeds.  The kernel half is the direct map of
  the physical memory.
\<close>

definition writable :: "u64 \<Rightarrow> bool" where "writable pte \<longleftrightarrow> get_field 6 2 pte = 1"

definition user_access :: "bool \<Rightarrow> nat \<Rightarrow> u64 \<Rightarrow> vm_state \<Rightarrow> u64 option" where
  "user_access w vs a s = do {
     v \<leftarrow> spaces s vs;
     (ret, pa, pte) \<leftarrow> query_in_pgtbl (vm_pgtbl v) a (pgt s);
     if ret \<noteq> 0 then None else if w \<and> \<not> writable pte then None else Some pa }"

definition user_pa :: "bool \<Rightarrow> nat \<Rightarrow> u64 \<Rightarrow> vm_state \<Rightarrow> (u64 \<times> vm_state) option" where
  "user_pa w vs a s = (
     if a \<ge> KBASE then Some (virt_to_phys a, s)
     else if a \<ge> 2 ^ 48 then None
     else do {
       v \<leftarrow> spaces s vs;
       (ret, _) \<leftarrow> query_in_pgtbl (vm_pgtbl v) a (pgt s);
       s1 \<leftarrow> (if ret = 0 then Some s else do_page_fault vs DFSC_TRANS_FAULT_L3 a s);
       pa \<leftarrow> user_access w vs a s1;
       Some (pa, s1) })"

fun user_read :: "nat \<Rightarrow> u64 \<Rightarrow> nat \<Rightarrow> vm_state \<Rightarrow> (u8 list \<times> vm_state) option" where
  "user_read vs a 0 s = Some ([], s)"
| "user_read vs a (Suc n) s = do {
     (pa, s1) \<leftarrow> user_pa False vs a s;
     (bs, s2) \<leftarrow> user_read vs (a + 1) n s1;
     Some (pmem s1 pa # bs, s2) }"

fun user_write :: "nat \<Rightarrow> u64 \<Rightarrow> u8 list \<Rightarrow> vm_state \<Rightarrow> vm_state option" where
  "user_write vs a [] s = Some s"
| "user_write vs a (b # bs) s = do {
     (pa, s1) \<leftarrow> user_pa True vs a s;
     user_write vs (a + 1) bs (s1\<lparr>pmem := (pmem s1)(pa := b)\<rparr>) }"

text \<open>
  \<^verbatim>\<open>copy_from_user\<close> and \<^verbatim>\<open>copy_to_user\<close> test the start of the user buffer and copy; they return 0 or do
  not return.
\<close>

definition copy_from_user :: "nat \<Rightarrow> u64 \<Rightarrow> nat \<Rightarrow> 'a kstate_scheme \<Rightarrow> (u8 list \<times> 'a kstate_scheme) option" where
  "copy_from_user cpu user_buf sz s = do {
     BUG_ON (user_buf \<ge> KBASE);
     vs \<leftarrow> current_vmspace cpu s;
     in_vm (user_read vs user_buf sz) s }"

definition copy_to_user :: "nat \<Rightarrow> u64 \<Rightarrow> u8 list \<Rightarrow> 'a kstate_scheme \<Rightarrow> 'a kstate_scheme option" where
  "copy_to_user cpu user_buf bs s = do {
     BUG_ON (user_buf \<ge> KBASE);
     vs \<leftarrow> current_vmspace cpu s;
     v \<leftarrow> user_write vs user_buf bs (vm s);
     Some (s\<lparr>vm := v\<rparr>) }"

text \<open>The values in memory: little endian, and an array of 64-bit fields.\<close>

fun of_bytes :: "u8 list \<Rightarrow> u64" where
  "of_bytes [] = 0"
| "of_bytes (b # bs) = ucast b + 256 * of_bytes bs"

fun to_bytes :: "nat \<Rightarrow> u64 \<Rightarrow> u8 list" where
  "to_bytes 0 v = []"
| "to_bytes (Suc n) v = ucast v # to_bytes n (drop_bit 8 v)"

fun u64s :: "nat \<Rightarrow> u8 list \<Rightarrow> u64 list" where
  "u64s 0 bs = []"
| "u64s (Suc n) bs = of_bytes (take 8 bs) # u64s n (drop 8 bs)"

definition put_u64s :: "u64 list \<Rightarrow> u8 list" where
  "put_u64s vs = concat (map (to_bytes 8) vs)"

text \<open>A run of bytes in physical memory.\<close>

fun poke :: "u64 \<Rightarrow> u8 list \<Rightarrow> (u64 \<Rightarrow> u8) \<Rightarrow> u64 \<Rightarrow> u8" where
  "poke pa [] m = m"
| "poke pa (b # bs) m = poke (pa + 1) bs (m(pa := b))"

fun peek :: "u64 \<Rightarrow> nat \<Rightarrow> (u64 \<Rightarrow> u8) \<Rightarrow> u8 list" where
  "peek pa 0 m = []"
| "peek pa (Suc n) m = m pa # peek (pa + 1) n m"

section \<open>User memory is the memory of the objects\<close>

text \<open>The physical address of a byte of a memory object.\<close>

definition obj_pa :: "vm_state \<Rightarrow> ptr \<Rightarrow> u64 \<Rightarrow> u64" where
  "obj_pa s ob off = (case pmos s ob of None \<Rightarrow> 0 | Some x \<Rightarrow> page_of x (off div PAGE_SIZE) + off mod PAGE_SIZE)"

text \<open>
  The page table of an address space agrees with its regions, as every run keeps it; and \<open>n\<close> addresses
  from \<open>a\<close> on are the bytes from \<open>off\<close> on of an object, and are mapped (for writing).
\<close>

definition coherent :: "nat \<Rightarrow> vm_state \<Rightarrow> bool" where
  "coherent vs s \<longleftrightarrow> (\<exists>v. spaces s vs = Some v \<and> mem_ok_in v s \<and> (\<forall>u < 2 ^ 36. coherent_at vs (vm_pgtbl v) s u))"

definition window :: "bool \<Rightarrow> nat \<Rightarrow> u64 \<Rightarrow> nat \<Rightarrow> ptr \<Rightarrow> u64 \<Rightarrow> vm_state \<Rightarrow> bool" where
  "window w vs a n ob off s \<longleftrightarrow> (\<forall>i < n. (\<exists>perm. view vs s (a + of_nat i) = Some (Some ob, off + of_nat i, perm))
     \<and> user_access w vs (a + of_nat i) s \<noteq> None)"

lemma aligned_offset_eq:
  assumes "4096 dvd unat b"
  shows "GET_VA_OFFSET 3 a = (a - b) mod 4096"
proof -
  have "GET_VA_OFFSET 3 a = take_bit 12 a" by (simp add: GET_VA_OFFSET_def PAGE_SHIFT_def PAGE_ORDER_def take_bit_eq_mask mask_eq_exp_minus_1)
  then have "unat (GET_VA_OFFSET 3 a) = unat a mod 4096" by (simp add: take_bit_eq_mod unat_mod)
  also have "unat a = (unat (a - b) + unat b) mod 2 ^ 64" using unat_word_ariths(1) [of "a - b" b] by simp
  also have "\<dots> mod 4096 = (unat (a - b) + unat b) mod 4096" by (rule mod_mod_cancel) simp
  also have "\<dots> = unat (a - b) mod 4096" using assms by (auto elim: dvdE)
  finally show ?thesis by (simp add: word_unat_eq_iff unat_mod)
qed

lemma user_pa_obj:
  assumes c: "coherent vs s" and w: "view vs s a = Some (Some ob, off, perm)" and p: "user_access wr vs a s \<noteq> None"
  shows "user_pa wr vs a s = Some (obj_pa s ob off, s)" "\<exists>x. pmos s ob = Some x \<and> page_of x (off div PAGE_SIZE) \<noteq> 0"
proof -
  from c obtain v where v: "spaces s vs = Some v" "mem_ok_in v s" "\<forall>u < 2 ^ 36. coherent_at vs (vm_pgtbl v) s u" by (auto simp: coherent_def)
  obtain q r where r: "regions s q = Some r" "region_ok r" "holds r a" "off = a - vmr_start r" by (rule view_region [OF v(1,2) w])
  have pt: "pt_inv (vm_pgtbl v) (pgt s)" using v(2) by (simp add: mem_ok_in_def)
  have a: "unat a < 2 ^ 48" using r(2,3) by (simp add: region_ok_def holds_def)
  then have a': "\<not> a \<ge> 2 ^ 48" "\<not> a \<ge> KBASE" by (simp_all add: word_le_nat_alt KBASE_def)
  note pv = page_view [OF v(1,2) w]
  let ?e = "pt_entry (vm_pgtbl v) (pgt s) (vpn a)"
  from p v(1) query_ok [OF pt, of a] have e: "\<not> IS_PTE_INVALID ?e" "\<not> (wr \<and> \<not> writable ?e)"
    by (auto simp: user_access_def ENOMAPPING_def split: if_splits)
  from v(3) pv(2) have "coherent_at vs (vm_pgtbl v) s (vpn a)" by blast
  with e(1) pv(1) obtain x where x: "pmos s ob = Some x" "page_of x (off div PAGE_SIZE) \<noteq> 0" "GET_PADDR_IN_PTE ?e = page_of x (off div PAGE_SIZE)"
    by (auto simp: coherent_at_def)
  have "GET_VA_OFFSET 3 a = off mod 4096" unfolding r(4) using r(2) by (intro aligned_offset_eq) (simp add: region_ok_def lo_def)
  then have "user_access wr vs a s = Some (obj_pa s ob off)"
    using v(1) query_ok [OF pt, of a] e x by (auto simp: user_access_def obj_pa_def)
  then show "user_pa wr vs a s = Some (obj_pa s ob off, s)" using v(1) query_ok [OF pt, of a] e(1) a' by (simp add: user_pa_def)
  show "\<exists>x. pmos s ob = Some x \<and> page_of x (off div PAGE_SIZE) \<noteq> 0" using x by blast
qed

lemma window_Suc:
  "window w vs a (Suc n) ob off s \<longleftrightarrow> (\<exists>perm. view vs s a = Some (Some ob, off, perm)) \<and> user_access w vs a s \<noteq> None
     \<and> window w vs (a + 1) n ob (off + 1) s"
    unfolding window_def All_less_Suc2 by (simp add: add.assoc)

lemma user_read_obj:
  assumes "coherent vs s" "window False vs a n ob off s"
  shows "user_read vs a n s = Some (map (\<lambda>i. pmem s (obj_pa s ob (off + of_nat i))) [0..<n], s)"
  using assms(2)
proof (induction n arbitrary: a off)
  case (Suc n)
  from Suc.prems obtain perm where w: "view vs s a = Some (Some ob, off, perm)" "user_access False vs a s \<noteq> None" "window False vs (a + 1) n ob (off + 1) s"
    unfolding window_Suc by blast
  have "map (\<lambda>i. pmem s (obj_pa s ob (off + 1 + of_nat i))) [0..<n] = map (\<lambda>i. pmem s (obj_pa s ob (off + of_nat i))) [1..<Suc n]"
    by (simp add: map_Suc_upt [symmetric] add.assoc del: upt_Suc)
  then show ?case using user_pa_obj(1) [OF assms(1) w(1,2)] Suc.IH [OF w(3)] by (simp add: upt_conv_Cons del: upt_Suc)
qed simp

text \<open>Different bytes of the objects are at different addresses.\<close>

lemma page_aligned_split:
  assumes "page_aligned f" "page_aligned g" "f + m = g + k" "m < 4096" "k < 4096"
  shows "f = g \<and> m = k"
proof -
  have d: "unat (h + j) = unat h + unat j \<and> 4096 dvd unat h" if "page_aligned h" "j < 4096" for h j :: u64
  proof -
    have "take_bit 12 h = 0" using that(1) by (auto simp: page_aligned_def bit_eq_iff bit_take_bit_iff)
    then have dv: "4096 dvd unat h" by (simp add: take_bit_eq_mod word_unat_eq_iff unat_mod mod_eq_0_iff_dvd)
    have "take_bit 48 h = h" using that(1) by (auto simp: page_aligned_def bit_eq_iff bit_take_bit_iff not_le)
    then have "unat h = unat h mod 2 ^ 48" using unat_mod [of h "2 ^ 48"] by (simp add: take_bit_eq_mod)
    then have "unat h < 2 ^ 48" by (metis mod_less_divisor zero_less_numeral zero_less_power)
    moreover have "unat j < 4096" using that(2) by (simp add: word_less_nat_alt)
    ultimately show ?thesis using dv by (simp add: unat_word_ariths)
  qed
  have "unat f + unat m = unat g + unat k" using d [OF assms(1,4)] d [OF assms(2,5)] assms(3) by simp
  moreover have "(unat f + unat m) mod 4096 = unat m" "(unat g + unat k) mod 4096 = unat k"
    using d [OF assms(1,4)] d [OF assms(2,5)] assms(4,5) by (auto simp: word_less_nat_alt elim!: dvdE)
  ultimately have "unat f = unat g \<and> unat m = unat k" by simp
  then show ?thesis by (simp add: word_unat_eq_iff)
qed

lemma page_of_aligned: "pmo_ok x \<Longrightarrow> page_aligned (page_of x k)"
  by (auto simp: pmo_ok_def page_of_def)

lemma obj_pa_inj:
  assumes f: "frames_ok s" and x: "pmos s ob = Some x" "pmo_ok x" "page_of x (off div PAGE_SIZE) \<noteq> 0" and e: "obj_pa s ob off = obj_pa s ob off'"
    and y: "page_of x (off' div PAGE_SIZE) \<noteq> 0"
  shows "off = off'"
proof -
  have m: "a mod 4096 < 4096" for a :: u64 by (simp add: word_mod_less_divisor)
  have "page_of x (off div PAGE_SIZE) = page_of x (off' div PAGE_SIZE) \<and> off mod 4096 = off' mod 4096"
    using e x(1) page_aligned_split [OF page_of_aligned [OF x(2)] page_of_aligned [OF x(2)] _ m m] by (simp add: obj_pa_def)
  moreover from this have "off div PAGE_SIZE = off' div PAGE_SIZE" using f x(1,3) unfolding frames_ok_def by metis
  ultimately show ?thesis by (metis PAGE_SIZE_eq word_mod_div_equality)
qed

lemma view_pmem [simp]: "view vs (s\<lparr>pmem := m\<rparr>) = view vs s"
  using find_vmr_cong [of "s\<lparr>pmem := m\<rparr>" s] by (simp add: view_def find_vmr_for_va_def fun_eq_iff split: option.split)

lemma pmem_simps [simp]:
  "user_access w vs a (s\<lparr>pmem := m\<rparr>) = user_access w vs a s" "obj_pa (s\<lparr>pmem := m\<rparr>) = obj_pa s"
  "mem_ok_in v (s\<lparr>pmem := m\<rparr>) = mem_ok_in v s" "coherent_at vs pg (s\<lparr>pmem := m\<rparr>) u = coherent_at vs pg s u"
  by (simp_all add: user_access_def obj_pa_def mem_ok_in_def coherent_at_def fun_eq_iff)

lemma pmem_simps' [simp]: "coherent vs (s\<lparr>pmem := m\<rparr>) = coherent vs s" "window w vs a n ob off (s\<lparr>pmem := m\<rparr>) = window w vs a n ob off s"
  by (simp_all add: coherent_def window_def)

fun write_obj :: "(u64 \<Rightarrow> u64) \<Rightarrow> u64 \<Rightarrow> u8 list \<Rightarrow> (u64 \<Rightarrow> u8) \<Rightarrow> u64 \<Rightarrow> u8" where
  "write_obj pa off [] m = m"
| "write_obj pa off (b # bs) m = write_obj pa (off + 1) bs (m(pa off := b))"

lemma write_obj_other: "\<forall>i < length bs. pa (off + of_nat i) \<noteq> p \<Longrightarrow> write_obj pa off bs m p = m p"
proof (induction bs arbitrary: off m)
  case (Cons b bs)
  from Cons.prems have "pa off \<noteq> p" "\<forall>i < length bs. pa (off + 1 + of_nat i) \<noteq> p" unfolding length_Cons All_less_Suc2 by (simp_all add: add.assoc)
  then show ?case using Cons.IH by simp
qed simp

lemma write_obj_nth:
  assumes "\<forall>i < length bs. \<forall>j < length bs. pa (off + of_nat i) = pa (off + of_nat j) \<longrightarrow> i = j" "i < length bs"
  shows "write_obj pa off bs m (pa (off + of_nat i)) = bs ! i"
  using assms
proof (induction bs arbitrary: off m i)
  case (Cons b bs)
  note inj = Cons.prems(1)
  show ?case
  proof (cases i)
    case 0
    have "pa (off + 1 + of_nat k) \<noteq> pa off" if "k < length bs" for k using inj [rule_format, of "Suc k" 0] that by (auto simp: add.assoc)
    then show ?thesis using 0 by (simp add: write_obj_other)
  next
    case (Suc k)
    have "k' = j" if "k' < length bs" "j < length bs" "pa (off + 1 + of_nat k') = pa (off + 1 + of_nat j)" for k' j
      using inj [rule_format, of "Suc k'" "Suc j"] that by (simp add: add.assoc)
    then have "\<forall>i < length bs. \<forall>j < length bs. pa (off + 1 + of_nat i) = pa (off + 1 + of_nat j) \<longrightarrow> i = j" by blast
    from Cons.IH [OF this, of k] Suc Cons.prems(2) show ?thesis by (simp add: add.assoc)
  qed
qed simp

lemma user_write_obj:
  assumes "coherent vs s" "window True vs a (length bs) ob off s"
  shows "user_write vs a bs s = Some (s\<lparr>pmem := write_obj (obj_pa s ob) off bs (pmem s)\<rparr>)"
  using assms
proof (induction bs arbitrary: a off s)
  case (Cons b bs)
  from Cons.prems(2) obtain perm where w: "view vs s a = Some (Some ob, off, perm)" "user_access True vs a s \<noteq> None" "window True vs (a + 1) (length bs) ob (off + 1) s"
    unfolding length_Cons window_Suc by blast
  show ?case using user_pa_obj(1) [OF Cons.prems(1) w(1,2)] Cons.IH [of "s\<lparr>pmem := (pmem s)(obj_pa s ob off := b)\<rparr>" "a + 1" "off + 1"] Cons.prems(1) w(3) by (simp add: fun_upd_def)
qed simp

text \<open>
  Memory is shared through memory objects.  Take two address spaces (or the same one twice) whose page
  tables agree with their regions, and a run of addresses in each that is behind the same bytes of the same
  object and is mapped.  What the kernel or a thread writes through the one is what is read through the
  other, wherever the two runs are and however their pages are laid out in physical memory.
\<close>

theorem shared_memory_roundtrip:
  assumes f: "frames_ok s" "pmos s ob = Some x" "pmo_ok x" and c: "coherent vs s" "coherent vs' s" and n: "length bs < 2 ^ 48"
    and w: "window True vs a (length bs) ob off s" "window False vs' b (length bs) ob off s"
  shows "\<exists>s'. user_write vs a bs s = Some s' \<and> user_read vs' b (length bs) s' = Some (bs, s')"
proof -
  let ?s = "s\<lparr>pmem := write_obj (obj_pa s ob) off bs (pmem s)\<rparr>"
  have p: "page_of x ((off + of_nat i) div PAGE_SIZE) \<noteq> 0" if "i < length bs" for i
  proof -
    from w(1) that obtain perm where "view vs s (a + of_nat i) = Some (Some ob, off + of_nat i, perm)" "user_access True vs (a + of_nat i) s \<noteq> None"
      unfolding window_def by blast
    then show ?thesis using user_pa_obj(2) [OF c(1)] f(2) by fastforce
  qed
  have "i = j" if "i < length bs" "j < length bs" "obj_pa s ob (off + of_nat i) = obj_pa s ob (off + of_nat j)" for i j
  proof -
    have "off + of_nat i = off + of_nat j" using obj_pa_inj [OF f p [OF that(1)] that(3) p [OF that(2)]] .
    then have "unat (of_nat i :: u64) = unat (of_nat j :: u64)" by simp
    then show ?thesis using that(1,2) n by (simp add: unat_of_nat_lt)
  qed
  then have "map (\<lambda>i. pmem ?s (obj_pa ?s ob (off + of_nat i))) [0..<length bs] = bs"
    by (intro nth_equalityI) (auto simp: write_obj_nth)
  moreover have "user_read vs' b (length bs) ?s = Some (map (\<lambda>i. pmem ?s (obj_pa ?s ob (off + of_nat i))) [0..<length bs], ?s)"
    by (rule user_read_obj) (use c w in simp_all)
  ultimately show ?thesis using user_write_obj [OF c(1) w(1)] by (intro exI [of _ ?s]) simp
qed

lemma small_window:
  "\<exists>s v x. vm_inv vs s \<and> coherent vs s \<and> frames_ok s \<and> spaces s vs = Some v \<and> pmos s ob = Some x \<and> pmo_ok x \<and> page_of x 1 = 0x2000
     \<and> pmo_size x = 0x3000 \<and> pmo_type x = PMO_ANONYM \<and> (\<forall>w. window w vs 0x11234 2 ob 0x1234 s)"
proof -
  obtain s v x where s: "vm_inv vs s" "spaces s vs = Some v" "pmos s ob = Some x" "pmo_ok x" "page_of x 1 = 0x2000" "pmo_size x = 0x3000" "pmo_type x = PMO_ANONYM"
    "pt_entry (vm_pgtbl v) (pgt s) 0x11 = page_pte 0x2000 3"
    "view vs s = (\<lambda>a. if holds (new_region 0x10000 0x3000 3 ob) a then Some (behind (new_region 0x10000 0x3000 3 ob) a) else None)"
    using small_fault_at [of vs ob] by blast
  have c: "coherent vs s" "frames_ok s" "pt_inv (vm_pgtbl v) (pgt s)" using s(1,2) by (auto simp: coherent_def vm_inv_def space_inv_def space_ok_def mem_ok_in_def)
  have "writable (page_pte 0x2000 3)" by code_simp
  then have "user_access w vs a s \<noteq> None" if "vpn a = 0x11" for a w
    using s(2,8) query_ok [OF c(3), of a] that by (simp add: user_access_def)
  moreover have "vpn 0x11234 = 0x11" "vpn 0x11235 = 0x11" by (simp_all add: vpn_def)
  moreover have "view vs s 0x11234 = Some (Some ob, 0x1234, 3)" "view vs s 0x11235 = Some (Some ob, 0x1235, 3)" by (simp_all add: s(9) small_region(5) small_view)
  ultimately have "window w vs 0x11234 2 ob 0x1234 s" for w unfolding numeral_2_eq_2 by (simp add: window_Suc) (simp add: window_def)
  with s(1-7) c show ?thesis by blast
qed

theorem shared_memory_roundtrip_witness: "\<exists>s s'. user_write 0 0x11234 [7, 8] s = Some s' \<and> user_read 0 0x11234 2 s' = Some ([7, 8], s')"
proof -
  obtain s x where s: "coherent 0 s" "frames_ok s" "pmos s 5 = Some x" "pmo_ok x" "\<forall>w. window w 0 0x11234 2 5 0x1234 s" using small_window [of 0 5] by blast
  have l: "length [7, 8 :: u8] = 2" by simp
  from shared_memory_roundtrip [OF s(2-4) s(1,1), of "[7, 8]" "0x11234" "0x1234" "0x11234"] s(5) show ?thesis
    unfolding l by force
qed

section \<open>References around a system call\<close>

lemma get_obj:
  assumes inv: "cap_inv d R" and c: "caps d g i = Some (ob, r)" and x: "objects d ob = Some x" "otype x = ty" "refcount x \<noteq> - 1"
  shows "obj_get g i ty d = Some (Some ob, set_refs ob x (refcount x + 1) d)" "obj_put (Some ob) (set_refs ob x (refcount x + 1) d) = Some d"
    "cap_inv (set_refs ob x (refcount x + 1) d) (R(ob := R ob + 1))"
proof -
  show "obj_get g i ty d = Some (Some ob, set_refs ob x (refcount x + 1) d)" "cap_inv (set_refs ob x (refcount x + 1) d) (R(ob := R ob + 1))"
    using get_opaque_inv [OF inv c x(1,3), of "Some ty"] x(2) by (auto simp: obj_get_def)
  show "obj_put (Some ob) (set_refs ob x (refcount x + 1) d) = Some d"
    using refs_of_cap [OF inv c x(1)] x(1) by (simp add: obj_put_def upd_obj_def set_refs_def fun_upd_idem)
qed

lemma put_keeps:
  assumes inv: "cap_inv d R" and c: "caps d g i = Some (ob, r)" and n: "0 < R ob"
  shows "\<exists>d' x. obj_put (Some ob) d = Some d' \<and> cap_inv d' (R(ob := R ob - 1)) \<and> caps d' = caps d
    \<and> objects d ob = Some x \<and> objects d' = (objects d)(ob \<mapsto> x\<lparr>refcount := refcount x - 1\<rparr>)"
proof -
  have wf: "cap_wf d R" using inv by (simp add: cap_inv_def)
  obtain a y x where y: "cslots d a = Some y" "slot_object y = ob" "objects d ob = Some x" using c wf by (rule caps_SomeE)
  from cap_wfD(3) [OF wf] obtain F where F: "refs_ok d R F" by blast
  note o = refs_obj [OF F y(3)]
  have "a \<in> set (F ob)" using o(2) y by (auto simp: slots_of_def)
  then have l: "1 \<le> length (F ob)" by (cases "F ob") auto
  have "refcount x \<noteq> 1"
  proof
    assume "refcount x = 1"
    then have "unat (of_nat (length (F ob) + R ob) :: u64) = 1" using o(3) by simp
    then show False using l n o(4) by (simp add: unat_of_nat_lt del: of_nat_add)
  qed
  then show ?thesis using obj_put_ok [OF inv n] y(3) by (auto simp: set_refs_def)
qed

section \<open>A small machine\<close>

lemma add_object:
  assumes inv: "cap_inv d R" and g: "groups d g \<noteq> None" "tsize d g \<le> 2 ^ 20" and ty: "ty \<noteq> TYPE_CAP_GROUP"
    and k: "dom (caps d g) = {0..<k}" "0 \<le> k"
  shows "\<exists>d' x. cap_inv d' R \<and> caps d' = (caps d)(g := (caps d g)(k \<mapsto> (brk d, 0))) \<and> objects d' = (objects d)(brk d \<mapsto> x)
    \<and> otype x = ty \<and> refcount x = 1 \<and> groups d' g \<noteq> None \<and> tsize d' g \<le> tsize d g + 64 \<and> brk d' = brk d + 2"
proof -
  from obj_alloc_ok [OF inv ty, of 32] obtain d1 x where
    d1: "cap_inv d1 R" "caps d1 = caps d" "objects d1 = (objects d)(brk d \<mapsto> x)" "refcount x = 0" "otype x = ty" "groups d1 = groups d" "brk d1 = brk d + 1"
    by auto
  have rm: "room d1 g" "tsize d1 g = tsize d g" using g d1(6) by (simp_all add: room_def tsize_def)
  from cap_alloc_ok [OF d1(1) rm(1), of "brk d" x 0] d1(3,4) obtain j d2 where
    d2: "0 \<le> j" "caps d1 g j = None" "\<forall>i. 0 \<le> i \<and> i < j \<longrightarrow> caps d1 g i \<noteq> None" "cap_inv d2 R"
      "caps d2 = (caps d1)(g := (caps d1 g)(j \<mapsto> (brk d, 0)))" "objects d2 = (objects d1)(brk d \<mapsto> x\<lparr>refcount := 1\<rparr>)" "frame d1 d2 g (brk d1 + 1)" by auto
  have "j \<notin> {0..<k}" unfolding k(1) [symmetric] using d2(2) d1(2) by (simp add: domIff)
  then have "\<not> j < k" using d2(1) by simp
  moreover have "k \<notin> dom (caps d g)" unfolding k(1) by simp
  then have "\<not> k < j" using k(2) d2(3) d1(2) by (auto simp: domIff)
  ultimately have "j = k" by simp
  moreover have dm: "dom (groups d2) = dom (groups d)" "tsize d2 g \<le> tsize d1 g + 64" "brk d2 = brk d1 + 1" using d2(7) d1(6) by (simp_all add: frame_def)
  moreover from dm(1) g(1) have "groups d2 g \<noteq> None" unfolding domIff [symmetric] by simp
  ultimately show ?thesis using d1 d2 rm(2) by (intro exI [of _ d2] exI [of _ "x\<lparr>refcount := 1\<rparr>"]) simp
qed

text \<open>One group with capabilities to itself, its address space and a memory object.\<close>

lemma small_caps:
  "\<exists>d vs ob x y z. cap_inv d (\<lambda>_. 0) \<and> caps d 0 0 = Some (0, 7) \<and> caps d 0 1 = Some (vs, 0) \<and> caps d 0 2 = Some (ob, 0)
    \<and> dom (caps d 0) = {0..<3} \<and> tsize d 0 \<le> 512 \<and> groups d 0 \<noteq> None
    \<and> objects d 0 = Some x \<and> otype x = TYPE_CAP_GROUP \<and> refcount x = 1 \<and> objects d vs = Some y \<and> otype y = TYPE_VMSPACE \<and> refcount y = 1
    \<and> objects d ob = Some z \<and> otype z = TYPE_PMO \<and> refcount z = 1"
proof -
  from one_group obtain d G x where d: "cap_inv d (\<lambda>_. 0)" "caps d 0 0 = Some (0, 7)" "groups d 0 = Some G" "slots_size (slot_tab G) \<le> 128"
    "objects d 0 = Some x" "refcount x = 1" "otype x = TYPE_CAP_GROUP" "\<forall>i. i \<noteq> 0 \<longrightarrow> caps d 0 i = None" by blast
  have wf: "cap_wf d (\<lambda>_. 0)" using d(1) by (simp add: cap_inv_def)
  from cap_wfD(3) [OF wf] obtain F where "refs_ok d (\<lambda>_. 0) F" by blast
  then have b: "0 < brk d" using refs_obj(1) d(5) by blast
  have "caps d 0 i \<noteq> None \<longleftrightarrow> i = 0" for i using d(2,8) by (cases "i = 0") auto
  then have k0: "dom (caps d 0) = {0..<1}" by (auto simp: dom_def)
  have "tsize d 0 \<le> 128" using d(3,4) by (simp add: tsize_def)
  then obtain d1 y where d1: "cap_inv d1 (\<lambda>_. 0)" "caps d1 = (caps d)(0 := (caps d 0)(1 \<mapsto> (brk d, 0)))" "objects d1 = (objects d)(brk d \<mapsto> y)"
    "otype y = TYPE_VMSPACE" "refcount y = 1" "groups d1 0 \<noteq> None" "tsize d1 0 \<le> 192" "brk d1 = brk d + 2"
    using add_object [OF d(1) _ _ _ k0, of TYPE_VMSPACE] d(3) by fastforce
  have k1: "dom (caps d1 0) = {0..<2}" using k0 d1(2) by auto
  from add_object [OF d1(1,6) _ _ k1, of TYPE_PMO] d1(7) obtain d2 z where d2: "cap_inv d2 (\<lambda>_. 0)" "caps d2 = (caps d1)(0 := (caps d1 0)(2 \<mapsto> (brk d1, 0)))"
    "objects d2 = (objects d1)(brk d1 \<mapsto> z)" "otype z = TYPE_PMO" "refcount z = 1" "groups d2 0 \<noteq> None" "tsize d2 0 \<le> 256" by fastforce
  have "dom (caps d2 0) = {0..<3}" using k1 d2(2) by auto
  moreover have "caps d2 0 0 = Some (0, 7)" "caps d2 0 1 = Some (brk d, 0)" "caps d2 0 2 = Some (brk d1, 0)" using d(2) d1(2) d2(2) by simp_all
  moreover have "objects d2 0 = Some x" "objects d2 (brk d) = Some y" "objects d2 (brk d1) = Some z" using b d(5) d1(3,8) d2(3) by simp_all
  moreover have "tsize d2 0 \<le> 512" using d2(7) by simp
  ultimately show ?thesis using d(6,7) d1(4,5) d2(1,4-6) by blast
qed

text \<open>The machine running thread 9 of group 0 on CPU 0.\<close>

definition small_kernel :: "cap_state \<Rightarrow> vm_state \<Rightarrow> nat \<Rightarrow> kstate" where
  "small_kernel d u vs = \<lparr>cst = d, sst = blank_sched\<lparr>current_threads := Map.empty(0 \<mapsto> 9)\<rparr>, vm = u, thread_group = \<lambda>_. 0,
     thread_vmspace = \<lambda>_. vs, global_shm_info = [], global_shm_id = 0, shm_info_lock = lock_init\<rparr>"

lemma small_kernel_simps [simp]:
  "cst (small_kernel d u vs) = d" "vm (small_kernel d u vs) = u" "current_thread 0 (small_kernel d u vs) = Some 9"
  "thread_group (small_kernel d u vs) t = 0" "thread_vmspace (small_kernel d u vs) t = vs" "current_vmspace 0 (small_kernel d u vs) = Some vs"
  "shm_info_lock (small_kernel d u vs) = lock_init" "global_shm_info (small_kernel d u vs) = []"
  by (simp_all add: small_kernel_def current_thread_def current_vmspace_def)

end
