(* ===== verification/Memory.thy ===== *)
theory Memory
  imports Kernel
begin

text \<open>
  The system calls on memory, \<^verbatim>\<open>kernel/object/memory.c\<close>: memory objects behind capabilities, mapping
  them into address spaces, the heap, \<^verbatim>\<open>mmap\<close>, \<^verbatim>\<open>mprotect\<close> and System V shared memory.  A
  capability argument of type \<^verbatim>\<open>u64\<close> is cut to an \<^verbatim>\<open>int\<close> when it is passed on, and the \<^verbatim>\<open>int\<close> arguments whose
  bits are tested are 32-bit words.
\<close>

section \<open>Memory objects\<close>

definition sizeof_pmobject :: nat where "sizeof_pmobject = 32"

text \<open>The common body of \<^verbatim>\<open>sys_create_device_pmo\<close> and \<^verbatim>\<open>sys_create_pmo\<close>.\<close>

definition create_pmo :: "nat \<Rightarrow> u64 \<Rightarrow> u64 \<Rightarrow> u64 \<Rightarrow> 'a kstate_scheme \<Rightarrow> (int \<times> 'a kstate_scheme) option" where
  "create_pmo cpu sz type paddr s = do {
     BUG_ON (sz = 0);
     (x, s1) \<leftarrow> in_caps (obj_alloc TYPE_PMO sizeof_pmobject) s;
     case x of
       None \<Rightarrow> Some (- ENOMEM, s1)
     | Some pmo \<Rightarrow> do {
         s2 \<leftarrow> on_vm (pmo_init pmo type sz paddr) s1;
         g \<leftarrow> current_cap_group cpu s2;
         (cap, s3) \<leftarrow> in_caps (cap_alloc g pmo 0) s2;
         if cap < 0 then do { s4 \<leftarrow> free_obj (Some pmo) s3; Some (cap, s4) } else Some (cap, s3) } }"

definition sys_create_device_pmo :: "nat \<Rightarrow> u64 \<Rightarrow> u64 \<Rightarrow> 'a kstate_scheme \<Rightarrow> (int \<times> 'a kstate_scheme) option" where
  "sys_create_device_pmo cpu paddr sz s = create_pmo cpu sz PMO_DEVICE paddr s"

definition sys_create_pmo :: "nat \<Rightarrow> u64 \<Rightarrow> u64 \<Rightarrow> 'a kstate_scheme \<Rightarrow> (int \<times> 'a kstate_scheme) option" where
  "sys_create_pmo cpu sz type s = create_pmo cpu sz type 0 s"

text \<open>A \<^verbatim>\<open>struct pmo_request\<close> is the size, the type and the place of the result.\<close>

definition MAX_CNT :: u64 where "MAX_CNT = 32"

fun create_pmos :: "nat \<Rightarrow> u64 list \<Rightarrow> 'a kstate_scheme \<Rightarrow> (u64 list \<times> 'a kstate_scheme) option" where
  "create_pmos cpu (sz # type # ret_cap # reqs) s = do {
     (cap, s1) \<leftarrow> sys_create_pmo cpu sz type s;
     (rest, s2) \<leftarrow> create_pmos cpu reqs s1;
     Some (sz # type # of_int cap # rest, s2) }"
| "create_pmos cpu reqs s = Some (reqs, s)"

definition sys_create_pmos :: "nat \<Rightarrow> u64 \<Rightarrow> u64 \<Rightarrow> 'a kstate_scheme \<Rightarrow> (int \<times> 'a kstate_scheme) option" where
  "sys_create_pmos cpu user_buf cnt s =
     (if cnt > MAX_CNT then Some (- EINVAL, s)
      else do {
        let n = 3 * unat cnt;
        (ok, s1) \<leftarrow> in_caps (kmalloc_ok (8 * n)) s;
        if \<not> ok then Some (- EAGAIN, s1)
        else do {
          (bs, s2) \<leftarrow> copy_from_user cpu user_buf (8 * n) s1;
          (reqs, s3) \<leftarrow> create_pmos cpu (u64s n bs) s2;
          s4 \<leftarrow> copy_to_user cpu user_buf (put_u64s reqs) s3;
          Some (0, s4) } })"

text \<open>
  \<^verbatim>\<open>read_write_pmo\<close>.  In an anonymous object the access starts at the beginning of the page of the offset
  and is not limited to that page.
\<close>

definition pmo_kva :: "ptr \<Rightarrow> pmobject \<Rightarrow> u64 \<Rightarrow> vm_state \<Rightarrow> (u64 \<times> vm_state) option" where
  "pmo_kva pmo x offset s =
     (if pmo_type x = PMO_DATA then Some (phys_to_virt (pmo_start x) + offset, s)
      else do {
        let index = ROUND_DOWN offset PAGE_SIZE div PAGE_SIZE;
        (pa, s1) \<leftarrow> get_page_from_pmo pmo index s;
        if pa = 0 then do {
          let (kva, s2) = get_page s1;
          BUG_ON (kva = 0);
          let pa = virt_to_phys kva;
          s3 \<leftarrow> commit_page_to_pmo pmo index pa (s2\<lparr>pmem := memset_page pa (pmem s2)\<rparr>);
          Some (kva, s3) }
        else Some (phys_to_virt pa, s1) })"

definition WRITE :: u64 where "WRITE = 0"
definition READ :: u64 where "READ = 1"

definition read_write_pmo :: "nat \<Rightarrow> u64 \<Rightarrow> u64 \<Rightarrow> u64 \<Rightarrow> u64 \<Rightarrow> u64 \<Rightarrow> 'a kstate_scheme \<Rightarrow> (int \<times> 'a kstate_scheme) option" where
  "read_write_pmo cpu pmo_cap offset user_buf sz op_type s = do {
     g \<leftarrow> current_cap_group cpu s;
     (p, s1) \<leftarrow> in_caps (obj_get g (to_int pmo_cap) TYPE_PMO) s;
     case p of
       None \<Rightarrow> Some (- ECAPBILITY, s1)
     | Some pmo \<Rightarrow> do {
         x \<leftarrow> pmos (vm s1) pmo;
         (r, s2) \<leftarrow>
           (if pmo_type x \<noteq> PMO_DATA \<and> pmo_type x \<noteq> PMO_ANONYM then Some (- EINVAL, s1)
            else if offset + sz < offset \<or> offset + sz > pmo_size x then Some (- EINVAL, s1)
            else do {
              (kva, s2) \<leftarrow> in_vm (pmo_kva pmo x offset) s1;
              if op_type = WRITE then do {
                (bs, s3) \<leftarrow> copy_from_user cpu user_buf (unat sz) s2;
                Some (0, s3\<lparr>vm := (vm s3)\<lparr>pmem := poke (virt_to_phys kva) bs (pmem (vm s3))\<rparr>\<rparr>) }
              else if op_type = READ then do {
                s3 \<leftarrow> copy_to_user cpu user_buf (peek (virt_to_phys kva) (unat sz) (pmem (vm s2))) s2;
                Some (0, s3) }
              else None });
         s3 \<leftarrow> put_obj (Some pmo) s2;
         Some (r, s3) } }"

definition sys_write_pmo :: "nat \<Rightarrow> u64 \<Rightarrow> u64 \<Rightarrow> u64 \<Rightarrow> u64 \<Rightarrow> 'a kstate_scheme \<Rightarrow> (int \<times> 'a kstate_scheme) option" where
  "sys_write_pmo cpu pmo_cap offset user_ptr len s = read_write_pmo cpu pmo_cap offset user_ptr len WRITE s"

definition sys_read_pmo :: "nat \<Rightarrow> u64 \<Rightarrow> u64 \<Rightarrow> u64 \<Rightarrow> u64 \<Rightarrow> 'a kstate_scheme \<Rightarrow> (int \<times> 'a kstate_scheme) option" where
  "sys_read_pmo cpu pmo_cap offset user_ptr len s = read_write_pmo cpu pmo_cap offset user_ptr len READ s"

definition sys_get_pmo_paddr :: "nat \<Rightarrow> u64 \<Rightarrow> u64 \<Rightarrow> 'a kstate_scheme \<Rightarrow> (int \<times> 'a kstate_scheme) option" where
  "sys_get_pmo_paddr cpu pmo_cap user_buf s = do {
     g \<leftarrow> current_cap_group cpu s;
     (p, s1) \<leftarrow> in_caps (obj_get g (to_int pmo_cap) TYPE_PMO) s;
     case p of
       None \<Rightarrow> Some (- ECAPBILITY, s1)
     | Some pmo \<Rightarrow> do {
         x \<leftarrow> pmos (vm s1) pmo;
         (r, s2) \<leftarrow> (if pmo_type x \<noteq> PMO_DATA then Some (- EINVAL, s1)
                     else do { s2 \<leftarrow> copy_to_user cpu user_buf (to_bytes 8 (pmo_start x)) s1; Some (0, s2) });
         s3 \<leftarrow> put_obj (Some pmo) s2;
         Some (r, s3) } }"

text \<open>A translation under \<^verbatim>\<open>pgtbl_lock\<close>.\<close>

definition query_locked :: "nat \<Rightarrow> u64 \<Rightarrow> vm_state \<Rightarrow> ((int \<times> u64) \<times> vm_state) option" where
  "query_locked vs va s = do {
     v \<leftarrow> spaces s vs;
     l \<leftarrow> lock (pgtbl_lock v);
     (ret, pa, _) \<leftarrow> query_in_pgtbl (vm_pgtbl v) va (pgt s);
     s1 \<leftarrow> upd_space vs (\<lambda>v. v\<lparr>pgtbl_lock := unlock l\<rparr>) s;
     Some ((ret, pa), s1) }"

definition sys_get_phys_addr :: "nat \<Rightarrow> u64 \<Rightarrow> u64 \<Rightarrow> 'a kstate_scheme \<Rightarrow> (int \<times> 'a kstate_scheme) option" where
  "sys_get_phys_addr cpu va pa_buf s = do {
     vs \<leftarrow> current_vmspace cpu s;
     ((ret, pa), s1) \<leftarrow> in_vm (query_locked vs va) s;
     if ret < 0 then Some (ret, s1)
     else do { s2 \<leftarrow> copy_to_user cpu pa_buf (to_bytes 8 pa) s1; Some (0, s2) } }"

definition trans_uva_to_kva :: "nat \<Rightarrow> u64 \<Rightarrow> 'a kstate_scheme \<Rightarrow> (int \<times> u64 option \<times> 'a kstate_scheme) option" where
  "trans_uva_to_kva cpu user_va s = do {
     vs \<leftarrow> current_vmspace cpu s;
     ((ret, pa), s1) \<leftarrow> in_vm (query_locked vs user_va) s;
     if ret < 0 then Some (ret, None, s1) else Some (0, Some (phys_to_virt pa), s1) }"

section \<open>Mapping\<close>

text \<open>A \<^verbatim>\<open>NULL\<close> for the address space stops the kernel in all but one of the callers.\<close>

definition vmspace_of :: "ptr \<Rightarrow> 'a kstate_scheme \<Rightarrow> (ptr option \<times> 'a kstate_scheme) option" where
  "vmspace_of g s = in_caps (obj_get g VMSPACE_OBJ_ID TYPE_VMSPACE) s"

definition sys_map_pmo :: "nat \<Rightarrow> u64 \<Rightarrow> u64 \<Rightarrow> u64 \<Rightarrow> u64 \<Rightarrow> 'a kstate_scheme \<Rightarrow> (int \<times> 'a kstate_scheme) option" where
  "sys_map_pmo cpu target_cap_group_cap pmo_cap addr perm s = do {
     g \<leftarrow> current_cap_group cpu s;
     (p, s1) \<leftarrow> in_caps (obj_get g (to_int pmo_cap) TYPE_PMO) s;
     case p of
       None \<Rightarrow> Some (- ECAPBILITY, s1)
     | Some pmo \<Rightarrow> do {
         (t, s2) \<leftarrow> in_caps (obj_get g (to_int target_cap_group_cap) TYPE_CAP_GROUP) s1;
         case t of
           None \<Rightarrow> do { s3 \<leftarrow> put_obj (Some pmo) s2; Some (- ECAPBILITY, s3) }
         | Some target \<Rightarrow> do {
             (w, s3) \<leftarrow> vmspace_of target s2;
             vs \<leftarrow> w;
             x \<leftarrow> pmos (vm s3) pmo;
             (r, s4) \<leftarrow> in_vm (vmspace_map_range vs addr (pmo_size x) perm pmo) s3;
             (r, s5) \<leftarrow> (if r \<noteq> 0 then Some (- EPERM, s4)
                         else if target \<noteq> g then in_caps (cap_copy g target (to_int pmo_cap) False 0) s4
                         else Some (0, s4));
             s6 \<leftarrow> put_obj (Some vs) s5;
             s7 \<leftarrow> put_obj (Some target) s6;
             s8 \<leftarrow> put_obj (Some pmo) s7;
             Some (r, s8) } } }"

definition map_pmo_in_current_cap_group :: "nat \<Rightarrow> u64 \<Rightarrow> u64 \<Rightarrow> u64 \<Rightarrow> 'a kstate_scheme \<Rightarrow> (int \<times> 'a kstate_scheme) option" where
  "map_pmo_in_current_cap_group cpu pmo_cap addr perm s = do {
     g \<leftarrow> current_cap_group cpu s;
     (p, s1) \<leftarrow> in_caps (obj_get g (to_int pmo_cap) TYPE_PMO) s;
     case p of
       None \<Rightarrow> Some (- ECAPBILITY, s1)
     | Some pmo \<Rightarrow> do {
         (w, s2) \<leftarrow> vmspace_of g s1;
         vs \<leftarrow> w;
         x \<leftarrow> pmos (vm s2) pmo;
         (r, s3) \<leftarrow> in_vm (vmspace_map_range vs addr (pmo_size x) perm pmo) s2;
         let r = (if r \<noteq> 0 then - EPERM else r);
         s4 \<leftarrow> put_obj (Some vs) s3;
         s5 \<leftarrow> put_obj (Some pmo) s4;
         Some (r, s5) } }"

text \<open>A \<^verbatim>\<open>struct pmo_map_request\<close> is the capability, the address, the permission and the place of the result.\<close>

fun map_pmos :: "nat \<Rightarrow> u64 \<Rightarrow> u64 list \<Rightarrow> 'a kstate_scheme \<Rightarrow> (u64 list \<times> 'a kstate_scheme) option" where
  "map_pmos cpu target (pmo_cap # addr # perm # ret # reqs) s = do {
     (r, s1) \<leftarrow> sys_map_pmo cpu target pmo_cap addr perm s;
     (rest, s2) \<leftarrow> map_pmos cpu target reqs s1;
     Some (pmo_cap # addr # perm # of_int r # rest, s2) }"
| "map_pmos cpu target reqs s = Some (reqs, s)"

definition sys_map_pmos :: "nat \<Rightarrow> u64 \<Rightarrow> u64 \<Rightarrow> u64 \<Rightarrow> 'a kstate_scheme \<Rightarrow> (int \<times> 'a kstate_scheme) option" where
  "sys_map_pmos cpu target_cap_group_cap user_buf cnt s =
     (if cnt > MAX_CNT then Some (- EINVAL, s)
      else do {
        let n = 4 * unat cnt;
        (ok, s1) \<leftarrow> in_caps (kmalloc_ok (8 * n)) s;
        if \<not> ok then Some (- EAGAIN, s1)
        else do {
          (bs, s2) \<leftarrow> copy_from_user cpu user_buf (8 * n) s1;
          (reqs, s3) \<leftarrow> map_pmos cpu target_cap_group_cap (u64s n bs) s2;
          s4 \<leftarrow> copy_to_user cpu user_buf (put_u64s reqs) s3;
          Some (0, s4) } })"

definition sys_unmap_pmo :: "nat \<Rightarrow> u64 \<Rightarrow> u64 \<Rightarrow> u64 \<Rightarrow> 'a kstate_scheme \<Rightarrow> (int \<times> 'a kstate_scheme) option" where
  "sys_unmap_pmo cpu target_cap_group_cap pmo_cap addr s = do {
     g \<leftarrow> current_cap_group cpu s;
     (p, s1) \<leftarrow> in_caps (obj_get g (to_int pmo_cap) TYPE_PMO) s;
     case p of
       None \<Rightarrow> Some (- EPERM, s1)
     | Some pmo \<Rightarrow> do {
         (t, s2) \<leftarrow> in_caps (obj_get g (to_int target_cap_group_cap) TYPE_CAP_GROUP) s1;
         (ret, s5) \<leftarrow> (case t of
            None \<Rightarrow> Some (- EPERM, s2)
          | Some target \<Rightarrow> do {
              (w, s3) \<leftarrow> vmspace_of target s2;
              (ret, s4) \<leftarrow> (case w of
                 None \<Rightarrow> Some (- EPERM, s3)
               | Some vs \<Rightarrow> do {
                   x \<leftarrow> pmos (vm s3) pmo;
                   (r, s4) \<leftarrow> in_vm (vmspace_unmap_range vs addr (pmo_size x)) s3;
                   s5 \<leftarrow> put_obj (Some vs) s4;
                   Some (if r \<noteq> 0 then - EPERM else r, s5) });
              s5 \<leftarrow> put_obj (Some target) s4;
              Some (ret, s5) });
         s6 \<leftarrow> put_obj (Some pmo) s5;
         Some (ret, s6) } }"

section \<open>The heap and anonymous memory\<close>

definition lock_heap :: "nat \<Rightarrow> vm_state \<Rightarrow> vm_state option" where
  "lock_heap vs s = do { v \<leftarrow> spaces s vs; l \<leftarrow> lock (heap_lock v); upd_space vs (\<lambda>v. v\<lparr>heap_lock := l\<rparr>) s }"

definition unlock_heap :: "nat \<Rightarrow> vm_state \<Rightarrow> vm_state option" where
  "unlock_heap vs s = upd_space vs (\<lambda>v. v\<lparr>heap_lock := unlock (heap_lock v)\<rparr>) s"

text \<open>Enlarging the region of the heap together with its memory object.\<close>

definition grow_heap :: "nat \<Rightarrow> u64 \<Rightarrow> vm_state \<Rightarrow> vm_state option" where
  "grow_heap vs addr s = do {
     v \<leftarrow> spaces s vs;
     p \<leftarrow> heap_vmr v;
     r \<leftarrow> regions s p;
     BUG_ON (addr < vmr_start r + vmr_size r);
     let len = addr - (vmr_start r + vmr_size r);
     pmo \<leftarrow> vmr_pmo r;
     x \<leftarrow> pmos s pmo;
     Some (set_pmo pmo (x\<lparr>pmo_size := pmo_size x + len\<rparr>) (set_region p (r\<lparr>vmr_size := vmr_size r + len\<rparr>) s)) }"

definition sys_handle_brk :: "nat \<Rightarrow> u64 \<Rightarrow> 'a kstate_scheme \<Rightarrow> (u64 \<times> 'a kstate_scheme) option" where
  "sys_handle_brk cpu addr s = do {
     g \<leftarrow> current_cap_group cpu s;
     (w, s1) \<leftarrow> vmspace_of g s;
     vs \<leftarrow> w;
     s2 \<leftarrow> on_vm (lock_heap vs) s1;
     (retval, s3) \<leftarrow>
       (if addr = 0 then do {
          v \<leftarrow> spaces (vm s2) vs;
          let retval = user_current_heap v;
          (x, s3) \<leftarrow> in_caps (obj_alloc TYPE_PMO sizeof_pmobject) s2;
          pmo \<leftarrow> x;
          s4 \<leftarrow> on_vm (pmo_init pmo PMO_ANONYM 0 0) s3;
          (ret, s5) \<leftarrow> in_caps (cap_alloc g pmo 0) s4;
          BUG_ON (ret < 0);
          (h, s6) \<leftarrow> in_vm (init_heap_vmr vs retval pmo) s5;
          s7 \<leftarrow> on_vm (upd_space vs (\<lambda>v. v\<lparr>heap_vmr := h\<rparr>)) s6;
          Some (retval, s7) }
        else do { s3 \<leftarrow> on_vm (grow_heap vs addr) s2; Some (addr, s3) });
     s4 \<leftarrow> on_vm (unlock_heap vs) s3;
     s5 \<leftarrow> put_obj (Some vs) s4;
     Some (retval, s5) }"

definition PROT_READ :: u32 where "PROT_READ = 1"
definition PROT_WRITE :: u32 where "PROT_WRITE = 2"
definition PROT_EXEC :: u32 where "PROT_EXEC = 4"
definition PROT_CHECK_MASK :: u32 where "PROT_CHECK_MASK = NOT (PROT_READ OR PROT_WRITE OR PROT_EXEC)"
definition MAP_SHARED :: u32 where "MAP_SHARED = 1"
definition MAP_PRIVATE :: u32 where "MAP_PRIVATE = 2"
definition MAP_ANONYMOUS :: u32 where "MAP_ANONYMOUS = 0x20"

definition get_vmr_prot :: "u32 \<Rightarrow> u64" where
  "get_vmr_prot prot =
     (if prot AND PROT_READ \<noteq> 0 then VMR_READ else 0) OR (if prot AND PROT_WRITE \<noteq> 0 then VMR_WRITE else 0)
       OR (if prot AND PROT_EXEC \<noteq> 0 then VMR_EXEC else 0)"

definition sys_handle_mmap :: "nat \<Rightarrow> u64 \<Rightarrow> u64 \<Rightarrow> u32 \<Rightarrow> u32 \<Rightarrow> int \<Rightarrow> u64 \<Rightarrow> 'a kstate_scheme \<Rightarrow> (u64 \<times> 'a kstate_scheme) option" where
  "sys_handle_mmap cpu addr len prot flags fd offset s = do {
     BUG_ON (fd \<noteq> - 1);
     if prot AND PROT_CHECK_MASK \<noteq> 0 then Some (- 1, s)
     else if flags \<noteq> MAP_ANONYMOUS OR MAP_PRIVATE then Some (- 1, s)
     else do {
       let len = (if len mod PAGE_SIZE \<noteq> 0 then ROUND_UP len PAGE_SIZE else len);
       (x, s1) \<leftarrow> in_caps (obj_alloc TYPE_PMO sizeof_pmobject) s;
       pmo \<leftarrow> x;
       s2 \<leftarrow> on_vm (pmo_init pmo PMO_ANONYM len 0) s1;
       g \<leftarrow> current_cap_group cpu s2;
       (cap, s3) \<leftarrow> in_caps (cap_alloc g pmo 0) s2;
       BUG_ON (cap < 0);
       (w, s4) \<leftarrow> vmspace_of g s3;
       vs \<leftarrow> w;
       (map_addr, s5) \<leftarrow> in_vm (vmspace_mmap_with_pmo vs pmo len (get_vmr_prot prot)) s4;
       s6 \<leftarrow> put_obj (Some vs) s5;
       Some (map_addr, s6) } }"

definition sys_handle_munmap :: "nat \<Rightarrow> u64 \<Rightarrow> u64 \<Rightarrow> 'a kstate_scheme \<Rightarrow> (int \<times> 'a kstate_scheme) option" where
  "sys_handle_munmap cpu addr len s =
     (if addr mod PAGE_SIZE \<noteq> 0 \<or> len mod PAGE_SIZE \<noteq> 0 then Some (- EINVAL, s)
      else do {
        g \<leftarrow> current_cap_group cpu s;
        (w, s1) \<leftarrow> vmspace_of g s;
        vs \<leftarrow> w;
        (ret, s2) \<leftarrow> in_vm (vmspace_munmap_with_addr vs addr len) s1;
        s3 \<leftarrow> put_obj (Some vs) s2;
        Some (ret, s3) })"

section \<open>Protection\<close>

definition valid_prot :: "u64 \<Rightarrow> u64 \<Rightarrow> int" where
  "valid_prot vmr_prot target_prot =
     (if target_prot AND ucast PROT_READ \<noteq> 0 \<and> vmr_prot AND ucast PROT_READ = 0 then - 1
      else if target_prot AND ucast PROT_WRITE \<noteq> 0 \<and> vmr_prot AND ucast PROT_WRITE = 0 then - 1
      else if target_prot AND ucast PROT_EXEC \<noteq> 0 \<and> vmr_prot AND ucast PROT_EXEC = 0 then - 1
      else 0)"

text \<open>
  The two loops of \<^verbatim>\<open>sys_handle_mprotect\<close>.  The first validates the range: it ends with a refusal, with a
  region of which the range is only a part, or with the remaining length, which is signed.
\<close>

datatype range_check = Refused | Part_of_region | Checked u64

partial_function (option) check_range :: "nat \<Rightarrow> u64 \<Rightarrow> u64 \<Rightarrow> u64 \<Rightarrow> vm_state \<Rightarrow> range_check option" where
  [code]: "check_range vs target_prot va remaining s =
     (if sint remaining \<le> 0 then Some (Checked remaining)
      else do {
        x \<leftarrow> find_vmr_for_va vs va s;
        case x of
          None \<Rightarrow> Some Refused
        | Some p \<Rightarrow> do {
            r \<leftarrow> regions s p;
            if valid_prot (vmr_perm r) target_prot \<noteq> 0 then Some Refused
            else if remaining < vmr_size r then Some Part_of_region
            else check_range vs target_prot (va + vmr_size r) (remaining - vmr_size r) s } })"

partial_function (option) set_range :: "nat \<Rightarrow> u64 \<Rightarrow> u64 \<Rightarrow> u64 \<Rightarrow> vm_state \<Rightarrow> vm_state option" where
  [code]: "set_range vs target_prot va remaining s =
     (if sint remaining \<le> 0 then Some s
      else do {
        x \<leftarrow> find_vmr_for_va vs va s;
        p \<leftarrow> x;
        r \<leftarrow> regions s p;
        set_range vs target_prot (va + vmr_size r) (remaining - vmr_size r) (set_region p (r\<lparr>vmr_perm := target_prot\<rparr>) s) })"

text \<open>The body under \<^verbatim>\<open>vmspace_lock\<close>.\<close>

definition protect_range :: "nat \<Rightarrow> u64 \<Rightarrow> u64 \<Rightarrow> u64 \<Rightarrow> vm_state \<Rightarrow> (int \<times> vm_state) option" where
  "protect_range vs addr len target_prot s = do {
     c \<leftarrow> check_range vs target_prot addr len s;
     case c of
       Refused \<Rightarrow> Some (- EACCES, s)
     | Part_of_region \<Rightarrow> Some (0, s)
     | Checked remaining \<Rightarrow> do {
         BUG_ON (remaining \<noteq> 0);
         s1 \<leftarrow> set_range vs target_prot addr len s;
         (_, s2) \<leftarrow> with_pgtbl vs (\<lambda>t. mprotect_in_pgtbl t addr len target_prot) s1;
         Some (0, s2) } }"

definition sys_handle_mprotect :: "nat \<Rightarrow> u64 \<Rightarrow> u64 \<Rightarrow> u32 \<Rightarrow> 'a kstate_scheme \<Rightarrow> (int \<times> 'a kstate_scheme) option" where
  "sys_handle_mprotect cpu addr len prot s =
     (if addr mod PAGE_SIZE \<noteq> 0 \<or> len mod PAGE_SIZE \<noteq> 0 then Some (- EINVAL, s)
      else if len = 0 then Some (0, s)
      else do {
        g \<leftarrow> current_cap_group cpu s;
        (w, s1) \<leftarrow> vmspace_of g s;
        vs \<leftarrow> w;
        s2 \<leftarrow> on_vm (lock_space vs) s1;
        (ret, s3) \<leftarrow> in_vm (protect_range vs addr len (get_vmr_prot prot)) s2;
        s4 \<leftarrow> put_obj (Some vs) s3;
        s5 \<leftarrow> on_vm (unlock_space vs) s4;
        Some (ret, s5) })"

section \<open>System V shared memory\<close>

definition IPC_CREAT :: u32 where "IPC_CREAT = 0x200"
definition IPC_EXCL :: u32 where "IPC_EXCL = 0x400"
definition SHM_RDONLY :: u32 where "SHM_RDONLY = 0x1000"
definition SHM_RND :: u32 where "SHM_RND = 0x2000"
definition SHM_REMAP :: u32 where "SHM_REMAP = 0x4000"
definition SHM_EXEC :: u32 where "SHM_EXEC = 0x8000"
definition sizeof_shm_record :: nat where "sizeof_shm_record = 40"

definition init_global_shm_namespace :: "'a kstate_scheme \<Rightarrow> 'a kstate_scheme" where
  "init_global_shm_namespace s = s\<lparr>global_shm_info := [], global_shm_id := 0, shm_info_lock := lock_init\<rparr>"

text \<open>The creation of a record in \<^verbatim>\<open>sys_shmget\<close>; when the object cannot be allocated the new record is lost.\<close>

definition new_shm_record :: "int \<Rightarrow> u64 \<Rightarrow> 'a kstate_scheme \<Rightarrow> (int \<times> 'a kstate_scheme) option" where
  "new_shm_record key sz s = do {
     let sz = ROUND_UP sz PAGE_SIZE;
     (ok, s1) \<leftarrow> in_caps (kmalloc_ok sizeof_shm_record) s;
     let shmid = global_shm_id s1 + 1;
     let s2 = s1\<lparr>global_shm_id := shmid\<rparr>;
     (x, s3) \<leftarrow> in_caps (obj_alloc TYPE_PMO sizeof_pmobject) s2;
     case x of
       None \<Rightarrow> Some (- ENOMEM, s3)
     | Some pmo \<Rightarrow> do {
         s4 \<leftarrow> on_vm (pmo_init pmo PMO_SHM sz 0) s3;
         let rcd = \<lparr>shm_key = key, shm_shmid = shmid, shm_length = sz, shm_pmo = pmo\<rparr>;
         Some (shmid, s4\<lparr>global_shm_info := rcd # global_shm_info s4\<rparr>) } }"

definition sys_shmget :: "int \<Rightarrow> u64 \<Rightarrow> u32 \<Rightarrow> 'a kstate_scheme \<Rightarrow> (int \<times> 'a kstate_scheme) option" where
  "sys_shmget key sz flag s = do {
     BUG_ON (flag AND IPC_CREAT = 0);
     l \<leftarrow> lock (shm_info_lock s);
     let s1 = s\<lparr>shm_info_lock := l\<rparr>;
     (shmid, s2) \<leftarrow> (case find (\<lambda>r. shm_key r = key) (global_shm_info s1) of
        Some r \<Rightarrow> Some (if flag AND IPC_EXCL \<noteq> 0 then - EEXIST else shm_shmid r, s1)
      | None \<Rightarrow> new_shm_record key sz s1);
     Some (shmid, s2\<lparr>shm_info_lock := unlock (shm_info_lock s2)\<rparr>) }"

definition sys_shmat :: "nat \<Rightarrow> int \<Rightarrow> u64 \<Rightarrow> u32 \<Rightarrow> 'a kstate_scheme \<Rightarrow> (u64 \<times> 'a kstate_scheme) option" where
  "sys_shmat cpu shmid shmaddr shmflg s = do {
     l \<leftarrow> lock (shm_info_lock s);
     let s1 = s\<lparr>shm_info_lock := l\<rparr>;
     (a, s2) \<leftarrow> (case find (\<lambda>r. shm_shmid r = shmid) (global_shm_info s1) of
        None \<Rightarrow> Some (of_int (- EINVAL), s1)
      | Some r \<Rightarrow>
          if shmaddr \<noteq> 0 \<and> shmflg AND SHM_RND \<noteq> 0 then Some (of_int (- EINVAL), s1)
          else if shmflg AND SHM_REMAP \<noteq> 0 then Some (of_int (- EINVAL), s1)
          else do {
            let perm = (if shmflg AND SHM_RDONLY \<noteq> 0 then VMR_READ
                        else if shmflg AND SHM_EXEC \<noteq> 0 then VMR_READ OR VMR_WRITE OR VMR_EXEC
                        else VMR_READ OR VMR_WRITE);
            g \<leftarrow> current_cap_group cpu s1;
            (w, s2) \<leftarrow> vmspace_of g s1;
            vs \<leftarrow> w;
            (a, s3) \<leftarrow> in_vm (vmspace_mmap_with_pmo vs (shm_pmo r) (shm_length r) perm) s2;
            s4 \<leftarrow> put_obj (Some vs) s3;
            Some (a, s4) });
     Some (a, s2\<lparr>shm_info_lock := unlock (shm_info_lock s2)\<rparr>) }"

definition sys_shmdt :: "nat \<Rightarrow> u64 \<Rightarrow> 'a kstate_scheme \<Rightarrow> (int \<times> 'a kstate_scheme) option" where
  "sys_shmdt cpu shmaddr s = do {
     g \<leftarrow> current_cap_group cpu s;
     (w, s1) \<leftarrow> vmspace_of g s;
     vs \<leftarrow> w;
     (ret, s2) \<leftarrow> in_vm (vmspace_unmap_shm_vmr vs shmaddr) s1;
     s3 \<leftarrow> put_obj (Some vs) s2;
     Some (ret, s3) }"

definition sys_shmctl :: "int \<Rightarrow> int \<Rightarrow> u64 \<Rightarrow> 'a kstate_scheme \<Rightarrow> int \<times> 'a kstate_scheme" where
  "sys_shmctl shmid cmd buf s = (0, s)"

section \<open>Files\<close>

definition sys_handle_fmap :: "nat \<Rightarrow> u64 \<Rightarrow> u64 \<Rightarrow> u32 \<Rightarrow> u32 \<Rightarrow> int \<Rightarrow> u64 \<Rightarrow> 'a kstate_scheme \<Rightarrow> (u64 \<times> 'a kstate_scheme) option" where
  "sys_handle_fmap cpu addr len prot flags translated_aarray_cap offset s =
     (if translated_aarray_cap = 0 \<or> prot AND PROT_CHECK_MASK \<noteq> 0 \<or> flags AND MAP_ANONYMOUS \<noteq> 0 \<or> len mod PAGE_SIZE \<noteq> 0
      then Some (of_int (- EINVAL), s)
      else do {
        g \<leftarrow> current_cap_group cpu s;
        (p, s1) \<leftarrow> in_caps (obj_get g translated_aarray_cap TYPE_PMO) s;
        pmo \<leftarrow> p;
        (w, s2) \<leftarrow> vmspace_of g s1;
        vs \<leftarrow> w;
        (map_addr, s3) \<leftarrow> in_vm (vmspace_mmap_with_pmo vs pmo len (get_vmr_prot prot)) s2;
        s4 \<leftarrow> put_obj (Some vs) s3;
        Some (map_addr, s4) })"

text \<open>The loop of \<^verbatim>\<open>sys_translate_aarray\<close> over \<open>n\<close> addresses.\<close>

fun translate_addrs :: "nat \<Rightarrow> nat \<Rightarrow> ptr \<Rightarrow> u64 \<Rightarrow> u64 \<Rightarrow> nat \<Rightarrow> 'a kstate_scheme \<Rightarrow> 'a kstate_scheme option" where
  "translate_addrs cpu vs pmo aarray index 0 s = Some s"
| "translate_addrs cpu vs pmo aarray index (Suc n) s = do {
     (bs, s1) \<leftarrow> copy_from_user cpu (aarray + 8 * index) 8 s;
     ((err, pa), s2) \<leftarrow> in_vm (query_locked vs (of_bytes bs)) s1;
     BUG_ON (err \<noteq> 0);
     s3 \<leftarrow> on_vm (commit_page_to_pmo pmo index pa) s2;
     translate_addrs cpu vs pmo aarray (index + 1) n s3 }"

text \<open>The loop counter of the source is an \<^verbatim>\<open>int\<close>, whose overflow is undefined.\<close>

definition sys_translate_aarray :: "nat \<Rightarrow> u64 \<Rightarrow> u64 \<Rightarrow> u64 \<Rightarrow> u64 \<Rightarrow> u64 \<Rightarrow> 'a kstate_scheme \<Rightarrow> (int \<times> 'a kstate_scheme) option" where
  "sys_translate_aarray cpu aarray aarray_size offset count pmo_p s =
     (if count = 0 then Some (0, s)
      else if (offset + count) * 8 > aarray_size then Some (- EINVAL, s)
      else if unat count \<ge> 2 ^ 31 then None
      else do {
        vs \<leftarrow> current_vmspace cpu s;
        (bs, s1) \<leftarrow> copy_from_user cpu pmo_p 4 s;
        let cap0 = to_int (of_bytes bs);
        (pmo_cap, s2) \<leftarrow> (if cap0 = 0 then do {
             (c, s2) \<leftarrow> sys_create_pmo cpu aarray_size PMO_FILE s1;
             BUG_ON (c = 0);
             Some (c, s2) }
           else Some (cap0, s1));
        g \<leftarrow> current_cap_group cpu s2;
        (p, s3) \<leftarrow> in_caps (obj_get g pmo_cap TYPE_PMO) s2;
        pmo \<leftarrow> p;
        s4 \<leftarrow> translate_addrs cpu vs pmo aarray offset (unat count) s3;
        s5 \<leftarrow> copy_to_user cpu pmo_p (to_bytes 4 (of_int pmo_cap)) s4;
        s6 \<leftarrow> put_obj (Some pmo) s5;
        Some (0, s6) })"

section \<open>Properties\<close>

lemma cap_objects_differ:
  "objects d a = Some x \<Longrightarrow> objects d b = Some y \<Longrightarrow> otype x \<noteq> otype y \<Longrightarrow> a \<noteq> b"
  by auto

lemma put_three:
  assumes inv: "cap_inv d (R(a := R a + 1, b := R b + 1, c := R c + 1))" and ne: "a \<noteq> b" "a \<noteq> c" "b \<noteq> c"
    and h: "caps d g1 i1 = Some (a, r1)" "caps d g2 i2 = Some (b, r2)" "caps d g3 i3 = Some (c, r3)"
  shows "\<exists>d1 d2 d'. obj_put (Some c) d = Some d1 \<and> obj_put (Some b) d1 = Some d2 \<and> obj_put (Some a) d2 = Some d' \<and> cap_inv d' R \<and> caps d' = caps d"
proof -
  have u: "R(a := R a + 1, b := R b + 1, c := R c) = R(a := R a + 1, b := R b + 1)" "R(a := R a + 1, b := R b) = R(a := R a + 1)" using ne by auto
  from put_keeps [OF inv h(3)] u(1) obtain d1 where d1: "obj_put (Some c) d = Some d1" "cap_inv d1 (R(a := R a + 1, b := R b + 1))" "caps d1 = caps d" by auto
  from put_keeps [OF d1(2), of g2 i2 b r2] h(2) d1(3) ne u(2) obtain d2 where d2: "obj_put (Some b) d1 = Some d2" "cap_inv d2 (R(a := R a + 1))" "caps d2 = caps d"
    by auto
  from put_keeps [OF d2(2), of g1 i1 a r1] h(1) d2(3) obtain d3 where "obj_put (Some a) d2 = Some d3" "cap_inv d3 R" "caps d3 = caps d" by auto
  with d1 d2 show ?thesis by blast
qed

text \<open>
  C28: \<^verbatim>\<open>sys_map_pmo\<close> maps an object for another process.  The caller holds capabilities to a memory object
  mapped on demand and to a group with its address space, and the range is free there.  Then the
  address space of the group gets the object in the range and nothing else, every reference taken on
  the way is given back, and the group gets exactly one new capability, to the object with the
  caller's rights, whose number is the result.  For the caller's own group the result is 0 and no
  capability is added.
\<close>

theorem sys_map_pmo_correct:
  assumes inv: "cap_inv (cst s) R" and cur: "current_thread cpu s = Some t" and g: "g = thread_group s t"
    and pc: "caps (cst s) g (to_int pmo_cap) = Some (ob, r)" "objects (cst s) ob = Some x" "otype x = TYPE_PMO" "refcount x \<noteq> - 1" "refcount x + 1 \<noteq> - 1"
    and tc: "caps (cst s) g (to_int target_cap) = Some (tg, r1)" "objects (cst s) tg = Some y" "otype y = TYPE_CAP_GROUP" "refcount y \<noteq> - 1"
    and vc: "caps (cst s) tg VMSPACE_OBJ_ID = Some (vs, r2)" "objects (cst s) vs = Some z" "otype z = TYPE_VMSPACE" "refcount z \<noteq> - 1"
    and vm: "space_inv vs (vm s)" "pmos (vm s) ob = Some p" "pmo_type p = PMO_ANONYM \<or> pmo_type p = PMO_SHM" "regions_left (vm s) \<noteq> 0"
    and q: "q = new_region addr (pmo_size p) perm ob" "region_ok q" "4096 dvd hi q" "free_for vs (vm s) q" and rm: "room (cst s) tg"
  shows "\<exists>ret s'. sys_map_pmo cpu target_cap pmo_cap addr perm s = Some (ret, s') \<and> cap_inv (cst s') R \<and> space_inv vs (vm s')
    \<and> view vs (vm s') = (\<lambda>a. if holds q a then Some (behind q a) else view vs (vm s) a)
    \<and> (if tg = g then ret = 0 \<and> caps (cst s') = caps (cst s)
       else 0 \<le> ret \<and> caps (cst s) tg ret = None \<and> caps (cst s') = (caps (cst s))(tg := (caps (cst s) tg)(ret \<mapsto> (ob, r))))"
proof -
  let ?d = "cst s"
  have ne: "ob \<noteq> tg" "ob \<noteq> vs" "tg \<noteq> vs" using pc(2,3) tc(2,3) vc(2,3) cap_objects_differ by fastforce+
  define d1 where "d1 = set_refs ob x (refcount x + 1) ?d"
  define d2 where "d2 = set_refs tg y (refcount y + 1) d1"
  define d3 where "d3 = set_refs vs z (refcount z + 1) d2"
  have i1: "obj_get g (to_int pmo_cap) TYPE_PMO ?d = Some (Some ob, d1)" "cap_inv d1 (R(ob := R ob + 1))"
    unfolding d1_def using get_obj [OF inv pc(1-4)] by simp_all
  have i2: "obj_get g (to_int target_cap) TYPE_CAP_GROUP d1 = Some (Some tg, d2)" "cap_inv d2 (R(ob := R ob + 1, tg := R tg + 1))"
    unfolding d2_def using get_obj [OF i1(2), of g "to_int target_cap" tg r1 y] tc ne by (simp_all add: d1_def) (simp_all add: set_refs_def)
  have i3: "obj_get tg VMSPACE_OBJ_ID TYPE_VMSPACE d2 = Some (Some vs, d3)" "cap_inv d3 (R(ob := R ob + 1, tg := R tg + 1, vs := R vs + 1))"
    unfolding d3_def using get_obj [OF i2(2), of tg VMSPACE_OBJ_ID vs r2 z] vc ne by (simp_all add: d1_def d2_def) (simp_all add: set_refs_def)
  have c3: "caps d3 = caps ?d" "objects d3 ob = Some (x\<lparr>refcount := refcount x + 1\<rparr>)" "room d3 tg" 
    using pc(2) ne rm by (simp_all add: d1_def d2_def d3_def) (simp_all add: set_refs_def room_def tsize_def)
  let ?R = "R(ob := R ob + 1, tg := R tg + 1, vs := R vs + 1)"
  have "\<exists>ret d4. (if tg \<noteq> g then cap_copy g tg (to_int pmo_cap) False 0 d3 else Some (0, d3)) = Some (ret, d4) \<and> cap_inv d4 ?R
    \<and> (if tg = g then ret = 0 \<and> caps d4 = caps ?d
       else 0 \<le> ret \<and> caps ?d tg ret = None \<and> caps d4 = (caps ?d)(tg := (caps ?d tg)(ret \<mapsto> (ob, r))))"
    proof (cases "tg = g")
    case False
    from cap_copy_ok [OF i3(2), of g "to_int pmo_cap" ob r tg "x\<lparr>refcount := refcount x + 1\<rparr>" False 0] c3 pc(1,5) False show ?thesis by auto
  qed (use i3(2) c3(1) in auto)
  then obtain ret d4 where d4: "(if tg \<noteq> g then cap_copy g tg (to_int pmo_cap) False 0 d3 else Some (0, d3)) = Some (ret, d4)" "cap_inv d4 ?R"
    "if tg = g then ret = 0 \<and> caps d4 = caps ?d
       else 0 \<le> ret \<and> caps ?d tg ret = None \<and> caps d4 = (caps ?d)(tg := (caps ?d tg)(ret \<mapsto> (ob, r)))" by blast
  have k: "caps d4 g (to_int pmo_cap) = Some (ob, r)" "caps d4 g (to_int target_cap) = Some (tg, r1)" "caps d4 tg VMSPACE_OBJ_ID = Some (vs, r2)"
    using d4(3) pc(1) tc(1) vc(1) by (auto split: if_splits)
  from put_three [OF d4(2) ne(1,2,3) k] obtain e1 e2 e3 where
    e: "obj_put (Some vs) d4 = Some e1" "obj_put (Some tg) e1 = Some e2" "obj_put (Some ob) e2 = Some e3" "cap_inv e3 R" "caps e3 = caps d4" by blast
  from vmspace_map_range_eq [OF vm, of addr "pmo_size p" perm] q obtain u where
    u: "vmspace_map_range vs addr (pmo_size p) perm ob (vm s) = Some (0, u)" "space_inv vs u" "view vs u = (\<lambda>a. if holds q a then Some (behind q a) else view vs (vm s) a)"
    by auto
  have "sys_map_pmo cpu target_cap pmo_cap addr perm s = Some (ret, s\<lparr>cst := e3, vm := u\<rparr>)"
    unfolding sys_map_pmo_def vmspace_of_def in_caps_def in_vm_def put_obj_def current_cap_group_def
    using cur g i1(1) i2(1) i3(1) vm(2) u(1) d4(1) e(1-3) by (cases "tg = g") simp_all
  then show ?thesis using e(4,5) d4(3) u(2,3) by (intro exI [of _ ret] exI [of _ "s\<lparr>cst := e3, vm := u\<rparr>"]) auto
qed

theorem sys_map_pmo_correct_witness:
  "\<exists>(s :: kstate) s' vs ob. caps (cst s) 0 2 = Some (ob, 0) \<and> sys_map_pmo 0 0 2 0x20000 1 s = Some (0, s') \<and> caps (cst s') = caps (cst s)
     \<and> view vs (vm s') 0x20010 = Some (Some ob, 0x10, 1) \<and> view vs (vm s') 0x10010 = Some (Some ob, 0x10, 3)"
proof -
  obtain d vs ob x y z where d: "cap_inv d (\<lambda>_. 0)" "caps d 0 0 = Some (0, 7)" "caps d 0 1 = Some (vs, 0)" "caps d 0 2 = Some (ob, 0)"
    "tsize d 0 \<le> 512" "groups d 0 \<noteq> None" "objects d 0 = Some x" "otype x = TYPE_CAP_GROUP" "refcount x = 1" "objects d vs = Some y" "otype y = TYPE_VMSPACE"
    "refcount y = 1" "objects d ob = Some z" "otype z = TYPE_PMO" "refcount z = 1" using small_caps by blast
  obtain u v p q where u: "vm_inv vs u" "spaces u vs = Some v" "pmos u ob = Some p" "pmo_size p = 0x3000" "pmo_type p = PMO_ANONYM" "regions_left u \<noteq> 0"
    "view vs u = (\<lambda>a. if holds (new_region 0x10000 0x3000 3 ob) a then Some (behind (new_region 0x10000 0x3000 3 ob) a) else None)"
    "vmr_list v = [q]" "regions u q = Some (new_region 0x10000 0x3000 3 ob)" using small_space_at [of vs ob] by blast
  let ?s = "small_kernel d u vs" and ?q = "new_region 0x20000 0x3000 1 ob" and ?r = "new_region 0x10000 0x3000 3 ob"
  have rd: "ROUND_DOWN 0x20000 PAGE_SIZE = 0x20000" "ROUND_DOWN 0x10000 PAGE_SIZE = 0x10000" by (simp_all add: ROUND_DOWN_def)
  have q: "region_ok ?q" "4096 dvd hi ?q" "vmr_size ?q = 0x3000" "vmr_size ?r = 0x3000" by (intro new_region_ok; simp add: rd [simplified])+
  have q': "vmr_start ?q = 0x20000" "vmr_start ?r = 0x10000" using rd by (simp_all add: new_region_def)
  have h: "holds ?q a \<longleftrightarrow> 0x20000 \<le> unat a \<and> unat a < 0x23000" "holds ?r a \<longleftrightarrow> 0x10000 \<le> unat a \<and> unat a < 0x13000" for a
    using q(3,4) q' by (simp_all add: holds_def lo_def hi_def)
  have b: "behind ?q a = (Some ob, a - 0x20000, 1)" "behind ?r a = (Some ob, a - 0x10000, 3)" for a
    using q' by (simp_all add: behind_def) (simp_all add: new_region_def)
  have f: "free_for vs u ?q" using u(2,8,9) q(3,4) q' by (simp add: free_for_def apart_def lo_def hi_def)
  have si: "space_inv vs u" "room d 0" using u(1) d(5,6) by (auto simp: vm_inv_def room_def)
  have t: "to_int 2 = 2" "to_int 0 = 0" by (simp_all add: to_int_def)
  have n: "(1 :: u64) \<noteq> - 1" "(1 :: u64) + 1 \<noteq> - 1" by simp_all
  from sys_map_pmo_correct [of ?s "\<lambda>_. 0" 0 9 0 2 ob 0 z 0 0 7 x vs 0 y p ?q "0x20000" 1] d u f si q t n obtain s' where
    "sys_map_pmo 0 0 2 0x20000 1 ?s = Some (0, s')" "caps (cst s') = caps d" "view vs (vm s') = (\<lambda>a. if holds ?q a then Some (behind ?q a) else view vs (vm ?s) a)"
    by (auto simp: VMSPACE_OBJ_ID_def)
  then show ?thesis using d(4) by (intro exI [of _ ?s] exI [of _ s'] exI [of _ vs] exI [of _ ob]) (simp add: h b u(7))
qed

lemma page_index: "ROUND_DOWN a PAGE_SIZE div PAGE_SIZE = a div PAGE_SIZE"
  using ROUND_DOWN_page [of a] by (simp add: word_unat_eq_iff unat_div)

text \<open>The radix tree of an object can change as long as its pages stay.\<close>

lemma same_pages:
  assumes "pmos s ob = Some x" "page_of y = page_of x"
  shows "view vs (set_pmo ob y s) = view vs s" "user_access w vs a (set_pmo ob y s) = user_access w vs a s"
    "obj_pa (set_pmo ob y s) = obj_pa s" "coherent vs (set_pmo ob y s) = coherent vs s" "window w vs a n o1 off (set_pmo ob y s) = window w vs a n o1 off s"
    "pmem (set_pmo ob y s) = pmem s"
proof -
  show v: "view vs (set_pmo ob y s) = view vs s"
    using find_vmr_cong [of "set_pmo ob y s" s] by (simp add: view_def find_vmr_for_va_def fun_eq_iff set_pmo_def split: option.split)
  show u: "user_access w vs a (set_pmo ob y s) = user_access w vs a s" for a by (simp add: user_access_def set_pmo_def)
  show "obj_pa (set_pmo ob y s) = obj_pa s" using assms by (auto simp: obj_pa_def set_pmo_def fun_eq_iff)
  have "coherent_at vs pg (set_pmo ob y s) k = coherent_at vs pg s k" for pg k
  proof -
    have "(\<exists>z. pmos (set_pmo ob y s) o2 = Some z \<and> page_of z j \<noteq> 0 \<and> e = page_of z j) \<longleftrightarrow> (\<exists>z. pmos s o2 = Some z \<and> page_of z j \<noteq> 0 \<and> e = page_of z j)" for o2 j e
      using assms by (cases "o2 = ob") (simp_all add: set_pmo_def)
    moreover have "pgt (set_pmo ob y s) = pgt s" by (simp add: set_pmo_def)
    ultimately show ?thesis unfolding coherent_at_def v by simp
  qed
  moreover have "mem_ok_in z (set_pmo ob y s) = mem_ok_in z s" for z by (simp add: mem_ok_in_def set_pmo_def)
  ultimately show "coherent vs (set_pmo ob y s) = coherent vs s" unfolding coherent_def by (simp add: set_pmo_def)
  show "window w vs a n o1 off (set_pmo ob y s) = window w vs a n o1 off s" by (simp add: window_def v u)
  show "pmem (set_pmo ob y s) = pmem s" by (simp add: set_pmo_def)
qed

text \<open>
  C40: \<^verbatim>\<open>sys_write_pmo\<close> writes to the wrong place of an anonymous object.  Let the page of the offset be
  committed as the frame \<open>f\<close>, and let the range pass the test against the size of the object.  Then the
  bytes are written from the beginning of the frame on, whatever the offset in the page is, and they are
  not limited to the frame: with more than 4096 bytes the frames behind it, which need not belong to the
  object, are overwritten.
\<close>

theorem write_pmo_misplaced:
  assumes inv: "cap_inv (cst s) R" and cur: "current_thread cpu s = Some t" "thread_vmspace s t = vs"
    and pc: "caps (cst s) (thread_group s t) (to_int pmo_cap) = Some (ob, r)" "objects (cst s) ob = Some x" "otype x = TYPE_PMO" "refcount x \<noteq> - 1"
    and p: "pmos (vm s) ob = Some p" "pmo_type p = PMO_ANONYM" "pmo_ok p" "page_of p (off div PAGE_SIZE) = f" "f \<noteq> 0"
    and sz: "off \<le> off + sz" "off + sz \<le> pmo_size p"
    and buf: "user_buf < KBASE" "coherent vs (vm s)" "window False vs user_buf (unat sz) ob' off' (vm s)"
  shows "\<exists>s'. sys_write_pmo cpu pmo_cap off user_buf sz s = Some (0, s') \<and> cst s' = cst s
    \<and> pmem (vm s') = poke f (map (\<lambda>i. pmem (vm s) (obj_pa (vm s) ob' (off' + of_nat i))) [0..<unat sz]) (pmem (vm s))"
proof -
  note g = get_obj [OF inv pc]
  from get_page_from_pmo_ok [OF p(1,3), of "off div PAGE_SIZE"] obtain y where
    y: "get_page_from_pmo ob (off div PAGE_SIZE) (vm s) = Some (f, set_pmo ob y (vm s))" "page_of y = page_of p" using p(4) by auto
  note sp = same_pages [OF p(1) y(2)]
  have k: "pmo_kva ob p off (vm s) = Some (phys_to_virt f, set_pmo ob y (vm s))"
    using y(1) p(2,5) unfolding pmo_kva_def page_index by (simp add: pmo_types)
  have rd: "user_read vs user_buf (unat sz) (set_pmo ob y (vm s)) =
      Some (map (\<lambda>i. pmem (vm s) (obj_pa (vm s) ob' (off' + of_nat i))) [0..<unat sz], set_pmo ob y (vm s))"
    using user_read_obj [of vs "set_pmo ob y (vm s)" user_buf "unat sz" ob' off'] buf(2,3) unfolding sp by simp
  have neg: "\<not> off + sz < off" "\<not> pmo_size p < off + sz" "\<not> KBASE \<le> user_buf" using sz buf(1) by (simp_all add: not_less not_le)
  let ?m = "poke f (map (\<lambda>i. pmem (vm s) (obj_pa (vm s) ob' (off' + of_nat i))) [0..<unat sz]) (pmem (vm s))"
  have "sys_write_pmo cpu pmo_cap off user_buf sz s = Some (0, s\<lparr>vm := (set_pmo ob y (vm s))\<lparr>pmem := ?m\<rparr>\<rparr>)"
    using cur g(1,2) p(1,2) neg k rd
    by (simp add: sys_write_pmo_def read_write_pmo_def current_cap_group_def in_caps_def in_vm_def put_obj_def copy_from_user_def
        current_vmspace_def pmo_types WRITE_def sp(6))
  then show ?thesis by auto
qed

text \<open>Two bytes for the offset 0x1FFE arrive at the start of the page.\<close>

theorem write_pmo_misplaced_witness:
  "\<exists>(s :: kstate) s' ob x. pmos (vm s) ob = Some x \<and> page_of x 1 = 0x2000 \<and> sys_write_pmo 0 2 0x1FFE 0x11234 2 s = Some (0, s')
     \<and> pmem (vm s') 0x2000 = pmem (vm s) 0x2234 \<and> pmem (vm s') 0x2FFE = pmem (vm s) 0x2FFE"
proof -
  obtain d vs ob z where d: "cap_inv d (\<lambda>_. 0)" "caps d 0 2 = Some (ob, 0)" "objects d ob = Some z" "otype z = TYPE_PMO" "refcount z = 1" "caps d 0 1 = Some (vs, 0)" using small_caps by blast
  obtain u x where u: "coherent vs u" "pmos u ob = Some x" "pmo_ok x" "page_of x 1 = 0x2000" "pmo_size x = 0x3000" "pmo_type x = PMO_ANONYM"
    "\<forall>w. window w vs 0x11234 2 ob 0x1234 u" using small_window [of vs ob] by blast
  let ?s = "small_kernel d u vs"
  have t: "to_int 2 = 2" by (simp add: to_int_def)
  have b: "0x11234 < KBASE" "(0x1FFE :: u64) \<le> 0x1FFE + 2" "0x1FFE + 2 \<le> pmo_size x" using u(5) by (simp_all add: KBASE_def)
  have pa: "obj_pa u ob 0x1234 = 0x2234" "obj_pa u ob 0x1235 = 0x2235" using u(2,4) by (simp_all add: obj_pa_def)
  have rng: "[0..<unat (2 :: u64)] = [0, 1]" by (simp add: upt_rec)
  from write_pmo_misplaced [of ?s "\<lambda>_. 0" 0 9 vs 2 ob 0 z x "0x1FFE" "0x2000" 2 "0x11234" ob "0x1234"] d u t b obtain s' where
    "sys_write_pmo 0 2 0x1FFE 0x11234 2 ?s = Some (0, s')"
    "pmem (vm s') = poke 0x2000 (map (\<lambda>i. pmem u (obj_pa u ob (0x1234 + of_nat i))) [0..<unat (2 :: u64)]) (pmem u)" by auto
  then show ?thesis using u(2,4) unfolding rng by (intro exI [of _ ?s] exI [of _ s'] exI [of _ ob] exI [of _ x]) (simp add: pa)
qed

text \<open>Regions that differ only in permissions, which were checked and cut to \<open>t\<close>.\<close>

definition perms_cut :: "u64 \<Rightarrow> (nat \<Rightarrow> vmregion option) \<Rightarrow> (nat \<Rightarrow> vmregion option) \<Rightarrow> bool" where
  "perms_cut t R R' \<longleftrightarrow> (\<forall>p. R' p = R p \<or> (\<exists>r. R p = Some r \<and> R' p = Some (r\<lparr>vmr_perm := t\<rparr>) \<and> valid_prot (vmr_perm r) t = 0))"

lemma perm_geometry [simp]:
  "lo (r\<lparr>vmr_perm := t\<rparr>) = lo r" "hi (r\<lparr>vmr_perm := t\<rparr>) = hi r" "holds (r\<lparr>vmr_perm := t\<rparr>) a = holds r a" "region_ok (r\<lparr>vmr_perm := t\<rparr>) = region_ok r"
  by (simp_all add: lo_def hi_def holds_def region_ok_def)

lemma perms_cutE:
  assumes "perms_cut t R R'" "R p = Some r"
  obtains m where "R' p = Some (r\<lparr>vmr_perm := m\<rparr>)" "m = vmr_perm r \<or> m = t \<and> valid_prot (vmr_perm r) t = 0"
proof -
  have "R' p = R p \<or> (R' p = Some (r\<lparr>vmr_perm := t\<rparr>) \<and> valid_prot (vmr_perm r) t = 0)" using assms unfolding perms_cut_def by (metis option.inject)
  then show ?thesis using that [of "vmr_perm r"] that [of t] assms(2) by auto
qed

lemma perms_cut_None: "perms_cut t R R' \<Longrightarrow> R p = None \<Longrightarrow> R' p = None"
  unfolding perms_cut_def by (metis option.distinct(1))

lemma perms_cut_refl [simp]: "perms_cut t R R"
  by (simp add: perms_cut_def)

lemma perms_cut_hit: "perms_cut t R R' \<Longrightarrow> hit R' a p = hit R a p"
proof (cases "R p")
  case (Some r)
  assume "perms_cut t R R'"
  then obtain m where "R' p = Some (r\<lparr>vmr_perm := m\<rparr>)" using Some by (rule perms_cutE)
  with Some show ?thesis by (simp add: hit_def)
qed (simp add: hit_def perms_cut_None)

lemma perms_cut_ok:
  assumes "regions_ok l n R" "perms_cut t R R'"
  shows "regions_ok l n R'"
proof -
  have e: "\<exists>r r'. R p = Some r \<and> R' p = Some r' \<and> region_ok r' \<and> lo r' = lo r \<and> hi r' = hi r" if pl: "p \<in> set l" for p
  proof -
    obtain r where r: "R p = Some r" "region_ok r" using regions_okD [OF assms(1) pl] .
    obtain m where "R' p = Some (r\<lparr>vmr_perm := m\<rparr>)" using assms(2) r(1) by (rule perms_cutE)
    with r show ?thesis by simp
  qed
  have "apart (the (R' p)) (the (R' q))" if "p \<in> set l" "q \<in> set l" "p \<noteq> q" for p q
    using assms(1) that e [OF that(1)] e [OF that(2)] unfolding regions_ok_def apart_def by (metis option.sel)
  then show ?thesis using assms(1) e unfolding regions_ok_def by blast
qed

lemma perms_cut_set:
  assumes "perms_cut t R R'" "R p = Some r" "valid_prot (vmr_perm r) t = 0" "R' p = Some r'"
  shows "perms_cut t R (R'(p \<mapsto> r'\<lparr>vmr_perm := t\<rparr>))"
proof -
  obtain m where "r' = r\<lparr>vmr_perm := m\<rparr>" using perms_cutE [OF assms(1,2)] assms(4) by (metis option.inject)
  then show ?thesis using assms(1-3) unfolding perms_cut_def by auto
qed

lemma perms_cut_size:
  assumes "perms_cut t R R'" "R p = Some r"
  shows "\<exists>r'. R' p = Some r' \<and> vmr_size r' = vmr_size r"
proof -
  obtain m where "R' p = Some (r\<lparr>vmr_perm := m\<rparr>)" using assms by (rule perms_cutE)
  then show ?thesis by simp
qed

text \<open>
  The loop that validates ends, and when it accepts the range the loop that sets the permissions takes the
  same regions.
\<close>

lemma sint_pos: "unat x < 2 ^ 63 \<Longrightarrow> 0 < sint (x :: u64) \<longleftrightarrow> x \<noteq> 0"
proof -
  assume "unat x < 2 ^ 63"
  then have "uint x < 2 ^ 63" using uint_ge_0 [of x] by (simp add: unsigned_eq_0_iff nat_less_iff flip: nat_uint_eq)
  moreover have "- (2 ^ 63) \<le> uint x" using uint_ge_0 [of x] by (rule order_trans [rotated]) simp
  ultimately have "sint x = uint x" unfolding sint_uint by (intro signed_take_bit_int_eq_self) simp_all
  then show ?thesis using uint_ge_0 [of x] by (auto simp: order_le_less unsigned_eq_0_iff)
qed

lemma check_range_ok:
  assumes "spaces s vs = Some v" "mem_ok_in v s" "unat va + unat rem \<le> 2 ^ 48"
  shows "\<exists>c. check_range vs t va rem s = Some c \<and> (\<forall>x. c = Checked x \<longrightarrow> x = 0 \<and>
    (\<forall>R. perms_cut t (regions s) R \<longrightarrow> (\<exists>R'. set_range vs t va rem (s\<lparr>regions := R\<rparr>) = Some (s\<lparr>regions := R'\<rparr>) \<and> perms_cut t (regions s) R')))"
  using assms(3)
proof (induction "unat rem" arbitrary: va rem rule: less_induct)
  case less
  have rs: "regions_ok (vmr_list v) (next_region s) (regions s)" using assms(2) by (simp add: mem_ok_in_def)
  have sp: "0 < sint rem \<longleftrightarrow> rem \<noteq> 0" using less.prems by (intro sint_pos) simp
  note unf = check_range.simps [of vs t va rem s] set_range.simps [of vs t va rem]
  have fnd: "find_vmr_for_va vs va (s\<lparr>regions := R\<rparr>) = Some (find (hit (regions s) va) (vmr_list v))" if "perms_cut t (regions s) R" for R
  proof -
    have "hit R va = hit (regions s) va" using perms_cut_hit [OF that] by auto
    moreover have "regions_ok (vmr_list v) (next_region s) (regions (s\<lparr>regions := R\<rparr>))" using perms_cut_ok [OF rs that] by simp
    ultimately show ?thesis using find_vmr_eq [of "vmr_list v" "next_region s" "s\<lparr>regions := R\<rparr>" va] assms(1) by (simp add: find_vmr_for_va_def)
  qed
  from fnd [OF perms_cut_refl] have f0: "find_vmr_for_va vs va s = Some (find (hit (regions s) va) (vmr_list v))" by simp
  show ?case
  proof (cases "rem = 0")
    case True
    then show ?thesis unfolding unf by auto
  next
    case nz: False
    show ?thesis
    proof (cases "find (hit (regions s) va) (vmr_list v)")
      case None
      then show ?thesis using nz sp f0 by (simp add: unf(1))
    next
      case (Some p)
      then obtain r where r: "p \<in> set (vmr_list v)" "regions s p = Some r" "holds r va" using find_hit [OF rs, of va p] by (auto simp: hit_def)
      show ?thesis
      proof (cases "valid_prot (vmr_perm r) t = 0 \<and> vmr_size r \<le> rem")
        case False
        then show ?thesis using nz sp f0 Some r(2) by (auto simp: unf(1) not_le)
      next
        case True
        have ok: "region_ok r" using regions_okD [OF rs r(1)] r(2) by auto
        have sz: "unat (vmr_size r) \<le> unat rem" "0 < unat (vmr_size r)" using True r(3) by (simp_all add: word_le_nat_alt holds_def lo_def hi_def)
        have dec: "unat (rem - vmr_size r) = unat rem - unat (vmr_size r)" using True by (simp add: unat_sub)
        have va': "unat (va + vmr_size r) = unat va + unat (vmr_size r)" using sz less.prems by (simp add: unat_word_ariths)
        from less.hyps [of "rem - vmr_size r" "va + vmr_size r"] dec va' sz less.prems obtain c where
          c: "check_range vs t (va + vmr_size r) (rem - vmr_size r) s = Some c"
          and acc: "\<forall>x. c = Checked x \<longrightarrow> x = 0 \<and> (\<forall>R. perms_cut t (regions s) R \<longrightarrow>
            (\<exists>R'. set_range vs t (va + vmr_size r) (rem - vmr_size r) (s\<lparr>regions := R\<rparr>) = Some (s\<lparr>regions := R'\<rparr>) \<and> perms_cut t (regions s) R'))" by auto
        have "\<not> rem < vmr_size r" using True by (simp add: not_less)
        then have "check_range vs t va rem s = Some c" using nz sp f0 Some r(2) True c by (simp add: unf(1))
        moreover have "\<exists>R'. set_range vs t va rem (s\<lparr>regions := R\<rparr>) = Some (s\<lparr>regions := R'\<rparr>) \<and> perms_cut t (regions s) R'"
          if cx: "c = Checked x" and cut: "perms_cut t (regions s) R" for x R
        proof -
          obtain r' where r': "R p = Some r'" "vmr_size r' = vmr_size r" using perms_cut_size [OF cut r(2)] by blast
          have "perms_cut t (regions s) (R(p \<mapsto> r'\<lparr>vmr_perm := t\<rparr>))" by (rule perms_cut_set [OF cut r(2) _ r'(1)]) (use True in simp)
          from acc [rule_format, OF cx, THEN conjunct2, rule_format, OF this] show ?thesis
            using nz sp fnd [OF cut] Some r' by (simp add: unf(2) set_region_def)
        qed
        ultimately show ?thesis using acc by blast
      qed
    qed
  qed
qed

lemma single_bit: "perm AND 2 ^ n \<noteq> 0 \<Longrightarrow> 2 ^ n AND NOT perm = (0 :: u64)"
  by (rule bit_eqI) (auto simp: and_exp_eq_0_iff_not_bit bit_and_iff bit_not_iff bit_exp_iff)

lemma valid_prot_subset:
  assumes "valid_prot perm (get_vmr_prot prot) = 0"
  shows "get_vmr_prot prot AND NOT perm = 0"
proof -
  have r: "perm AND 1 \<noteq> 0 \<Longrightarrow> 1 AND NOT perm = 0" and w: "perm AND 2 \<noteq> 0 \<Longrightarrow> 2 AND NOT perm = 0" and x: "perm AND 4 \<noteq> 0 \<Longrightarrow> 4 AND NOT perm = 0"
    using single_bit [of perm 0] single_bit [of perm 1] single_bit [of perm 2] by simp_all
  have n: "6 AND NOT perm = (2 AND NOT perm) OR (4 AND NOT perm)" "5 AND NOT perm = (1 AND NOT perm) OR (4 AND NOT perm)"
    "3 AND NOT perm = (1 AND NOT perm) OR (2 AND NOT perm)" "7 AND NOT perm = (1 AND NOT perm) OR (6 AND NOT perm)"
    unfolding bit.conj_disj_distrib2 [symmetric] by simp_all
  show ?thesis
    using assms r w x unfolding get_vmr_prot_def valid_prot_def VMR_READ_def VMR_WRITE_def VMR_EXEC_def PROT_READ_def PROT_WRITE_def PROT_EXEC_def
    by (cases "prot AND 1 = 0"; cases "prot AND 2 = 0"; cases "prot AND 4 = 0") (auto simp: n split: if_splits)
qed

lemma protect_range_ok:
  assumes v: "spaces s vs = Some v" "mem_ok_in v s" and len: "4096 dvd unat len" "unat addr + unat len \<le> 2 ^ 48"
  shows "\<exists>ret s' v'. protect_range vs addr len t s = Some (ret, s') \<and> spaces s' = (spaces s)(vs \<mapsto> v') \<and> vmr_list v' = vmr_list v
    \<and> vmspace_lock v' = vmspace_lock v \<and> mem_ok_in v' s' \<and> perms_cut t (regions s) (regions s')"
proof -
  from check_range_ok [OF v len(2), of t] obtain c where c: "check_range vs t addr len s = Some c"
    and acc: "\<forall>x. c = Checked x \<longrightarrow> x = 0 \<and> (\<forall>R. perms_cut t (regions s) R \<longrightarrow>
      (\<exists>R'. set_range vs t addr len (s\<lparr>regions := R\<rparr>) = Some (s\<lparr>regions := R'\<rparr>) \<and> perms_cut t (regions s) R'))" by blast
  show ?thesis
  proof (cases c)
    case (Checked x)
    with acc obtain R where R: "x = 0" "set_range vs t addr len s = Some (s\<lparr>regions := R\<rparr>)" "perms_cut t (regions s) R"
      using perms_cut_refl [of t "regions s"] by fastforce
    let ?f = "\<lambda>e. if IS_PTE_INVALID e then e else set_pte_flags t e"
    have m: "lock_free (pgtbl_lock v)" "pt_inv (vm_pgtbl v) (pgt s)" "regions_ok (vmr_list v) (next_region s) (regions s)" using v(2) by (simp_all add: mem_ok_in_def)
    have "unat addr + 4096 * nat (int (total_page_cnt len)) \<le> 2 ^ 48" using total_page_cnt_dvd [OF len(1)] len(2) by simp
    from update_loop_ok [OF m(2) this, of ?f] obtain p where p: "update_loop ?f (vm_pgtbl v) addr (int (total_page_cnt len)) (pgt s) = Some p" "pt_inv (vm_pgtbl v) p" by blast
    have "vm_pgtbl v \<noteq> 0" using m(2) by (simp add: pt_inv_def)
    then have "mprotect_in_pgtbl (vm_pgtbl v) addr len t (pgt (s\<lparr>regions := R\<rparr>)) = Some (0, flush_tlb p)" using p(1) by (simp add: mprotect_in_pgtbl_def)
    from with_pgtbl_eq [of "s\<lparr>regions := R\<rparr>" vs v "\<lambda>pg. mprotect_in_pgtbl pg addr len t", OF _ m(1) this] v(1)
    have w: "with_pgtbl vs (\<lambda>pg. mprotect_in_pgtbl pg addr len t) (s\<lparr>regions := R\<rparr>) =
      Some (0, s\<lparr>regions := R, pgt := flush_tlb p, spaces := (spaces s)(vs \<mapsto> v\<lparr>pgtbl_lock := unlock (taken (pgtbl_lock v))\<rparr>)\<rparr>)" by simp
    have "protect_range vs addr len t s =
      Some (0, s\<lparr>regions := R, pgt := flush_tlb p, spaces := (spaces s)(vs \<mapsto> v\<lparr>pgtbl_lock := unlock (taken (pgtbl_lock v))\<rparr>)\<rparr>)"
      using c Checked R(1,2) w by (simp add: protect_range_def)
    moreover have "pt_inv (vm_pgtbl v) (flush_tlb p)" using p(2) by simp
    ultimately show ?thesis using m(1) R(3) perms_cut_ok [OF m(3) R(3)] by (auto simp: mem_ok_in_def)
  qed (use c v in \<open>auto simp: protect_range_def fun_upd_idem intro!: exI [of _ v]\<close>)
qed

lemma perms_cut_view:
  assumes v: "spaces s vs = Some v" "regions_ok (vmr_list v) n (regions s)" and v': "spaces s' vs = Some v'" "vmr_list v' = vmr_list v"
    and c: "perms_cut t (regions s) (regions s')"
  shows "case view vs s a of None \<Rightarrow> view vs s' a = None
    | Some (ob, off, perm) \<Rightarrow> \<exists>m. view vs s' a = Some (ob, off, m) \<and> (m = perm \<or> m = t \<and> valid_prot perm t = 0)"
proof -
  have h: "hit (regions s') a = hit (regions s) a" using perms_cut_hit [OF c] by auto
  have ok: "regions_ok (vmr_list v') n (regions s')" using perms_cut_ok [OF v(2) c] v'(2) by simp
  note e = view_eq [OF v, of a] view_eq [OF v'(1) ok, of a]
  show ?thesis
  proof (cases "find (hit (regions s) a) (vmr_list v)")
    case (Some p)
    then obtain r where r: "regions s p = Some r" using find_hit [OF v(2)] by (auto simp: hit_def)
    obtain m where "regions s' p = Some (r\<lparr>vmr_perm := m\<rparr>)" "m = vmr_perm r \<or> m = t \<and> valid_prot (vmr_perm r) t = 0"
      using c r by (rule perms_cutE)
    then show ?thesis using e Some h v'(2) r by (simp add: behind_def)
  qed (use e h v'(2) in simp)
qed



end
