(* ===== verification/Thread.thy ===== *)
theory Thread
  imports Memory
begin

text \<open>
  Threads: \<^verbatim>\<open>kernel/object/thread.c\<close>, \<^verbatim>\<open>kernel/sched/context.c\<close> and the register part of \<^verbatim>\<open>kernel/arch/aarch64/sched/context.c\<close>.
  The state adds to the one of the system calls the registers the kernel sets for a thread and the lists of the
  threads of the capability groups (on a heap of list nodes); the number of the threads and the lock are fields of the group.
  The fields of \<^verbatim>\<open>struct thread\<close> for IPC and for sleeping are part of it; \<^verbatim>\<open>general_ipc_config\<close> is an untyped pointer in the
  source, and reading it as another of the three kinds than it was written as is undefined, as is reading through \<^verbatim>\<open>NULL\<close>.
\<close>

section \<open>State and registers\<close>

record exec_cont =
  x0 :: u64
  x1 :: u64
  sp_el0 :: u64
  elr_el1 :: u64
  spsr_el1 :: u64

record ipc_server_config =
  register_cb_thread :: tid
  declared_ipc_routine_entry :: u64

record ipc_server_register_cb_config =
  register_lock :: lock_impl
  register_cb_entry :: u64
  register_cb_stack :: u64
  conn_cap_in_client :: int
  conn_cap_in_server :: int
  shm_cap_in_server :: int

record ipc_server_handler_config =
  ipc_lock :: lock_impl
  ipc_routine_entry :: u64
  ipc_routine_stack :: u64
  active_conn :: "ptr option"

datatype ipc_config = Server ipc_server_config | Register_cb ipc_server_register_cb_config | Handler ipc_server_handler_config

text \<open>The two functions that are ever stored as \<^verbatim>\<open>timer_cb\<close>.\<close>

datatype timer_cb = sleep_timer_cb | notific_timer_cb

record sleep_state =
  wakeup_tick :: u64
  sleep_cpu :: nat
  pending_notific :: "ptr option"
  cb :: "timer_cb option"

text \<open>\<open>sched_cont t\<close> is the thread for which \<^verbatim>\<open>init_thread_ctx\<close> allocated the scheduling context that \<open>t\<close> has.\<close>

record machine = kstate +
  ec :: "tid \<Rightarrow> exec_cont"
  sched_cont :: "tid \<Rightarrow> tid"
  thread_list :: list_heap
  general_ipc_config :: "tid \<Rightarrow> ipc_config option"
  sleep_state :: "tid \<Rightarrow> sleep_state"

definition arch_set_thread_stack :: "tid \<Rightarrow> u64 \<Rightarrow> 'a machine_scheme \<Rightarrow> 'a machine_scheme" where
  "arch_set_thread_stack t v s = s\<lparr>ec := (ec s)(t := (ec s t)\<lparr>sp_el0 := v\<rparr>)\<rparr>"

definition arch_set_thread_next_ip :: "tid \<Rightarrow> u64 \<Rightarrow> 'a machine_scheme \<Rightarrow> 'a machine_scheme" where
  "arch_set_thread_next_ip t v s = s\<lparr>ec := (ec s)(t := (ec s t)\<lparr>elr_el1 := v\<rparr>)\<rparr>"

definition arch_set_thread_arg :: "tid \<Rightarrow> u64 \<Rightarrow> 'a machine_scheme \<Rightarrow> 'a machine_scheme" where
  "arch_set_thread_arg t v s = s\<lparr>ec := (ec s)(t := (ec s t)\<lparr>x0 := v\<rparr>)\<rparr>"

definition arch_set_thread_info_page :: "tid \<Rightarrow> u64 \<Rightarrow> 'a machine_scheme \<Rightarrow> 'a machine_scheme" where
  "arch_set_thread_info_page t v s = s\<lparr>ec := (ec s)(t := (ec s t)\<lparr>x0 := v\<rparr>)\<rparr>"

definition arch_set_thread_badge_arg :: "tid \<Rightarrow> u64 \<Rightarrow> 'a machine_scheme \<Rightarrow> 'a machine_scheme" where
  "arch_set_thread_badge_arg t v s = s\<lparr>ec := (ec s)(t := (ec s t)\<lparr>x1 := v\<rparr>)\<rparr>"

definition arch_set_thread_return :: "tid \<Rightarrow> u64 \<Rightarrow> 'a machine_scheme \<Rightarrow> 'a machine_scheme" where
  "arch_set_thread_return t v s = s\<lparr>ec := (ec s)(t := (ec s t)\<lparr>x0 := v\<rparr>)\<rparr>"

definition arch_get_thread_stack :: "tid \<Rightarrow> 'a machine_scheme \<Rightarrow> u64" where
  "arch_get_thread_stack t s = sp_el0 (ec s t)"

definition arch_get_thread_next_ip :: "tid \<Rightarrow> 'a machine_scheme \<Rightarrow> u64" where
  "arch_get_thread_next_ip t s = elr_el1 (ec s t)"

definition SPSR_EL1_IRQ :: u64 where "SPSR_EL1_IRQ = 0x80"
definition SPSR_EL1_EL0t :: u64 where "SPSR_EL1_EL0t = 0"

definition arch_enable_interrupt :: "tid \<Rightarrow> 'a machine_scheme \<Rightarrow> 'a machine_scheme" where
  "arch_enable_interrupt t s = s\<lparr>ec := (ec s)(t := (ec s t)\<lparr>spsr_el1 := spsr_el1 (ec s t) AND NOT SPSR_EL1_IRQ\<rparr>)\<rparr>"

definition arch_disable_interrupt :: "tid \<Rightarrow> 'a machine_scheme \<Rightarrow> 'a machine_scheme" where
  "arch_disable_interrupt t s = s\<lparr>ec := (ec s)(t := (ec s t)\<lparr>spsr_el1 := spsr_el1 (ec s t) OR SPSR_EL1_IRQ\<rparr>)\<rparr>"

definition upd_ctx :: "tid \<Rightarrow> (thread_ctx \<Rightarrow> thread_ctx) \<Rightarrow> 'a machine_scheme \<Rightarrow> 'a machine_scheme option" where
  "upd_ctx t f s = do { c \<leftarrow> ctx (sst s) t; Some (s\<lparr>sst := set_ctx t (f c) (sst s)\<rparr>) }"

definition arch_set_thread_tls :: "tid \<Rightarrow> u64 \<Rightarrow> 'a machine_scheme \<Rightarrow> 'a machine_scheme option" where
  "arch_set_thread_tls t tls s = upd_ctx t (\<lambda>c. c\<lparr>tls_base_reg := tls\<rparr>) s"

definition set_thread_state :: "tid \<Rightarrow> thread_state \<Rightarrow> 'a machine_scheme \<Rightarrow> 'a machine_scheme option" where
  "set_thread_state t st s = upd_ctx t (\<lambda>c. c\<lparr>tstate := st\<rparr>) s"

text \<open>\<^verbatim>\<open>switch_to_thread\<close> followed by \<^verbatim>\<open>eret_to_thread(switch_context())\<close>; \<^verbatim>\<open>sched\<close> followed by the same; \<^verbatim>\<open>BUG_ON(sched_enqueue)\<close>.\<close>

definition go_to_thread :: "nat \<Rightarrow> tid \<Rightarrow> 'a machine_scheme \<Rightarrow> 'a machine_scheme option" where
  "go_to_thread cpu t s = do {
     s1 \<leftarrow> switch_to_thread cpu t (sst s);
     s2 \<leftarrow> finish_switch cpu s1;
     Some (s\<lparr>sst := s2\<rparr>) }"

definition do_sched :: "sched_ops \<Rightarrow> nat \<Rightarrow> 'a machine_scheme \<Rightarrow> 'a machine_scheme option" where
  "do_sched ops cpu s = do { u \<leftarrow> op_sched ops cpu (sst s); Some (s\<lparr>sst := u\<rparr>) }"

definition end_switch :: "nat \<Rightarrow> 'a machine_scheme \<Rightarrow> 'a machine_scheme option" where
  "end_switch cpu s = do { u \<leftarrow> finish_switch cpu (sst s); Some (s\<lparr>sst := u\<rparr>) }"

definition enqueue :: "sched_ops \<Rightarrow> nat \<Rightarrow> tid \<Rightarrow> 'a machine_scheme \<Rightarrow> 'a machine_scheme option" where
  "enqueue ops cpu t s = do {
     (r, u) \<leftarrow> op_sched_enqueue ops cpu t (sst s);
     BUG_ON (r \<noteq> 0);
     Some (s\<lparr>sst := u\<rparr>) }"

section \<open>Creating threads\<close>

definition DEFAULT_KERNEL_STACK_SZ :: nat where "DEFAULT_KERNEL_STACK_SZ = 0x1000"
definition sizeof_fpu_area :: nat where "sizeof_fpu_area = 520"
definition sizeof_sched_cont :: nat where "sizeof_sched_cont = 64"
definition sizeof_thread :: nat where "sizeof_thread = 136"

definition thread_list_head :: "ptr \<Rightarrow> addr" where "thread_list_head g = 2 * g"
definition thread_node :: "tid \<Rightarrow> addr" where "thread_node t = 2 * t + 1"

text \<open>The remainder of C, with the sign of the dividend.\<close>

definition c_rem :: "int \<Rightarrow> int \<Rightarrow> int" where
  "c_rem a b = sgn a * (\<bar>a\<bar> mod b)"

text \<open>\<^verbatim>\<open>create_thread_ctx\<close> and \<^verbatim>\<open>init_thread_ctx\<close>; memory of at most 2048 bytes that cannot be had stops the kernel.\<close>

definition create_thread_ctx :: "'a machine_scheme \<Rightarrow> (bool \<times> 'a machine_scheme) option" where
  "create_thread_ctx s = do {
     (ok, s1) \<leftarrow> in_caps (kmalloc_ok DEFAULT_KERNEL_STACK_SZ) s;
     if \<not> ok then Some (False, s1)
     else do {
       (ok, s2) \<leftarrow> in_caps (kmalloc_ok sizeof_fpu_area) s1;
       BUG_ON (\<not> ok);
       Some (True, s2) } }"

definition init_ctx :: "tid \<Rightarrow> u64 \<Rightarrow> u64 \<Rightarrow> nat \<Rightarrow> thread_type \<Rightarrow> int \<Rightarrow> 'a machine_scheme \<Rightarrow> 'a machine_scheme option" where
  "init_ctx t stack func pr ty aff s = do {
     (ok, s1) \<leftarrow> in_caps (kmalloc_ok sizeof_sched_cont) s;
     BUG_ON (\<not> ok);
     Some (s1\<lparr>sst := set_ctx t (init_thread_ctx pr ty aff) (sst s1),
              ec := (ec s1)(t := \<lparr>x0 = 0, x1 = 0, sp_el0 = stack, elr_el1 = func, spsr_el1 = SPSR_EL1_EL0t\<rparr>),
              sched_cont := (sched_cont s1)(t := t)\<rparr>) }"

definition destroy_thread_ctx :: "tid \<Rightarrow> 'a machine_scheme \<Rightarrow> 'a machine_scheme option" where
  "destroy_thread_ctx t s = do {
     c \<leftarrow> ctx (sst s) t;
     Some (s\<lparr>sst := (sst s)\<lparr>ctx := (ctx (sst s))(t := None)\<rparr>\<rparr>) }"

definition thread_init :: "tid \<Rightarrow> ptr \<Rightarrow> u64 \<Rightarrow> u64 \<Rightarrow> nat \<Rightarrow> thread_type \<Rightarrow> int \<Rightarrow> 'a machine_scheme \<Rightarrow> (int \<times> 'a machine_scheme) option" where
  "thread_init t g stack pc pr ty aff s = do {
     (a, s1) \<leftarrow> in_caps (obj_get g CAP_GROUP_OBJ_ID TYPE_CAP_GROUP) s;
     (b, s2) \<leftarrow> in_caps (obj_get g VMSPACE_OBJ_ID TYPE_VMSPACE) s1;
     s3 \<leftarrow> put_obj a s2;
     s4 \<leftarrow> put_obj b s3;
     ga \<leftarrow> a;
     vs \<leftarrow> b;
     let s5 = s4\<lparr>thread_group := (thread_group s4)(t := ga), thread_vmspace := (thread_vmspace s4)(t := vs)\<rparr>;
     (ok, s6) \<leftarrow> create_thread_ctx s5;
     if \<not> ok then Some (- ENOMEM, s6)
     else do {
       s7 \<leftarrow> init_ctx t stack pc pr ty (c_rem aff (int PLAT_CPU_NUM)) s6;
       Some (0, s7\<lparr>sst := (sst s7)\<lparr>prev_thread := (prev_thread (sst s7))(t := NULL_THREAD)\<rparr>,
                    general_ipc_config := (general_ipc_config s7)(t := None),
                    sleep_state := (sleep_state s7)(t := (sleep_state s7 t)\<lparr>cb := None\<rparr>)\<rparr>) } }"

definition lock_threads :: "ptr \<Rightarrow> 'a machine_scheme \<Rightarrow> 'a machine_scheme option" where
  "lock_threads g s = do {
     G \<leftarrow> groups (cst s) g;
     l \<leftarrow> lock (threads_lock G);
     c \<leftarrow> upd_group g (\<lambda>G. G\<lparr>threads_lock := l\<rparr>) (cst s);
     Some (s\<lparr>cst := c\<rparr>) }"

definition unlock_threads :: "ptr \<Rightarrow> 'a machine_scheme \<Rightarrow> 'a machine_scheme option" where
  "unlock_threads g s = do {
     c \<leftarrow> upd_group g (\<lambda>G. G\<lparr>threads_lock := unlock (threads_lock G)\<rparr>) (cst s);
     Some (s\<lparr>cst := c\<rparr>) }"

text \<open>A thread enters the list of its group.\<close>

definition link_thread :: "tid \<Rightarrow> ptr \<Rightarrow> 'a machine_scheme \<Rightarrow> 'a machine_scheme option" where
  "link_thread t g s = do {
     s1 \<leftarrow> lock_threads g s;
     let s2 = s1\<lparr>thread_list := list_add (thread_node t) (thread_list_head g) (thread_list s1)\<rparr>;
     c \<leftarrow> upd_group g (\<lambda>G. G\<lparr>thread_cnt := thread_cnt G + 1\<rparr>) (cst s2);
     unlock_threads g (s2\<lparr>cst := c\<rparr>) }"

definition create_thread ::
  "sched_ops \<Rightarrow> nat \<Rightarrow> ptr option \<Rightarrow> u64 \<Rightarrow> u64 \<Rightarrow> u64 \<Rightarrow> nat \<Rightarrow> thread_type \<Rightarrow> u64 \<Rightarrow> 'a machine_scheme \<Rightarrow> (int \<times> 'a machine_scheme) option" where
  "create_thread ops cpu cap_group stack pc arg pr ty tls s = (case cap_group of
     None \<Rightarrow> Some (- ECAPBILITY, s)
   | Some g \<Rightarrow> do {
       (x, s1) \<leftarrow> in_caps (obj_alloc TYPE_THREAD sizeof_thread) s;
       case x of
         None \<Rightarrow> do { s2 \<leftarrow> put_obj (Some g) s1; Some (- ENOMEM, s2) }
       | Some t \<Rightarrow> do {
           (ret, s2) \<leftarrow> thread_init t g stack pc pr ty NO_AFF s1;
           if ret \<noteq> 0 then do { s3 \<leftarrow> free_obj (Some t) s2; s4 \<leftarrow> put_obj (Some g) s3; Some (ret, s4) }
           else do {
             s3 \<leftarrow> link_thread t g s2;
             s4 \<leftarrow> arch_set_thread_tls t tls (arch_set_thread_arg t arg s3);
             (cap, s5) \<leftarrow> in_caps (cap_alloc g t 0) s4;
             if cap < 0 then do { s6 \<leftarrow> free_obj (Some t) s5; s7 \<leftarrow> put_obj (Some g) s6; Some (cap, s7) }
             else do {
               cur \<leftarrow> current_cap_group cpu s5;
               (cap, s6) \<leftarrow> in_caps (cap_copy g cur cap False 0) s5;
               s7 \<leftarrow> (if ty = TYPE_USER then do { s7 \<leftarrow> set_thread_state t TS_INTER s6; enqueue ops cpu t s7 }
                     else if ty = TYPE_SHADOW then set_thread_state t TS_WAITING s6 else Some s6);
               Some (cap, s7) } } } })"

text \<open>\<^verbatim>\<open>struct thread_args\<close> in user memory.\<close>

definition sys_create_thread :: "sched_ops \<Rightarrow> nat \<Rightarrow> u64 \<Rightarrow> 'a machine_scheme \<Rightarrow> (int \<times> 'a machine_scheme) option" where
  "sys_create_thread ops cpu thread_args_p s = do {
     (bs, s1) \<leftarrow> copy_from_user cpu thread_args_p 56 s;
     cur \<leftarrow> current_cap_group cpu s1;
     let fld = (\<lambda>off n. of_bytes (take n (drop off bs)));
     (cg, s2) \<leftarrow> in_caps (obj_get cur (to_int (fld 0 8)) TYPE_CAP_GROUP) s1;
     let ty = (if fld 48 4 = 1 then TYPE_SHADOW else TYPE_USER);
     (thread_cap, s3) \<leftarrow> create_thread ops cpu cg (fld 8 8) (fld 16 8) (fld 24 8) (unat (fld 32 4)) ty (fld 40 8) s2;
     s4 \<leftarrow> put_obj cg s3;
     Some (thread_cap, s4) }"

section \<open>Destroying threads, affinity\<close>

definition thread_deinit :: "sched_ops \<Rightarrow> tid \<Rightarrow> 'a machine_scheme \<Rightarrow> 'a machine_scheme option" where
  "thread_deinit ops t s = do {
     c \<leftarrow> ctx (sst s) t;
     BUG_ON (tstate c = TS_RUNNING);
     s1 \<leftarrow> (if tstate c = TS_READY then do { (r, u) \<leftarrow> op_sched_dequeue ops t (sst s); Some (s\<lparr>sst := u\<rparr>) } else Some s);
     let g = thread_group s1 t;
     s2 \<leftarrow> lock_threads g s1;
     s3 \<leftarrow> unlock_threads g (s2\<lparr>thread_list := list_del (thread_node t) (thread_list s2)\<rparr>);
     destroy_thread_ctx t s3 }"

definition handle_pending_exit :: "nat \<Rightarrow> 'a machine_scheme \<Rightarrow> 'a machine_scheme option" where
  "handle_pending_exit cpu s = (case current_thread cpu s of
     None \<Rightarrow> Some s
   | Some t \<Rightarrow> do { c \<leftarrow> ctx (sst s) t; BUG_ON (tstate c = TS_EXITING); Some s })"

text \<open>\<^verbatim>\<open>aff\<close> is a signed 32-bit integer and only its upper bound is tested.\<close>

definition thread_for :: "nat \<Rightarrow> u64 \<Rightarrow> 'a machine_scheme \<Rightarrow> (tid option \<times> 'a machine_scheme) option" where
  "thread_for cpu thread_cap s =
     (if thread_cap = - 1 then do { t \<leftarrow> current_thread cpu s; Some (Some t, s) }
      else do { g \<leftarrow> current_cap_group cpu s; in_caps (obj_get g (to_int thread_cap) TYPE_THREAD) s })"

definition sys_set_affinity :: "nat \<Rightarrow> u64 \<Rightarrow> int \<Rightarrow> 'a machine_scheme \<Rightarrow> (int \<times> 'a machine_scheme) option" where
  "sys_set_affinity cpu thread_cap aff s = do {
     (x, s1) \<leftarrow> thread_for cpu thread_cap s;
     case x of
       None \<Rightarrow> Some (- ECAPBILITY, s1)
     | Some t \<Rightarrow> do {
         (ret, s2) \<leftarrow> (if aff \<ge> int PLAT_CPU_NUM then Some (- EINVAL, s1)
                       else do { s2 \<leftarrow> upd_ctx t (\<lambda>c. c\<lparr>affinity := aff\<rparr>) s1; Some (0, s2) });
         s3 \<leftarrow> (if thread_cap \<noteq> - 1 then put_obj (Some t) s2 else Some s2);
         Some (ret, s3) } }"

definition sys_get_affinity :: "nat \<Rightarrow> u64 \<Rightarrow> 'a machine_scheme \<Rightarrow> (int \<times> 'a machine_scheme) option" where
  "sys_get_affinity cpu thread_cap s = do {
     (x, s1) \<leftarrow> thread_for cpu thread_cap s;
     case x of
       None \<Rightarrow> Some (- ECAPBILITY, s1)
     | Some t \<Rightarrow> do {
         c \<leftarrow> ctx (sst s1) t;
         s2 \<leftarrow> (if thread_cap \<noteq> - 1 then put_obj (Some t) s1 else Some s1);
         Some (affinity c, s2) } }"

section \<open>Switching\<close>

lemma go_to_thread_ok:
  assumes q: "queues_ok key N (sst s) Q" and cur: "current_thread cpu s = Some p" and p: "ctx (sst s) p = Some pc"
    and t: "ctx (sst s) t = Some tc" "tstate tc \<noteq> TS_READY" "t \<noteq> p"
  shows "\<exists>u tc' pc'. go_to_thread cpu t s = Some (s\<lparr>sst := u\<rparr>) \<and> queues_ok key N u Q \<and> current_threads u = (current_threads (sst s))(cpu \<mapsto> t)
    \<and> ctx u t = Some tc' \<and> tstate tc' = TS_RUNNING \<and> ctx u p = Some pc' \<and> tstate pc' = tstate pc \<and> kernel_stack_state pc' = KS_FREE
    \<and> same_view (sst s) u {t, p}"
proof -
  have "\<forall>v. current_threads (sst s) cpu = Some v \<longrightarrow> ctx (sst s) v \<noteq> None" using cur p by (simp add: current_thread_def)
  from switch_to_thread_ok [OF q t(1,2) this] cur t(3) obtain u1 tc1 where
    u1: "switch_to_thread cpu t (sst s) = Some u1" "queues_ok key N u1 Q" "current_threads u1 = (current_threads (sst s))(cpu \<mapsto> t)"
      "same_view (sst s) u1 {t}" "ctx u1 t = Some tc1"
      "sview tc1 = sview (tc\<lparr>cpuid := cpu, tstate := TS_RUNNING, kernel_stack_state := KS_LOCKED\<rparr>)" "prev_thread u1 t = PREV p"
    by (auto simp: current_thread_def)
  from same_viewD [OF u1(4), of p] p t(3) obtain pc1 where p1: "ctx u1 p = Some pc1" "sview pc1 = sview pc" by auto
  let ?u = "set_ctx p (pc1\<lparr>kernel_stack_state := KS_FREE\<rparr>) u1"
  have "finish_switch cpu u1 = Some ?u" using u1(3,7) p1(1) by (simp add: finish_switch_def)
  then have "go_to_thread cpu t s = Some (s\<lparr>sst := ?u\<rparr>)" using u1(1) by (simp add: go_to_thread_def)
  moreover have "queues_ok key N ?u Q" by (rule queues_ctx_same [OF u1(2) p1(1)]) simp_all
  moreover have "same_view (sst s) ?u {t, p}" using u1(4) by (simp add: same_view_def)
  moreover have "tstate tc1 = TS_RUNNING" "tstate pc1 = tstate pc" using u1(6) p1(2) by (simp_all add: sview_def)
  ultimately show ?thesis using u1(3,5) t(3) by (intro exI [of _ ?u]) auto
qed

section \<open>A new thread\<close>

lemma cap_inv_mem_cnt [simp]: "cap_inv (s\<lparr>mem_cnt := n\<rparr>) R \<longleftrightarrow> cap_inv s R"
  by (simp add: cap_inv_def cap_wf_def copies_free_def group_ok_def slot_ok_def refs_ok_def slots_of_def mem_avail_def)

lemma caps_mem_cnt [simp]: "caps (s\<lparr>mem_cnt := n\<rparr>) = caps s"
  by (auto simp: caps_def fun_eq_iff split: option.split)

text \<open>Looking two objects of a group up and giving both back.\<close>

lemma get_put_two:
  assumes inv: "cap_inv d R" and a: "caps d g i = Some (a, r)" "objects d a = Some x" "otype x = ty" "refcount x \<noteq> - 1"
    and b: "caps d g j = Some (b, q)" "objects d b = Some y" "otype y = ty'" "refcount y \<noteq> - 1" and ne: "ty \<noteq> ty'"
  shows "\<exists>d1 d2 d3. obj_get g i ty d = Some (Some a, d1) \<and> obj_get g j ty' d1 = Some (Some b, d2) \<and> obj_put (Some a) d2 = Some d3 \<and> obj_put (Some b) d3 = Some d"
proof -
  let ?d1 = "set_refs a x (refcount x + 1) d"
  let ?d2 = "set_refs b y (refcount y + 1) ?d1"
  have ab: "a \<noteq> b" using a(2,3) b(2,3) ne by auto
  note g1 = get_obj [OF inv a]
  have y: "objects ?d1 b = Some y" "caps ?d1 g j = Some (b, q)" using b ab by (simp_all add: set_refs_def)
  note g2 = get_obj [OF g1(3) y(2,1) b(3,4)]
  have nz: "refcount x \<noteq> 0" "refcount y \<noteq> 0" using refs_of_cap [OF inv a(1,2)] refs_of_cap [OF inv b(1,2)] by simp_all
  have "obj_put (Some a) ?d2 = Some (set_refs b y (refcount y + 1) d)"
    using ab a(2) nz by (simp add: obj_put_def upd_obj_def set_refs_def fun_upd_twist fun_upd_idem)
  moreover have "obj_put (Some b) (set_refs b y (refcount y + 1) d) = Some d" by (rule get_obj(2) [OF inv b])
  ultimately show ?thesis using g1(1) g2(1) by blast
qed

lemma thread_init_ok:
  assumes inv: "cap_inv (cst s) R" and g: "caps (cst s) g CAP_GROUP_OBJ_ID = Some (g, r)" "objects (cst s) g = Some x" "otype x = TYPE_CAP_GROUP" "refcount x \<noteq> - 1"
    and v: "caps (cst s) g VMSPACE_OBJ_ID = Some (vs, q)" "objects (cst s) vs = Some y" "otype y = TYPE_VMSPACE" "refcount y \<noteq> - 1"
  shows "thread_init t g stack pc pr ty NO_AFF s = Some (0, s\<lparr>cst := (cst s)\<lparr>mem_cnt := mem_cnt (cst s) + 3\<rparr>,
     sst := (set_ctx t (init_thread_ctx pr ty NO_AFF) (sst s))\<lparr>prev_thread := (prev_thread (sst s))(t := NULL_THREAD)\<rparr>,
     thread_group := (thread_group s)(t := g), thread_vmspace := (thread_vmspace s)(t := vs),
     ec := (ec s)(t := \<lparr>x0 = 0, x1 = 0, sp_el0 = stack, elr_el1 = pc, spsr_el1 = SPSR_EL1_EL0t\<rparr>), sched_cont := (sched_cont s)(t := t),
     general_ipc_config := (general_ipc_config s)(t := None), sleep_state := (sleep_state s)(t := (sleep_state s t)\<lparr>cb := None\<rparr>)\<rparr>)"
proof -
  from get_put_two [OF inv g v] obtain d1 d2 d3 where d: "obj_get g CAP_GROUP_OBJ_ID TYPE_CAP_GROUP (cst s) = Some (Some g, d1)"
    "obj_get g VMSPACE_OBJ_ID TYPE_VMSPACE d1 = Some (Some vs, d2)" "obj_put (Some g) d2 = Some d3" "obj_put (Some vs) d3 = Some (cst s)" by auto
  have m: "mem_avail (cst s)" using inv by (auto simp: cap_inv_def dest: cap_wfD(5))
  have rem: "c_rem NO_AFF (int PLAT_CPU_NUM) = NO_AFF" by (simp add: c_rem_def NO_AFF_def PLAT_CPU_NUM_def)
  show ?thesis
    using d m rem by (simp add: thread_init_def in_caps_def put_obj_def create_thread_ctx_def init_ctx_def kmalloc_avail DEFAULT_KERNEL_STACK_SZ_def
        sizeof_fpu_area_def sizeof_sched_cont_def set_ctx_def)
qed

definition group_threads :: "ptr set \<Rightarrow> (ptr \<Rightarrow> tid list) \<Rightarrow> 'a machine_scheme \<Rightarrow> bool" where
  "group_threads K T s \<longleftrightarrow> dl.family thread_list_head K (thread_list s) (\<lambda>k. map thread_node (T k))"

lemma thread_node_simps [simp]:
  "thread_node t = thread_node u \<longleftrightarrow> t = u" "thread_node t \<noteq> thread_list_head g" "thread_list_head g \<noteq> thread_node t"
  by (simp_all add: thread_node_def thread_list_head_def) presburger+

lemma link_thread_ok:
  assumes t: "group_threads K T s" "g \<in> K" "\<forall>k \<in> K. t \<notin> set (T k)" and G: "groups (cst s) g = Some G" "lock_free (threads_lock G)"
  shows "\<exists>h G'. link_thread t g s = Some (s\<lparr>thread_list := h, cst := (cst s)\<lparr>groups := (groups (cst s))(g \<mapsto> G')\<rparr>\<rparr>)
    \<and> dl.family thread_list_head K h (\<lambda>k. map thread_node ((T(g := t # T g)) k)) \<and> slot_tab G' = slot_tab G
    \<and> lock_free (threads_lock G') \<and> thread_cnt G' = thread_cnt G + 1"
proof -
  let ?h = "list_add (thread_node t) (thread_list_head g) (thread_list s)"
  let ?G = "G\<lparr>thread_cnt := thread_cnt G + 1, threads_lock := unlock (taken (threads_lock G))\<rparr>"
  have f: "dl.family thread_list_head K (thread_list s) (\<lambda>k. map thread_node (T k))" using t(1) by (simp add: group_threads_def)
  have "dl.fresh thread_list_head K (\<lambda>k. map thread_node (T k)) (thread_node t)" using t(3) by (auto simp: dl.fresh_def)
  moreover have "(\<lambda>k. map thread_node (T k))(g := thread_node t # map thread_node (T g)) = (\<lambda>k. map thread_node ((T(g := t # T g)) k))" by auto
  ultimately have "dl.family thread_list_head K ?h (\<lambda>k. map thread_node ((T(g := t # T g)) k))"
    using dl.family_add [OF f t(2)] by metis
  moreover have "link_thread t g s = Some (s\<lparr>thread_list := ?h, cst := (cst s)\<lparr>groups := (groups (cst s))(g \<mapsto> ?G)\<rparr>\<rparr>)"
    using G by (simp add: link_thread_def lock_threads_def unlock_threads_def upd_group_def lock_simps)
  moreover have "lock_free (unlock (taken (threads_lock G)))" using G(2) by simp
  ultimately show ?thesis by (intro exI [of _ ?h] exI [of _ ?G]) simp
qed

text \<open>The two capabilities of a new thread, in its own group and in the group of the caller.\<close>

lemma two_caps:
  assumes inv: "cap_inv d R" and x: "objects d t = Some x" "refcount x = 0" and g: "groups d g = Some G" "groups d cur \<noteq> None" "tsize d g + 128 \<le> 2 ^ 22" "tsize d cur + 128 \<le> 2 ^ 22"
  shows "\<exists>i d1 k d2 tb. cap_alloc g t 0 d = Some (i, d1) \<and> 0 \<le> i \<and> caps d g i = None \<and> cap_copy g cur i False 0 d1 = Some (k, d2) \<and> 0 \<le> k \<and> caps d1 cur k = None
    \<and> caps d1 = (caps d)(g := (caps d g)(i \<mapsto> (t, 0))) \<and> caps d2 = (caps d1)(cur := (caps d1 cur)(k \<mapsto> (t, 0))) \<and> cap_inv d2 R
    \<and> groups d2 g = Some (G\<lparr>slot_tab := tb\<rparr>)"
proof -
  have "room d g" using g by (simp add: room_def)
  from cap_alloc_ok [OF inv this x, of 0] obtain i d1 where d1: "cap_alloc g t 0 d = Some (i, d1)" "0 \<le> i" "caps d g i = None" "cap_inv d1 R"
    "caps d1 = (caps d)(g := (caps d g)(i \<mapsto> (t, 0)))" "objects d1 = (objects d)(t \<mapsto> x\<lparr>refcount := 1\<rparr>)" "frame d d1 g (brk d + 1)" by auto
  have rm: "room d1 cur" using d1(7) g by (cases "cur = g") (auto simp: frame_def room_def tsize_def)
  have c: "caps d1 g i = Some (t, 0)" "objects d1 t = Some (x\<lparr>refcount := 1\<rparr>)" using d1(5,6) by simp_all
  from cap_copy_ok [OF d1(4) c(1) rm c(2), of False 0] obtain k d2 where d2: "cap_copy g cur i False 0 d1 = Some (k, d2)" "0 \<le> k" "caps d1 cur k = None"
    "cap_inv d2 R" "caps d2 = (caps d1)(cur := (caps d1 cur)(k \<mapsto> (t, 0)))" "frame d1 d2 cur (brk d1 + 1)" by auto
  from d1(7) g(1) obtain tb where "groups d1 g = Some (G\<lparr>slot_tab := tb\<rparr>)" by (auto simp: frame_def)
  with d2(6) have "\<exists>tb. groups d2 g = Some (G\<lparr>slot_tab := tb\<rparr>)" by (cases "cur = g") (auto simp: frame_def)
  with d1 d2 show ?thesis by blast
qed

lemma enqueue_rr:
  assumes q: "rr_ok u Q" and c: "ctx u t = Some c" "tstate c \<noteq> TS_READY" "ttype c \<noteq> TYPE_IDLE" "prio c \<le> MAX_PRIO" "target_cpu cpu c = k" "k < PLAT_CPU_NUM"
  shows "\<exists>u' c'. op_sched_enqueue rr cpu t u = Some (0, u') \<and> rr_ok u' (Q(k := Q k @ [t])) \<and> ctx u' = (ctx u)(t \<mapsto> c') \<and> tstate c' = TS_READY
    \<and> current_threads u' = current_threads u"
proof -
  let ?r = "released cpu t c k u"
  let ?u = "put_thread k k t (fst ?r) (snd ?r)"
  note p = put_released_ok [OF q c(1,2) refl c(6), where local = cpu]
  have "op_sched_enqueue rr cpu t u = Some (0, ?u)" using rr_sched_enqueue_eq [OF q c(1,3,4), of cpu] c(2,5,6) by (simp add: rr_def)
  moreover have "ctx ?u = (ctx u)(t \<mapsto> (fst ?r)\<lparr>cpuid := k, tstate := TS_READY\<rparr>)" using p(2,3) by (auto simp: fun_eq_iff simp del: put_thread_simps)
  moreover have "current_threads ?u = current_threads u" using release_eq(5) [OF c(1)] by simp
  ultimately show ?thesis using p(1) by (intro exI [of _ ?u]) auto
qed

lemma thread_made:
  assumes inv: "cap_inv (cst s) R" and t: "t = brk (cst s)"
    and g: "caps (cst s) g CAP_GROUP_OBJ_ID = Some (g, r)" "objects (cst s) g = Some x" "otype x = TYPE_CAP_GROUP" "refcount x \<noteq> - 1"
    and v: "caps (cst s) g VMSPACE_OBJ_ID = Some (vs, q)" "objects (cst s) vs = Some y" "otype y = TYPE_VMSPACE" "refcount y \<noteq> - 1"
  shows "\<exists>d z s2. obj_alloc TYPE_THREAD sizeof_thread (cst s) = Some (Some t, d) \<and> thread_init t g stack pc pr ty NO_AFF (s\<lparr>cst := d\<rparr>) = Some (0, s2)
    \<and> cap_inv (cst s2) R \<and> caps (cst s2) = caps (cst s) \<and> groups (cst s2) = groups (cst s) \<and> objects (cst s2) t = Some z \<and> refcount z = 0
    \<and> sst s2 = (set_ctx t (init_thread_ctx pr ty NO_AFF) (sst s))\<lparr>prev_thread := (prev_thread (sst s))(t := NULL_THREAD)\<rparr>
    \<and> thread_group s2 = (thread_group s)(t := g) \<and> thread_vmspace s2 t = vs \<and> ec s2 t = \<lparr>x0 = 0, x1 = 0, sp_el0 = stack, elr_el1 = pc, spsr_el1 = 0\<rparr>
    \<and> thread_list s2 = thread_list s"
proof -
  have ty: "TYPE_THREAD \<noteq> TYPE_CAP_GROUP" "sizeof_thread \<le> 2 ^ 24" by (simp_all add: sizeof_thread_def)
  from obj_alloc_ok [OF inv ty] obtain d z where d: "obj_alloc TYPE_THREAD sizeof_thread (cst s) = Some (Some t, d)" "cap_inv d R" "caps d = caps (cst s)"
    "objects d = (objects (cst s))(t \<mapsto> z)" "refcount z = 0" "groups d = groups (cst s)" using t by auto
  have old: "p \<noteq> t" if "objects (cst s) p = Some w" for p w
    using that inv cap_wfD(3) [of "cst s" R] refs_obj(1) t by (fastforce simp: cap_inv_def)
  show ?thesis using thread_init_ok [of "s\<lparr>cst := d\<rparr>" R g r x vs q y t stack pc pr ty] d g v old by (simp add: SPSR_EL1_EL0t_def)
qed

text \<open>
  C26: a new thread.  \<^verbatim>\<open>create_thread\<close> in a group with an address space gives a thread that starts at the given entry on the given stack with
  the given argument, in that group and its address space; the group and the caller have one new capability each for it and no
  other capability changes; the thread is the first of the list of its group, which counts one more, and it is the last
  in the ready queue of the CPU, all other queues being as they were.
\<close>

theorem create_thread_correct:
  fixes s :: "'a machine_scheme"
  assumes inv: "cap_inv (cst s) R" and cur: "current_thread cpu s = Some me" "cur = thread_group s me" "me \<noteq> t"
    and g: "caps (cst s) g CAP_GROUP_OBJ_ID = Some (g, r)" "objects (cst s) g = Some x" "otype x = TYPE_CAP_GROUP" "refcount x \<noteq> - 1"
    and v: "caps (cst s) g VMSPACE_OBJ_ID = Some (vs, q)" "objects (cst s) vs = Some y" "otype y = TYPE_VMSPACE" "refcount y \<noteq> - 1"
    and sz: "groups (cst s) g = Some G" "lock_free (threads_lock G)" "groups (cst s) cur \<noteq> None" "tsize (cst s) g + 128 \<le> 2 ^ 22" "tsize (cst s) cur + 128 \<le> 2 ^ 22"
    and t: "t = brk (cst s)" "ctx (sst s) t = None" "\<forall>k \<in> K. t \<notin> set (T k)" and q: "rr_ok (sst s) Q" "group_threads K T s" "g \<in> K"
    and n: "cpu < PLAT_CPU_NUM" "pr \<le> MAX_PRIO"
  shows "\<exists>i k s' G'. create_thread rr cpu (Some g) stack pc arg pr TYPE_USER tls s = Some (k, s') \<and> 0 \<le> k \<and> caps (cst s) g i = None
    \<and> (let C = (caps (cst s))(g := (caps (cst s) g)(i \<mapsto> (t, 0))) in C cur k = None \<and> caps (cst s') = C(cur := (C cur)(k \<mapsto> (t, 0)))) \<and> cap_inv (cst s') R
    \<and> ec s' t = \<lparr>x0 = arg, x1 = 0, sp_el0 = stack, elr_el1 = pc, spsr_el1 = 0\<rparr> \<and> thread_group s' t = g \<and> thread_vmspace s' t = vs
    \<and> group_threads K (T(g := t # T g)) s' \<and> groups (cst s') g = Some G' \<and> thread_cnt G' = thread_cnt G + 1 \<and> lock_free (threads_lock G')
    \<and> rr_ok (sst s') (Q(cpu := Q cpu @ [t]))"
proof -
  let ?c = "init_thread_ctx pr TYPE_USER NO_AFF"
  from thread_made [OF inv t(1) g v, of stack pc pr TYPE_USER] obtain d z s2 where
    d: "obj_alloc TYPE_THREAD sizeof_thread (cst s) = Some (Some t, d)" "thread_init t g stack pc pr TYPE_USER NO_AFF (s\<lparr>cst := d\<rparr>) = Some (0, s2)"
    and s2: "cap_inv (cst s2) R" "caps (cst s2) = caps (cst s)" "groups (cst s2) = groups (cst s)" "objects (cst s2) t = Some z" "refcount z = 0"
    "sst s2 = (set_ctx t ?c (sst s))\<lparr>prev_thread := (prev_thread (sst s))(t := NULL_THREAD)\<rparr>" "thread_group s2 = (thread_group s)(t := g)"
    "thread_vmspace s2 t = vs" "ec s2 t = \<lparr>x0 = 0, x1 = 0, sp_el0 = stack, elr_el1 = pc, spsr_el1 = 0\<rparr>" "thread_list s2 = thread_list s" by blast
  have gt: "group_threads K T s2" "groups (cst s2) g = Some G" using q(2) s2(3,10) sz(1) by (simp_all add: group_threads_def)
  from link_thread_ok [OF gt(1) q(3) t(3) gt(2) sz(2)] obtain h G' where
    l: "link_thread t g s2 = Some (s2\<lparr>thread_list := h, cst := (cst s2)\<lparr>groups := (groups (cst s2))(g \<mapsto> G')\<rparr>\<rparr>)"
      "dl.family thread_list_head K h (\<lambda>k. map thread_node ((T(g := t # T g)) k))" "slot_tab G' = slot_tab G" "lock_free (threads_lock G')" "thread_cnt G' = thread_cnt G + 1" by blast
  define e where "e = (cst s2)\<lparr>groups := (groups (cst s2))(g \<mapsto> G')\<rparr>"
  have e: "cap_inv e R" "caps e = caps (cst s)" using cap_inv_group_fields [OF s2(1) gt(2) l(3)] s2(2) by (simp_all add: e_def)
  have "objects e t = Some z" "groups e g = Some G'" "groups e cur \<noteq> None" "tsize e p = tsize (cst s) p" for p using s2(3,4) sz l(3) by (auto simp: e_def tsize_def)
  with two_caps [OF e(1), of t z g G' cur] s2(5) sz(4,5) obtain i d1 k d2 tb where
    c: "cap_alloc g t 0 e = Some (i, d1)" "0 \<le> i" "caps (cst s) g i = None" "cap_copy g cur i False 0 d1 = Some (k, d2)" "0 \<le> k" "caps d1 cur k = None"
      "caps d1 = (caps (cst s))(g := (caps (cst s) g)(i \<mapsto> (t, 0)))" "caps d2 = (caps d1)(cur := (caps d1 cur)(k \<mapsto> (t, 0)))" "cap_inv d2 R"
      "groups d2 g = Some (G'\<lparr>slot_tab := tb\<rparr>)" unfolding e(2) by metis
  let ?u = "set_ctx t (?c\<lparr>tls_base_reg := tls, tstate := TS_INTER\<rparr>) (sst s2)"
  have "rr_ok ?u Q" unfolding s2(6) by (rule queues_ctx [OF queues_cong [OF queues_ctx [OF q(1)]]]) (use t(2) in \<open>auto simp: init_thread_ctx_def\<close>)
  with enqueue_rr [of ?u Q t "?c\<lparr>tls_base_reg := tls, tstate := TS_INTER\<rparr>" cpu cpu] n obtain u where u: "op_sched_enqueue rr cpu t ?u = Some (0, u)" "rr_ok u (Q(cpu := Q cpu @ [t]))"
    by (auto simp: init_thread_ctx_def target_cpu_def)
  let ?s = "s2\<lparr>thread_list := h, ec := (ec s2)(t := (ec s2 t)\<lparr>x0 := arg\<rparr>), sst := u, cst := d2\<rparr>"
  have cg: "current_cap_group cpu s3 = Some cur" if "current_threads (sst s3) = current_threads (sst s2)" "thread_group s3 = thread_group s2" for s3 :: "'a machine_scheme"
    using cur s2(6,7) that by (simp add: current_cap_group_def current_thread_def)
  have "create_thread rr cpu (Some g) stack pc arg pr TYPE_USER tls s = Some (k, ?s)"
    using d l(1) c(1,2,4) u(1) s2(6) cg
    by (simp add: create_thread_def in_caps_def e_def [symmetric] arch_set_thread_arg_def arch_set_thread_tls_def upd_ctx_def set_thread_state_def enqueue_def set_ctx_def)
  moreover have "group_threads K (T(g := t # T g)) ?s" using l(2) by (simp add: group_threads_def)
  ultimately show ?thesis using c u(2) s2(7-9) l(4,5)
    by (intro exI [of _ i] exI [of _ k] exI [of _ ?s] exI [of _ "G'\<lparr>slot_tab := tb\<rparr>"]) (simp add: Let_def)
qed

text \<open>A machine of one group in which thread \<open>me\<close> runs on CPU 0.\<close>

definition small_machine :: "cap_state \<Rightarrow> vm_state \<Rightarrow> nat \<Rightarrow> sched_state \<Rightarrow> machine" where
  "small_machine d u vs q = \<lparr>cst = d, sst = q, vm = u, thread_group = \<lambda>_. 0, thread_vmspace = \<lambda>_. vs, global_shm_info = [], global_shm_id = 0,
     shm_info_lock = lock_init, ec = \<lambda>_. \<lparr>x0 = 1, x1 = 2, sp_el0 = 3, elr_el1 = 4, spsr_el1 = 0\<rparr>, sched_cont = \<lambda>t. t,
     thread_list = init_list_head (thread_list_head 0) \<lparr>lprev = \<lambda>_. 0, lnext = \<lambda>_. 0\<rparr>, general_ipc_config = Map.empty,
     sleep_state = \<lambda>_. \<lparr>wakeup_tick = 0, sleep_cpu = 0, pending_notific = None, cb = None\<rparr>\<rparr>"

theorem create_thread_correct_witness:
  "\<exists>(s :: machine) k s' t Q. caps (cst s) 0 3 = None \<and> create_thread rr 0 (Some 0) 0x8000 0x400 7 10 TYPE_USER 5 s = Some (k, s') \<and> rr_ok (sst s') Q \<and> Q 0 = [t]
     \<and> ec s' t = \<lparr>x0 = 7, x1 = 0, sp_el0 = 0x8000, elr_el1 = 0x400, spsr_el1 = 0\<rparr> \<and> caps (cst s') 0 k = Some (t, 0)"
proof -
  obtain d vs x y G where d: "cap_inv d (\<lambda>_. 0)" "caps d 0 0 = Some (0, 7)" "caps d 0 1 = Some (vs, 0)" "dom (caps d 0) = {0..<3}" "tsize d 0 \<le> 512" "groups d 0 = Some G"
    "objects d 0 = Some x" "otype x = TYPE_CAP_GROUP" "refcount x = 1" "objects d vs = Some y" "otype y = TYPE_VMSPACE" "refcount y = 1" using small_caps by blast
  let ?G = "G\<lparr>threads_lock := lock_init\<rparr>" and ?d = "d\<lparr>groups := (groups d)(0 \<mapsto> G\<lparr>threads_lock := lock_init\<rparr>)\<rparr>"
  have d': "cap_inv ?d (\<lambda>_. 0)" "caps ?d = caps d" using cap_inv_group_fields [OF d(1,6), of ?G] by simp_all
  let ?s = "small_machine ?d undefined vs ((no_queues PLAT_CPU_NUM)\<lparr>current_threads := Map.empty(0 \<mapsto> Suc (brk d))\<rparr>)"
  have f: "cst ?s = ?d" "sst ?s = (no_queues PLAT_CPU_NUM)\<lparr>current_threads := Map.empty(0 \<mapsto> Suc (brk d))\<rparr>" "thread_group ?s = (\<lambda>_. 0)"
    by (simp_all add: small_machine_def)
  have l: "group_threads {0} (\<lambda>_. []) ?s" by (simp add: group_threads_def small_machine_def dl.family_def init_list_head_empty)
  have q: "rr_ok (sst ?s) (\<lambda>_. [])" unfolding f(2) by (rule queues_cong [OF no_queues_ok]) simp_all
  have ts: "tsize ?d 0 = tsize d 0" using d(6) by (simp add: tsize_def)
  have m: "current_thread 0 ?s = Some (Suc (brk d))" by (simp add: f current_thread_def)
  have "caps d 0 3 = None" using d(4) by (metis atLeastLessThan_iff domIff order_less_irrefl)
  moreover from create_thread_correct [of ?s "\<lambda>_. 0" 0 "Suc (brk d)" 0 "brk d" 0 7 x vs 0 y ?G "{0}" "\<lambda>_. []" "\<lambda>_. []" 10 "0x8000" "0x400" 7 5]
  obtain i k s' where k: "create_thread rr 0 (Some 0) 0x8000 0x400 7 10 TYPE_USER 5 ?s = Some (k, s')"
    "caps (cst s') = (caps d)(0 := (caps d 0)(i \<mapsto> (brk d, 0), k \<mapsto> (brk d, 0)))"
    "ec s' (brk d) = \<lparr>x0 = 7, x1 = 0, sp_el0 = 0x8000, elr_el1 = 0x400, spsr_el1 = 0\<rparr>" "rr_ok (sst s') ((\<lambda>_. [])(0 := [brk d]))"
    using d d' f l q m ts by (auto simp: CAP_GROUP_OBJ_ID_def VMSPACE_OBJ_ID_def lock_simps PLAT_CPU_NUM_def MAX_PRIO_def Let_def)
  ultimately show ?thesis using d'(2) f(1)
    by (intro exI [of _ ?s] exI [of _ k] exI [of _ s'] exI [of _ "brk d"] exI [of _ "(\<lambda>_. [])(0 := [brk d])"]) simp
qed

end
