(* ===== verification/IPC.thy ===== *)
theory IPC
  imports Thread
begin

text \<open>
  Inter-process communication: \<^verbatim>\<open>kernel/ipc/connection.c\<close>.  The state extends the one of the threads by
  the connections.
\<close>

section \<open>State\<close>

record ipc_connection =
  current_client_thread :: "tid option"
  server_handler_thread :: "tid option"
  client_badge :: u64
  user_ipc_msg :: u64
  client_shm_uaddr :: u64
  server_shm_uaddr :: u64
  shm_size :: u64

record ipc_state = machine +
  conns :: "ptr \<Rightarrow> ipc_connection option"

definition server_config_of :: "tid \<Rightarrow> ipc_state \<Rightarrow> ipc_server_config option" where
  "server_config_of t s = (case general_ipc_config s t of Some (Server c) \<Rightarrow> Some c | _ \<Rightarrow> None)"

definition register_cb_config_of :: "tid \<Rightarrow> ipc_state \<Rightarrow> ipc_server_register_cb_config option" where
  "register_cb_config_of t s = (case general_ipc_config s t of Some (Register_cb c) \<Rightarrow> Some c | _ \<Rightarrow> None)"

definition handler_config_of :: "tid \<Rightarrow> ipc_state \<Rightarrow> ipc_server_handler_config option" where
  "handler_config_of t s = (case general_ipc_config s t of Some (Handler c) \<Rightarrow> Some c | _ \<Rightarrow> None)"

definition set_config :: "tid \<Rightarrow> ipc_config \<Rightarrow> ipc_state \<Rightarrow> ipc_state" where
  "set_config t c s = s\<lparr>general_ipc_config := (general_ipc_config s)(t \<mapsto> c)\<rparr>"

definition set_conn :: "ptr \<Rightarrow> ipc_connection \<Rightarrow> ipc_state \<Rightarrow> ipc_state" where
  "set_conn p c s = s\<lparr>conns := (conns s)(p \<mapsto> c)\<rparr>"

definition cap_slots_offset_at :: u64 where "cap_slots_offset_at = 32"

section \<open>The data path\<close>

text \<open>The busy wait for the kernel stack of the target ends only when the stack is free.\<close>

definition grab_ipc_lock :: "ptr \<Rightarrow> ipc_state \<Rightarrow> (int \<times> ipc_state) option" where
  "grab_ipc_lock conn s = do {
     c \<leftarrow> conns s conn;
     target \<leftarrow> server_handler_thread c;
     h \<leftarrow> handler_config_of target s;
     let (r, l) = try_lock (ipc_lock h);
     let s1 = set_config target (Handler (h\<lparr>ipc_lock := l\<rparr>)) s;
     if r \<noteq> 0 then Some (- EAGAIN, s1)
     else do {
       tc \<leftarrow> ctx (sst s1) target;
       if kernel_stack_state tc \<noteq> KS_FREE then None else Some (0, s1) } }"

definition thread_migrate_to_server :: "nat \<Rightarrow> ptr \<Rightarrow> u64 \<Rightarrow> ipc_state \<Rightarrow> ipc_state option" where
  "thread_migrate_to_server cpu conn arg s = do {
     c \<leftarrow> conns s conn;
     target \<leftarrow> server_handler_thread c;
     h \<leftarrow> handler_config_of target s;
     let s1 = set_config target (Handler (h\<lparr>active_conn := Some conn\<rparr>)) s;
     cur \<leftarrow> current_thread cpu s1;
     let s2 = set_conn conn (c\<lparr>current_client_thread := Some cur\<rparr>) s1;
     s3 \<leftarrow> set_thread_state cur TS_WAITING s2;
     let s4 = s3\<lparr>sched_cont := (sched_cont s3)(target := sched_cont s3 cur)\<rparr>;
     let s5 = arch_set_thread_stack target (ipc_routine_stack h) s4;
     let s6 = arch_set_thread_next_ip target (ipc_routine_entry h) s5;
     let s7 = arch_set_thread_arg target arg s6;
     let s8 = arch_set_thread_badge_arg target (client_badge c) s7;
     s9 \<leftarrow> put_obj (Some conn) s8;
     go_to_thread cpu target s9 }"

definition thread_migrate_to_client :: "nat \<Rightarrow> tid \<Rightarrow> u64 \<Rightarrow> ipc_state \<Rightarrow> ipc_state option" where
  "thread_migrate_to_client cpu client ret_value s =
     go_to_thread cpu client (arch_set_thread_return client ret_value s)"

definition MAX_CAP_TRANSFER :: u64 where "MAX_CAP_TRANSFER = 8"

text \<open>
  The loop of \<^verbatim>\<open>ipc_send_cap\<close>: \<^verbatim>\<open>dest_cap\<close> is unsigned, so the test \<^verbatim>\<open>dest_cap < 0\<close> never holds and a
  result of \<^const>\<open>cap_copy\<close> below zero is stored like a capability.
\<close>

fun send_caps :: "ptr \<Rightarrow> ptr \<Rightarrow> u64 list \<Rightarrow> cap_state \<Rightarrow> (u64 list \<times> cap_state) option" where
  "send_caps g h [] s = Some ([], s)"
| "send_caps g h (c # cs) s = do {
     (r, s1) \<leftarrow> cap_copy g h (to_int c) False 0 s;
     (rs, s2) \<leftarrow> send_caps g h cs s1;
     Some (of_int r # rs, s2) }"

definition ipc_send_cap :: "nat \<Rightarrow> ptr \<Rightarrow> u64 \<Rightarrow> u64 \<Rightarrow> ipc_state \<Rightarrow> (int \<times> ipc_state) option" where
  "ipc_send_cap cpu conn ipc_msg cap_num s =
     (if cap_num = 0 then Some (0, s)
      else if cap_num \<ge> MAX_CAP_TRANSFER then Some (- EINVAL, s)
      else do {
        g \<leftarrow> current_cap_group cpu s;
        (ob, s1) \<leftarrow> copy_from_user cpu (ipc_msg + cap_slots_offset_at) 8 s;
        let cap_slots = ipc_msg + of_bytes ob;
        (ok, s2) \<leftarrow> in_caps (kmalloc_ok (unat cap_num * 8)) s1;
        if \<not> ok then Some (- ENOMEM, s2)
        else do {
          (bs, s3) \<leftarrow> copy_from_user cpu cap_slots (unat cap_num * 8) s2;
          c \<leftarrow> conns s3 conn;
          target \<leftarrow> server_handler_thread c;
          (dest, s4) \<leftarrow> in_caps (send_caps g (thread_group s3 target) (u64s (unat cap_num) bs)) s3;
          s5 \<leftarrow> copy_to_user cpu cap_slots (put_u64s dest) s4;
          Some (0, s5) } })"

text \<open>\<^verbatim>\<open>server_ipc_msg->cap_slots_offset\<close>, which the kernel reads directly.\<close>

definition read_cap_slots :: "nat \<Rightarrow> u64 \<Rightarrow> ipc_state \<Rightarrow> (u64 \<times> ipc_state) option" where
  "read_cap_slots cpu msg s = do {
     vs \<leftarrow> current_vmspace cpu s;
     (bs, s1) \<leftarrow> in_vm (user_read vs (msg + cap_slots_offset_at) 8) s;
     Some (msg + of_bytes bs, s1) }"

definition ipc_send_cap_to_client :: "nat \<Rightarrow> ptr \<Rightarrow> u64 \<Rightarrow> ipc_state \<Rightarrow> ipc_state option" where
  "ipc_send_cap_to_client cpu conn cap_num s = do {
     c \<leftarrow> conns s conn;
     g \<leftarrow> current_cap_group cpu s;
     let server_ipc_msg = user_ipc_msg c - client_shm_uaddr c + server_shm_uaddr c;
     if cap_num = 1 then do {
       (a, s1) \<leftarrow> read_cap_slots cpu server_ipc_msg s;
       (bs, s2) \<leftarrow> copy_from_user cpu a 4 s1;
       client \<leftarrow> current_client_thread c;
       (r, s3) \<leftarrow> in_caps (cap_copy g (thread_group s2 client) (to_int (of_bytes bs)) False 0) s2;
       BUG_ON (r < 0);
       (a, s4) \<leftarrow> read_cap_slots cpu server_ipc_msg s3;
       copy_to_user cpu a (to_bytes 4 (of_int r)) s4 }
     else Some s }"

text \<open>
  A system call that returns to its caller gives the value; one that transfers control to another
  thread gives \<^const>\<open>None\<close> in its place.
\<close>

definition sys_ipc_call :: "nat \<Rightarrow> 32 word \<Rightarrow> u64 \<Rightarrow> u64 \<Rightarrow> ipc_state \<Rightarrow> (u64 option \<times> ipc_state) option" where
  "sys_ipc_call cpu conn_cap ipc_msg_in_client cap_num s = do {
     g \<leftarrow> current_cap_group cpu s;
     (x, s1) \<leftarrow> in_caps (obj_get g (sint conn_cap) TYPE_CONNECTION) s;
     conn \<leftarrow> x;
     (r, s2) \<leftarrow> grab_ipc_lock conn s1;
     if r \<noteq> 0 then do { s3 \<leftarrow> put_obj (Some conn) s2; Some (Some (of_int r), s3) }
     else if ipc_msg_in_client = 0 then do { s3 \<leftarrow> thread_migrate_to_server cpu conn 0 s2; Some (None, s3) }
     else do {
       (r, s3) \<leftarrow> (if cap_num \<noteq> 0 then ipc_send_cap cpu conn ipc_msg_in_client cap_num s2 else Some (0, s2));
       if r < 0 then do { s4 \<leftarrow> put_obj (Some conn) s3; Some (Some (of_int r), s4) }
       else do {
         c \<leftarrow> conns s3 conn;
         let s4 = set_conn conn (c\<lparr>user_ipc_msg := ipc_msg_in_client\<rparr>) s3;
         let ipc_msg_in_server = ipc_msg_in_client - client_shm_uaddr c + server_shm_uaddr c;
         s5 \<leftarrow> thread_migrate_to_server cpu conn ipc_msg_in_server s4;
         Some (None, s5) } } }"

definition sys_ipc_return :: "nat \<Rightarrow> u64 \<Rightarrow> u64 \<Rightarrow> ipc_state \<Rightarrow> ipc_state option" where
  "sys_ipc_return cpu ret cap_num s = do {
     cur \<leftarrow> current_thread cpu s;
     h \<leftarrow> handler_config_of cur s;
     conn \<leftarrow> active_conn h;
     let s1 = set_config cur (Handler (h\<lparr>active_conn := None\<rparr>)) s;
     c \<leftarrow> conns s1 conn;
     client \<leftarrow> current_client_thread c;
     s2 \<leftarrow> (if cap_num \<noteq> 0 then ipc_send_cap_to_client cpu conn cap_num s1 else Some s1);
     h2 \<leftarrow> handler_config_of cur s2;
     let s3 = set_config cur (Handler (h2\<lparr>ipc_lock := unlock (ipc_lock h2)\<rparr>)) s2;
     thread_migrate_to_client cpu client ret s3 }"

definition transfer_cap :: "nat \<Rightarrow> ptr \<Rightarrow> 32 word \<Rightarrow> ipc_state \<Rightarrow> (int option \<times> ipc_state) option" where
  "transfer_cap cpu conn send_cap s = do {
     c \<leftarrow> conns s conn;
     target \<leftarrow> server_handler_thread c;
     g \<leftarrow> current_cap_group cpu s;
     (cap, s1) \<leftarrow> in_caps (cap_copy g (thread_group s target) (sint send_cap) False 0) s;
     if cap < 0 then Some (Some cap, s1)
     else do { s2 \<leftarrow> thread_migrate_to_server cpu conn (of_int cap) s1; Some (None, s2) } }"

definition sys_ipc_send_cap :: "nat \<Rightarrow> 32 word \<Rightarrow> 32 word \<Rightarrow> ipc_state \<Rightarrow> (u64 option \<times> ipc_state) option" where
  "sys_ipc_send_cap cpu conn_cap send_cap s = do {
     g \<leftarrow> current_cap_group cpu s;
     (x, s1) \<leftarrow> in_caps (obj_get g (sint conn_cap) TYPE_CONNECTION) s;
     case x of
       None \<Rightarrow> Some (Some (of_int (- ECAPBILITY)), s1)
     | Some conn \<Rightarrow> do {
         (r, s2) \<leftarrow> grab_ipc_lock conn s1;
         if r \<noteq> 0 then Some (Some (of_int r), s2)
         else do {
           (res, s3) \<leftarrow> transfer_cap cpu conn send_cap s2;
           Some (map_option of_int res, s3) } } }"

section \<open>The control path\<close>

text \<open>
  \<open>junk\<close> is the content of memory fresh from \<^verbatim>\<open>kmalloc\<close>, whose result these functions use without a test: a failure
  is a write through \<^verbatim>\<open>NULL\<close>.
\<close>

definition sizeof_server_config :: nat where "sizeof_server_config = 16"
definition sizeof_register_cb_config :: nat where "sizeof_register_cb_config = 40"
definition sizeof_handler_config :: nat where "sizeof_handler_config = 32"
definition sizeof_connection :: nat where "sizeof_connection = 56"

definition register_server ::
  "ipc_server_register_cb_config \<Rightarrow> nat \<Rightarrow> tid \<Rightarrow> u64 \<Rightarrow> int \<Rightarrow> ipc_state \<Rightarrow> (int \<times> ipc_state) option" where
  "register_server junk cpu server ipc_routine register_thread_cap s = do {
     BUG_ON (general_ipc_config s server \<noteq> None);
     (ok, s1) \<leftarrow> in_caps (kmalloc_ok sizeof_server_config) s;
     BUG_ON (\<not> ok);
     g \<leftarrow> current_cap_group cpu s1;
     (x, s2) \<leftarrow> in_caps (obj_get g register_thread_cap TYPE_THREAD) s1;
     cb \<leftarrow> x;
     (ok, s3) \<leftarrow> in_caps (kmalloc_ok sizeof_register_cb_config) s2;
     BUG_ON (\<not> ok);
     let s4 = set_config cb (Register_cb (junk\<lparr>register_lock := lock_init,
                register_cb_entry := arch_get_thread_next_ip cb s3, register_cb_stack := arch_get_thread_stack cb s3\<rparr>)) s3;
     s5 \<leftarrow> put_obj (Some cb) s4;
     Some (0, set_config server (Server \<lparr>register_cb_thread = cb, declared_ipc_routine_entry = ipc_routine\<rparr>) s5) }"

definition sys_register_server ::
  "ipc_server_register_cb_config \<Rightarrow> nat \<Rightarrow> u64 \<Rightarrow> u64 \<Rightarrow> ipc_state \<Rightarrow> (int \<times> ipc_state) option" where
  "sys_register_server junk cpu ipc_routine register_thread_cap s = do {
     cur \<leftarrow> current_thread cpu s;
     register_server junk cpu cur ipc_routine (to_int register_thread_cap) s }"

record client_connection_result =
  client_conn_cap :: int
  server_conn_cap :: int
  server_shm_cap :: int
  res_conn :: ptr

definition client_connection ::
  "nat \<Rightarrow> tid \<Rightarrow> tid \<Rightarrow> int \<Rightarrow> u64 \<Rightarrow> ipc_state \<Rightarrow> (int \<times> client_connection_result option \<times> ipc_state) option" where
  "client_connection cpu client server shm_cap_client shm_addr_client s = do {
     g \<leftarrow> current_cap_group cpu s;
     (x, s1) \<leftarrow> in_caps (obj_get g shm_cap_client TYPE_PMO) s;
     pmo \<leftarrow> x;
     (shm_cap_server, s2) \<leftarrow> in_caps (cap_copy g (thread_group s1 server) shm_cap_client False 0) s1;
     (y, s3) \<leftarrow> in_caps (obj_alloc TYPE_CONNECTION sizeof_connection) s2;
     case y of
       None \<Rightarrow> do { s4 \<leftarrow> put_obj (Some pmo) s3; Some (- ENOMEM, None, s4) }
     | Some conn \<Rightarrow> do {
         (conn_cap, s4) \<leftarrow> in_caps (cap_alloc g conn 0) s3;
         if conn_cap < 0 then do {
           s5 \<leftarrow> free_obj (Some conn) s4;
           s6 \<leftarrow> put_obj (Some pmo) s5;
           Some (conn_cap, None, s6) }
         else do {
           (server_cap, s5) \<leftarrow> in_caps (cap_copy g (thread_group s4 server) conn_cap False 0) s4;
           if server_cap < 0 then do {
             s6 \<leftarrow> free_obj (Some conn) s5;
             s7 \<leftarrow> put_obj (Some pmo) s6;
             Some (server_cap, None, s7) }
           else do {
             G \<leftarrow> groups (cst s5) g;
             p \<leftarrow> pmos (vm s5) pmo;
             let c = \<lparr>current_client_thread = Some client, server_handler_thread = None, client_badge = badge G,
                      user_ipc_msg = 0, client_shm_uaddr = shm_addr_client, server_shm_uaddr = 0, shm_size = pmo_size p\<rparr>;
             Some (0, Some \<lparr>client_conn_cap = conn_cap, server_conn_cap = server_cap, server_shm_cap = shm_cap_server,
                            res_conn = conn\<rparr>, set_conn conn c s5) } } } }"

definition sys_register_client ::
  "nat \<Rightarrow> 32 word \<Rightarrow> u64 \<Rightarrow> ipc_state \<Rightarrow> (32 word option \<times> ipc_state) option" where
  "sys_register_client cpu server_cap shm_config_ptr s = do {
     client \<leftarrow> current_thread cpu s;
     g \<leftarrow> current_cap_group cpu s;
     (x, s1) \<leftarrow> in_caps (obj_get g (sint server_cap) TYPE_THREAD) s;
     case x of
       None \<Rightarrow> do { s2 \<leftarrow> put_obj None s1; Some (Some (of_int (- ECAPBILITY)), s2) }
     | Some server \<Rightarrow>
         if general_ipc_config s1 server = None
         then do { s2 \<leftarrow> put_obj (Some server) s1; Some (Some (of_int (- EAGAIN)), s2) }
         else do {
           sc \<leftarrow> server_config_of server s1;
           let cb = register_cb_thread sc;
           rc \<leftarrow> register_cb_config_of cb s1;
           let (r, l) = try_lock (register_lock rc);
           let s2 = set_config cb (Register_cb (rc\<lparr>register_lock := l\<rparr>)) s1;
           if r \<noteq> 0 then do { s3 \<leftarrow> put_obj (Some server) s2; Some (Some (of_int (- EAGAIN)), s3) }
           else do {
             tc \<leftarrow> ctx (sst s2) cb;
             BUG_ON (kernel_stack_state tc \<noteq> KS_FREE);
             (bs, s2) \<leftarrow> copy_from_user cpu shm_config_ptr 16 s2;
             let shm_cap = to_int (of_bytes (take 4 bs));
             let shm_addr = of_bytes (drop 8 bs);
             (r, s3) \<leftarrow> map_pmo_in_current_cap_group cpu (of_bytes (take 4 bs)) shm_addr (VMR_READ OR VMR_WRITE) s2;
             BUG_ON (r \<noteq> 0);
             (r, res, s4) \<leftarrow> client_connection cpu client server shm_cap shm_addr s3;
             BUG_ON (r \<noteq> 0);
             res \<leftarrow> res;
             rc \<leftarrow> register_cb_config_of cb s4;
             let s5 = set_config cb (Register_cb (rc\<lparr>conn_cap_in_client := client_conn_cap res,
                        conn_cap_in_server := server_conn_cap res, shm_cap_in_server := server_shm_cap res\<rparr>)) s4;
             s6 \<leftarrow> set_thread_state client TS_WAITING s5;
             let s7 = arch_set_thread_arg cb (declared_ipc_routine_entry sc) s6;
             let s8 = arch_set_thread_stack cb (register_cb_stack rc) s7;
             let s9 = arch_set_thread_next_ip cb (register_cb_entry rc) s8;
             s10 \<leftarrow> put_obj (Some server) s9;
             let s11 = s10\<lparr>sched_cont := (sched_cont s10)(cb := sched_cont s10 client)\<rparr>;
             s12 \<leftarrow> go_to_thread cpu cb s11;
             Some (None, s12) } } }"

definition sys_ipc_register_cb_return ::
  "ipc_server_handler_config \<Rightarrow> nat \<Rightarrow> u64 \<Rightarrow> u64 \<Rightarrow>
    ipc_state \<Rightarrow> ipc_state option" where
  "sys_ipc_register_cb_return junk cpu server_handler_thread_cap server_shm_addr s = do {
     cur \<leftarrow> current_thread cpu s;
     g \<leftarrow> current_cap_group cpu s;
     config \<leftarrow> register_cb_config_of cur s;
     (x, s1) \<leftarrow> in_caps (obj_get g (conn_cap_in_server config) TYPE_CONNECTION) s;
     conn \<leftarrow> x;
     c \<leftarrow> conns s1 conn;
     client_thread \<leftarrow> current_client_thread c;
     let s2 = arch_set_thread_return client_thread (of_int (conn_cap_in_client config)) s1;
     (y, s3) \<leftarrow> in_caps (obj_get g (to_int server_handler_thread_cap) TYPE_THREAD) s2;
     handler \<leftarrow> y;
     (ok, s4) \<leftarrow> in_caps (kmalloc_ok sizeof_handler_config) s3;
     BUG_ON (\<not> ok);
     let s5 = set_config handler (Handler (junk\<lparr>ipc_lock := lock_init, ipc_routine_entry := arch_get_thread_next_ip handler s4,
                ipc_routine_stack := arch_get_thread_stack handler s4\<rparr>)) s4;
     s6 \<leftarrow> put_obj (Some handler) s5;
     (r, s7) \<leftarrow> map_pmo_in_current_cap_group cpu (of_int (shm_cap_in_server config)) server_shm_addr (VMR_READ OR VMR_WRITE) s6;
     BUG_ON (r \<noteq> 0);
     c \<leftarrow> conns s7 conn;
     let s8 = set_conn conn (c\<lparr>server_shm_uaddr := server_shm_addr, server_handler_thread := Some handler,
                current_client_thread := None\<rparr>) s7;
     s9 \<leftarrow> put_obj (Some conn) s8;
     config \<leftarrow> register_cb_config_of cur s9;
     let s10 = set_config cur (Register_cb (config\<lparr>register_lock := unlock (register_lock config)\<rparr>)) s9;
     go_to_thread cpu client_thread s10 }"

section \<open>A call and its return\<close>

text \<open>
  A client that holds a connection to a handler thread which is idle, and the state in which the handler
  serves the client.
\<close>

definition ipc_conn :: "tid \<Rightarrow> int \<Rightarrow> ptr \<Rightarrow> tid \<Rightarrow> ipc_state \<Rightarrow> bool" where
  "ipc_conn client i conn h s \<longleftrightarrow> h \<noteq> client
     \<and> (\<exists>r x. caps (cst s) (thread_group s client) i = Some (conn, r) \<and> objects (cst s) conn = Some x \<and> otype x = TYPE_CONNECTION \<and> refcount x \<noteq> - 1)
     \<and> (\<exists>c. conns s conn = Some c \<and> server_handler_thread c = Some h)"

definition ipc_ready :: "(nat \<Rightarrow> nat \<Rightarrow> nat) \<Rightarrow> nat \<Rightarrow> (nat \<Rightarrow> tid list) \<Rightarrow> (ptr \<Rightarrow> nat) \<Rightarrow> nat \<Rightarrow> tid \<Rightarrow> int \<Rightarrow> ptr \<Rightarrow> tid \<Rightarrow> ipc_state \<Rightarrow> bool" where
  "ipc_ready key N Q R cpu client i conn h s \<longleftrightarrow> ipc_conn client i conn h s \<and> cap_inv (cst s) R \<and> queues_ok key N (sst s) Q
     \<and> current_thread cpu s = Some client
     \<and> (\<exists>hc. handler_config_of h s = Some hc \<and> lock_free (ipc_lock hc))
     \<and> (\<exists>cc. ctx (sst s) client = Some cc \<and> tstate cc = TS_RUNNING)
     \<and> (\<exists>hx. ctx (sst s) h = Some hx \<and> tstate hx \<noteq> TS_READY \<and> kernel_stack_state hx = KS_FREE)"

definition ipc_serving :: "(nat \<Rightarrow> nat \<Rightarrow> nat) \<Rightarrow> nat \<Rightarrow> (nat \<Rightarrow> tid list) \<Rightarrow> (ptr \<Rightarrow> nat) \<Rightarrow> nat \<Rightarrow> tid \<Rightarrow> int \<Rightarrow> ptr \<Rightarrow> tid \<Rightarrow> ipc_state \<Rightarrow> bool" where
  "ipc_serving key N Q R cpu client i conn h s \<longleftrightarrow> ipc_conn client i conn h s \<and> cap_inv (cst s) R \<and> queues_ok key N (sst s) Q
     \<and> current_thread cpu s = Some h
     \<and> (\<exists>c. conns s conn = Some c \<and> current_client_thread c = Some client)
     \<and> (\<exists>hc. handler_config_of h s = Some hc \<and> lock_held (ipc_lock hc) \<and> active_conn hc = Some conn)
     \<and> (\<exists>cc. ctx (sst s) client = Some cc \<and> tstate cc = TS_WAITING \<and> kernel_stack_state cc = KS_FREE)
     \<and> (\<exists>hx. ctx (sst s) h = Some hx \<and> tstate hx = TS_RUNNING)"

lemma set_config_simps [simp]:
  "handler_config_of t (set_config t' c s) = (if t = t' then (case c of Handler h \<Rightarrow> Some h | _ \<Rightarrow> None) else handler_config_of t s)"
  "cst (set_config t' c s) = cst s" "sst (set_config t' c s) = sst s" "conns (set_config t' c s) = conns s"
  "thread_group (set_config t' c s) = thread_group s" "ec (set_config t' c s) = ec s" "current_thread cpu (set_config t' c s) = current_thread cpu s"
  "sched_cont (set_config t' c s) = sched_cont s" "vm (set_config t' c s) = vm s" "thread_vmspace (set_config t' c s) = thread_vmspace s"
  by (auto simp: set_config_def handler_config_of_def current_thread_def split: ipc_config.splits)

lemma set_conn_simps [simp]:
  "handler_config_of t (set_conn p c s) = handler_config_of t s" "cst (set_conn p c s) = cst s" "sst (set_conn p c s) = sst s"
  "conns (set_conn p c s) = (conns s)(p \<mapsto> c)" "thread_group (set_conn p c s) = thread_group s" "ec (set_conn p c s) = ec s"
  "current_thread cpu (set_conn p c s) = current_thread cpu s" "sched_cont (set_conn p c s) = sched_cont s" "vm (set_conn p c s) = vm s"
  "thread_vmspace (set_conn p c s) = thread_vmspace s"
  by (auto simp: set_conn_def handler_config_of_def current_thread_def)

lemma handler_cong:
  "handler_config_of t (s\<lparr>sst := u\<rparr>) = handler_config_of t s" "handler_config_of t (s\<lparr>ec := e\<rparr>) = handler_config_of t s"
  "handler_config_of t (s\<lparr>cst := d\<rparr>) = handler_config_of t s" "handler_config_of t (s\<lparr>vm := m\<rparr>) = handler_config_of t s" "handler_config_of t (s\<lparr>sched_cont := f\<rparr>) = handler_config_of t s"
  by (simp_all add: handler_config_of_def)

lemma regs_simps:
  "sst (arch_set_thread_stack t v s) = sst s" "sst (arch_set_thread_next_ip t v s) = sst s" "sst (arch_set_thread_arg t v s) = sst s"
  "sst (arch_set_thread_badge_arg t v s) = sst s" "sst (arch_set_thread_return t v s) = sst s"
  by (simp_all add: arch_set_thread_stack_def arch_set_thread_next_ip_def arch_set_thread_arg_def arch_set_thread_badge_arg_def
      arch_set_thread_return_def)

lemmas regs_defs = arch_set_thread_stack_def arch_set_thread_next_ip_def arch_set_thread_arg_def arch_set_thread_badge_arg_def
  arch_set_thread_return_def

lemma set_thread_state_ok:
  assumes "queues_ok key N (sst s) Q" "ctx (sst s) t = Some c" "tstate c \<noteq> TS_READY" "st \<noteq> TS_READY"
  shows "set_thread_state t st s = Some (s\<lparr>sst := set_ctx t (c\<lparr>tstate := st\<rparr>) (sst s)\<rparr>)
    \<and> queues_ok key N (set_ctx t (c\<lparr>tstate := st\<rparr>) (sst s)) Q"
  using assms by (auto simp: set_thread_state_def upd_ctx_def intro: queues_ctx)

text \<open>What a handler finds in its registers when the client sends it \<open>arg\<close>.\<close>

definition handler_entry :: "ipc_server_handler_config \<Rightarrow> ipc_connection \<Rightarrow> u64 \<Rightarrow> exec_cont \<Rightarrow> exec_cont" where
  "handler_entry hc c arg e = e\<lparr>x0 := arg, x1 := client_badge c, sp_el0 := ipc_routine_stack hc, elr_el1 := ipc_routine_entry hc\<rparr>"

lemma handler_entry_regs:
  "e\<lparr>sp_el0 := ipc_routine_stack hc, elr_el1 := ipc_routine_entry hc, x0 := arg, x1 := client_badge c\<rparr> = handler_entry hc c arg e"
  by (cases e) (simp add: handler_entry_def)

lemma thread_migrate_to_server_ok:
  assumes c: "conns s conn = Some c" "server_handler_thread c = Some h" and hc: "handler_config_of h s = Some hc" "lock_held (ipc_lock hc)"
    and cur: "current_thread cpu s = Some client" "h \<noteq> client" and q: "queues_ok key N (sst s) Q"
    and cc: "ctx (sst s) client = Some cc" "tstate cc \<noteq> TS_READY" and hx: "ctx (sst s) h = Some hx" "tstate hx \<noteq> TS_READY"
    and d: "obj_put (Some conn) (cst s) = Some d" "cap_inv d R"
    and cap: "caps d (thread_group s client) i = Some (conn, r)" "objects d conn = Some x" "otype x = TYPE_CONNECTION" "refcount x \<noteq> - 1"
  shows "\<exists>s'. thread_migrate_to_server cpu conn arg s = Some s' \<and> ipc_serving key N Q R cpu client i conn h s' \<and> cst s' = d
    \<and> ec s' = (ec s)(h := handler_entry hc c arg (ec s h)) \<and> sched_cont s' h = sched_cont s client
    \<and> conns s' = (conns s)(conn \<mapsto> c\<lparr>current_client_thread := Some client\<rparr>) \<and> thread_group s' = thread_group s
    \<and> general_ipc_config s' = (general_ipc_config s)(h \<mapsto> Handler (hc\<lparr>active_conn := Some conn\<rparr>)) \<and> vm s' = vm s \<and> thread_vmspace s' = thread_vmspace s
    \<and> current_threads (sst s') = (current_threads (sst s))(cpu \<mapsto> h)"
proof -
  let ?cc = "cc\<lparr>tstate := TS_WAITING\<rparr>"
  let ?u = "set_ctx client ?cc (sst s)"
  let ?t = "s\<lparr>general_ipc_config := (general_ipc_config s)(h \<mapsto> Handler (hc\<lparr>active_conn := Some conn\<rparr>)),
    conns := (conns s)(conn \<mapsto> c\<lparr>current_client_thread := Some client\<rparr>), sst := ?u,
    sched_cont := (sched_cont s)(h := sched_cont s client), ec := (ec s)(h := handler_entry hc c arg (ec s h)), cst := d\<rparr>"
  have q': "queues_ok key N ?u Q" using q cc by (auto intro: queues_ctx)
  have e: "thread_migrate_to_server cpu conn arg s = go_to_thread cpu h ?t"
    using c hc cur cc d
    by (simp add: thread_migrate_to_server_def set_thread_state_def upd_ctx_def set_config_def set_conn_def put_obj_def regs_defs
        handler_entry_regs current_thread_def)
  from go_to_thread_ok [of key N ?t Q cpu client ?cc h hx] q' cur cc hx obtain w tc pc where
    w: "go_to_thread cpu h ?t = Some (?t\<lparr>sst := w\<rparr>)" "queues_ok key N w Q" "current_threads w = (current_threads (sst s))(cpu \<mapsto> h)"
      "ctx w h = Some tc" "tstate tc = TS_RUNNING" "ctx w client = Some pc" "tstate pc = TS_WAITING" "kernel_stack_state pc = KS_FREE"
    by (auto simp: current_thread_def)
  have "ipc_serving key N Q R cpu client i conn h (?t\<lparr>sst := w\<rparr>)"
    unfolding ipc_serving_def ipc_conn_def using w(2-8) c hc cur(2) d(2) cap by (simp add: current_thread_def handler_config_of_def)
  then show ?thesis using e w(1,3) by (intro exI [of _ "?t\<lparr>sst := w\<rparr>"]) simp
qed

lemma grab_ipc_lock_ok:
  assumes "conns s conn = Some c" "server_handler_thread c = Some h" "handler_config_of h s = Some hc" "lock_free (ipc_lock hc)"
    "ctx (sst s) h = Some hx" "kernel_stack_state hx = KS_FREE"
  shows "grab_ipc_lock conn s = Some (0, set_config h (Handler (hc\<lparr>ipc_lock := (ipc_lock hc)\<lparr>nxt := nxt (ipc_lock hc) + 1\<rparr>\<rparr>)) s)"
  using assms by (simp add: grab_ipc_lock_def try_lock_cases)

lemma grab_ipc_lock_busy:
  assumes "conns s conn = Some c" "server_handler_thread c = Some h" "handler_config_of h s = Some hc" "\<not> lock_free (ipc_lock hc)"
  shows "grab_ipc_lock conn s = Some (- EAGAIN, s)"
proof -
  have "general_ipc_config s h = Some (Handler hc)" using assms(3) by (auto simp: handler_config_of_def split: option.splits ipc_config.splits)
  then have "set_config h (Handler hc) s = s" by (simp add: set_config_def fun_upd_idem)
  then show ?thesis using assms by (simp add: grab_ipc_lock_def try_lock_cases)
qed

text \<open>The address of a message in the server's mapping of the shared memory; no message is sent as 0.\<close>

definition server_msg :: "ipc_connection \<Rightarrow> u64 \<Rightarrow> u64" where
  "server_msg c msg = (if msg = 0 then 0 else msg - client_shm_uaddr c + server_shm_uaddr c)"

definition note_msg :: "u64 \<Rightarrow> ipc_connection \<Rightarrow> ipc_connection" where
  "note_msg msg c = (if msg = 0 then c else c\<lparr>user_ipc_msg := msg\<rparr>)"

lemma note_msg_simps [simp]:
  "server_handler_thread (note_msg msg c) = server_handler_thread c" "handler_entry hc (note_msg msg c) = handler_entry hc c"
  by (auto simp: note_msg_def handler_entry_def fun_eq_iff)

lemma lock_held_take: "lock_free l \<Longrightarrow> lock_held (l\<lparr>nxt := nxt l + 1\<rparr>)"
  by (simp add: lock_free_def lock_held_def)

lemma sys_ipc_call_ok:
  assumes r: "ipc_ready key N Q R cpu client (sint w) conn h s" and c: "conns s conn = Some c" and hc: "handler_config_of h s = Some hc"
  shows "\<exists>s'. sys_ipc_call cpu w msg 0 s = Some (None, s') \<and> ipc_serving key N Q R cpu client (sint w) conn h s' \<and> cst s' = cst s
    \<and> ec s' = (ec s)(h := handler_entry hc c (server_msg c msg) (ec s h)) \<and> sched_cont s' h = sched_cont s client
    \<and> conns s' = (conns s)(conn \<mapsto> (note_msg msg c)\<lparr>current_client_thread := Some client\<rparr>)
    \<and> thread_group s' = thread_group s
    \<and> general_ipc_config s' = (general_ipc_config s)(h \<mapsto> Handler (hc\<lparr>ipc_lock := (ipc_lock hc)\<lparr>nxt := nxt (ipc_lock hc) + 1\<rparr>, active_conn := Some conn\<rparr>)) \<and> vm s' = vm s \<and> thread_vmspace s' = thread_vmspace s
    \<and> current_threads (sst s') = (current_threads (sst s))(cpu \<mapsto> h)"
proof -
  from r obtain rg x cc hx where
    cap: "caps (cst s) (thread_group s client) (sint w) = Some (conn, rg)" "objects (cst s) conn = Some x" "otype x = TYPE_CONNECTION" "refcount x \<noteq> - 1"
    and h: "h \<noteq> client" "server_handler_thread c = Some h" and i: "cap_inv (cst s) R" "queues_ok key N (sst s) Q"
    and cur: "current_thread cpu s = Some client" and l: "lock_free (ipc_lock hc)"
    and cc: "ctx (sst s) client = Some cc" "tstate cc = TS_RUNNING"
    and hx: "ctx (sst s) h = Some hx" "tstate hx \<noteq> TS_READY" "kernel_stack_state hx = KS_FREE"
    using c hc by (auto simp: ipc_ready_def ipc_conn_def)
  from get_obj [OF i(1) cap] obtain d where
    d: "obj_get (thread_group s client) (sint w) TYPE_CONNECTION (cst s) = Some (Some conn, d)" "obj_put (Some conn) d = Some (cst s)" by blast
  let ?hc = "hc\<lparr>ipc_lock := (ipc_lock hc)\<lparr>nxt := nxt (ipc_lock hc) + 1\<rparr>\<rparr>"
  define s2 where "s2 = set_config h (Handler ?hc) (s\<lparr>cst := d\<rparr>)"
  have g: "grab_ipc_lock conn (s\<lparr>cst := d\<rparr>) = Some (0, s2)"
    unfolding s2_def using c h hc l hx by (intro grab_ipc_lock_ok) (simp_all add: handler_cong)
  define s3 where "s3 = (if msg = 0 then s2 else set_conn conn (c\<lparr>user_ipc_msg := msg\<rparr>) s2)"
  have call: "sys_ipc_call cpu w msg 0 s = map_option (Pair None) (thread_migrate_to_server cpu conn (server_msg c msg) s3)"
    using cur d(1) g c
    by (auto simp: sys_ipc_call_def current_cap_group_def in_caps_def s2_def s3_def server_msg_def map_option_bind bind_map_option
        comp_def split: bind_splits)
  have f: "conns s3 = (conns s)(conn \<mapsto> note_msg msg c)" "handler_config_of h s3 = Some ?hc" "current_thread cpu s3 = Some client"
    "sst s3 = sst s" "cst s3 = d" "thread_group s3 = thread_group s" "ec s3 = ec s" "sched_cont s3 = sched_cont s"
    "general_ipc_config s3 = (general_ipc_config s)(h \<mapsto> Handler ?hc)" "vm s3 = vm s" "thread_vmspace s3 = thread_vmspace s"
    using c cur by (auto simp: s3_def s2_def note_msg_def current_thread_def set_config_def set_conn_def handler_config_of_def)
  have "lock_held (ipc_lock ?hc)" using l by (simp add: lock_held_take)
  from thread_migrate_to_server_ok [OF _ _ f(2) this f(3) h(1), of conn "note_msg msg c" key N Q cc hx "cst s" R "sint w" rg x "server_msg c msg"]
    f h(2) i cc hx d(2) cap
  show ?thesis unfolding call by (auto simp: handler_entry_def)
qed

lemma sys_ipc_return_ok:
  assumes r: "ipc_serving key N Q R cpu client i conn h s" and hc: "handler_config_of h s = Some hc"
  shows "\<exists>s'. sys_ipc_return cpu ret 0 s = Some s' \<and> ipc_ready key N Q R cpu client i conn h s' \<and> cst s' = cst s
    \<and> ec s' = (ec s)(client := (ec s client)\<lparr>x0 := ret\<rparr>) \<and> conns s' = conns s \<and> thread_group s' = thread_group s \<and> vm s' = vm s \<and> thread_vmspace s' = thread_vmspace s
    \<and> general_ipc_config s' = (general_ipc_config s)(h \<mapsto> Handler (hc\<lparr>ipc_lock := unlock (ipc_lock hc), active_conn := None\<rparr>))"
proof -
  from r hc obtain c cc hx where
    ic: "ipc_conn client i conn h s" and c: "conns s conn = Some c" "current_client_thread c = Some client" and h: "h \<noteq> client"
    and i: "cap_inv (cst s) R" "queues_ok key N (sst s) Q" and cur: "current_thread cpu s = Some h"
    and l: "lock_held (ipc_lock hc)" "active_conn hc = Some conn"
    and cc: "ctx (sst s) client = Some cc" "tstate cc = TS_WAITING" and hx: "ctx (sst s) h = Some hx" "tstate hx = TS_RUNNING"
    by (auto simp: ipc_serving_def ipc_conn_def)
  let ?hc = "hc\<lparr>ipc_lock := unlock (ipc_lock hc), active_conn := None\<rparr>"
  let ?t = "s\<lparr>general_ipc_config := (general_ipc_config s)(h \<mapsto> Handler ?hc), ec := (ec s)(client := (ec s client)\<lparr>x0 := ret\<rparr>)\<rparr>"
  have hc2: "hc\<lparr>active_conn := None, ipc_lock := unlock (ipc_lock hc)\<rparr> = ?hc" by (cases hc) simp
  have e: "sys_ipc_return cpu ret 0 s = go_to_thread cpu client ?t"
    using c cur l hc by (simp add: sys_ipc_return_def thread_migrate_to_client_def regs_defs set_config_def handler_config_of_def hc2)
  from go_to_thread_ok [of key N ?t Q cpu h hx client cc] i cur cc hx h obtain w tc pc where
    w: "go_to_thread cpu client ?t = Some (?t\<lparr>sst := w\<rparr>)" "queues_ok key N w Q" "current_threads w = (current_threads (sst s))(cpu \<mapsto> client)"
      "ctx w client = Some tc" "tstate tc = TS_RUNNING" "ctx w h = Some pc" "tstate pc = TS_RUNNING" "kernel_stack_state pc = KS_FREE"
    by (auto simp: current_thread_def)
  have "ipc_ready key N Q R cpu client i conn h (?t\<lparr>sst := w\<rparr>)"
    unfolding ipc_ready_def using ic w(2-8) i l by (simp add: ipc_conn_def current_thread_def handler_config_of_def lock_simps)
  then show ?thesis using e w(1) by (intro exI [of _ "?t\<lparr>sst := w\<rparr>"]) simp
qed

section \<open>Properties\<close>

text \<open>A small system: client 10 on CPU 0, handler 11 behind the connection of capability 3, and client 12 on CPU 1.\<close>

definition small_ipc :: "cap_state \<Rightarrow> vm_state \<Rightarrow> nat \<Rightarrow> ptr \<Rightarrow> ipc_state" where
  "small_ipc d u vs conn = \<lparr>cst = d, sst = (with_running (no_queues 8))\<lparr>current_threads := Map.empty(0 \<mapsto> 10, 1 \<mapsto> 12)\<rparr>, vm = u,
     thread_group = \<lambda>_. 0, thread_vmspace = \<lambda>_. vs, global_shm_info = [], global_shm_id = 0, shm_info_lock = lock_init,
     ec = \<lambda>_. \<lparr>x0 = 1, x1 = 2, sp_el0 = 3, elr_el1 = 4, spsr_el1 = 0\<rparr>, sched_cont = \<lambda>t. t, thread_list = \<lparr>lprev = \<lambda>_. 0, lnext = \<lambda>_. 0\<rparr>,
     general_ipc_config = Map.empty(11 \<mapsto> Handler \<lparr>ipc_lock = lock_init, ipc_routine_entry = 0x400, ipc_routine_stack = 0x8000, active_conn = None\<rparr>),
     sleep_state = \<lambda>_. \<lparr>wakeup_tick = 0, sleep_cpu = 0, pending_notific = None, cb = None\<rparr>,
     conns = Map.empty(conn \<mapsto> \<lparr>current_client_thread = None, server_handler_thread = Some 11, client_badge = 5, user_ipc_msg = 0,
       client_shm_uaddr = 0x10000, server_shm_uaddr = 0x10000, shm_size = 0x3000\<rparr>)\<rparr>"

lemma small_ipc_ready:
  "\<exists>d conn ob. (\<forall>u vs. ipc_ready (\<lambda>cpu pr. cpu) 8 (\<lambda>_. []) (\<lambda>_. 0) 0 10 3 conn 11 (small_ipc d u vs conn)
     \<and> ipc_conn 12 3 conn 11 (small_ipc d u vs conn)) \<and> caps d 0 2 = Some (ob, 0) \<and> dom (caps d 0) = {0..<4} \<and> room d 0
     \<and> (\<forall>p \<in> {conn, ob}. \<forall>y. objects d p = Some y \<longrightarrow> refcount y < 2 ^ 63)"
proof -
  from small_caps obtain d ob z where d: "cap_inv d (\<lambda>_. 0)" "dom (caps d 0) = {0..<3}" "tsize d 0 \<le> 512" "groups d 0 \<noteq> None"
    "caps d 0 2 = Some (ob, 0)" "objects d ob = Some z" "refcount z = 1" by blast
  from add_object [OF d(1,4) _ _ d(2), of TYPE_CONNECTION] d(3) obtain d2 x where
    d2: "cap_inv d2 (\<lambda>_. 0)" "caps d2 = (caps d)(0 := (caps d 0)(3 \<mapsto> (brk d, 0)))" "objects d2 = (objects d)(brk d \<mapsto> x)" "otype x = TYPE_CONNECTION" "refcount x = 1"
      "groups d2 0 \<noteq> None" "tsize d2 0 \<le> tsize d 0 + 64" by auto
  have q: "queues_ok (\<lambda>cpu pr. cpu) 8 ((with_running (no_queues 8))\<lparr>current_threads := m\<rparr>) (\<lambda>_. [])" for m
    by (rule queues_cong [OF with_running_queues [OF no_queues_ok no_queues_ctx]]) simp_all
  have "ipc_ready (\<lambda>cpu pr. cpu) 8 (\<lambda>_. []) (\<lambda>_. 0) 0 10 3 (brk d) 11 (small_ipc d2 u vs (brk d)) \<and> ipc_conn 12 3 (brk d) 11 (small_ipc d2 u vs (brk d))" for u vs
    unfolding ipc_ready_def ipc_conn_def small_ipc_def using d2 q
    by (simp add: current_thread_def handler_config_of_def with_running_ctx lock_simps init_thread_ctx_def)
  moreover have "dom (caps d2 0) = {0..<4}" "room d2 0" using d(2,3) d2(2,6,7) by (auto simp: room_def)
  ultimately show ?thesis using d(5-7) d2(2,3,5) by (intro exI [of _ d2] exI [of _ "brk d"] exI [of _ ob]) auto
qed

text \<open>
  C1: a call and its return.  From a state in which the running client holds a connection to an idle handler, \<^verbatim>\<open>sys_ipc_call\<close>
  puts the handler in the place of the client on the CPU, at its entry and on its stack, with the address
  of the message in its own mapping and the badge of the client as arguments and on the scheduling context of the client; no other
  register, no capability and no memory changes.  Whatever the server has done meanwhile, as long as the call is being
  served, \<^verbatim>\<open>sys_ipc_return\<close> resumes the client with the value, and the handler is idle again.
\<close>

theorem ipc_call_return:
  assumes "ipc_ready key N Q R cpu client (sint w) conn h s" "conns s conn = Some c" "handler_config_of h s = Some hc"
  shows "(\<exists>s'. sys_ipc_call cpu w msg 0 s = Some (None, s') \<and> ipc_serving key N Q R cpu client (sint w) conn h s'
      \<and> ec s' = (ec s)(h := handler_entry hc c (server_msg c msg) (ec s h)) \<and> sched_cont s' h = sched_cont s client \<and> cst s' = cst s \<and> vm s' = vm s)
    \<and> (\<forall>u Q R. ipc_serving key N Q R cpu client (sint w) conn h u \<longrightarrow>
        (\<exists>u'. sys_ipc_return cpu ret 0 u = Some u' \<and> ipc_ready key N Q R cpu client (sint w) conn h u'
          \<and> ec u' = (ec u)(client := (ec u client)\<lparr>x0 := ret\<rparr>) \<and> cst u' = cst u \<and> vm u' = vm u))"
proof (intro conjI allI impI)
  show "\<exists>s'. sys_ipc_call cpu w msg 0 s = Some (None, s') \<and> ipc_serving key N Q R cpu client (sint w) conn h s'
      \<and> ec s' = (ec s)(h := handler_entry hc c (server_msg c msg) (ec s h)) \<and> sched_cont s' h = sched_cont s client \<and> cst s' = cst s \<and> vm s' = vm s"
    using sys_ipc_call_ok [OF assms, of msg] by blast
next
  fix u Q R
  assume u: "ipc_serving key N Q R cpu client (sint w) conn h u"
  then obtain k where "handler_config_of h u = Some k" by (auto simp: ipc_serving_def)
  from sys_ipc_return_ok [OF u this, of ret] show "\<exists>u'. sys_ipc_return cpu ret 0 u = Some u'
      \<and> ipc_ready key N Q R cpu client (sint w) conn h u' \<and> ec u' = (ec u)(client := (ec u client)\<lparr>x0 := ret\<rparr>) \<and> cst u' = cst u \<and> vm u' = vm u" by blast
qed

theorem ipc_call_return_witness:
  "\<exists>s s1 s2. sys_ipc_call 0 3 0x11234 0 s = Some (None, s1) \<and> ec s1 11 = \<lparr>x0 = 0x11234, x1 = 5, sp_el0 = 0x8000, elr_el1 = 0x400, spsr_el1 = 0\<rparr>
     \<and> sys_ipc_return 0 77 0 s1 = Some s2 \<and> x0 (ec s2 10) = 77 \<and> cst s2 = cst s"
proof -
  from small_ipc_ready obtain d conn where "ipc_ready (\<lambda>cpu pr. cpu) 8 (\<lambda>_. []) (\<lambda>_. 0) 0 10 3 conn 11 (small_ipc d u vs conn)" for u vs by blast
  then have r: "ipc_ready (\<lambda>cpu pr. cpu) 8 (\<lambda>_. []) (\<lambda>_. 0) 0 10 (sint (3 :: 32 word)) conn 11 (small_ipc d undefined 0 conn)" by simp
  let ?s = "small_ipc d undefined 0 conn"
  note t = ipc_call_return [OF r, of _ _ "0x11234" 77]
  have c: "\<exists>c. conns ?s conn = Some c \<and> server_msg c 0x11234 = 0x11234 \<and> client_badge c = 5"
    "\<exists>hc. handler_config_of 11 ?s = Some hc \<and> ipc_routine_stack hc = 0x8000 \<and> ipc_routine_entry hc = 0x400"
    by (simp_all add: small_ipc_def handler_config_of_def server_msg_def)
  then obtain c hc where c: "conns ?s conn = Some c" "server_msg c 0x11234 = 0x11234" "client_badge c = 5" "handler_config_of 11 ?s = Some hc"
    "ipc_routine_stack hc = 0x8000" "ipc_routine_entry hc = 0x400" by blast
  from t [OF c(1,4)] obtain s1 where s1: "sys_ipc_call 0 3 0x11234 0 ?s = Some (None, s1)"
    "ipc_serving (\<lambda>cpu pr. cpu) 8 (\<lambda>_. []) (\<lambda>_. 0) 0 10 (sint (3 :: 32 word)) conn 11 s1" "ec s1 11 = handler_entry hc c 0x11234 (ec ?s 11)" "cst s1 = cst ?s"
    using c(2) by auto
  from t [OF c(1,4)] s1(2) obtain s2 where "sys_ipc_return 0 77 0 s1 = Some s2" "x0 (ec s2 10) = 77" "cst s2 = cst s1" by fastforce
  with s1 c show ?thesis by (intro exI [of _ ?s] exI [of _ s1] exI [of _ s2]) (simp add: handler_entry_def small_ipc_def)
qed

lemma sys_ipc_call_busy:
  assumes inv: "cap_inv (cst s) R" and cn: "ipc_conn t (sint w) conn h s" and cur: "current_thread cpu s = Some t"
    and hc: "handler_config_of h s = Some hc" "\<not> lock_free (ipc_lock hc)"
  shows "sys_ipc_call cpu w msg n s = Some (Some (of_int (- EAGAIN)), s)"
proof -
  from cn obtain r x c where cap: "caps (cst s) (thread_group s t) (sint w) = Some (conn, r)" "objects (cst s) conn = Some x" "otype x = TYPE_CONNECTION"
    "refcount x \<noteq> - 1" and c: "conns s conn = Some c" "server_handler_thread c = Some h" by (auto simp: ipc_conn_def)
  let ?d = "set_refs conn x (refcount x + 1) (cst s)"
  note g = get_obj [OF inv cap]
  have "grab_ipc_lock conn (s\<lparr>cst := ?d\<rparr>) = Some (- EAGAIN, s\<lparr>cst := ?d\<rparr>)"
    by (rule grab_ipc_lock_busy [of _ _ c h hc]) (use c hc in \<open>simp_all add: handler_cong\<close>)
  then show ?thesis using g(1,2) cur by (simp add: sys_ipc_call_def current_cap_group_def in_caps_def put_obj_def EAGAIN_def)
qed



text \<open>
  C39: the lock of a handler is lost.  A call with 8 capabilities or more is refused with \<^verbatim>\<open>-EINVAL\<close>, after the lock of the
  handler was taken and without releasing it, while the handler stays idle.  From then on every call to this handler, by
  any thread over any connection, returns \<^verbatim>\<open>-EAGAIN\<close> and leaves the state as it is: one client disables the server.
\<close>

theorem ipc_refused_call_keeps_lock:
  assumes r: "ipc_ready key N Q R cpu client (sint w) conn h s" and m: "msg \<noteq> 0" "8 \<le> n"
  shows "\<exists>s'. sys_ipc_call cpu w msg n s = Some (Some (of_int (- EINVAL)), s') \<and> sst s' = sst s \<and> cst s' = cst s
    \<and> (\<forall>cpu' t w' conn' msg' n'. ipc_conn t (sint w') conn' h s \<and> current_thread cpu' s = Some t \<longrightarrow>
        sys_ipc_call cpu' w' msg' n' s' = Some (Some (of_int (- EAGAIN)), s'))"
proof -
  from r obtain c hc rg x hx where i: "cap_inv (cst s) R" and cur: "current_thread cpu s = Some client"
    and cap: "caps (cst s) (thread_group s client) (sint w) = Some (conn, rg)" "objects (cst s) conn = Some x" "otype x = TYPE_CONNECTION" "refcount x \<noteq> - 1"
    and c: "conns s conn = Some c" "server_handler_thread c = Some h" and hc: "handler_config_of h s = Some hc" "lock_free (ipc_lock hc)"
    and hx: "ctx (sst s) h = Some hx" "kernel_stack_state hx = KS_FREE" by (auto simp: ipc_ready_def ipc_conn_def)
  let ?d = "set_refs conn x (refcount x + 1) (cst s)"
  let ?hc = "hc\<lparr>ipc_lock := (ipc_lock hc)\<lparr>nxt := nxt (ipc_lock hc) + 1\<rparr>\<rparr>" and ?s = "\<lambda>d. set_config h (Handler (hc\<lparr>ipc_lock := (ipc_lock hc)\<lparr>nxt := nxt (ipc_lock hc) + 1\<rparr>\<rparr>)) (s\<lparr>cst := d\<rparr>)"
  note g = get_obj [OF i cap]
  have l: "grab_ipc_lock conn (s\<lparr>cst := ?d\<rparr>) = Some (0, ?s ?d)"
    by (rule grab_ipc_lock_ok [of _ _ c h hc hx]) (use c hc hx in \<open>simp_all add: handler_cong\<close>)
  have ic: "ipc_send_cap cpu conn msg n (?s ?d) = Some (- EINVAL, ?s ?d)" using m(2) by (auto simp: ipc_send_cap_def MAX_CAP_TRANSFER_def)
  have n0: "n \<noteq> 0" using m(2) by auto
  have p: "put_obj (Some conn) (?s ?d) = Some (?s (cst s))" using g(2) by (simp add: put_obj_def set_config_def)
  have "sys_ipc_call cpu w msg n s = Some (Some (of_int (- EINVAL)), ?s (cst s))"
    using g(1) cur l ic p m(1) n0 by (simp add: sys_ipc_call_def current_cap_group_def in_caps_def EINVAL_def)
  moreover have "sys_ipc_call cpu' w' msg' n' (?s (cst s)) = Some (Some (of_int (- EAGAIN)), ?s (cst s))"
    if "ipc_conn t (sint w') conn' h s" "current_thread cpu' s = Some t" for cpu' t w' conn' msg' n'
    using that i hc lock_held_take [OF hc(2)]
    by (intro sys_ipc_call_busy [of _ R t w' conn' h cpu' ?hc]) (simp_all add: ipc_conn_def lock_held_def lock_free_def)
  ultimately show ?thesis by (intro exI [of _ "?s (cst s)"]) auto
qed

theorem ipc_refused_call_keeps_lock_witness:
  "\<exists>s s1. sys_ipc_call 0 3 0x11234 8 s = Some (Some (of_int (- EINVAL)), s1) \<and> sys_ipc_call 0 3 0x11234 0 s1 = Some (Some (of_int (- EAGAIN)), s1)
     \<and> sys_ipc_call 1 3 0 0 s1 = Some (Some (of_int (- EAGAIN)), s1)"
proof -
  from small_ipc_ready obtain d conn where rd: "ipc_ready (\<lambda>cpu pr. cpu) 8 (\<lambda>_. []) (\<lambda>_. 0) 0 10 3 conn 11 (small_ipc d u vs conn)"
    "ipc_conn 12 3 conn 11 (small_ipc d u vs conn)" for u vs by blast
  let ?s = "small_ipc d undefined 0 conn"
  from rd have r: "ipc_ready (\<lambda>cpu pr. cpu) 8 (\<lambda>_. []) (\<lambda>_. 0) 0 10 (sint (3 :: 32 word)) conn 11 ?s" "ipc_conn 12 (sint (3 :: 32 word)) conn 11 ?s" by simp_all
  then have "ipc_conn 10 (sint (3 :: 32 word)) conn 11 ?s" "current_thread 0 ?s = Some 10" "current_thread 1 ?s = Some 12"
    by (simp_all add: ipc_ready_def small_ipc_def current_thread_def)
  with ipc_refused_call_keeps_lock [OF r(1), of "0x11234" 8] r(2) show ?thesis by force
qed

lemma ipc_ready_vm: "ipc_ready key N Q R cpu client i conn h (s\<lparr>vm := u\<rparr>) \<longleftrightarrow> ipc_ready key N Q R cpu client i conn h s"
  by (simp add: ipc_ready_def ipc_conn_def handler_cong)

text \<open>
  C7: messages are delivered.  The connection of a client and a server has the shared memory object mapped at one address
  in the client and at another in the server.  What the client writes in its mapping, at \<open>off\<close> in the object, is
  what the handler reads, through its own address space, at the address it finds in its first argument when the
  call has put it in the place of the client.
\<close>

theorem ipc_message_delivered:
  assumes r: "ipc_ready key N Q R cpu client (sint w) conn h s" and c: "conns s conn = Some c"
    and f: "frames_ok (vm s)" "pmos (vm s) ob = Some x" "pmo_ok x" and co: "coherent (thread_vmspace s client) (vm s)" "coherent (thread_vmspace s h) (vm s)"
    and wd: "window True (thread_vmspace s client) (client_shm_uaddr c + off) (length bs) ob off (vm s)"
      "window False (thread_vmspace s h) (server_shm_uaddr c + off) (length bs) ob off (vm s)"
    and n: "length bs < 2 ^ 48" "client_shm_uaddr c + off \<noteq> 0"
  shows "\<exists>u s'. user_write (thread_vmspace s client) (client_shm_uaddr c + off) bs (vm s) = Some u
    \<and> sys_ipc_call cpu w (client_shm_uaddr c + off) 0 (s\<lparr>vm := u\<rparr>) = Some (None, s') \<and> current_thread cpu s' = Some h
    \<and> user_read (thread_vmspace s' h) (x0 (ec s' h)) (length bs) (vm s') = Some (bs, vm s')"
proof -
  let ?msg = "client_shm_uaddr c + off"
  from shared_memory_roundtrip [OF f co n(1) wd] obtain u where
    u: "user_write (thread_vmspace s client) ?msg bs (vm s) = Some u" "user_read (thread_vmspace s h) (server_shm_uaddr c + off) (length bs) u = Some (bs, u)"
    by blast
  have r': "ipc_ready key N Q R cpu client (sint w) conn h (s\<lparr>vm := u\<rparr>)" using r by (simp add: ipc_ready_vm)
  from r obtain hc where hc: "handler_config_of h (s\<lparr>vm := u\<rparr>) = Some hc" by (auto simp: ipc_ready_def handler_cong)
  have m: "server_msg c ?msg = server_shm_uaddr c + off" using n(2) by (simp add: server_msg_def)
  from sys_ipc_call_ok [OF r' _ hc, of c ?msg] c obtain s' where s': "sys_ipc_call cpu w ?msg 0 (s\<lparr>vm := u\<rparr>) = Some (None, s')"
    "ipc_serving key N Q R cpu client (sint w) conn h s'" "ec s' h = handler_entry hc c (server_msg c ?msg) (ec s h)" "vm s' = u" "thread_vmspace s' = thread_vmspace s"
    by auto
  have "current_thread cpu s' = Some h" using s'(2) by (simp add: ipc_serving_def)
  with u s' m show ?thesis by (intro exI [of _ u] exI [of _ s']) (simp add: handler_entry_def)
qed

theorem ipc_message_delivered_witness:
  "\<exists>s u s'. user_write (thread_vmspace s 10) 0x11234 [7, 8] (vm s) = Some u \<and> sys_ipc_call 0 3 0x11234 0 (s\<lparr>vm := u\<rparr>) = Some (None, s')
    \<and> current_thread 0 s' = Some 11 \<and> user_read (thread_vmspace s' 11) (x0 (ec s' 11)) 2 (vm s') = Some ([7, 8], vm s')"
proof -
  from small_ipc_ready obtain d conn where rd: "ipc_ready (\<lambda>cpu pr. cpu) 8 (\<lambda>_. []) (\<lambda>_. 0) 0 10 3 conn 11 (small_ipc d u vs conn)" for u vs by blast
  obtain u x where u: "coherent 0 u" "frames_ok u" "pmos u 5 = Some x" "pmo_ok x" "\<forall>w. window w 0 0x11234 2 5 0x1234 u" using small_window [of 0 5] by blast
  let ?s = "small_ipc d u 0 conn"
  from rd have r: "ipc_ready (\<lambda>cpu pr. cpu) 8 (\<lambda>_. []) (\<lambda>_. 0) 0 10 (sint (3 :: 32 word)) conn 11 ?s" by simp
  have f: "vm ?s = u" "thread_vmspace ?s = (\<lambda>_. 0)" by (simp_all add: small_ipc_def)
  obtain c where c: "conns ?s conn = Some c" "client_shm_uaddr c = 0x10000" "server_shm_uaddr c = 0x10000" by (simp add: small_ipc_def)
  have e: "length [7, 8 :: u8] = 2" "client_shm_uaddr c + 0x1234 = 0x11234" "server_shm_uaddr c + 0x1234 = 0x11234" "(2 :: nat) < 2 ^ 48" "(0x11234 :: u64) \<noteq> 0"
    using c by simp_all
  note t = ipc_message_delivered [OF r c(1), of 5 x "0x1234" "[7, 8]", unfolded e(1-3) f, OF u(2-4,1,1) u(5) [rule_format] u(5) [rule_format] e(4,5)]
  show ?thesis by (rule exI [of _ ?s]) (use t in \<open>unfold f, blast\<close>)
qed

text \<open>A capability copied while the connection is held: the reference of the connection is given back afterwards.\<close>

lemma copy_around_ref:
  assumes inv: "cap_inv d R" and cn: "caps d g i = Some (conn, rg)" "objects d conn = Some x" "refcount x < 2 ^ 63"
    and ob: "caps d g k = Some (ob, rts)" "objects d ob = Some y" "refcount y < 2 ^ 63" and rm: "room d hg"
  shows "\<exists>j d2 d3 x'. cap_copy g hg k False 0 (set_refs conn x (refcount x + 1) d) = Some (j, d2) \<and> 0 \<le> j \<and> caps d hg j = None
    \<and> (\<forall>m. 0 \<le> m \<and> m < j \<longrightarrow> caps d hg m \<noteq> None) \<and> obj_put (Some conn) d2 = Some d3 \<and> cap_inv d3 R
    \<and> caps d3 = (caps d)(hg := (caps d hg)(j \<mapsto> (ob, rts))) \<and> objects d3 conn = Some x' \<and> otype x' = otype x \<and> refcount x' \<noteq> - 1"
proof -
  let ?d = "set_refs conn x (refcount x + 1) d" and ?y = "if ob = conn then x\<lparr>refcount := refcount x + 1\<rparr> else y"
  have sm: "z \<noteq> - 1" "z + 1 \<noteq> - 1" "z + 1 - 1 \<noteq> - 1" "z + 1 + 1 - 1 \<noteq> - 1" "z + 1 \<noteq> 0" if "z < 2 ^ 63" for z :: u64
  proof -
    have "z \<noteq> - 1" "z \<noteq> - 2" using that by auto
    moreover have "z = - 2" if "z + 1 = - 1" using that by (simp add: eq_diff_eq [symmetric])
    ultimately show "z \<noteq> - 1" "z + 1 \<noteq> - 1" "z + 1 - 1 \<noteq> - 1" "z + 1 + 1 - 1 \<noteq> - 1" "z + 1 \<noteq> 0"
      by (auto simp: eq_neg_iff_add_eq_0)
  qed
  have i1: "cap_inv ?d (R(conn := R conn + 1))" using get_obj(3) [OF inv cn(1,2)] sm(1) [OF cn(3)] by blast
  have f: "caps ?d = caps d" "room ?d hg" "objects ?d ob = Some ?y" "refcount ?y \<noteq> - 1"
    using rm cn(2) ob(2) sm [OF cn(3)] sm [OF ob(3)] by (auto simp: set_refs_def room_def tsize_def)
  from cap_copy_ok [OF i1, of g k ob rts hg ?y False 0] f ob(1) obtain j d2 where
    d2: "cap_copy g hg k False 0 ?d = Some (j, d2)" "0 \<le> j" "caps d hg j = None" "\<forall>m. 0 \<le> m \<and> m < j \<longrightarrow> caps d hg m \<noteq> None"
      "cap_inv d2 (R(conn := R conn + 1))" "caps d2 = (caps d)(hg := (caps d hg)(j \<mapsto> (ob, rts)))" "objects d2 = (objects ?d)(ob \<mapsto> ?y\<lparr>refcount := refcount ?y + 1\<rparr>)"
    by auto
  have "caps d2 g i = Some (conn, rg)" using d2(3,6) cn(1) by auto
  from put_keeps [OF d2(5) this] obtain d3 z where d3: "obj_put (Some conn) d2 = Some d3" "cap_inv d3 R" "caps d3 = caps d2" "objects d2 conn = Some z"
    "objects d3 conn = Some (z\<lparr>refcount := refcount z - 1\<rparr>)" by auto
  have "otype z = otype x \<and> refcount z - 1 \<noteq> - 1" using d2(7) d3(4) sm [OF cn(3)] by (auto simp: set_refs_def split: if_splits)
  with d2 d3 show ?thesis by (intro exI [of _ j] exI [of _ d2] exI [of _ d3] exI [of _ "z\<lparr>refcount := refcount z - 1\<rparr>"]) simp
qed



end
