(* ===== verification/Notification.thy ===== *)
theory Notification
  imports Thread
begin

text \<open>
  Timers, sleeping and notifications: \<^verbatim>\<open>kernel/irq/timer.c\<close> with the timer of \<^verbatim>\<open>kernel/arch/aarch64/plat/raspi3/irq/timer.c\<close>,
  and \<^verbatim>\<open>kernel/ipc/notification.c\<close>.  The sleep lists and the lists of waiting threads are
  linked lists on heaps of their own.  The counter \<^verbatim>\<open>cntpct_el0\<close> is a sequence of readings, \<^verbatim>\<open>cntv_tval_el0\<close> a register of each CPU.
\<close>

section \<open>State\<close>

record notification =
  not_delivered_notifc_count :: u32
  waiting_threads_count :: u32
  notifc_lock :: lock_impl

record nstate = machine +
  notifics :: "ptr \<Rightarrow> notification option"
  waiting :: list_heap
  sleepers :: list_heap
  sleep_list_lock :: "nat \<Rightarrow> lock_impl"
  next_expire :: "nat \<Rightarrow> u64"
  cntv_tval_el0 :: "nat \<Rightarrow> u64"
  cntpct_el0 :: "nat \<Rightarrow> u64"
  readings :: nat
  tick_per_us :: u64

definition notific_head :: "ptr \<Rightarrow> addr" where "notific_head p = 2 * p"
definition notification_queue_node :: "tid \<Rightarrow> addr" where "notification_queue_node t = 2 * t + 1"
definition sleep_head :: "nat \<Rightarrow> addr" where "sleep_head cpu = 2 * cpu"
definition sleep_node :: "tid \<Rightarrow> addr" where "sleep_node t = 2 * t + 1"
definition thread_of :: "addr \<Rightarrow> tid" where "thread_of n = (n - 1) div 2"

definition upd_notific :: "ptr \<Rightarrow> (notification \<Rightarrow> notification) \<Rightarrow> 'a nstate_scheme \<Rightarrow> 'a nstate_scheme option" where
  "upd_notific p f s = do { n \<leftarrow> notifics s p; Some (s\<lparr>notifics := (notifics s)(p \<mapsto> f n)\<rparr>) }"

definition upd_sleep :: "tid \<Rightarrow> (sleep_state \<Rightarrow> sleep_state) \<Rightarrow> 'a nstate_scheme \<Rightarrow> 'a nstate_scheme" where
  "upd_sleep t f s = s\<lparr>sleep_state := (sleep_state s)(t := f (sleep_state s t))\<rparr>"

definition lock_notific :: "ptr \<Rightarrow> 'a nstate_scheme \<Rightarrow> 'a nstate_scheme option" where
  "lock_notific p s = do {
     n \<leftarrow> notifics s p;
     l \<leftarrow> lock (notifc_lock n);
     upd_notific p (\<lambda>n. n\<lparr>notifc_lock := l\<rparr>) s }"

definition unlock_notific :: "ptr \<Rightarrow> 'a nstate_scheme \<Rightarrow> 'a nstate_scheme option" where
  "unlock_notific p s = upd_notific p (\<lambda>n. n\<lparr>notifc_lock := unlock (notifc_lock n)\<rparr>) s"

definition lock_sleep_list :: "nat \<Rightarrow> 'a nstate_scheme \<Rightarrow> 'a nstate_scheme option" where
  "lock_sleep_list c s = do { l \<leftarrow> lock (sleep_list_lock s c); Some (s\<lparr>sleep_list_lock := (sleep_list_lock s)(c := l)\<rparr>) }"

definition unlock_sleep_list :: "nat \<Rightarrow> 'a nstate_scheme \<Rightarrow> 'a nstate_scheme" where
  "unlock_sleep_list c s = s\<lparr>sleep_list_lock := (sleep_list_lock s)(c := unlock (sleep_list_lock s c))\<rparr>"

section \<open>The timer\<close>

definition NS_IN_S :: u64 where "NS_IN_S = 1000000000"
definition TICK_MS :: u64 where "TICK_MS = 10"

definition plat_get_current_tick :: "'a nstate_scheme \<Rightarrow> u64 \<times> 'a nstate_scheme" where
  "plat_get_current_tick s = (cntpct_el0 s (readings s), s\<lparr>readings := readings s + 1\<rparr>)"

definition plat_set_next_timer :: "nat \<Rightarrow> u64 \<Rightarrow> 'a nstate_scheme \<Rightarrow> 'a nstate_scheme" where
  "plat_set_next_timer cpu tick_delta s = s\<lparr>cntv_tval_el0 := (cntv_tval_el0 s)(cpu := tick_delta)\<rparr>"

definition plat_handle_timer_irq :: "nat \<Rightarrow> u64 \<Rightarrow> 'a nstate_scheme \<Rightarrow> 'a nstate_scheme" where
  "plat_handle_timer_irq cpu tick_delta s = s\<lparr>cntv_tval_el0 := (cntv_tval_el0 s)(cpu := tick_delta)\<rparr>"

text \<open>The lists and locks of \<^verbatim>\<open>timer_init\<close>, on CPU 0.\<close>

definition timer_init :: "'a nstate_scheme \<Rightarrow> 'a nstate_scheme" where
  "timer_init s = s\<lparr>sleepers := fold (\<lambda>i. init_list_head (sleep_head i)) [0..<PLAT_CPU_NUM] (sleepers s),
     sleep_list_lock := (\<lambda>i. if i < PLAT_CPU_NUM then lock_init else sleep_list_lock s i)\<rparr>"

definition get_next_tick_delta :: "nat \<Rightarrow> 'a nstate_scheme \<Rightarrow> u64 \<times> 'a nstate_scheme" where
  "get_next_tick_delta cpu s =
     (let waiting_tick = TICK_MS * 1000 * tick_per_us s
      in if list_empty (sleep_head cpu) (sleepers s) then (waiting_tick, s)
         else let (current_tick, s1) = plat_get_current_tick s;
                  w = wakeup_tick (sleep_state s1 (thread_of (lnext (sleepers s1) (sleep_head cpu))))
              in (if current_tick + waiting_tick > w \<and> w > current_tick then w - current_tick else waiting_tick, s1))"

text \<open>The loop of \<^verbatim>\<open>enqueue_sleeper\<close>: the first node that wakes up later, or the head.\<close>

partial_function (option) find_later :: "addr \<Rightarrow> u64 \<Rightarrow> addr \<Rightarrow> 'a nstate_scheme \<Rightarrow> addr option" where
  [code]: "find_later head w p s =
     (if p = head then Some p
      else if wakeup_tick (sleep_state s (thread_of p)) > w then Some p
      else find_later head w (lnext (sleepers s) p) s)"

definition enqueue_sleeper :: "nat \<Rightarrow> tid \<Rightarrow> u64 \<Rightarrow> u64 \<Rightarrow> timer_cb \<Rightarrow> 'a nstate_scheme \<Rightarrow> 'a nstate_scheme option" where
  "enqueue_sleeper cpu t tv_sec tv_nsec f s = do {
     let total_us = tv_sec * 1000 * 1000 + tv_nsec div 1000;
     let (now, s1) = plat_get_current_tick s;
     let wakeup = now + total_us * tick_per_us s1;
     let s2 = upd_sleep t (\<lambda>x. x\<lparr>wakeup_tick := wakeup, sleep_cpu := cpu\<rparr>) s1;
     s3 \<leftarrow> lock_sleep_list cpu s2;
     p \<leftarrow> find_later (sleep_head cpu) wakeup (lnext (sleepers s3) (sleep_head cpu)) s3;
     let s4 = upd_sleep t (\<lambda>x. x\<lparr>cb := Some f\<rparr>) (s3\<lparr>sleepers := list_append (sleep_node t) p (sleepers s3)\<rparr>);
     let s5 = unlock_sleep_list cpu s4;
     Some (if next_expire s5 cpu > wakeup
           then plat_set_next_timer cpu (total_us * tick_per_us s5) (s5\<lparr>next_expire := (next_expire s5)(cpu := wakeup)\<rparr>)
           else s5) }"

definition try_dequeue_sleeper :: "tid \<Rightarrow> 'a nstate_scheme \<Rightarrow> (bool \<times> 'a nstate_scheme) option" where
  "try_dequeue_sleeper t s = do {
     let c = sleep_cpu (sleep_state s t);
     s1 \<leftarrow> lock_sleep_list c s;
     let (ret, s2) = (if cb (sleep_state s1 t) \<noteq> None
                      then (True, upd_sleep t (\<lambda>x. x\<lparr>cb := None\<rparr>) (s1\<lparr>sleepers := list_del (sleep_node t) (sleepers s1)\<rparr>))
                      else (False, s1));
     Some (ret, unlock_sleep_list c s2) }"

section \<open>Notifications\<close>

definition init_notific :: "ptr \<Rightarrow> 'a nstate_scheme \<Rightarrow> 'a nstate_scheme" where
  "init_notific p s = s\<lparr>notifics := (notifics s)(p \<mapsto> \<lparr>not_delivered_notifc_count = 0, waiting_threads_count = 0, notifc_lock = lock_init\<rparr>),
     waiting := init_list_head (notific_head p) (waiting s)\<rparr>"

definition notific_timer :: "sched_ops \<Rightarrow> nat \<Rightarrow> tid \<Rightarrow> 'a nstate_scheme \<Rightarrow> 'a nstate_scheme option" where
  "notific_timer ops cpu t s = do {
     p \<leftarrow> pending_notific (sleep_state s t);
     let s1 = upd_sleep t (\<lambda>x. x\<lparr>pending_notific := None\<rparr>) s;
     s2 \<leftarrow> lock_notific p s1;
     c \<leftarrow> ctx (sst s2) t;
     if tstate c \<noteq> TS_WAITING then unlock_notific p s2
     else do {
       let s3 = s2\<lparr>waiting := list_del (notification_queue_node t) (waiting s2)\<rparr>;
       n \<leftarrow> notifics s3 p;
       BUG_ON (waiting_threads_count n = 0);
       s4 \<leftarrow> upd_notific p (\<lambda>n. n\<lparr>waiting_threads_count := waiting_threads_count n - 1\<rparr>) s3;
       s5 \<leftarrow> set_thread_state t TS_INTER (arch_set_thread_return t (of_int (- EAGAIN)) s4);
       s6 \<leftarrow> enqueue ops cpu t s5;
       unlock_notific p s6 } }"

text \<open>
  \<^const>\<open>None\<close> in the place of the result: the thread blocks and the system call does not return to its caller.  A \<^verbatim>\<open>timespec\<close>
  is given by its two fields.
\<close>

definition wait_notific ::
  "sched_ops \<Rightarrow> nat \<Rightarrow> ptr \<Rightarrow> bool \<Rightarrow> (u64 \<times> u64) option \<Rightarrow> 'a nstate_scheme \<Rightarrow> (int option \<times> 'a nstate_scheme) option" where
  "wait_notific ops cpu p is_block timeout s = do {
     s1 \<leftarrow> lock_notific p s;
     n \<leftarrow> notifics s1 p;
     if not_delivered_notifc_count n > 0 then do {
       s2 \<leftarrow> upd_notific p (\<lambda>n. n\<lparr>not_delivered_notifc_count := not_delivered_notifc_count n - 1\<rparr>) s1;
       s3 \<leftarrow> unlock_notific p s2;
       Some (Some 0, s3) }
     else if is_block then do {
       t \<leftarrow> current_thread cpu s1;
       let s2 = s1\<lparr>waiting := list_append (notification_queue_node t) (notific_head p) (waiting s1)\<rparr>;
       s3 \<leftarrow> set_thread_state t TS_WAITING s2;
       s4 \<leftarrow> upd_notific p (\<lambda>n. n\<lparr>waiting_threads_count := waiting_threads_count n + 1\<rparr>) s3;
       let s5 = arch_set_thread_return t 0 s4;
       s6 \<leftarrow> (case timeout of None \<Rightarrow> Some s5
         | Some (sec, nsec) \<Rightarrow> enqueue_sleeper cpu t sec nsec notific_timer_cb (upd_sleep t (\<lambda>x. x\<lparr>pending_notific := Some p\<rparr>) s5));
       s7 \<leftarrow> do_sched ops cpu s6;
       s8 \<leftarrow> unlock_notific p s7;
       s9 \<leftarrow> end_switch cpu s8;
       Some (None, s9) }
     else do {
       s2 \<leftarrow> unlock_notific p s1;
       Some (Some (- EAGAIN), s2) } }"

definition try_remove_timeout :: "tid option \<Rightarrow> ptr \<Rightarrow> 'a nstate_scheme \<Rightarrow> 'a nstate_scheme option" where
  "try_remove_timeout target p s = (case target of
     None \<Rightarrow> Some s
   | Some t \<Rightarrow>
       if cb (sleep_state s t) = None then Some s
       else do {
         (r, s1) \<leftarrow> try_dequeue_sleeper t s;
         BUG_ON (pending_notific (sleep_state s1 t) \<noteq> None \<and> pending_notific (sleep_state s1 t) \<noteq> Some p);
         Some (upd_sleep t (\<lambda>x. x\<lparr>pending_notific := None\<rparr>) s1) })"

definition signal_notific ::
  "sched_ops \<Rightarrow> nat \<Rightarrow> ptr \<Rightarrow> bool \<Rightarrow> 'a nstate_scheme \<Rightarrow> (int option \<times> 'a nstate_scheme) option" where
  "signal_notific ops cpu p enable_direct_switch s = do {
     s1 \<leftarrow> lock_notific p s;
     n \<leftarrow> notifics s1 p;
     (target, s2) \<leftarrow> (if not_delivered_notifc_count n > 0 \<or> waiting_threads_count n = 0
       then do {
         s2 \<leftarrow> upd_notific p (\<lambda>n. n\<lparr>not_delivered_notifc_count := not_delivered_notifc_count n + 1\<rparr>) s1;
         Some (None, s2) }
       else do {
         let t = thread_of (lnext (waiting s1) (notific_head p));
         s2 \<leftarrow> upd_notific p (\<lambda>n. n\<lparr>waiting_threads_count := waiting_threads_count n - 1\<rparr>)
                (s1\<lparr>waiting := list_del (notification_queue_node t) (waiting s1)\<rparr>);
         Some (Some t, s2) });
     case target of
       None \<Rightarrow> do { s3 \<leftarrow> unlock_notific p s2; Some (Some 0, s3) }
     | Some t \<Rightarrow> do {
         c \<leftarrow> ctx (sst s2) t;
         if enable_direct_switch \<and> (affinity c = NO_AFF \<or> affinity c = int cpu) then do {
           cur \<leftarrow> current_thread cpu s2;
           s3 \<leftarrow> enqueue ops cpu cur (arch_set_thread_return cur 0 s2);
           s4 \<leftarrow> unlock_notific p s3;
           s5 \<leftarrow> try_remove_timeout (Some t) p s4;
           s6 \<leftarrow> go_to_thread cpu t s5;
           Some (None, s6) }
         else do {
           s3 \<leftarrow> set_thread_state t TS_INTER s2;
           s4 \<leftarrow> enqueue ops cpu t s3;
           s5 \<leftarrow> unlock_notific p s4;
           s6 \<leftarrow> try_remove_timeout (Some t) p s5;
           Some (Some 0, s6) } } }"

definition sizeof_notification :: nat where "sizeof_notification = 32"

definition sys_create_notifc :: "nat \<Rightarrow> 'a nstate_scheme \<Rightarrow> (int \<times> 'a nstate_scheme) option" where
  "sys_create_notifc cpu s = do {
     (x, s1) \<leftarrow> in_caps (obj_alloc TYPE_NOTIFICATION sizeof_notification) s;
     case x of
       None \<Rightarrow> Some (- ENOMEM, s1)
     | Some p \<Rightarrow> do {
         let s2 = init_notific p s1;
         g \<leftarrow> current_cap_group cpu s2;
         (cap, s3) \<leftarrow> in_caps (cap_alloc g p 0) s2;
         if cap < 0 then do { s4 \<leftarrow> free_obj (Some p) s3; Some (cap, s4) }
         else Some (cap, s3) } }"

text \<open>The reference taken by \<^verbatim>\<open>obj_get\<close> is given back only when the call returns here.\<close>

definition sys_wait :: "sched_ops \<Rightarrow> nat \<Rightarrow> 32 word \<Rightarrow> bool \<Rightarrow> u64 \<Rightarrow> 'a nstate_scheme \<Rightarrow> (int option \<times> 'a nstate_scheme) option" where
  "sys_wait ops cpu notifc_cap is_block timeout s = do {
     g \<leftarrow> current_cap_group cpu s;
     (x, s1) \<leftarrow> in_caps (obj_get g (sint notifc_cap) TYPE_NOTIFICATION) s;
     case x of
       None \<Rightarrow> Some (Some (- ECAPBILITY), s1)
     | Some p \<Rightarrow> do {
         (tmo, s2) \<leftarrow> (if timeout \<noteq> 0 then do {
                         (bs, s2) \<leftarrow> copy_from_user cpu timeout 16 s1;
                         Some (Some (of_bytes (take 8 bs), of_bytes (drop 8 bs)), s2) }
                       else Some (None, s1));
         (ret, s3) \<leftarrow> wait_notific ops cpu p is_block tmo s2;
         case ret of
           None \<Rightarrow> Some (None, s3)
         | Some r \<Rightarrow> do { s4 \<leftarrow> put_obj (Some p) s3; Some (Some r, s4) } } }"

definition sys_notify :: "sched_ops \<Rightarrow> nat \<Rightarrow> 32 word \<Rightarrow> 'a nstate_scheme \<Rightarrow> (int option \<times> 'a nstate_scheme) option" where
  "sys_notify ops cpu notifc_cap s = do {
     g \<leftarrow> current_cap_group cpu s;
     (x, s1) \<leftarrow> in_caps (obj_get g (sint notifc_cap) TYPE_NOTIFICATION) s;
     case x of
       None \<Rightarrow> Some (Some (- ECAPBILITY), s1)
     | Some p \<Rightarrow> do {
         (ret, s2) \<leftarrow> signal_notific ops cpu p True s1;
         case ret of
           None \<Rightarrow> Some (None, s2)
         | Some r \<Rightarrow> do { s3 \<leftarrow> put_obj (Some p) s2; Some (Some r, s3) } } }"

section \<open>Sleeping and the timer interrupt\<close>

definition sleep_timer :: "sched_ops \<Rightarrow> nat \<Rightarrow> tid \<Rightarrow> 'a nstate_scheme \<Rightarrow> 'a nstate_scheme option" where
  "sleep_timer ops cpu t s = do { s1 \<leftarrow> set_thread_state t TS_INTER s; enqueue ops cpu t s1 }"

definition sys_clock_nanosleep :: "sched_ops \<Rightarrow> nat \<Rightarrow> u64 \<Rightarrow> 'a nstate_scheme \<Rightarrow> 'a nstate_scheme option" where
  "sys_clock_nanosleep ops cpu req s = do {
     (bs, s1) \<leftarrow> copy_from_user cpu req 16 s;
     t \<leftarrow> current_thread cpu s1;
     s2 \<leftarrow> enqueue_sleeper cpu t (of_bytes (take 8 bs)) (of_bytes (drop 8 bs)) sleep_timer_cb s1;
     s3 \<leftarrow> set_thread_state t TS_WAITING s2;
     s4 \<leftarrow> do_sched ops cpu s3;
     end_switch cpu s4 }"

definition run_cb :: "sched_ops \<Rightarrow> nat \<Rightarrow> tid \<Rightarrow> 'a nstate_scheme \<Rightarrow> 'a nstate_scheme option" where
  "run_cb ops cpu t s = (case cb (sleep_state s t) of
     None \<Rightarrow> None
   | Some sleep_timer_cb \<Rightarrow> do { c \<leftarrow> ctx (sst s) t; BUG_ON (tstate c \<noteq> TS_WAITING); sleep_timer ops cpu t s }
   | Some notific_timer_cb \<Rightarrow> notific_timer ops cpu t s)"

text \<open>The loop of \<^verbatim>\<open>handle_timer_irq\<close>, with the node and the one after it.\<close>

partial_function (option) wake_sleepers :: "sched_ops \<Rightarrow> nat \<Rightarrow> u64 \<Rightarrow> addr \<Rightarrow> addr \<Rightarrow> 'a nstate_scheme \<Rightarrow> 'a nstate_scheme option" where
  [code]: "wake_sleepers ops cpu current_tick p tmp s =
     (if p = sleep_head cpu then Some s
      else let t = thread_of p in
        if wakeup_tick (sleep_state s t) < current_tick then do {
          s1 \<leftarrow> run_cb ops cpu t (s\<lparr>sleepers := list_del p (sleepers s)\<rparr>);
          let s2 = upd_sleep t (\<lambda>x. x\<lparr>cb := None\<rparr>) s1;
          wake_sleepers ops cpu current_tick tmp (lnext (sleepers s2) tmp) s2 }
        else Some s)"

definition handle_timer_irq :: "sched_ops \<Rightarrow> nat \<Rightarrow> 'a nstate_scheme \<Rightarrow> 'a nstate_scheme option" where
  "handle_timer_irq ops cpu s = do {
     let (current_tick, s1) = plat_get_current_tick s;
     s2 \<leftarrow> lock_sleep_list cpu s1;
     let first = lnext (sleepers s2) (sleep_head cpu);
     s3 \<leftarrow> wake_sleepers ops cpu current_tick first (lnext (sleepers s2) first) s2;
     let (tick_delta, s4) = get_next_tick_delta cpu s3;
     let s5 = unlock_sleep_list cpu s4;
     let s6 = plat_handle_timer_irq cpu tick_delta (s5\<lparr>next_expire := (next_expire s5)(cpu := current_tick + tick_delta)\<rparr>);
     case current_thread cpu s6 of
       None \<Rightarrow> Some s6
     | Some t \<Rightarrow> do {
         c \<leftarrow> ctx (sst s6) t;
         BUG_ON (budget c = 0);
         upd_ctx t (\<lambda>c. c\<lparr>budget := budget c - 1\<rparr>) s6 } }"

definition plat_get_mono_time :: "u64 \<Rightarrow> 'a nstate_scheme \<Rightarrow> (u64 \<times> 'a nstate_scheme) option" where
  "plat_get_mono_time cntv_init s =
     (let (cur_cnt, s1) = plat_get_current_tick s
      in if tick_per_us s1 = 0 then None else Some ((cur_cnt - cntv_init) * 1000 div tick_per_us s1, s1))"

definition sys_clock_gettime :: "u64 \<Rightarrow> nat \<Rightarrow> u64 \<Rightarrow> 'a nstate_scheme \<Rightarrow> (int \<times> 'a nstate_scheme) option" where
  "sys_clock_gettime cntv_init cpu ts s =
     (if ts = 0 then Some (- 1, s)
      else do {
        (bs, s1) \<leftarrow> copy_from_user cpu ts 16 s;
        (mono_ns, s2) \<leftarrow> plat_get_mono_time cntv_init s1;
        s3 \<leftarrow> copy_to_user cpu ts (to_bytes 8 (mono_ns div NS_IN_S) @ to_bytes 8 (mono_ns mod NS_IN_S)) s2;
        Some (0, s3) })"

section \<open>The sleep lists\<close>

lemma node_simps [simp]:
  "sleep_node t = sleep_node u \<longleftrightarrow> t = u" "sleep_node t \<noteq> sleep_head c" "sleep_head c \<noteq> sleep_node t" "thread_of (sleep_node t) = t"
  "notification_queue_node t = notification_queue_node u \<longleftrightarrow> t = u" "notification_queue_node t \<noteq> notific_head p" "notific_head p \<noteq> notification_queue_node t"
  "thread_of (notification_queue_node t) = t" "sleep_head c = sleep_head c' \<longleftrightarrow> c = c'" "notific_head p = notific_head p' \<longleftrightarrow> p = p'"
  by (simp_all add: sleep_node_def sleep_head_def notification_queue_node_def notific_head_def thread_of_def) presburger+

definition wakeup :: "'a nstate_scheme \<Rightarrow> tid \<Rightarrow> u64" where
  "wakeup s t = wakeup_tick (sleep_state s t)"

definition sleep_lists :: "(nat \<Rightarrow> tid list) \<Rightarrow> 'a nstate_scheme \<Rightarrow> bool" where
  "sleep_lists S s \<longleftrightarrow> dl.family sleep_head {..<PLAT_CPU_NUM} (sleepers s) (\<lambda>c. map sleep_node (S c))"

text \<open>The threads that wait for a timer are those on the sleep lists, in the order in which they are due.\<close>

definition sleep_ok :: "(nat \<Rightarrow> tid list) \<Rightarrow> 'a nstate_scheme \<Rightarrow> bool" where
  "sleep_ok S s \<longleftrightarrow> sleep_lists S s \<and> (\<forall>c < PLAT_CPU_NUM. sorted (map (wakeup s) (S c)) \<and> lock_free (sleep_list_lock s c)
     \<and> (\<forall>t. t \<in> set (S c) \<longleftrightarrow> cb (sleep_state s t) \<noteq> None \<and> sleep_cpu (sleep_state s t) = c))"

lemma find_later_lseg:
  assumes "lseg (sleepers s) p (map sleep_node ts) (sleep_head c)"
  shows "find_later (sleep_head c) w (lnext (sleepers s) p) s
    = Some (case dropWhile (\<lambda>t. wakeup s t \<le> w) ts of [] \<Rightarrow> sleep_head c | u # us \<Rightarrow> sleep_node u)"
  using assms
proof (induction ts arbitrary: p)
  case Nil
  then show ?case by (subst find_later.simps) simp
next
  case (Cons t ts)
  then have n: "lnext (sleepers s) p = sleep_node t" "lseg (sleepers s) (sleep_node t) (map sleep_node ts) (sleep_head c)" by auto
  show ?case unfolding n(1) by (subst find_later.simps) (use Cons.IH [OF n(2)] in \<open>auto simp: wakeup_def\<close>)
qed

text \<open>\<^const>\<open>list_append\<close> at a node inserts before it.\<close>

lemma list_append_before: "is_list h l (xs @ p # ys) \<Longrightarrow> list_append n p h = list_add n (last (l # xs)) h"
  using lseg_last [of h l xs p] by (simp add: list_append_def is_list_def lseg_append del: last.simps)

lemma family_insert_before:
  assumes f: "dl.family hp K h F" and k: "k \<in> K" and n: "dl.fresh hp K F n" and e: "F k = xs @ ys"
  shows "dl.family hp K (list_append n (case ys of [] \<Rightarrow> hp k | p # ps \<Rightarrow> p) h) (F(k := xs @ n # ys))"
proof (cases ys)
  case Nil
  then show ?thesis using dl.family_append [OF f k n] e by simp
next
  case (Cons p ps)
  have l: "is_list h (hp k) (xs @ p # ps)" using dl.family_content [OF f k] e Cons by simp
  show ?thesis
  proof (cases xs rule: rev_cases)
    case Nil
    then show ?thesis using dl.family_add [OF f k n] list_append_before [OF l, of n] e Cons by simp
  next
    case (snoc zs q)
    then show ?thesis using dl.family_add_after [OF f k n, of zs q "p # ps"] list_append_before [OF l, of n] e Cons by simp
  qed
qed

lemma map_upd_seq: "(\<lambda>k. map f (F k))(k := map f xs) = (\<lambda>j. map f ((F(k := xs)) j))"
  by auto

lemma map_remove1_inj: "(\<And>x y. f x = f y \<longleftrightarrow> x = y) \<Longrightarrow> map f (remove1 x xs) = remove1 (f x) (map f xs)"
  by (induction xs) auto

lemma sleep_insert:
  assumes f: "sleep_lists S s" and c: "c < PLAT_CPU_NUM" and n: "\<forall>k < PLAT_CPU_NUM. t \<notin> set (S k)" and e: "S c = xs @ ys"
  shows "dl.family sleep_head {..<PLAT_CPU_NUM} (list_append (sleep_node t) (case ys of [] \<Rightarrow> sleep_head c | u # us \<Rightarrow> sleep_node u) (sleepers s))
    (\<lambda>k. map sleep_node ((S(c := xs @ t # ys)) k))"
proof -
  have fr: "dl.fresh sleep_head {..<PLAT_CPU_NUM} (\<lambda>c. map sleep_node (S c)) (sleep_node t)" using n by (auto simp: dl.fresh_def)
  have "(case map sleep_node ys of [] \<Rightarrow> sleep_head c | p # ps \<Rightarrow> p) = (case ys of [] \<Rightarrow> sleep_head c | u # us \<Rightarrow> sleep_node u)" by (cases ys) auto
  with family_insert_before [OF f [unfolded sleep_lists_def] _ fr, of c "map sleep_node xs" "map sleep_node ys"] c e
  show ?thesis using map_upd_seq [of sleep_node S c "xs @ t # ys"] by simp
qed

lemma sleep_delete:
  assumes f: "sleep_lists S s" and c: "c < PLAT_CPU_NUM" "t \<in> set (S c)"
  shows "sleep_lists (S(c := remove1 t (S c))) (s\<lparr>sleepers := list_del (sleep_node t) (sleepers s)\<rparr>)"
proof -
  have "map sleep_node (remove1 t (S c)) = remove1 (sleep_node t) (map sleep_node (S c))" by (rule map_remove1_inj) simp
  with dl.family_del [OF f [unfolded sleep_lists_def], of c "sleep_node t"] c show ?thesis
    using map_upd_seq [of sleep_node S c "remove1 t (S c)"] by (simp add: sleep_lists_def)
qed

lemma sleep_fields [simp]:
  "wakeup (s\<lparr>sleepers := h\<rparr>) = wakeup s" "wakeup (s\<lparr>sleep_list_lock := l\<rparr>) = wakeup s" "wakeup (s\<lparr>readings := m\<rparr>) = wakeup s"
  by (simp_all add: wakeup_def fun_eq_iff)

lemma sorted_insert:
  assumes "sorted (map f xs)" "f x = w"
  shows "sorted (map f (takeWhile (\<lambda>y. f y \<le> w) xs @ x # dropWhile (\<lambda>y. f y \<le> w) xs))"
proof -
  have "sorted (map f (takeWhile (\<lambda>y. f y \<le> w) xs) @ map f (dropWhile (\<lambda>y. f y \<le> w) xs))"
    using assms(1) by (metis map_append takeWhile_dropWhile_id)
  moreover have "w < f y" if "y \<in> set (dropWhile (\<lambda>y. f y \<le> w) xs)" for y
  proof -
    from that obtain z zs where z: "dropWhile (\<lambda>y. f y \<le> w) xs = z # zs" by (cases "dropWhile (\<lambda>y. f y \<le> w) xs") auto
    then have "w < f z" by (metis dropWhile_eq_Cons_conv not_le)
    moreover have "sorted (map f (z # zs))" using assms(1) z by (metis map_append sorted_append takeWhile_dropWhile_id)
    ultimately show ?thesis using that z by auto
  qed
  ultimately show ?thesis using assms(2) by (auto simp: sorted_append dest: set_takeWhileD intro: less_imp_le)
qed

lemma sleep_ok_insert:
  assumes ok: "sleep_ok S s" and cpu: "cpu < PLAT_CPU_NUM" and t: "cb (sleep_state s t) = None"
    and L: "L = takeWhile (\<lambda>u. wakeup s u \<le> w) (S cpu) @ t # dropWhile (\<lambda>u. wakeup s u \<le> w) (S cpu)"
    and s': "sleep_state s' = (sleep_state s)(t := (sleep_state s t)\<lparr>wakeup_tick := w, sleep_cpu := cpu, cb := Some f\<rparr>)" "sleep_lists (S(cpu := L)) s'"
      "sleep_list_lock s' = (sleep_list_lock s)(cpu := unlock (taken (sleep_list_lock s cpu)))"
  shows "sleep_ok (S(cpu := L)) s'"
proof -
  have wk: "wakeup s' u = (if u = t then w else wakeup s u)" for u by (simp add: wakeup_def s'(1))
  have nt: "t \<notin> set (S k)" if "k < PLAT_CPU_NUM" for k using ok t that by (auto simp: sleep_ok_def)
  have un: "map (wakeup s') (S k) = map (wakeup s) (S k)" if "k < PLAT_CPU_NUM" for k using wk nt [OF that] by auto
  have so: "sorted (map (wakeup s) (S k))" if "k < PLAT_CPU_NUM" for k using ok that by (auto simp: sleep_ok_def)
  have "takeWhile (\<lambda>u. wakeup s' u \<le> w) (S cpu) @ t # dropWhile (\<lambda>u. wakeup s' u \<le> w) (S cpu) = L"
    unfolding L using nt [OF cpu] by (intro arg_cong2 [where f = append] arg_cong2 [where f = Cons] takeWhile_cong dropWhile_cong refl) (auto simp: wk)
  then have sL: "sorted (map (wakeup s') L)" using sorted_insert [of "wakeup s'" "S cpu" t w] so [OF cpu] un [OF cpu] wk by simp
  have "sorted (map (wakeup s') ((S(cpu := L)) c))" if "c < PLAT_CPU_NUM" for c
    using sL so [OF that] un [OF that] by (cases "c = cpu") (simp_all del: map_eq_conv)
  moreover have "u \<in> set L \<longleftrightarrow> u = t \<or> u \<in> set (S cpu)" for u
    unfolding L by (metis Un_iff list.set_intros(1) list.set_intros(2) set_ConsD set_append takeWhile_dropWhile_id)
  ultimately show ?thesis using ok s' nt unfolding sleep_ok_def by auto
qed


section \<open>Waiting threads\<close>

definition wait_lists :: "(ptr \<Rightarrow> tid list) \<Rightarrow> 'a nstate_scheme \<Rightarrow> bool" where
  "wait_lists W s \<longleftrightarrow> dl.family notific_head (dom (notifics s)) (waiting s) (\<lambda>p. map notification_queue_node (W p))"

text \<open>The list of a notification holds as many threads as it counts, and every one of them is waiting.\<close>

definition wait_ok :: "(ptr \<Rightarrow> tid list) \<Rightarrow> 'a nstate_scheme \<Rightarrow> bool" where
  "wait_ok W s \<longleftrightarrow> wait_lists W s \<and> (\<forall>p n. notifics s p = Some n \<longrightarrow> lock_free (notifc_lock n) \<and> waiting_threads_count n = of_nat (length (W p))
     \<and> length (W p) < 2 ^ 32 \<and> (\<forall>t \<in> set (W p). \<exists>c. ctx (sst s) t = Some c \<and> tstate c = TS_WAITING))"

text \<open>A waiting thread that the scheduler, asked on CPU \<open>cpu\<close>, puts on the queue of CPU \<open>k\<close>.\<close>

definition waits :: "nat \<Rightarrow> nat \<Rightarrow> tid \<Rightarrow> 'a machine_scheme \<Rightarrow> bool" where
  "waits cpu k t s \<longleftrightarrow> (\<exists>c. ctx (sst s) t = Some c \<and> tstate c = TS_WAITING \<and> ttype c \<noteq> TYPE_IDLE \<and> prio c \<le> MAX_PRIO \<and> target_cpu cpu c = k \<and> k < PLAT_CPU_NUM)"

lemma wake_ok:
  assumes q: "rr_ok (sst s) Q" and w: "waits cpu k t s"
  shows "\<exists>u c'. do { s1 \<leftarrow> set_thread_state t TS_INTER s; enqueue rr cpu t s1 } = Some (s\<lparr>sst := u\<rparr>) \<and> rr_ok u (Q(k := Q k @ [t]))
    \<and> ctx u = (ctx (sst s))(t \<mapsto> c') \<and> tstate c' = TS_READY \<and> current_threads u = current_threads (sst s)"
proof -
  from w obtain c where c: "ctx (sst s) t = Some c" "tstate c = TS_WAITING" "ttype c \<noteq> TYPE_IDLE" "prio c \<le> MAX_PRIO" "target_cpu cpu c = k" "k < PLAT_CPU_NUM"
    by (auto simp: waits_def)
  let ?u = "set_ctx t (c\<lparr>tstate := TS_INTER\<rparr>) (sst s)"
  have "rr_ok ?u Q" using c by (intro queues_ctx [OF q]) auto
  moreover have "target_cpu cpu (c\<lparr>tstate := TS_INTER\<rparr>) = k" using c(5) by (auto simp: target_cpu_def)
  ultimately obtain u c' where
    "op_sched_enqueue rr cpu t ?u = Some (0, u)" "rr_ok u (Q(k := Q k @ [t]))" "ctx u = (ctx (sst s))(t \<mapsto> c')" "tstate c' = TS_READY" "current_threads u = current_threads (sst s)"
    using enqueue_rr [of ?u Q t "c\<lparr>tstate := TS_INTER\<rparr>" cpu k] c by auto
  then show ?thesis using c(1) by (intro exI [of _ u] exI [of _ c']) (simp add: set_thread_state_def upd_ctx_def enqueue_def)
qed

lemma lock_notific_ok:
  assumes "notifics s p = Some n" "lock_free (notifc_lock n)"
  shows "lock_notific p s = Some (s\<lparr>notifics := (notifics s)(p \<mapsto> n\<lparr>notifc_lock := taken (notifc_lock n)\<rparr>)\<rparr>)"
  using assms by (simp add: lock_notific_def upd_notific_def lock_simps)

lemma wait_okD:
  assumes "wait_ok W s" "notifics s p = Some n"
  shows "lock_free (notifc_lock n)" "waiting_threads_count n = of_nat (length (W p))" "length (W p) < 2 ^ 32" "t \<in> set (W p) \<Longrightarrow> \<exists>c. ctx (sst s) t = Some c \<and> tstate c = TS_WAITING"
    "waiting_threads_count n = 0 \<longleftrightarrow> W p = []"
proof -
  show w: "lock_free (notifc_lock n)" "waiting_threads_count n = of_nat (length (W p))" "length (W p) < 2 ^ 32" "t \<in> set (W p) \<Longrightarrow> \<exists>c. ctx (sst s) t = Some c \<and> tstate c = TS_WAITING"
    using assms by (auto simp: wait_ok_def)
  have "unat (of_nat (length (W p)) :: u32) = length (W p)" using w(3) by (simp add: unat_of_nat_lt)
  then show "waiting_threads_count n = 0 \<longleftrightarrow> W p = []" using w(2) by (auto simp: unat_eq_0 [symmetric])
qed

lemma wait_delete:
  assumes f: "wait_lists W s" and p: "notifics s p \<noteq> None" "t \<in> set (W p)"
  shows "dl.family notific_head (dom (notifics s)) (list_del (notification_queue_node t) (waiting s)) (\<lambda>k. map notification_queue_node ((W(p := remove1 t (W p))) k))"
proof -
  have "map notification_queue_node (remove1 t (W p)) = remove1 (notification_queue_node t) (map notification_queue_node (W p))" by (rule map_remove1_inj) simp
  with dl.family_del [OF f [unfolded wait_lists_def], of p "notification_queue_node t"] p show ?thesis
    using map_upd_seq [of notification_queue_node W p "remove1 t (W p)"] by auto
qed

text \<open>A thread is on one list at most.\<close>

lemma wait_unique: "wait_ok W s \<Longrightarrow> notifics s p \<noteq> None \<Longrightarrow> notifics s p' \<noteq> None \<Longrightarrow> t \<in> set (W p) \<Longrightarrow> t \<in> set (W p') \<Longrightarrow> p = p'"
  using dl.family_disjoint [of notific_head "dom (notifics s)" "waiting s" "\<lambda>p. map notification_queue_node (W p)" p p']
  by (auto simp: wait_ok_def wait_lists_def)

lemma wait_distinct: "wait_ok W s \<Longrightarrow> notifics s p \<noteq> None \<Longrightarrow> distinct (W p)"
  using dl.family_distinct [of notific_head "dom (notifics s)" "waiting s" "\<lambda>p. map notification_queue_node (W p)" p]
  by (auto simp: wait_ok_def wait_lists_def distinct_map)

lemma sleep_ok_cong:
  assumes "sleepers s' = sleepers s" "sleep_state s' = sleep_state s" "sleep_list_lock s' = sleep_list_lock s"
  shows "sleep_ok S s' \<longleftrightarrow> sleep_ok S s"
proof -
  have "wakeup s' = wakeup s" using assms(2) by (simp add: wakeup_def fun_eq_iff)
  then show ?thesis using assms by (simp add: sleep_ok_def sleep_lists_def)
qed

lemma wait_ok_same:
  assumes w: "wait_ok W s" and n: "notifics s p = Some n"
    and s': "notifics s' = (notifics s)(p \<mapsto> n')" "lock_free (notifc_lock n')" "waiting_threads_count n' = waiting_threads_count n" "waiting s' = waiting s" "sst s' = sst s"
  shows "wait_ok W s'"
proof -
  have "dom (notifics s') = dom (notifics s)" using n s'(1) by auto
  then show ?thesis using w n s' by (auto simp: wait_ok_def wait_lists_def)
qed

lemma first_waiting:
  assumes "wait_ok W s" "notifics s p = Some n" "W p = t # ws"
  shows "thread_of (lnext (waiting s) (notific_head p)) = t"
proof -
  have "is_list (waiting s) (notific_head p) (map notification_queue_node (W p))"
    using assms(1,2) dl.family_content [of notific_head "dom (notifics s)" "waiting s" "\<lambda>p. map notification_queue_node (W p)" p] by (auto simp: wait_ok_def wait_lists_def)
  then show ?thesis using assms(3) by (simp add: is_list_def)
qed

text \<open>Taking thread \<open>t\<close> off the list of \<open>p\<close> and making it ready.\<close>

lemma wait_ok_wake:
  assumes w: "wait_ok W s" and n: "notifics s p = Some n" and t: "t \<in> set (W p)"
    and s': "notifics s' = (notifics s)(p \<mapsto> n')" "lock_free (notifc_lock n')" "waiting_threads_count n' = waiting_threads_count n - 1"
      "waiting s' = list_del (notification_queue_node t) (waiting s)" "ctx (sst s') = (ctx (sst s))(t \<mapsto> c')"
  shows "wait_ok (W(p := remove1 t (W p))) s'"
proof -
  have f: "wait_lists W s" using w by (simp add: wait_ok_def)
  have dom: "dom (notifics s') = dom (notifics s)" using n s'(1) by auto
  have "length (W p) = Suc (length (remove1 t (W p)))" using t by (simp add: length_remove1) (metis length_pos_if_in_set Suc_pred)
  then have c: "waiting_threads_count n' = of_nat (length (remove1 t (W p)))" "length (remove1 t (W p)) < 2 ^ 32"
    using wait_okD(2,3) [OF w n] s'(3) by (simp_all del: length_remove1)
  have nt: "t \<notin> set (remove1 t (W p))" using wait_distinct [OF w, of p] n by simp
  have "m \<noteq> p \<Longrightarrow> notifics s m = Some x \<Longrightarrow> t \<notin> set (W m)" for m x using wait_unique [OF w, of p m t] n t by auto
  then show ?thesis
    using w n s'(1,2,5) c nt wait_delete [OF f _ t] wait_okD(4) [OF w n]
    unfolding wait_ok_def wait_lists_def dom s'(4) by (auto simp del: length_remove1)
qed

lemma try_remove_timeout_ok:
  assumes ok: "sleep_ok S s" and t: "cb (sleep_state s t) \<noteq> None \<Longrightarrow> sleep_cpu (sleep_state s t) < PLAT_CPU_NUM \<and> pending_notific (sleep_state s t) \<in> {None, Some p}"
  shows "\<exists>s'. try_remove_timeout (Some t) p s = Some s' \<and> sleep_ok (\<lambda>c. remove1 t (S c)) s' \<and> cb (sleep_state s' t) = None \<and> sst s' = sst s \<and> cst s' = cst s
    \<and> notifics s' = notifics s \<and> waiting s' = waiting s \<and> (\<forall>u. u \<noteq> t \<longrightarrow> sleep_state s' u = sleep_state s u)"
proof (cases "cb (sleep_state s t)")
  case None
  then have "t \<notin> set (S c)" if "c < PLAT_CPU_NUM" for c using ok that by (auto simp: sleep_ok_def)
  then have "remove1 t (S c) = S c" if "c < PLAT_CPU_NUM" for c using that by (simp add: remove1_idem)
  then have "sleep_ok (\<lambda>c. remove1 t (S c)) s" using ok by (simp add: sleep_ok_def sleep_lists_def dl.family_def)
  then show ?thesis using None by (simp add: try_remove_timeout_def)
next
  case (Some f)
  let ?c = "sleep_cpu (sleep_state s t)"
  have c: "?c < PLAT_CPU_NUM" "t \<in> set (S ?c)" "lock_free (sleep_list_lock s ?c)" using ok t Some by (auto simp: sleep_ok_def)
  have d: "distinct (S k)" "k \<noteq> ?c \<Longrightarrow> t \<notin> set (S k)" if "k < PLAT_CPU_NUM" for k
    using ok that dl.family_distinct [of sleep_head "{..<PLAT_CPU_NUM}" "sleepers s" "\<lambda>c. map sleep_node (S c)" k]
    by (auto simp: sleep_ok_def sleep_lists_def distinct_map)
  have "\<exists>s'. try_remove_timeout (Some t) p s = Some s' \<and> sleep_state s' = (sleep_state s)(t := (sleep_state s t)\<lparr>cb := None, pending_notific := None\<rparr>)
      \<and> sleepers s' = list_del (sleep_node t) (sleepers s) \<and> sleep_list_lock s' = (sleep_list_lock s)(?c := unlock (taken (sleep_list_lock s ?c)))
      \<and> sst s' = sst s \<and> cst s' = cst s \<and> notifics s' = notifics s \<and> waiting s' = waiting s"
    using Some c(3) t by (auto simp: try_remove_timeout_def try_dequeue_sleeper_def lock_sleep_list_def lock_simps upd_sleep_def unlock_sleep_list_def Let_def)
  then obtain s' where s': "try_remove_timeout (Some t) p s = Some s'" "sleep_state s' = (sleep_state s)(t := (sleep_state s t)\<lparr>cb := None, pending_notific := None\<rparr>)"
    "sleepers s' = list_del (sleep_node t) (sleepers s)" "sleep_list_lock s' = (sleep_list_lock s)(?c := unlock (taken (sleep_list_lock s ?c)))"
    "sst s' = sst s" "cst s' = cst s" "notifics s' = notifics s" "waiting s' = waiting s" by blast
  have e: "remove1 t (S k) = (S(?c := remove1 t (S ?c))) k" if "k < PLAT_CPU_NUM" for k using d(2) [OF that] by (auto simp: remove1_idem)
  have "sleep_lists (S(?c := remove1 t (S ?c))) s'" using sleep_delete [of S s ?c t] c(1,2) ok s'(3) by (simp add: sleep_ok_def sleep_lists_def)
  then have l: "sleep_lists (\<lambda>c. remove1 t (S c)) s'" using e by (simp add: sleep_lists_def dl.family_def del: fun_upd_apply)
  have wk: "wakeup s' = wakeup s" by (simp add: wakeup_def fun_eq_iff s'(2))
  have "sorted (map (wakeup s) (remove1 t (S k)))" if "k < PLAT_CPU_NUM" for k
    using ok that d(1) [OF that] by (simp add: sleep_ok_def sorted_map_remove1)
  then have "sleep_ok (\<lambda>c. remove1 t (S c)) s'" using ok l d s'(2,4) unfolding sleep_ok_def wk by auto
  then show ?thesis using s' by simp
qed

lemma signal_wakes:
  assumes q: "rr_ok (sst s) Q" and w: "wait_ok W s" and sl: "sleep_ok S s" and n: "notifics s p = Some n"
    and a: "not_delivered_notifc_count n = 0" "W p = t # ws" "waits cpu k t s"
      "cb (sleep_state s t) \<noteq> None \<Longrightarrow> sleep_cpu (sleep_state s t) < PLAT_CPU_NUM \<and> pending_notific (sleep_state s t) \<in> {None, Some p}"
  shows "\<exists>s'. signal_notific rr cpu p False s = Some (Some 0, s') \<and> rr_ok (sst s') (Q(k := Q k @ [t])) \<and> wait_ok (W(p := ws)) s'
    \<and> sleep_ok (\<lambda>c. remove1 t (S c)) s' \<and> cb (sleep_state s' t) = None"
proof -
  note l = lock_notific_ok [OF n wait_okD(1) [OF w n]]
  have c0: "waiting_threads_count n \<noteq> 0" using wait_okD(5) [OF w n] a(2) by simp
  define s2 where "s2 = s\<lparr>waiting := list_del (notification_queue_node t) (waiting s),
    notifics := (notifics s)(p \<mapsto> n\<lparr>notifc_lock := taken (notifc_lock n), waiting_threads_count := waiting_threads_count n - 1\<rparr>)\<rparr>"
  have "rr_ok (sst s2) Q" "waits cpu k t s2" using q a(3) by (simp_all add: s2_def waits_def)
  from wake_ok [OF this] obtain u c' where u: "do { s1 \<leftarrow> set_thread_state t TS_INTER s2; enqueue rr cpu t s1 } = Some (s2\<lparr>sst := u\<rparr>)"
    "rr_ok u (Q(k := Q k @ [t]))" "ctx u = (ctx (sst s))(t \<mapsto> c')" "tstate c' = TS_READY" by (auto simp: s2_def)
  define s5 where "s5 = s2\<lparr>sst := u, notifics := (notifics s)(p \<mapsto> n\<lparr>waiting_threads_count := waiting_threads_count n - 1, notifc_lock := unlock (taken (notifc_lock n))\<rparr>)\<rparr>"
  have "sleep_ok S s5" using sl sleep_ok_cong [of s5 s S] by (simp add: s5_def s2_def)
  from try_remove_timeout_ok [OF this, of t p] a(4) obtain s' where
    s': "try_remove_timeout (Some t) p s5 = Some s'" "sleep_ok (\<lambda>c. remove1 t (S c)) s'" "cb (sleep_state s' t) = None" "sst s' = u" "notifics s' = notifics s5" "waiting s' = waiting s5"
    by (auto simp: s5_def s2_def)
  from a(3) obtain c where c: "ctx (sst s) t = Some c" by (auto simp: waits_def)
  obtain s3 where s3: "set_thread_state t TS_INTER s2 = Some s3" "enqueue rr cpu t s3 = Some (s2\<lparr>sst := u\<rparr>)" using u(1) by (auto split: bind_splits)
  have "signal_notific rr cpu p False s = Some (Some 0, s')"
    using l a(1) c0 first_waiting [OF w n a(2)] s3 s'(1) c
    by (simp add: signal_notific_def upd_notific_def unlock_notific_def s2_def s5_def)
  moreover have "wait_ok (W(p := remove1 t (W p))) s'"
    by (rule wait_ok_wake [OF w n, of t s' "n\<lparr>waiting_threads_count := waiting_threads_count n - 1, notifc_lock := unlock (taken (notifc_lock n))\<rparr>" c'])
      (use a(2) s' u(3) wait_okD(1) [OF w n] in \<open>simp_all add: s5_def s2_def\<close>)
  ultimately show ?thesis using u(2) s'(2-4) a(2) by auto
qed


text \<open>A CPU whose thread has begun to wait goes to the first runnable thread of its queue.\<close>

lemma block_ok:
  assumes q: "rr_ok x Q" and cpu: "cpu < PLAT_CPU_NUM" and cur: "current_threads x cpu = Some me" and c: "ctx x me = Some c" "tstate c = TS_WAITING"
    and f: "find (runnable cpu x) (Q cpu) = Some t"
  shows "\<exists>y z. op_sched rr cpu x = Some y \<and> finish_switch cpu y = Some z \<and> rr_ok z (Q(cpu := remove1 t (Q cpu))) \<and> current_threads z = (current_threads x)(cpu \<mapsto> t)
    \<and> (\<forall>v c. v \<noteq> t \<and> ctx x v = Some c \<longrightarrow> (\<exists>c'. ctx z v = Some c' \<and> tstate c' = tstate c)) \<and> (\<exists>c'. ctx z t = Some c' \<and> tstate c' = TS_RUNNING) \<and> t \<noteq> me"
proof -
  have tm: "t \<noteq> me" using find_Some_mem [OF f] queuesD(2) [OF q cpu, of t] c by auto
  from rr_choose_ok [OF q cpu f] obtain x1 where x1: "rr_sched_choose_thread cpu x = Some (t, x1)" "picked (\<lambda>cpu pr. cpu) PLAT_CPU_NUM x Q cpu t x1" by blast
  have "\<forall>u. current_threads x cpu = Some u \<longrightarrow> ctx x u \<noteq> None" using cur c by simp
  from switch_picked [OF x1(2) this] cur tm obtain y ct where y: "switch_to_thread cpu t x1 = Some y" "rr_ok y (Q(cpu := remove1 t (Q cpu)))"
    "current_threads y = (current_threads x)(cpu \<mapsto> t)" "same_view x y {t}" "ctx y t = Some ct" "tstate ct = TS_RUNNING" "prev_thread y t = PREV me"
    by (auto dest: sview_fields)
  have "op_sched rr cpu x = Some y" using cur c x1(1) y(1) by (simp add: rr_def rr_sched_def)
  from same_viewD [OF y(4), of me] c(1) tm obtain cm where cm: "ctx y me = Some cm" "sview cm = sview c" by auto
  let ?z = "set_ctx me (cm\<lparr>kernel_stack_state := KS_FREE\<rparr>) y"
  have "finish_switch cpu y = Some ?z" using y(3,7) cm(1) by (simp add: finish_switch_def)
  moreover have "rr_ok ?z (Q(cpu := remove1 t (Q cpu)))" by (rule queues_ctx_same [OF y(2) cm(1)]) simp_all
  moreover have "\<exists>c'. ctx ?z v = Some c' \<and> tstate c' = tstate cv" if "v \<noteq> t" "ctx x v = Some cv" for v cv
  proof -
    from same_viewD [OF y(4), of v cv] that obtain c' where "ctx y v = Some c'" "sview c' = sview cv" by auto
    then show ?thesis using cm by (cases "v = me") (auto simp: sview_def)
  qed
  ultimately show ?thesis using \<open>op_sched rr cpu x = Some y\<close> y(3,5,6) tm by (intro exI [of _ y] exI [of _ ?z]) auto
qed

lemma wait_append:
  assumes f: "wait_lists W s" and p: "notifics s p \<noteq> None" and n: "\<forall>k \<in> dom (notifics s). t \<notin> set (W k)"
  shows "dl.family notific_head (dom (notifics s)) (list_append (notification_queue_node t) (notific_head p) (waiting s)) (\<lambda>k. map notification_queue_node ((W(p := W p @ [t])) k))"
proof -
  have "dl.fresh notific_head (dom (notifics s)) (\<lambda>p. map notification_queue_node (W p)) (notification_queue_node t)" using n by (auto simp: dl.fresh_def)
  from dl.family_append [OF f [unfolded wait_lists_def] _ this, of p] p show ?thesis
    using map_upd_seq [of notification_queue_node W p "W p @ [t]"] by auto
qed

lemma wait_blocks:
  assumes q: "rr_ok (sst s) Q" and w: "wait_ok W s" and n: "notifics s p = Some n" "not_delivered_notifc_count n = 0" "length (W p) + 1 < 2 ^ 32"
    and me: "current_thread cpu s = Some me" "ctx (sst s) me = Some c" "tstate c = TS_RUNNING" and cpu: "cpu < PLAT_CPU_NUM" "find (runnable cpu (sst s)) (Q cpu) = Some u"
  shows "\<exists>s'. wait_notific rr cpu p True None s = Some (None, s') \<and> wait_ok (W(p := W p @ [me])) s' \<and> rr_ok (sst s') (Q(cpu := remove1 u (Q cpu)))
    \<and> current_thread cpu s' = Some u \<and> x0 (ec s' me) = 0 \<and> cst s' = cst s \<and> sleep_state s' = sleep_state s"
proof -
  note l = lock_notific_ok [OF n(1) wait_okD(1) [OF w n(1)]]
  let ?x = "set_ctx me (c\<lparr>tstate := TS_WAITING\<rparr>) (sst s)"
  have x: "rr_ok ?x Q" "current_threads ?x cpu = Some me" "runnable cpu ?x = runnable cpu (sst s)"
    using queues_ctx [OF q, of me "c\<lparr>tstate := TS_WAITING\<rparr>"] me by (auto simp: current_thread_def runnable_def fun_eq_iff)
  have xc: "ctx ?x me = Some (c\<lparr>tstate := TS_WAITING\<rparr>)" "tstate (c\<lparr>tstate := TS_WAITING\<rparr>) = TS_WAITING" "find (runnable cpu ?x) (Q cpu) = Some u"
    "current_threads ?x = current_threads (sst s)" using cpu(2) x(3) by simp_all
  from block_ok [OF x(1) cpu(1) x(2) xc(1-3)] obtain y z where
    z: "op_sched rr cpu ?x = Some y" "finish_switch cpu y = Some z" "rr_ok z (Q(cpu := remove1 u (Q cpu)))" "current_threads z = (current_threads (sst s))(cpu \<mapsto> u)"
      "\<And>v c. v \<noteq> u \<Longrightarrow> ctx ?x v = Some c \<Longrightarrow> \<exists>c'. ctx z v = Some c' \<and> tstate c' = tstate c" "u \<noteq> me" unfolding xc(4) by blast
  let ?n = "n\<lparr>waiting_threads_count := waiting_threads_count n + 1, notifc_lock := unlock (taken (notifc_lock n))\<rparr>"
  have "\<exists>s'. wait_notific rr cpu p True None s = Some (None, s') \<and> notifics s' = (notifics s)(p \<mapsto> ?n) \<and> sst s' = z \<and> cst s' = cst s \<and> sleep_state s' = sleep_state s
    \<and> waiting s' = list_append (notification_queue_node me) (notific_head p) (waiting s) \<and> ec s' = (ec s)(me := (ec s me)\<lparr>x0 := 0\<rparr>)"
    using l n(2) me z(1,2)
    by (simp add: wait_notific_def set_thread_state_def upd_ctx_def upd_notific_def unlock_notific_def arch_set_thread_return_def do_sched_def end_switch_def current_thread_def)
  then obtain s' where s': "wait_notific rr cpu p True None s = Some (None, s')" "notifics s' = (notifics s)(p \<mapsto> ?n)" "sst s' = z" "cst s' = cst s" "sleep_state s' = sleep_state s"
    "waiting s' = list_append (notification_queue_node me) (notific_head p) (waiting s)" "ec s' = (ec s)(me := (ec s me)\<lparr>x0 := 0\<rparr>)" by blast
  have nm: "me \<notin> set (W k)" if "notifics s k = Some m" for k m using wait_okD(4) [OF w that, of me] me by auto
  have dom: "dom (notifics s') = dom (notifics s)" using n(1) s'(2) by auto
  have un: "u \<notin> set (W k)" if "notifics s k = Some m" for k m
    using wait_okD(4) [OF w that, of u] find_Some_mem [OF cpu(2)] queuesD(2) [OF q cpu(1), of u] by auto
  have st: "\<exists>c'. ctx z t = Some c' \<and> tstate c' = TS_WAITING" if tw: "t \<in> set (W k) \<or> t = me" "notifics s k = Some m" for t k m
  proof (cases "t = me")
    case False
    with tw wait_okD(4) [OF w tw(2), of t] obtain ct where "ctx (sst s) t = Some ct" "tstate ct = TS_WAITING" "t \<noteq> u" using un [OF tw(2)] by auto
    with z(5) [of t ct] False show ?thesis by simp
  qed (use z(5) [of me "c\<lparr>tstate := TS_WAITING\<rparr>"] z(6) in auto)
  have "dl.family notific_head (dom (notifics s)) (waiting s') (\<lambda>k. map notification_queue_node ((W(p := W p @ [me])) k))"
    unfolding s'(6) by (rule wait_append) (use w n(1) nm in \<open>auto simp: wait_ok_def\<close>)
  then have "wait_ok (W(p := W p @ [me])) s'"
    using w n s'(2) wait_okD [OF w n(1)] st z(5) unfolding wait_ok_def wait_lists_def dom s'(3) by auto
  then show ?thesis using s' z(3,4) by (simp add: current_thread_def)
qed

text \<open>
  C25: waiting for a notification.  With a signal pending \<^verbatim>\<open>wait_notific\<close> takes it and returns 0; without one and without
  blocking it returns \<^verbatim>\<open>-EAGAIN\<close> and changes nothing but the counters of the lock.  Otherwise the thread becomes the last of the waiting list, with 0 as the
  value it will find when it is woken up, and the CPU goes to the first runnable thread of its ready queue.
\<close>

theorem wait_notific_correct:
  assumes q: "rr_ok (sst s) Q" and w: "wait_ok W s" and n: "notifics s p = Some n" "length (W p) + 1 < 2 ^ 32"
    and me: "current_thread cpu s = Some me" "ctx (sst s) me = Some c" "tstate c = TS_RUNNING" and cpu: "cpu < PLAT_CPU_NUM" "find (runnable cpu (sst s)) (Q cpu) = Some u"
  shows "(0 < not_delivered_notifc_count n \<longrightarrow> (\<exists>s' n'. wait_notific rr cpu p b tmo s = Some (Some 0, s') \<and> notifics s' = (notifics s)(p \<mapsto> n')
        \<and> not_delivered_notifc_count n' = not_delivered_notifc_count n - 1 \<and> wait_ok W s' \<and> sst s' = sst s))
    \<and> (not_delivered_notifc_count n = 0 \<longrightarrow> (\<exists>s'. wait_notific rr cpu p False tmo s = Some (Some (- EAGAIN), s') \<and> wait_ok W s' \<and> sst s' = sst s))
    \<and> (not_delivered_notifc_count n = 0 \<longrightarrow> (\<exists>s'. wait_notific rr cpu p True None s = Some (None, s') \<and> wait_ok (W(p := W p @ [me])) s'
        \<and> rr_ok (sst s') (Q(cpu := remove1 u (Q cpu))) \<and> current_thread cpu s' = Some u \<and> x0 (ec s' me) = 0))"
proof (intro conjI impI)
  note lf = wait_okD(1) [OF w n(1)]
  note l = lock_notific_ok [OF n(1) lf]
  let ?n = "n\<lparr>not_delivered_notifc_count := not_delivered_notifc_count n - 1, notifc_lock := unlock (taken (notifc_lock n))\<rparr>"
  let ?m = "n\<lparr>notifc_lock := unlock (taken (notifc_lock n))\<rparr>"
  have ok: "wait_ok W (s\<lparr>notifics := (notifics s)(p \<mapsto> ?n)\<rparr>)" "wait_ok W (s\<lparr>notifics := (notifics s)(p \<mapsto> ?m)\<rparr>)"
    by (rule wait_ok_same [OF w n(1), of _ ?n], use lf in simp_all) (rule wait_ok_same [OF w n(1), of _ ?m], use lf in simp_all)
  show "\<exists>s' n'. wait_notific rr cpu p b tmo s = Some (Some 0, s') \<and> notifics s' = (notifics s)(p \<mapsto> n')
        \<and> not_delivered_notifc_count n' = not_delivered_notifc_count n - 1 \<and> wait_ok W s' \<and> sst s' = sst s" if "0 < not_delivered_notifc_count n"
    using that l ok(1) by (intro exI [of _ "s\<lparr>notifics := (notifics s)(p \<mapsto> ?n)\<rparr>"] exI [of _ ?n]) (simp add: wait_notific_def upd_notific_def unlock_notific_def)
  show "\<exists>s'. wait_notific rr cpu p False tmo s = Some (Some (- EAGAIN), s') \<and> wait_ok W s' \<and> sst s' = sst s" if "not_delivered_notifc_count n = 0"
    using that l ok(2) by (simp add: wait_notific_def upd_notific_def unlock_notific_def)
  show "\<exists>s'. wait_notific rr cpu p True None s = Some (None, s') \<and> wait_ok (W(p := W p @ [me])) s'
        \<and> rr_ok (sst s') (Q(cpu := remove1 u (Q cpu))) \<and> current_thread cpu s' = Some u \<and> x0 (ec s' me) = 0" if "not_delivered_notifc_count n = 0"
    using wait_blocks [OF q w n(1) that n(2) me cpu] by blast
qed

section \<open>Timeouts\<close>

lemma wait_ok_ext:
  assumes "wait_ok W s" "\<And>p n. notifics s p = Some n \<Longrightarrow> W' p = W p"
  shows "wait_ok W' s"
proof -
  have "\<And>p. p \<in> dom (notifics s) \<Longrightarrow> W' p = W p" using assms(2) by auto
  then have "wait_lists W' s \<longleftrightarrow> wait_lists W s" by (simp add: wait_lists_def dl.family_def)
  then show ?thesis using assms by (auto simp: wait_ok_def)
qed

lemma filter_neq: "distinct xs \<Longrightarrow> remove1 t xs = filter (\<lambda>u. u \<noteq> t) xs"
  by (induction xs) (auto intro!: filter_True [symmetric])

text \<open>A sleeping thread waits for nothing but the time, or for the notification its timeout names.\<close>

definition timer_ok :: "(ptr \<Rightarrow> tid list) \<Rightarrow> tid \<Rightarrow> 'a nstate_scheme \<Rightarrow> bool" where
  "timer_ok W t s \<longleftrightarrow> (case cb (sleep_state s t) of
     None \<Rightarrow> False
   | Some sleep_timer_cb \<Rightarrow> \<forall>p \<in> dom (notifics s). t \<notin> set (W p)
   | Some notific_timer_cb \<Rightarrow> \<exists>p. pending_notific (sleep_state s t) = Some p \<and> p \<in> dom (notifics s) \<and> t \<in> set (W p))"

definition woken :: "tid \<Rightarrow> 'a nstate_scheme \<Rightarrow> 'a nstate_scheme \<Rightarrow> bool" where
  "woken t s s' \<longleftrightarrow> (\<exists>c'. ctx (sst s') = (ctx (sst s))(t \<mapsto> c') \<and> tstate c' = TS_READY) \<and> current_threads (sst s') = current_threads (sst s)
     \<and> sleepers s' = sleepers s \<and> sleep_list_lock s' = sleep_list_lock s \<and> (\<forall>u. u \<noteq> t \<longrightarrow> sleep_state s' u = sleep_state s u)
     \<and> dom (notifics s') = dom (notifics s)"

lemma notific_timer_ok:
  assumes q: "rr_ok (sst s) Q" and w: "wait_ok W s" and wt: "waits cpu k t s" and p: "pending_notific (sleep_state s t) = Some p" "notifics s p = Some n" "t \<in> set (W p)"
  shows "\<exists>s'. notific_timer rr cpu t s = Some s' \<and> rr_ok (sst s') (Q(k := Q k @ [t])) \<and> wait_ok (\<lambda>p. filter (\<lambda>u. u \<noteq> t) (W p)) s' \<and> woken t s s'"
proof -
  note lf = wait_okD(1) [OF w p(2)]
  have c0: "waiting_threads_count n \<noteq> 0" using wait_okD(5) [OF w p(2)] p(3) by auto
  define s2 where "s2 = (upd_sleep t (\<lambda>x. x\<lparr>pending_notific := None\<rparr>) s)\<lparr>notifics := (notifics s)(p \<mapsto> n\<lparr>notifc_lock := taken (notifc_lock n)\<rparr>)\<rparr>"
  define s3 where "s3 = s2\<lparr>waiting := list_del (notification_queue_node t) (waiting s2), notifics := (notifics s2)(p \<mapsto> n\<lparr>notifc_lock := taken (notifc_lock n), waiting_threads_count := waiting_threads_count n - 1\<rparr>)\<rparr>"
  define s4 where "s4 = arch_set_thread_return t (of_int (- EAGAIN)) s3"
  note sd = s2_def s3_def s4_def upd_sleep_def arch_set_thread_return_def
  have s4: "sst s4 = sst s" "waits cpu k t s4" using wt by (simp_all add: sd waits_def)
  from wake_ok [OF _ s4(2), unfolded s4(1), OF q] obtain u c' where u: "do { s1 \<leftarrow> set_thread_state t TS_INTER s4; enqueue rr cpu t s1 } = Some (s4\<lparr>sst := u\<rparr>)"
    "rr_ok u (Q(k := Q k @ [t]))" "ctx u = (ctx (sst s))(t \<mapsto> c')" "tstate c' = TS_READY" "current_threads u = current_threads (sst s)" by blast
  obtain s5 where s5: "set_thread_state t TS_INTER s4 = Some s5" "enqueue rr cpu t s5 = Some (s4\<lparr>sst := u\<rparr>)" using u(1) by (cases "set_thread_state t TS_INTER s4") simp_all
  let ?n = "n\<lparr>waiting_threads_count := waiting_threads_count n - 1, notifc_lock := unlock (taken (notifc_lock n))\<rparr>"
  define s' where "s' = s4\<lparr>sst := u, notifics := (notifics s4)(p \<mapsto> ?n)\<rparr>"
  from wt obtain c where c: "ctx (sst s) t = Some c" "tstate c = TS_WAITING" by (auto simp: waits_def)
  have "lock_notific p (upd_sleep t (\<lambda>x. x\<lparr>pending_notific := None\<rparr>) s) = Some s2"
    using lock_notific_ok [of "upd_sleep t (\<lambda>x. x\<lparr>pending_notific := None\<rparr>) s" p n] p(2) lf by (simp add: s2_def upd_sleep_def)
  moreover have "ctx (sst s2) = ctx (sst s)" "notifics s2 p = Some (n\<lparr>notifc_lock := taken (notifc_lock n)\<rparr>)" by (simp_all add: sd)
  moreover have "upd_notific p (\<lambda>n. n\<lparr>waiting_threads_count := waiting_threads_count n - 1\<rparr>) (s2\<lparr>waiting := list_del (notification_queue_node t) (waiting s2)\<rparr>) = Some s3"
    by (simp add: upd_notific_def s3_def s2_def)
  moreover have "unlock_notific p (s4\<lparr>sst := u\<rparr>) = Some s'" by (simp add: unlock_notific_def upd_notific_def s'_def sd)
  ultimately have "notific_timer rr cpu t s = Some s'" using p(1) c c0 s5 using s4_def [symmetric] by (simp add: notific_timer_def)
  moreover have "wait_ok (W(p := remove1 t (W p))) s'"
    by (rule wait_ok_wake [OF w p(2), of t s' ?n c']) (use p(3) u(3) lf in \<open>simp_all add: s'_def sd\<close>)
  then have "wait_ok (\<lambda>p. filter (\<lambda>u. u \<noteq> t) (W p)) s'"
  proof (rule wait_ok_ext)
    fix p' n' assume "notifics s' p' = Some n'"
    then have "notifics s p' \<noteq> None" using p(2) by (auto simp: s'_def sd split: if_splits)
    then have "p' \<noteq> p \<Longrightarrow> t \<notin> set (W p')" using wait_unique [OF w, of p p' t] p(2,3) by blast
    then have "filter (\<lambda>u. u \<noteq> t) (W p') = W p'" if "p' \<noteq> p" using that by (intro filter_True) auto
    moreover have "remove1 t (W p) = filter (\<lambda>u. u \<noteq> t) (W p)" by (rule filter_neq) (use wait_distinct [OF w, of p] p(2) in simp)
    ultimately show "filter (\<lambda>u. u \<noteq> t) (W p') = (W(p := remove1 t (W p))) p'" by (cases "p' = p") simp_all
  qed
  moreover have "woken t s s'" using p(2) u(3-5) by (simp add: woken_def s'_def sd insert_absorb domIff) blast
  moreover have "sst s' = u" by (simp add: s'_def)
  ultimately show ?thesis using u(2) by blast
qed

lemma sleep_timer_ok:
  assumes q: "rr_ok (sst s) Q" and w: "wait_ok W s" and wt: "waits cpu k t s" and p: "\<forall>p \<in> dom (notifics s). t \<notin> set (W p)"
  shows "\<exists>s'. sleep_timer rr cpu t s = Some s' \<and> rr_ok (sst s') (Q(k := Q k @ [t])) \<and> wait_ok (\<lambda>p. filter (\<lambda>u. u \<noteq> t) (W p)) s' \<and> woken t s s'"
proof -
  from wake_ok [OF q wt] obtain u c' where u: "do { s1 \<leftarrow> set_thread_state t TS_INTER s; enqueue rr cpu t s1 } = Some (s\<lparr>sst := u\<rparr>)"
    "rr_ok u (Q(k := Q k @ [t]))" "ctx u = (ctx (sst s))(t \<mapsto> c')" "tstate c' = TS_READY" "current_threads u = current_threads (sst s)" by auto
  have "wait_ok W (s\<lparr>sst := u\<rparr>)" using w u(3) p unfolding wait_ok_def wait_lists_def by fastforce
  then have "wait_ok (\<lambda>p. filter (\<lambda>u. u \<noteq> t) (W p)) (s\<lparr>sst := u\<rparr>)" by (rule wait_ok_ext) (use p in \<open>auto intro!: filter_True\<close>)
  then show ?thesis using u by (intro exI [of _ "s\<lparr>sst := u\<rparr>"]) (auto simp: sleep_timer_def woken_def)
qed

lemma run_cb_ok:
  assumes "rr_ok (sst s) Q" "wait_ok W s" "waits cpu k t s" "timer_ok W t s"
  shows "\<exists>s'. run_cb rr cpu t s = Some s' \<and> rr_ok (sst s') (Q(k := Q k @ [t])) \<and> wait_ok (\<lambda>p. filter (\<lambda>u. u \<noteq> t) (W p)) s' \<and> woken t s s'"
proof (cases "cb (sleep_state s t)")
  case (Some f)
  show ?thesis
  proof (cases f)
    case sleep_timer_cb
    then show ?thesis using sleep_timer_ok [OF assms(1-3)] assms(3,4) Some by (auto simp: run_cb_def timer_ok_def waits_def)
  next
    case notific_timer_cb
    then show ?thesis using notific_timer_ok [OF assms(1-3)] assms(4) Some by (auto simp: run_cb_def timer_ok_def)
  qed
qed (use assms(4) in \<open>simp add: timer_ok_def\<close>)

text \<open>The loop of the timer interrupt takes the expired sleepers off the front of its list one by one and runs their callbacks.\<close>

definition all_woken :: "tid list \<Rightarrow> 'a nstate_scheme \<Rightarrow> 'a nstate_scheme \<Rightarrow> bool" where
  "all_woken es s s' \<longleftrightarrow> (\<forall>u. if u \<in> set es then (\<exists>c'. ctx (sst s') u = Some c' \<and> tstate c' = TS_READY) \<and> cb (sleep_state s' u) = None
       else ctx (sst s') u = ctx (sst s) u \<and> sleep_state s' u = sleep_state s u)
     \<and> current_threads (sst s') = current_threads (sst s) \<and> sleep_list_lock s' = sleep_list_lock s \<and> dom (notifics s') = dom (notifics s)"

lemma timer_ok_cong: "sleep_state s' u = sleep_state s u \<Longrightarrow> dom (notifics s') = dom (notifics s) \<Longrightarrow> timer_ok W u s' \<longleftrightarrow> timer_ok W u s"
  by (simp add: timer_ok_def split: option.split timer_cb.split)

lemma timer_ok_filter: "u \<noteq> t \<Longrightarrow> timer_ok W u s \<Longrightarrow> timer_ok (\<lambda>p. filter (\<lambda>u. u \<noteq> t) (W p)) u s"
  by (auto simp: timer_ok_def split: option.splits timer_cb.splits)

lemma lnext_lseg: "lseg h a xs b \<Longrightarrow> lnext h a = hd (xs @ [b])"
  by (cases xs) auto

lemma wake_one_ok:
  assumes f: "sleep_lists S s" and cpu: "cpu < PLAT_CPU_NUM" and S: "S cpu = t # ts" and q: "rr_ok (sst s) Q" and w: "wait_ok W s"
    and t: "\<forall>u \<in> set (t # ts). waits cpu cpu u s \<and> timer_ok W u s"
  shows "\<exists>s1 s2. run_cb rr cpu t (s\<lparr>sleepers := list_del (sleep_node t) (sleepers s)\<rparr>) = Some s1 \<and> s2 = upd_sleep t (\<lambda>x. x\<lparr>cb := None\<rparr>) s1
    \<and> sleep_lists (S(cpu := ts)) s2 \<and> rr_ok (sst s2) (Q(cpu := Q cpu @ [t])) \<and> wait_ok (\<lambda>p. filter (\<lambda>u. u \<noteq> t) (W p)) s2
    \<and> (\<forall>u \<in> set ts. waits cpu cpu u s2 \<and> timer_ok (\<lambda>p. filter (\<lambda>u. u \<noteq> t) (W p)) u s2) \<and> all_woken [t] s s2"
proof -
  let ?s = "s\<lparr>sleepers := list_del (sleep_node t) (sleepers s)\<rparr>" and ?W = "\<lambda>p. filter (\<lambda>u. u \<noteq> t) (W p)"
  have dt: "t \<notin> set ts" using dl.family_distinct [OF f [unfolded sleep_lists_def], of cpu] cpu S by auto
  have "rr_ok (sst ?s) Q" "wait_ok W ?s" "waits cpu cpu t ?s" using q w t by (simp_all add: wait_ok_def wait_lists_def waits_def)
  moreover have "timer_ok W t ?s" using t timer_ok_cong [of ?s t s W] by simp
  ultimately have "rr_ok (sst ?s) Q" "wait_ok W ?s" "waits cpu cpu t ?s" "timer_ok W t ?s" by blast+
  from run_cb_ok [OF this] obtain s1 where s1: "run_cb rr cpu t ?s = Some s1" "rr_ok (sst s1) (Q(cpu := Q cpu @ [t]))" "wait_ok ?W s1" "woken t ?s s1" by blast
  let ?s2 = "upd_sleep t (\<lambda>x. x\<lparr>cb := None\<rparr>) s1"
  have "sleep_lists (S(cpu := ts)) ?s2"
    using sleep_delete [OF f cpu, of t] S s1(4) by (simp add: sleep_lists_def woken_def upd_sleep_def)
  moreover have "wait_ok ?W ?s2" using s1(3) by (simp add: wait_ok_def wait_lists_def upd_sleep_def)
  moreover have "waits cpu cpu u ?s2 \<and> timer_ok ?W u ?s2" if u: "u \<in> set ts" for u
  proof -
    have "u \<noteq> t" and t': "waits cpu cpu u s" "timer_ok W u s" using u dt t by auto
    then have e: "ctx (sst ?s2) u = ctx (sst s) u" "sleep_state ?s2 u = sleep_state s u" "current_threads (sst ?s2) = current_threads (sst s)" "dom (notifics ?s2) = dom (notifics s)"
      using s1(4) by (auto simp: woken_def upd_sleep_def)
    show ?thesis using t' e(1,3) timer_ok_filter [OF \<open>u \<noteq> t\<close> t'(2)] timer_ok_cong [OF e(2,4), of ?W] by (simp add: waits_def)
  qed
  moreover have "all_woken [t] s ?s2" using s1(4) by (auto simp: all_woken_def woken_def upd_sleep_def)
  ultimately show ?thesis using s1(1,2) by (auto simp: upd_sleep_def)
qed

lemma all_wokenD: "all_woken es s s' \<Longrightarrow> u \<notin> set es \<Longrightarrow> ctx (sst s') u = ctx (sst s) u \<and> sleep_state s' u = sleep_state s u"
  unfolding all_woken_def by presburger

lemma all_woken_trans: "all_woken as s s1 \<Longrightarrow> all_woken bs s1 s2 \<Longrightarrow> all_woken (as @ bs) s s2"
  unfolding all_woken_def by (auto split: if_splits)

lemma wake_sleepers_ok:
  assumes "sleep_lists S s" "cpu < PLAT_CPU_NUM" "rr_ok (sst s) Q" "wait_ok W s" "\<forall>t \<in> set (S cpu). waits cpu cpu t s \<and> timer_ok W t s"
    "es = takeWhile (\<lambda>t. wakeup s t < now) (S cpu)" "rs = dropWhile (\<lambda>t. wakeup s t < now) (S cpu)" "p = lnext (sleepers s) (sleep_head cpu)"
  shows "\<exists>s'. wake_sleepers rr cpu now p (lnext (sleepers s) p) s = Some s' \<and> sleep_lists (S(cpu := rs)) s'
    \<and> rr_ok (sst s') (Q(cpu := Q cpu @ es)) \<and> wait_ok (\<lambda>p. filter (\<lambda>t. t \<notin> set es) (W p)) s' \<and> all_woken es s s'"
  using assms
proof (induction "S cpu" arbitrary: S s Q W es rs p)
  case Nil
  have "lnext (sleepers s) (sleep_head cpu) = sleep_head cpu"
    using dl.family_content [OF Nil.prems(1) [unfolded sleep_lists_def], of cpu] Nil by (simp add: is_list_def flip: Nil.hyps)
  then have "wake_sleepers rr cpu now p (lnext (sleepers s) p) s = Some s" using Nil.prems(8) by (subst wake_sleepers.simps) simp
  then show ?case using Nil by (simp add: all_woken_def fun_upd_idem flip: Nil.hyps)
next
  case (Cons t ts)
  have l: "lseg (sleepers s) (sleep_head cpu) (map sleep_node (t # ts)) (sleep_head cpu)"
    using dl.family_content [OF Cons.prems(1) [unfolded sleep_lists_def], of cpu] Cons.prems(2) Cons.hyps(2) by (simp add: is_list_def)
  then have p: "p = sleep_node t" using Cons.prems(8) by simp
  show ?case
  proof (cases "wakeup s t < now")
    case False
    then have "wake_sleepers rr cpu now p (lnext (sleepers s) p) s = Some s" unfolding p by (subst wake_sleepers.simps) (simp add: wakeup_def)
    moreover have "es = []" "rs = S cpu" using False Cons.prems(6,7) by (simp_all flip: Cons.hyps(2))
    ultimately show ?thesis using Cons.prems by (simp add: all_woken_def fun_upd_idem)
  next
    case True
    let ?W = "\<lambda>p. filter (\<lambda>u. u \<noteq> t) (W p)"
    obtain s1 s2 where s2: "run_cb rr cpu t (s\<lparr>sleepers := list_del (sleep_node t) (sleepers s)\<rparr>) = Some s1" "s2 = upd_sleep t (\<lambda>x. x\<lparr>cb := None\<rparr>) s1"
      "sleep_lists (S(cpu := ts)) s2" "rr_ok (sst s2) (Q(cpu := Q cpu @ [t]))" "wait_ok ?W s2" "\<forall>u \<in> set ts. waits cpu cpu u s2 \<and> timer_ok ?W u s2" "all_woken [t] s s2"
      using wake_one_ok [OF Cons.prems(1,2) Cons.hyps(2) [symmetric] Cons.prems(3,4) Cons.prems(5) [folded Cons.hyps(2)]] by blast
    have nt: "t \<notin> set ts" using dl.family_distinct [OF Cons.prems(1) [unfolded sleep_lists_def], of cpu] Cons.prems(2) by (auto simp flip: Cons.hyps(2))
    have wk: "wakeup s2 u = wakeup s u" if "u \<in> set ts" for u
    proof -
      have "u \<noteq> t" using that nt by auto
      then show ?thesis using all_wokenD [OF s2(7), of u] by (simp add: wakeup_def)
    qed
    define es2 where "es2 = takeWhile (\<lambda>t. wakeup s2 t < now) ts"
    have es2: "es = t # es2" "rs = dropWhile (\<lambda>t. wakeup s2 t < now) ts"
      using True Cons.prems(6,7) takeWhile_cong [OF refl, of ts "\<lambda>t. wakeup s2 t < now" "\<lambda>t. wakeup s t < now"] dropWhile_cong [OF refl, of ts "\<lambda>t. wakeup s2 t < now" "\<lambda>t. wakeup s t < now"] wk
      unfolding es2_def Cons.hyps(2) [symmetric] by simp_all
    have n: "lnext (sleepers s) p = lnext (sleepers s2) (sleep_head cpu)"
    proof -
      have "lseg (sleepers s) (sleep_node t) (map sleep_node ts) (sleep_head cpu)" "lseg (sleepers s2) (sleep_head cpu) (map sleep_node ts) (sleep_head cpu)"
        using l dl.family_content [OF s2(3) [unfolded sleep_lists_def], of cpu] Cons.prems(2) by (simp_all add: is_list_def)
      from this [THEN lnext_lseg] show ?thesis unfolding p by simp
    qed
    have "\<exists>s'. wake_sleepers rr cpu now (lnext (sleepers s) p) (lnext (sleepers s2) (lnext (sleepers s) p)) s2 = Some s' \<and> sleep_lists ((S(cpu := ts))(cpu := rs)) s'
      \<and> rr_ok (sst s') ((Q(cpu := Q cpu @ [t]))(cpu := (Q(cpu := Q cpu @ [t])) cpu @ es2)) \<and> wait_ok (\<lambda>p. filter (\<lambda>t. t \<notin> set es2) (?W p)) s' \<and> all_woken es2 s2 s'"
      by (rule Cons.hyps(1)) (use s2(3-6) es2 n Cons.prems(2) in \<open>simp_all only: fun_upd_same es2_def\<close>)
    moreover have "(\<lambda>p. filter (\<lambda>t. t \<notin> set es2) (?W p)) = (\<lambda>p. filter (\<lambda>t. t \<notin> set es) (W p))" by (auto simp: es2(1) fun_eq_iff intro!: filter_cong)
    ultimately obtain s' where s': "wake_sleepers rr cpu now (lnext (sleepers s) p) (lnext (sleepers s2) (lnext (sleepers s) p)) s2 = Some s'" "sleep_lists (S(cpu := rs)) s'"
      "rr_ok (sst s') (Q(cpu := Q cpu @ es))" "wait_ok (\<lambda>p. filter (\<lambda>t. t \<notin> set es) (W p)) s'" "all_woken es2 s2 s'"
      using es2(1) by auto
    have "wake_sleepers rr cpu now p (lnext (sleepers s) p) s = Some s'"
      using True s2(1) s'(1) unfolding p s2(2) by (subst wake_sleepers.simps) (simp add: wakeup_def Let_def)
    then show ?thesis using s' all_woken_trans [OF s2(7) s'(5)] es2(1) by auto
  qed
qed

lemma sorted_prefix:
  fixes f :: "'a \<Rightarrow> 'b :: linorder"
  assumes "sorted (map f xs)"
  shows "takeWhile (\<lambda>x. f x < n) xs = filter (\<lambda>x. f x < n) xs" "dropWhile (\<lambda>x. f x < n) xs = filter (\<lambda>x. n \<le> f x) xs"
proof -
  have "takeWhile (\<lambda>x. f x < n) xs = filter (\<lambda>x. f x < n) xs \<and> dropWhile (\<lambda>x. f x < n) xs = filter (\<lambda>x. n \<le> f x) xs"
    using assms
  proof (induction xs)
    case (Cons x xs)
    show ?case
    proof (cases "f x < n")
      case False
      then have "\<forall>y \<in> set xs. n \<le> f y" using Cons.prems by fastforce
      then have "filter (\<lambda>x. f x < n) xs = []" "filter (\<lambda>x. n \<le> f x) xs = xs" by (auto simp: filter_empty_conv not_less)
      then show ?thesis using False by simp
    qed (use Cons in auto)
  qed simp
  then show "takeWhile (\<lambda>x. f x < n) xs = filter (\<lambda>x. f x < n) xs" "dropWhile (\<lambda>x. f x < n) xs = filter (\<lambda>x. n \<le> f x) xs" by blast+
qed

lemma sleep_ok_woken:
  assumes ok: "sleep_ok S s" and cpu: "cpu < PLAT_CPU_NUM" and es: "es = filter (\<lambda>t. wakeup s t < now) (S cpu)" "rs = filter (\<lambda>t. now \<le> wakeup s t) (S cpu)"
    and s': "sleep_lists (S(cpu := rs)) s'" "all_woken es s s'"
  shows "sleep_ok (S(cpu := rs)) s'"
proof -
  have st: "t \<in> set (S c) \<longleftrightarrow> cb (sleep_state s t) \<noteq> None \<and> sleep_cpu (sleep_state s t) = c" if "c < PLAT_CPU_NUM" for c t using ok that unfolding sleep_ok_def by blast
  have l: "sleep_list_lock s' = sleep_list_lock s" using s'(2) by (simp add: all_woken_def)
  have g: "cb (sleep_state s' t) = None" if "t \<in> set es" for t using s'(2) that unfolding all_woken_def by presburger
  have in_c: "t \<in> set ((S(cpu := rs)) c) \<longleftrightarrow> t \<in> set (S c) \<and> t \<notin> set es" if "c < PLAT_CPU_NUM" for c t
  proof (cases "c = cpu")
    case False
    then have "t \<in> set (S c) \<Longrightarrow> t \<notin> set (S cpu)" using st [OF that, of t] st [OF cpu, of t] by simp
    then show ?thesis using False by (auto simp: es(1))
  qed (auto simp: es)
  have "t \<in> set ((S(cpu := rs)) c) \<longleftrightarrow> cb (sleep_state s' t) \<noteq> None \<and> sleep_cpu (sleep_state s' t) = c" if c: "c < PLAT_CPU_NUM" for c t
  proof (cases "t \<in> set es")
    case True
    then show ?thesis using in_c [OF c, of t] g [OF True] by simp
  next
    case False
    then show ?thesis unfolding in_c [OF c] st [OF c] using all_wokenD [OF s'(2) False] by simp
  qed
  moreover have "sorted (map (wakeup s') ((S(cpu := rs)) c))" if c: "c < PLAT_CPU_NUM" for c
  proof -
    have "map (wakeup s') ((S(cpu := rs)) c) = map (wakeup s) ((S(cpu := rs)) c)"
      by (intro map_cong refl) (simp add: wakeup_def in_c [OF c] all_wokenD [OF s'(2)] del: fun_upd_apply)
    moreover have "sorted (map (wakeup s) (S c))" "sorted (map (wakeup s) (S cpu))" using ok cpu c by (simp_all add: sleep_ok_def)
    ultimately show ?thesis using sorted_filter [of "wakeup s" "S cpu"] by (cases "c = cpu") (simp_all add: es(2) del: map_eq_conv)
  qed
  moreover have "lock_free (sleep_list_lock s' c)" if "c < PLAT_CPU_NUM" for c using ok that unfolding sleep_ok_def l by blast
  ultimately show ?thesis using s'(1) unfolding sleep_ok_def by blast
qed

lemma get_next_tick_delta_frame:
  assumes "get_next_tick_delta cpu s = (d, s')"
  shows "sst s' = sst s \<and> sleepers s' = sleepers s \<and> sleep_state s' = sleep_state s \<and> sleep_list_lock s' = sleep_list_lock s \<and> notifics s' = notifics s \<and> waiting s' = waiting s"
  using assms by (auto simp: get_next_tick_delta_def plat_get_current_tick_def Let_def split: if_splits)

text \<open>The timer interrupt wakes exactly the threads of its CPU that are due.\<close>

lemma handle_timer_irq_ok:
  assumes ok: "sleep_ok S s" and w: "wait_ok W s" and q: "rr_ok (sst s) Q" and cpu: "cpu < PLAT_CPU_NUM"
    and t: "\<forall>t \<in> set (S cpu). waits cpu cpu t s \<and> timer_ok W t s"
    and me: "current_thread cpu s = Some me" "ctx (sst s) me = Some c" "tstate c = TS_RUNNING" "budget c \<noteq> 0"
    and es: "es = filter (\<lambda>t. wakeup s t < cntpct_el0 s (readings s)) (S cpu)"
  shows "\<exists>s'. handle_timer_irq rr cpu s = Some s' \<and> rr_ok (sst s') (Q(cpu := Q cpu @ es)) \<and> wait_ok (\<lambda>p. filter (\<lambda>t. t \<notin> set es) (W p)) s'
    \<and> sleep_ok (S(cpu := filter (\<lambda>t. cntpct_el0 s (readings s) \<le> wakeup s t) (S cpu))) s'
    \<and> ctx (sst s') me = Some (c\<lparr>budget := budget c - 1\<rparr>) \<and> current_threads (sst s') = current_threads (sst s)
    \<and> (\<forall>u. u \<notin> set es \<and> u \<noteq> me \<longrightarrow> ctx (sst s') u = ctx (sst s) u)"
proof -
  let ?now = "cntpct_el0 s (readings s)"
  let ?rs = "filter (\<lambda>t. ?now \<le> wakeup s t) (S cpu)" and ?l = "sleep_list_lock s cpu" and ?W = "\<lambda>p. filter (\<lambda>t. t \<notin> set es) (W p)"
  have lf: "lock_free ?l" and so: "sorted (map (wakeup s) (S cpu))" and f: "sleep_lists S s" using ok cpu by (auto simp: sleep_ok_def)
  define s2 where "s2 = s\<lparr>readings := readings s + 1, sleep_list_lock := (sleep_list_lock s)(cpu := taken ?l)\<rparr>"
  have s2: "sleep_lists S s2" "rr_ok (sst s2) Q" "wait_ok W s2" "wakeup s2 = wakeup s"
    using f q w by (simp_all add: s2_def sleep_lists_def wait_ok_def wait_lists_def wakeup_def fun_eq_iff)
  have t2: "\<forall>t \<in> set (S cpu). waits cpu cpu t s2 \<and> timer_ok W t s2"
  proof
    fix u assume "u \<in> set (S cpu)"
    then have "waits cpu cpu u s \<and> timer_ok W u s" using t by blast
    moreover have "timer_ok W u s2 \<longleftrightarrow> timer_ok W u s" by (rule timer_ok_cong) (simp_all add: s2_def)
    ultimately show "waits cpu cpu u s2 \<and> timer_ok W u s2" by (simp add: waits_def s2_def)
  qed
  have es2: "es = takeWhile (\<lambda>t. wakeup s2 t < ?now) (S cpu)" "?rs = dropWhile (\<lambda>t. wakeup s2 t < ?now) (S cpu)"
    unfolding s2(4) sorted_prefix [OF so] es by (rule refl)+
  from wake_sleepers_ok [OF s2(1) cpu s2(2,3) t2 es2 refl]
  obtain s3 where s3: "wake_sleepers rr cpu ?now (lnext (sleepers s2) (sleep_head cpu)) (lnext (sleepers s2) (lnext (sleepers s2) (sleep_head cpu))) s2 = Some s3"
    "sleep_lists (S(cpu := ?rs)) s3" "rr_ok (sst s3) (Q(cpu := Q cpu @ es))" "wait_ok ?W s3" "all_woken es s2 s3" by blast
  have nm: "me \<notin> set es" using t me es by (auto simp: waits_def)
  obtain d s4 where d: "get_next_tick_delta cpu s3 = (d, s4)" by fastforce
  note fr = get_next_tick_delta_frame [OF d]
  have l3: "sleep_list_lock s3 = (sleep_list_lock s)(cpu := taken ?l)" using s3(5) by (simp add: all_woken_def s2_def)
  have c3: "ctx (sst s3) me = Some c" "current_threads (sst s3) = current_threads (sst s)" using all_wokenD [OF s3(5) nm] me s3(5) by (auto simp: s2_def all_woken_def)
  have "\<exists>s'. handle_timer_irq rr cpu s = Some s' \<and> sst s' = set_ctx me (c\<lparr>budget := budget c - 1\<rparr>) (sst s3) \<and> sleepers s' = sleepers s3 \<and> sleep_state s' = sleep_state s3
    \<and> sleep_list_lock s' = (sleep_list_lock s)(cpu := unlock (taken ?l)) \<and> notifics s' = notifics s3 \<and> waiting s' = waiting s3"
    using s3(1) [unfolded s2_def] lf d fr l3 c3 me
    by (simp add: handle_timer_irq_def plat_get_current_tick_def lock_sleep_list_def lock_simps unlock_sleep_list_def plat_handle_timer_irq_def upd_ctx_def current_thread_def)
  then obtain s' where s': "handle_timer_irq rr cpu s = Some s'" "sst s' = set_ctx me (c\<lparr>budget := budget c - 1\<rparr>) (sst s3)" "sleepers s' = sleepers s3" "sleep_state s' = sleep_state s3"
    "sleep_list_lock s' = (sleep_list_lock s)(cpu := unlock (taken ?l))" "notifics s' = notifics s3" "waiting s' = waiting s3" by blast
  have "rr_ok (sst s') (Q(cpu := Q cpu @ es))" unfolding s'(2) by (rule queues_ctx [OF s3(3)]) (use c3 me in auto)
  moreover have "wait_ok ?W s'" unfolding wait_ok_def
  proof (intro conjI allI impI)
    show "wait_lists ?W s'" using s3(4) s'(6,7) by (simp add: wait_ok_def wait_lists_def)
    fix p n assume "notifics s' p = Some n"
    then have n: "notifics s3 p = Some n" by (simp add: s'(6))
    show "lock_free (notifc_lock n)" "waiting_threads_count n = of_nat (length (?W p))" "length (?W p) < 2 ^ 32"
      using wait_okD(1,5) [OF s3(4) n] s3(4) n by (auto simp: wait_ok_def)
    show "\<forall>t \<in> set (?W p). \<exists>c. ctx (sst s') t = Some c \<and> tstate c = TS_WAITING"
      using s3(4) n c3 me(3) unfolding wait_ok_def s'(2) set_ctx_def by fastforce
  qed
  moreover have "all_woken es s (s3\<lparr>sleep_list_lock := sleep_list_lock s\<rparr>)" using s3(5) by (simp add: all_woken_def s2_def)
  then have "sleep_ok (S(cpu := ?rs)) (s3\<lparr>sleep_list_lock := sleep_list_lock s\<rparr>)"
    by (rule sleep_ok_woken [OF ok cpu es refl, rotated]) (use s3(2) in \<open>simp add: sleep_lists_def\<close>)
  then have "sleep_ok (S(cpu := ?rs)) s'"
    using s'(3-5) lf by (auto simp: sleep_ok_def sleep_lists_def wakeup_def cong: map_cong)
  moreover have "ctx (sst s') u = ctx (sst s) u" if "u \<notin> set es" "u \<noteq> me" for u
    using all_wokenD [OF s3(5) that(1)] that(2) s'(2) by (simp add: set_ctx_def s2_def)
  moreover have "ctx (sst s') me = Some (c\<lparr>budget := budget c - 1\<rparr>)" "current_threads (sst s') = current_threads (sst s)"
    using s'(2) c3 by (simp_all add: set_ctx_def)
  ultimately show ?thesis using s'(1) by blast
qed

section \<open>A machine with one sleeper\<close>

lemma sleep_init: "dl.family sleep_head {..<n} (fold (\<lambda>i. init_list_head (sleep_head i)) [0..<n] h) (\<lambda>_. [])"
proof (induction n)
  case (Suc n)
  have "is_list (init_list_head (sleep_head n) g) (sleep_head k) []" if "k \<noteq> n" "is_list g (sleep_head k) []" for g k
    using is_list_init_other [of g "sleep_head k" "[]" "sleep_head n"] that by simp
  then show ?case using Suc init_list_head_empty by (auto simp: dl.family_def less_Suc_eq)
qed (simp add: dl.family_def)

text \<open>After \<^verbatim>\<open>timer_init\<close>, when no thread has a timer, all sleep lists are empty.\<close>

lemma timer_init_ok: "\<forall>t. cb (sleep_state s t) = None \<Longrightarrow> sleep_ok (\<lambda>_. []) (timer_init s)"
  using sleep_init [of PLAT_CPU_NUM "sleepers s"] by (simp add: sleep_ok_def sleep_lists_def timer_init_def lock_simps)

text \<open>Thread 10 runs, 11 and 12 are ready, and 13 waits for the notification at address 0 until the counter is at 50.\<close>

definition small_notify :: nstate where
  "small_notify = \<lparr>cst = undefined, sst = set_ctx 13 ((init_thread_ctx 10 TYPE_USER NO_AFF)\<lparr>tstate := TS_WAITING\<rparr>) (two_ready (\<lambda>cpu pr. cpu) PLAT_CPU_NUM),
     vm = undefined, thread_group = \<lambda>_. 0, thread_vmspace = \<lambda>_. 0, global_shm_info = [], global_shm_id = 0,
     shm_info_lock = lock_init, ec = \<lambda>_. \<lparr>x0 = 1, x1 = 2, sp_el0 = 3, elr_el1 = 4, spsr_el1 = 0\<rparr>, sched_cont = \<lambda>t. t,
     thread_list = \<lparr>lprev = \<lambda>_. 0, lnext = \<lambda>_. 0\<rparr>, general_ipc_config = Map.empty,
     sleep_state = (\<lambda>_. \<lparr>wakeup_tick = 0, sleep_cpu = 0, pending_notific = None, cb = None\<rparr>)
       (13 := \<lparr>wakeup_tick = 50, sleep_cpu = 0, pending_notific = Some 0, cb = Some notific_timer_cb\<rparr>),
     notifics = [0 \<mapsto> \<lparr>not_delivered_notifc_count = 0, waiting_threads_count = 1, notifc_lock = lock_init\<rparr>],
     waiting = list_append (notification_queue_node 13) (notific_head 0) (init_list_head (notific_head 0) \<lparr>lprev = \<lambda>_. 0, lnext = \<lambda>_. 0\<rparr>),
     sleepers = list_append (sleep_node 13) (sleep_head 0) (fold (\<lambda>i. init_list_head (sleep_head i)) [0..<PLAT_CPU_NUM] \<lparr>lprev = \<lambda>_. 0, lnext = \<lambda>_. 0\<rparr>),
     sleep_list_lock = \<lambda>_. lock_init, next_expire = \<lambda>_. 50, cntv_tval_el0 = \<lambda>_. 50, cntpct_el0 = \<lambda>i. 100 + of_nat i, readings = 0, tick_per_us = 1\<rparr>"

abbreviation "just_13 \<equiv> (\<lambda>_. [])(0 := [13])"

lemma small_notify_fields:
  "notifics small_notify = [0 \<mapsto> \<lparr>not_delivered_notifc_count = 0, waiting_threads_count = 1, notifc_lock = lock_init\<rparr>]"
  "sst small_notify = set_ctx 13 ((init_thread_ctx 10 TYPE_USER NO_AFF)\<lparr>tstate := TS_WAITING\<rparr>) (two_ready (\<lambda>cpu pr. cpu) PLAT_CPU_NUM)"
  "sleep_state small_notify t = (if t = 13 then \<lparr>wakeup_tick = 50, sleep_cpu = 0, pending_notific = Some 0, cb = Some notific_timer_cb\<rparr>
     else \<lparr>wakeup_tick = 0, sleep_cpu = 0, pending_notific = None, cb = None\<rparr>)"
  "current_thread 0 small_notify = Some 10" "readings small_notify = 0" "cntpct_el0 small_notify i = 100 + of_nat i" "tick_per_us small_notify = 1"
  by (simp_all add: small_notify_def current_thread_def two_ready_ctx)

lemma small_notify_queues: "rr_ok (sst small_notify) ((\<lambda>_. [])(0 := [11, 12]))"
proof -
  have "rr_ok (two_ready (\<lambda>cpu pr. cpu) PLAT_CPU_NUM) ((\<lambda>_. [])(0 := [11, 12]))" using two_ready_ok [of "\<lambda>cpu pr. cpu" PLAT_CPU_NUM] by (simp add: PLAT_CPU_NUM_def)
  then show ?thesis unfolding small_notify_fields by (rule queues_ctx) (simp_all add: two_ready_def with_running_ctx)
qed

lemma small_notify_wait: "wait_ok just_13 small_notify"
proof -
  let ?h = "init_list_head (notific_head 0) \<lparr>lprev = \<lambda>_. 0, lnext = \<lambda>_. 0\<rparr>"
  have f: "dl.family notific_head {0} ?h (\<lambda>_. [])" by (simp add: dl.family_def init_list_head_empty)
  have "dl.family notific_head {0} (waiting small_notify) ((\<lambda>_. [])(0 := [notification_queue_node 13]))"
    using dl.family_append [OF f, of 0 "notification_queue_node 13"] by (simp add: dl.fresh_def small_notify_def)
  then have "dl.family notific_head {0} (waiting small_notify) (\<lambda>p. map notification_queue_node (just_13 p))" by (simp add: dl.family_def)
  then show ?thesis by (simp add: wait_ok_def wait_lists_def small_notify_fields lock_simps)
qed

lemma small_notify_sleep: "sleep_ok just_13 small_notify"
proof -
  have "dl.family sleep_head {..<PLAT_CPU_NUM} (sleepers small_notify) ((\<lambda>_. [])(0 := [sleep_node 13]))"
    using dl.family_append [OF sleep_init, of 0 PLAT_CPU_NUM "sleep_node 13" "\<lparr>lprev = \<lambda>_. 0, lnext = \<lambda>_. 0\<rparr>"] by (simp add: dl.fresh_def small_notify_def PLAT_CPU_NUM_def)
  moreover have "((\<lambda>_. [])(0 := [sleep_node 13])) = (\<lambda>c. map sleep_node (just_13 c))" by auto
  ultimately have "sleep_lists just_13 small_notify" unfolding sleep_lists_def by (rule subst [rotated])
  moreover have "sleep_list_lock small_notify = (\<lambda>_. lock_init)" by (simp add: small_notify_def)
  ultimately show ?thesis by (simp add: sleep_ok_def small_notify_fields lock_simps)
qed

lemma small_notify_running:
  "0 < PLAT_CPU_NUM" "notifics small_notify 0 = Some \<lparr>not_delivered_notifc_count = 0, waiting_threads_count = 1, notifc_lock = lock_init\<rparr>"
  "ctx (sst small_notify) 10 = Some ((init_thread_ctx 10 TYPE_USER NO_AFF)\<lparr>tstate := TS_RUNNING\<rparr>)"
  "tstate ((init_thread_ctx 10 TYPE_USER NO_AFF)\<lparr>tstate := TS_RUNNING\<rparr>) = TS_RUNNING" "budget ((init_thread_ctx 10 TYPE_USER NO_AFF)\<lparr>tstate := TS_RUNNING\<rparr>) \<noteq> 0"
  "waits 0 0 13 small_notify"
  by (simp_all add: small_notify_fields two_ready_ctx init_thread_ctx_def DEFAULT_BUDGET_def waits_def target_cpu_def MAX_PRIO_def PLAT_CPU_NUM_def)



theorem wait_notific_correct_witness:
  "\<exists>s'. wait_notific rr 0 0 True None small_notify = Some (None, s') \<and> wait_ok ((\<lambda>_. [])(0 := [13, 10])) s' \<and> current_thread 0 s' = Some 11"
proof -
  have f: "find (runnable 0 (sst small_notify)) (((\<lambda>_. [])(0 := [11, 12])) 0) = Some 11" by (simp add: small_notify_fields runnable_def two_ready_ctx init_thread_ctx_def)
  have l: "length (just_13 0) + 1 < 2 ^ 32" by simp
  from wait_notific_correct [OF small_notify_queues small_notify_wait small_notify_running(2) l small_notify_fields(4) small_notify_running(3,4,1) f]
  obtain s' where "wait_notific rr 0 0 True None small_notify = Some (None, s')" "wait_ok (just_13(0 := just_13 0 @ [10])) s'" "current_thread 0 s' = Some 11" by fastforce
  then show ?thesis by (intro exI [of _ s']) simp
qed

end
