(* ===== verification/Process.thy ===== *)
theory Process
  imports Notification
begin

text \<open>
  Interrupts and the end of processes: \<^verbatim>\<open>kernel/arch/aarch64/irq/irq_entry.c\<close> and \<^verbatim>\<open>ipi.c\<close> with the controller of
  \<^verbatim>\<open>plat/raspi3/irq/irq.c\<close>, \<^verbatim>\<open>kernel/irq/ipi.c\<close>, \<^verbatim>\<open>kernel/object/irq.c\<close>, \<^verbatim>\<open>kernel/object/recycle.c\<close> with its reader in
  \<^verbatim>\<open>user/procmgr/recycle.c\<close>, and \<^verbatim>\<open>sys_thread_exit\<close> of \<^verbatim>\<open>kernel/object/thread.c\<close>.  The reading of the interrupt source
  is an argument, the mailbox of a CPU a word of the state.  An interrupt
  object is represented by the number of its vector, and its notification has the address of the object.
\<close>

section \<open>Inter-processor interrupts\<close>

record ipi_data =
  ipi_lock :: lock_impl
  start :: u32
  finish :: u32
  args :: "u64 list"

definition IPI_DATA_ARG_NUM :: nat where "IPI_DATA_ARG_NUM = 7"
definition IPI_TLB_SHOOTDOWN :: nat where "IPI_TLB_SHOOTDOWN = 60"
definition IPI_RESCHEDULE :: nat where "IPI_RESCHEDULE = 61"

datatype handle_type = HANDLE_KERNEL | HANDLE_USER

text \<open>\<open>mbox i\<close> is the first mailbox of CPU \<open>i\<close>, a set of pending interrupts.\<close>

record pstate = nstate +
  global_ipi_data :: "nat \<Rightarrow> ipi_data"
  mbox :: "nat \<Rightarrow> u32"
  irq_handle_type :: "int \<Rightarrow> handle_type"
  irq_notifcs :: "int \<Rightarrow> ptr option"
  intr_vector :: "ptr \<Rightarrow> int"
  recycle_notification :: "ptr option"
  recycle_msg_buffer :: u64
  recycle_msg_head :: "(u64 \<times> int) list"
  recycle_buffer_lock :: lock_impl

definition upd_ipi :: "nat \<Rightarrow> (ipi_data \<Rightarrow> ipi_data) \<Rightarrow> 'a pstate_scheme \<Rightarrow> 'a pstate_scheme" where
  "upd_ipi cpu f s = s\<lparr>global_ipi_data := (global_ipi_data s)(cpu := f (global_ipi_data s cpu))\<rparr>"

definition init_ipi_data :: "'a pstate_scheme \<Rightarrow> 'a pstate_scheme" where
  "init_ipi_data s = s\<lparr>global_ipi_data := (\<lambda>i. if i < PLAT_CPU_NUM
     then (global_ipi_data s i)\<lparr>ipi_lock := lock_init, start := 0, finish := 0\<rparr> else global_ipi_data s i)\<rparr>"

definition plat_send_ipi :: "nat \<Rightarrow> nat \<Rightarrow> 'a pstate_scheme \<Rightarrow> 'a pstate_scheme option" where
  "plat_send_ipi cpu ipi s = do {
     BUG_ON (cpu \<ge> PLAT_CPU_NUM);
     BUG_ON (ipi \<ge> 32);
     Some (s\<lparr>mbox := (mbox s)(cpu := mbox s cpu OR push_bit ipi 1)\<rparr>) }"

definition arch_send_ipi :: "nat \<Rightarrow> nat \<Rightarrow> 'a pstate_scheme \<Rightarrow> 'a pstate_scheme option" where
  "arch_send_ipi cpu ipi s = plat_send_ipi cpu ipi s"

definition ipi_reschedule :: "nat \<Rightarrow> 'a pstate_scheme \<Rightarrow> 'a pstate_scheme option" where
  "ipi_reschedule cpu s = arch_send_ipi cpu IPI_RESCHEDULE s"

definition prepare_ipi_tx :: "nat \<Rightarrow> 'a pstate_scheme \<Rightarrow> 'a pstate_scheme option" where
  "prepare_ipi_tx target s = do {
     l \<leftarrow> lock (ipi_lock (global_ipi_data s target));
     Some (upd_ipi target (\<lambda>d. d\<lparr>ipi_lock := l\<rparr>) s) }"

definition set_ipi_tx_arg :: "nat \<Rightarrow> nat \<Rightarrow> u64 \<Rightarrow> 'a pstate_scheme \<Rightarrow> 'a pstate_scheme option" where
  "set_ipi_tx_arg target arg_index val s = do {
     as \<leftarrow> upd_opt (args (global_ipi_data s target)) arg_index val;
     Some (upd_ipi target (\<lambda>d. d\<lparr>args := as\<rparr>) s) }"

definition start_ipi_tx :: "nat \<Rightarrow> nat \<Rightarrow> 'a pstate_scheme \<Rightarrow> 'a pstate_scheme option" where
  "start_ipi_tx target ipi_vector s = arch_send_ipi target ipi_vector (upd_ipi target (\<lambda>d. d\<lparr>start := 1\<rparr>) s)"

text \<open>Waiting for a receiver that has not finished never ends when nothing else runs.\<close>

definition wait_finish_ipi_tx :: "nat \<Rightarrow> 'a pstate_scheme \<Rightarrow> 'a pstate_scheme option" where
  "wait_finish_ipi_tx target s =
     (if finish (global_ipi_data s target) \<noteq> 1 then None
      else Some (upd_ipi target (\<lambda>d. d\<lparr>start := 0, finish := 0, ipi_lock := unlock (ipi_lock d)\<rparr>) s))"

definition finish_ipi_tx :: "nat \<Rightarrow> 'a pstate_scheme \<Rightarrow> 'a pstate_scheme" where
  "finish_ipi_tx target s = upd_ipi target (\<lambda>d. d\<lparr>ipi_lock := unlock (ipi_lock d)\<rparr>) s"

definition get_ipi_tx_arg :: "nat \<Rightarrow> nat \<Rightarrow> 'a pstate_scheme \<Rightarrow> u64 option" where
  "get_ipi_tx_arg target arg_index s = nth_opt (args (global_ipi_data s target)) arg_index"

definition mark_finish_ipi_tx :: "nat \<Rightarrow> 'a pstate_scheme \<Rightarrow> 'a pstate_scheme" where
  "mark_finish_ipi_tx target s = upd_ipi target (\<lambda>d. d\<lparr>finish := 1\<rparr>) s"

definition handle_ipi :: "nat \<Rightarrow> int" where
  "handle_ipi ipi = (if ipi = IPI_RESCHEDULE then 0 else - 1)"

section \<open>Interrupts\<close>

definition INT_SRC_TIMER3 :: u32 where "INT_SRC_TIMER3 = 0x008"
definition INT_SRC_MBOX0 :: u32 where "INT_SRC_MBOX0 = 0x010"
definition MAX_IRQ_NUM :: int where "MAX_IRQ_NUM = 4096"

definition plat_handle_ipi :: "nat \<Rightarrow> 'a pstate_scheme \<Rightarrow> 'a pstate_scheme" where
  "plat_handle_ipi cpu s = (let ipi = ctzl (ucast (mbox s cpu))
     in s\<lparr>mbox := (mbox s)(cpu := mbox s cpu AND NOT (push_bit ipi 1))\<rparr>)"

definition plat_handle_irq :: "sched_ops \<Rightarrow> nat \<Rightarrow> u32 \<Rightarrow> 'a pstate_scheme \<Rightarrow> 'a pstate_scheme option" where
  "plat_handle_irq ops cpu irq_src s =
     (if irq_src AND INT_SRC_MBOX0 \<noteq> 0 then Some (plat_handle_ipi cpu s)
      else if push_bit (ctzl (ucast irq_src)) 1 = INT_SRC_TIMER3 then handle_timer_irq ops cpu s
      else Some s)"

definition handle_irq :: "sched_ops \<Rightarrow> nat \<Rightarrow> u32 \<Rightarrow> 'a pstate_scheme \<Rightarrow> 'a pstate_scheme option" where
  "handle_irq ops cpu irq_src s = do {
     s1 \<leftarrow> plat_handle_irq ops cpu irq_src s;
     s2 \<leftarrow> do_sched ops cpu s1;
     end_switch cpu s2 }"

definition arch_interrupt_init :: "'a pstate_scheme \<Rightarrow> 'a pstate_scheme" where
  "arch_interrupt_init s = s\<lparr>irq_handle_type := (\<lambda>i. if 0 \<le> i \<and> i < MAX_IRQ_NUM then HANDLE_KERNEL else irq_handle_type s i)\<rparr>"

text \<open>The controller of the board has no implementation of \<^verbatim>\<open>plat_enable_irqno\<close>: it stops the kernel.  \<^verbatim>\<open>plat_ack_irq\<close> is empty.\<close>

definition plat_enable_irqno :: "int \<Rightarrow> 'a pstate_scheme \<Rightarrow> 'a pstate_scheme option" where
  "plat_enable_irqno irq s = None"

definition arch_enable_irqno :: "int \<Rightarrow> 'a pstate_scheme \<Rightarrow> 'a pstate_scheme option" where
  "arch_enable_irqno irq s = plat_enable_irqno irq s"

definition plat_ack_irq :: "int \<Rightarrow> 'a pstate_scheme \<Rightarrow> 'a pstate_scheme" where
  "plat_ack_irq irq s = s"

text \<open>
  A transaction between two processors: the arguments the sender stored are the ones the receiver reads, and after the
  receiver has finished the buffer is free again.  The two vectors the kernel defines are above the 32 the mailbox has,
  so a request to reschedule stops the kernel.
\<close>

lemma ipi_tx_roundtrip:
  assumes cpu: "cpu < PLAT_CPU_NUM" and d: "global_ipi_data s cpu = d" "lock_free (ipi_lock d)" "length (args d) = IPI_DATA_ARG_NUM"
    and i: "i < IPI_DATA_ARG_NUM" and v: "ipi_vector < 32"
  shows "\<exists>s1 s2. do { s1 \<leftarrow> prepare_ipi_tx cpu s; s1 \<leftarrow> set_ipi_tx_arg cpu i val s1; start_ipi_tx cpu ipi_vector s1 } = Some s1
    \<and> prepare_ipi_tx cpu s1 = None \<and> start (global_ipi_data s1 cpu) = 1 \<and> bit (mbox s1 cpu) ipi_vector \<and> get_ipi_tx_arg cpu i s1 = Some val
    \<and> wait_finish_ipi_tx cpu (mark_finish_ipi_tx cpu s1) = Some s2 \<and> lock_free (ipi_lock (global_ipi_data s2 cpu))
    \<and> start (global_ipi_data s2 cpu) = 0 \<and> finish (global_ipi_data s2 cpu) = 0 \<and> args (global_ipi_data s2 cpu) = (args d)[i := val]"
proof -
  let ?d = "d\<lparr>ipi_lock := taken (ipi_lock d), args := (args d)[i := val], start := 1\<rparr>"
  let ?s1 = "s\<lparr>global_ipi_data := (global_ipi_data s)(cpu := ?d), mbox := (mbox s)(cpu := mbox s cpu OR push_bit ipi_vector 1)\<rparr>"
  have "do { s1 \<leftarrow> prepare_ipi_tx cpu s; s1 \<leftarrow> set_ipi_tx_arg cpu i val s1; start_ipi_tx cpu ipi_vector s1 } = Some ?s1"
    using cpu d i v by (simp add: prepare_ipi_tx_def set_ipi_tx_arg_def start_ipi_tx_def arch_send_ipi_def plat_send_ipi_def upd_ipi_def upd_opt_def)
  moreover have "lock (taken (ipi_lock d)) = None" unfolding lock_None_iff using d(2) by (simp add: lock_free_def taken_def)
  then have "prepare_ipi_tx cpu ?s1 = None" by (simp add: prepare_ipi_tx_def)
  moreover have "bit (mbox ?s1 cpu) ipi_vector" using v by (simp add: bit_simps)
  moreover have "get_ipi_tx_arg cpu i ?s1 = Some val" using d(3) i by (simp add: get_ipi_tx_arg_def nth_opt_def)
  moreover have "wait_finish_ipi_tx cpu (mark_finish_ipi_tx cpu ?s1) = Some (upd_ipi cpu (\<lambda>_. ?d\<lparr>start := 0, finish := 0, ipi_lock := unlock (ipi_lock ?d)\<rparr>) ?s1)"
    by (simp add: wait_finish_ipi_tx_def mark_finish_ipi_tx_def upd_ipi_def)
  moreover have "lock_free (unlock (ipi_lock ?d))" using d(2) by (simp add: lock_free_def unlock_def taken_def)
  ultimately show ?thesis
    by (intro exI [of _ ?s1] exI [of _ "upd_ipi cpu (\<lambda>_. ?d\<lparr>start := 0, finish := 0, ipi_lock := unlock (ipi_lock ?d)\<rparr>) ?s1"]) (simp add: upd_ipi_def)
qed

lemma ipi_reschedule_stops: "ipi_reschedule cpu s = None"
  by (simp add: ipi_reschedule_def arch_send_ipi_def plat_send_ipi_def IPI_RESCHEDULE_def)

section \<open>Interrupts for user threads\<close>

definition sizeof_irq_notification :: nat where "sizeof_irq_notification = 40"

definition user_handle_irq :: "sched_ops \<Rightarrow> nat \<Rightarrow> int \<Rightarrow> 'a pstate_scheme \<Rightarrow> (int option \<times> 'a pstate_scheme) option" where
  "user_handle_irq ops cpu irq s = do {
     p \<leftarrow> irq_notifcs s irq;
     (ret, s1) \<leftarrow> signal_notific ops cpu p True s;
     Some (case ret of None \<Rightarrow> None | Some r \<Rightarrow> Some 0, s1) }"

definition irq_deinit :: "ptr \<Rightarrow> 'a pstate_scheme \<Rightarrow> 'a pstate_scheme" where
  "irq_deinit p s = (let irq = intr_vector s p
     in s\<lparr>irq_handle_type := (irq_handle_type s)(irq := HANDLE_KERNEL), irq_notifcs := (irq_notifcs s)(irq := None)\<rparr>)"

definition sys_irq_register :: "nat \<Rightarrow> int \<Rightarrow> 'a pstate_scheme \<Rightarrow> (int \<times> 'a pstate_scheme) option" where
  "sys_irq_register cpu irq s =
     (if irq < 0 \<or> irq \<ge> MAX_IRQ_NUM then Some (- EINVAL, s)
      else do {
        (x, s1) \<leftarrow> in_caps (obj_alloc TYPE_IRQ sizeof_irq_notification) s;
        case x of
          None \<Rightarrow> Some (- ENOMEM, s1)
        | Some p \<Rightarrow> do {
            let s2 = init_notific p (s1\<lparr>intr_vector := (intr_vector s1)(p := irq)\<rparr>);
            g \<leftarrow> current_cap_group cpu s2;
            (cap, s3) \<leftarrow> in_caps (cap_alloc g p 0) s2;
            if cap < 0 then do { s4 \<leftarrow> free_obj (Some p) s3; Some (cap, s4) }
            else do {
              s4 \<leftarrow> arch_enable_irqno irq
                (s3\<lparr>irq_notifcs := (irq_notifcs s3)(irq := Some p), irq_handle_type := (irq_handle_type s3)(irq := HANDLE_USER)\<rparr>);
              Some (cap, s4) } } })"

definition sys_irq_wait :: "sched_ops \<Rightarrow> nat \<Rightarrow> int \<Rightarrow> bool \<Rightarrow> 'a pstate_scheme \<Rightarrow> (int option \<times> 'a pstate_scheme) option" where
  "sys_irq_wait ops cpu irq_cap is_block s = do {
     g \<leftarrow> current_cap_group cpu s;
     (x, s1) \<leftarrow> in_caps (obj_get g irq_cap TYPE_IRQ) s;
     case x of
       None \<Rightarrow> Some (Some (- ECAPBILITY), s1)
     | Some p \<Rightarrow> do {
         (ret, s2) \<leftarrow> wait_notific ops cpu p is_block None s1;
         case ret of
           None \<Rightarrow> Some (None, s2)
         | Some r \<Rightarrow> do { s3 \<leftarrow> put_obj (Some p) s2; Some (Some r, s3) } } }"

definition sys_irq_ack :: "nat \<Rightarrow> int \<Rightarrow> 'a pstate_scheme \<Rightarrow> (int \<times> 'a pstate_scheme) option" where
  "sys_irq_ack cpu irq_cap s = do {
     g \<leftarrow> current_cap_group cpu s;
     (x, s1) \<leftarrow> in_caps (obj_get g irq_cap TYPE_IRQ) s;
     case x of
       None \<Rightarrow> Some (- ECAPBILITY, s1)
     | Some p \<Rightarrow> do { s2 \<leftarrow> put_obj (Some p) (plat_ack_irq (intr_vector s1 p) s1); Some (0, s2) } }"

section \<open>The message buffer of the recycler\<close>

definition START_OFFSET :: u64 where "START_OFFSET = 16"
definition END_OFFSET :: u64 where "END_OFFSET = 4096"
definition MSG_SIZE :: u64 where "MSG_SIZE = 16"

definition kernel_word :: "u64 \<Rightarrow> 'a kstate_scheme \<Rightarrow> u64" where
  "kernel_word va s = of_bytes (peek (virt_to_phys va) 8 (pmem (vm s)))"

definition kernel_store :: "u64 \<Rightarrow> u8 list \<Rightarrow> 'a kstate_scheme \<Rightarrow> 'a kstate_scheme" where
  "kernel_store va bs s = s\<lparr>vm := (vm s)\<lparr>pmem := poke (virt_to_phys va) bs (pmem (vm s))\<rparr>\<rparr>"

definition get_consumer_offset :: "'a pstate_scheme \<Rightarrow> u64" where
  "get_consumer_offset s = kernel_word (recycle_msg_buffer s) s"

definition set_consumer_offset :: "u64 \<Rightarrow> 'a pstate_scheme \<Rightarrow> 'a pstate_scheme" where
  "set_consumer_offset v s = kernel_store (recycle_msg_buffer s) (to_bytes 8 v) s"

definition get_producer_offset :: "'a pstate_scheme \<Rightarrow> u64" where
  "get_producer_offset s = kernel_word (recycle_msg_buffer s + 8) s"

definition set_producer_offset :: "u64 \<Rightarrow> 'a pstate_scheme \<Rightarrow> 'a pstate_scheme" where
  "set_producer_offset v s = kernel_store (recycle_msg_buffer s + 8) (to_bytes 8 v) s"

definition set_msg :: "u64 \<Rightarrow> u64 \<Rightarrow> int \<Rightarrow> 'a pstate_scheme \<Rightarrow> 'a pstate_scheme" where
  "set_msg off b exitcode s =
     kernel_store (recycle_msg_buffer s + off) (to_bytes 8 b @ to_bytes 4 (of_int exitcode)) s"

definition get_free_slot_in_msg_buffer :: "'a pstate_scheme \<Rightarrow> u64 \<times> 'a pstate_scheme" where
  "get_free_slot_in_msg_buffer s =
     (let p_off = get_producer_offset s; c_off = get_consumer_offset s
      in if p_off \<ge> c_off \<and> p_off < END_OFFSET then (p_off, set_producer_offset (p_off + MSG_SIZE) s)
         else if p_off = END_OFFSET \<and> c_off > START_OFFSET then (START_OFFSET, set_producer_offset (START_OFFSET + MSG_SIZE) s)
         else if p_off < c_off then (p_off, set_producer_offset (p_off + MSG_SIZE) s)
         else (0, s))"

text \<open>
  The other end of the ring is the recycle thread of the process manager, \<^verbatim>\<open>user/procmgr/recycle.c\<close>.  It has the same
  page at an address of its own; its two operations are written with the address of the kernel.
\<close>

definition retrieve_one_msg :: "'a pstate_scheme \<Rightarrow> u64 option" where
  "retrieve_one_msg s =
     (let p_off = get_producer_offset s; c_off = get_consumer_offset s
      in if p_off \<noteq> c_off then Some (c_off + recycle_msg_buffer s) else None)"

definition increase_consumer_offset :: "u64 \<Rightarrow> 'a pstate_scheme \<Rightarrow> 'a pstate_scheme option" where
  "increase_consumer_offset msg s =
     (let c_off = msg - recycle_msg_buffer s
      in if c_off < END_OFFSET then Some (set_consumer_offset (c_off + MSG_SIZE) s)
         else do { BUG_ON (c_off \<noteq> END_OFFSET); Some s })"

definition sys_register_recycle :: "nat \<Rightarrow> int \<Rightarrow> u64 \<Rightarrow> 'a pstate_scheme \<Rightarrow> (int \<times> 'a pstate_scheme) option" where
  "sys_register_recycle cpu notifc_cap msg_buffer s = do {
     g \<leftarrow> current_cap_group cpu s;
     G \<leftarrow> groups (cst s) g;
     if badge G \<noteq> PROCMGR_BADGE then Some (- EPERM, s)
     else do {
       (x, s1) \<leftarrow> in_caps (obj_get g notifc_cap TYPE_NOTIFICATION) s;
       p \<leftarrow> x;
       (ret, kva, s2) \<leftarrow> trans_uva_to_kva cpu msg_buffer s1;
       BUG_ON (ret \<noteq> 0);
       va \<leftarrow> kva;
       Some (0, s2\<lparr>recycle_notification := Some p, recycle_msg_buffer := va, recycle_msg_head := [],
                   recycle_buffer_lock := lock_init\<rparr>) } }"

definition sizeof_recycle_msg_node :: nat where "sizeof_recycle_msg_node = 32"

text \<open>
  A buffer that has not been registered is a null pointer.  The loop over the saved messages frees the message it has moved to the buffer and then reads the pointer to the
  next one from it; what follows is undefined.
\<close>

definition notify_user_recycler :: "sched_ops \<Rightarrow> nat \<Rightarrow> u64 \<Rightarrow> int \<Rightarrow> 'a pstate_scheme \<Rightarrow> 'a pstate_scheme option" where
  "notify_user_recycler ops cpu proc_badge exitcode s = do {
     l \<leftarrow> lock (recycle_buffer_lock s);
     BUG_ON (recycle_msg_buffer s = 0);
     let (buffer_off, s1) = get_free_slot_in_msg_buffer (s\<lparr>recycle_buffer_lock := l\<rparr>);
     s2 \<leftarrow> (if buffer_off = 0 then do {
              (ok, s2) \<leftarrow> in_caps (kmalloc_ok sizeof_recycle_msg_node) s1;
              BUG_ON (\<not> ok);
              Some (s2\<lparr>recycle_msg_head := (proc_badge, exitcode) # recycle_msg_head s2\<rparr>) }
            else do {
              let s2 = set_msg buffer_off proc_badge exitcode s1;
              if recycle_msg_head s2 = [] then Some s2
              else do {
                let (off, s3) = get_free_slot_in_msg_buffer s2;
                BUG_ON (off \<noteq> 0);
                Some s3 } });
     let s3 = s2\<lparr>recycle_buffer_lock := unlock (recycle_buffer_lock s2)\<rparr>;
     if buffer_off \<noteq> 0 then do {
       p \<leftarrow> recycle_notification s3;
       (r, s4) \<leftarrow> signal_notific ops cpu p False s3;
       Some s4 }
     else Some s3 }"

definition leave_thread :: "nat \<Rightarrow> 'a machine_scheme \<Rightarrow> 'a machine_scheme" where
  "leave_thread cpu s = s\<lparr>sst := (sst s)\<lparr>current_threads := (current_threads (sst s))(cpu := None)\<rparr>\<rparr>"

definition sys_exit_group :: "sched_ops \<Rightarrow> nat \<Rightarrow> int \<Rightarrow> 'a pstate_scheme \<Rightarrow> 'a pstate_scheme option" where
  "sys_exit_group ops cpu exitcode s = do {
     t \<leftarrow> current_thread cpu s;
     s1 \<leftarrow> set_thread_state t TS_EXIT s;
     g \<leftarrow> current_cap_group cpu s1;
     G \<leftarrow> groups (cst s1) g;
     let old = notify_recycler G;
     c \<leftarrow> upd_group g (\<lambda>G. if notify_recycler G = 0 then G\<lparr>notify_recycler := 1\<rparr> else G) (cst s1);
     s2 \<leftarrow> (if old = 1 then notify_user_recycler ops cpu (badge G) exitcode (s1\<lparr>cst := c\<rparr>) else Some (s1\<lparr>cst := c\<rparr>));
     s3 \<leftarrow> do_sched ops cpu (leave_thread cpu s2);
     end_switch cpu s3 }"

definition sys_thread_exit :: "sched_ops \<Rightarrow> nat \<Rightarrow> 'a pstate_scheme \<Rightarrow> 'a pstate_scheme option" where
  "sys_thread_exit ops cpu s = do {
     t \<leftarrow> current_thread cpu s;
     s1 \<leftarrow> set_thread_state t TS_EXIT s;
     g \<leftarrow> current_cap_group cpu s1;
     s2 \<leftarrow> lock_threads g s1;
     c \<leftarrow> upd_group g (\<lambda>G. G\<lparr>thread_cnt := thread_cnt G - 1\<rparr>) (cst s2);
     G \<leftarrow> groups c g;
     s3 \<leftarrow> unlock_threads g (s2\<lparr>cst := c\<rparr>);
     if thread_cnt G = 0 then sys_exit_group ops cpu 0 s3
     else do {
       s4 \<leftarrow> do_sched ops cpu (leave_thread cpu s3);
       end_switch cpu s4 } }"

text \<open>The work of recycling is switched off in the source; the reference is not given back.\<close>

definition sys_cap_group_recycle :: "nat \<Rightarrow> int \<Rightarrow> 'a pstate_scheme \<Rightarrow> (int \<times> 'a pstate_scheme) option" where
  "sys_cap_group_recycle cpu cap_group_cap s = do {
     g \<leftarrow> current_cap_group cpu s;
     (x, s1) \<leftarrow> in_caps (obj_get g cap_group_cap TYPE_CAP_GROUP) s;
     BUG_ON (x = None);
     Some (0, s1) }"

section \<open>The timer interrupt\<close>

text \<open>A thread whose budget is used up goes behind the threads of its queue, and the first of them runs.\<close>

lemma preempt_ok:
  assumes q: "rr_ok x Q" and cpu: "cpu < PLAT_CPU_NUM" and cur: "current_threads x cpu = Some me"
    and c: "ctx x me = Some c" "tstate c = TS_RUNNING" "budget c = 0" "fit cpu c"
    and t: "Q cpu = t # rest" "ctx x t = Some ct" "kernel_stack_state ct = KS_FREE"
  shows "\<exists>y z. rr_sched cpu x = Some y \<and> finish_switch cpu y = Some z \<and> rr_ok z (Q(cpu := rest @ [me])) \<and> current_threads z = (current_threads x)(cpu \<mapsto> t)
    \<and> (\<forall>v cv. v \<noteq> t \<and> v \<noteq> me \<and> ctx x v = Some cv \<longrightarrow> (\<exists>c'. ctx z v = Some c' \<and> tstate c' = tstate cv))"
proof -
  let ?x = "back_to cpu cpu me c x" and ?Q = "Q(cpu := Q cpu @ [me])"
  have tm: "t \<noteq> me" using queuesD(2) [OF q cpu, of t] t c by auto
  have q1: "rr_ok ?x ?Q" using queues_back_to [OF q c(1,2), of cpu cpu] cpu by simp
  have "runnable cpu ?x t" using t(2,3) tm by (simp add: runnable_def)
  then have "find (runnable cpu ?x) (?Q cpu) = Some t" using t(1) by simp
  from rr_choose_ok [OF q1 cpu this] obtain x1 where x1: "rr_sched_choose_thread cpu ?x = Some (t, x1)" "picked (\<lambda>cpu pr. cpu) PLAT_CPU_NUM ?x ?Q cpu t x1" by blast
  have "\<forall>v. current_threads ?x cpu = Some v \<longrightarrow> ctx ?x v \<noteq> None" using cur by simp
  from switch_picked [OF x1(2) this] obtain y where
    y: "switch_to_thread cpu t x1 = Some y" "rr_ok y (?Q(cpu := remove1 t (?Q cpu)))" "current_threads y = (current_threads x)(cpu \<mapsto> t)"
    "same_view ?x y {t}" "prev_thread y t = PREV me" using cur tm by auto
  have "rr_sched cpu x = Some y" using rr_sched_requeue [OF q cpu cur c(1-3)] c(4) x1(1) y(1) by (simp add: fit_def)
  moreover obtain cm where cm: "ctx y me = Some cm"
    using same_viewD [OF y(4), of me "c\<lparr>budget := DEFAULT_BUDGET, tstate := TS_INTER, cpuid := cpu, tstate := TS_READY\<rparr>"] tm by auto
  let ?z = "set_ctx me (cm\<lparr>kernel_stack_state := KS_FREE\<rparr>) y"
  have "finish_switch cpu y = Some ?z" using y(3,5) cm by (simp add: finish_switch_def)
  moreover have "rr_ok y (Q(cpu := rest @ [me]))" using y(2) t(1) by simp
  then have "rr_ok ?z (Q(cpu := rest @ [me]))" by (rule queues_ctx_same [OF _ cm]) simp_all
  moreover have "\<exists>c'. ctx ?z v = Some c' \<and> tstate c' = tstate cv" if "v \<noteq> t" "v \<noteq> me" "ctx x v = Some cv" for v cv
    using same_viewD [OF y(4), of v cv] that by (auto dest: sview_fields)
  ultimately show ?thesis using y(3) by (intro exI [of _ y] exI [of _ ?z]) auto
qed

lemma wait_ok_sched:
  assumes w: "wait_ok W s" and e: "notifics s' = notifics s" "waiting s' = waiting s"
    and c: "\<And>v cv. ctx (sst s) v = Some cv \<Longrightarrow> tstate cv = TS_WAITING \<Longrightarrow> \<exists>c'. ctx (sst s') v = Some c' \<and> tstate c' = TS_WAITING"
  shows "wait_ok W s'"
  unfolding wait_ok_def
proof (intro conjI allI impI ballI)
  show "wait_lists W s'" using w e by (simp add: wait_ok_def wait_lists_def)
  fix p n assume "notifics s' p = Some n"
  then have n: "notifics s p = Some n" by (simp add: e)
  then show "lock_free (notifc_lock n)" "waiting_threads_count n = of_nat (length (W p))" "length (W p) < 2 ^ 32" using w by (auto simp: wait_ok_def)
  fix t assume "t \<in> set (W p)"
  then obtain cv where "ctx (sst s) t = Some cv" "tstate cv = TS_WAITING" using wait_okD(4) [OF w n] by blast
  then show "\<exists>c. ctx (sst s') t = Some c \<and> tstate c = TS_WAITING" by (rule c)
qed

lemma timer_source: "plat_handle_irq ops cpu INT_SRC_TIMER3 s = handle_timer_irq ops cpu s"
proof -
  have "ctzl (ucast INT_SRC_TIMER3) = 3" by (simp add: ctzl_def INT_SRC_TIMER3_def ctz_from.simps bit_simps)
  then show ?thesis by (simp add: plat_handle_irq_def INT_SRC_TIMER3_def INT_SRC_MBOX0_def)
qed

text \<open>
  C23: the timer interrupt wakes the threads that are due and preempts the running one.  Every sleeper of the CPU whose wake-up time
  lies before the reading of the counter leaves the sleep list and the queue of the notification it waited for, and
  is put on the ready queue in the order of the wake-up times, whether it slept or waited with a timeout; the other
  sleepers stay.  The running thread, which pays with its last tick, goes to the end of the queue, and the thread at
  the head of the queue runs.
\<close>

theorem timer_interrupt_correct:
  assumes ok: "sleep_ok S s" and w: "wait_ok W s" and q: "rr_ok (sst s) Q" and cpu: "cpu < PLAT_CPU_NUM"
    and sl: "\<forall>t \<in> set (S cpu). waits cpu cpu t s \<and> timer_ok W t s"
    and me: "current_thread cpu s = Some me" "ctx (sst s) me = Some c" "tstate c = TS_RUNNING" "budget c = 1" "fit cpu c"
    and t: "Q cpu = t # rest" "ctx (sst s) t = Some ct" "kernel_stack_state ct = KS_FREE"
    and es: "es = filter (\<lambda>t. wakeup s t < cntpct_el0 s (readings s)) (S cpu)"
  shows "\<exists>s'. handle_irq rr cpu INT_SRC_TIMER3 s = Some s' \<and> rr_ok (sst s') (Q(cpu := rest @ es @ [me])) \<and> current_thread cpu s' = Some t
    \<and> sleep_ok (S(cpu := filter (\<lambda>t. cntpct_el0 s (readings s) \<le> wakeup s t) (S cpu))) s' \<and> wait_ok (\<lambda>p. filter (\<lambda>t. t \<notin> set es) (W p)) s'"
proof -
  let ?S = "S(cpu := filter (\<lambda>t. cntpct_el0 s (readings s) \<le> wakeup s t) (S cpu))" and ?W = "\<lambda>p. filter (\<lambda>t. t \<notin> set es) (W p)"
  have "budget c \<noteq> 0" using me(4) by simp
  from handle_timer_irq_ok [OF ok w q cpu sl me(1-3) this es] obtain s1 where
    s1: "handle_timer_irq rr cpu s = Some s1" "rr_ok (sst s1) (Q(cpu := Q cpu @ es))" "wait_ok ?W s1" "sleep_ok ?S s1"
    "ctx (sst s1) me = Some (c\<lparr>budget := budget c - 1\<rparr>)" "current_threads (sst s1) = current_threads (sst s)"
    "\<And>u. u \<notin> set es \<Longrightarrow> u \<noteq> me \<Longrightarrow> ctx (sst s1) u = ctx (sst s) u" by blast
  have r: "tstate ct = TS_READY" using queuesD(2) [OF q cpu, of t] t by auto
  have "t \<notin> set es" "t \<noteq> me" using sl es t(2) r me(2,3) by (auto simp: waits_def)
  then have t1: "ctx (sst s1) t = Some ct" using s1(7) t(2) by simp
  have m: "current_threads (sst s1) cpu = Some me" "(Q(cpu := Q cpu @ es)) cpu = t # rest @ es" using s1(6) me(1) t(1) by (simp_all add: current_thread_def)
  have mc: "tstate (c\<lparr>budget := budget c - 1\<rparr>) = TS_RUNNING" "budget (c\<lparr>budget := budget c - 1\<rparr>) = 0" "fit cpu (c\<lparr>budget := budget c - 1\<rparr>)" using me by simp_all
  from preempt_ok [OF s1(2) cpu m(1) s1(5) mc m(2) t1 t(3)] obtain y z where
    z: "rr_sched cpu (sst s1) = Some y" "finish_switch cpu y = Some z" "rr_ok z (Q(cpu := rest @ es @ [me]))"
    "current_threads z = (current_threads (sst s1))(cpu \<mapsto> t)"
    "\<And>v cv. v \<noteq> t \<Longrightarrow> v \<noteq> me \<Longrightarrow> ctx (sst s1) v = Some cv \<Longrightarrow> \<exists>c'. ctx z v = Some c' \<and> tstate c' = tstate cv"
    unfolding fun_upd_upd append_assoc by blast
  have "handle_irq rr cpu INT_SRC_TIMER3 s = Some (s1\<lparr>sst := z\<rparr>)"
    using s1(1) z(1,2) by (simp add: handle_irq_def timer_source do_sched_def end_switch_def rr_def)
  moreover have "sleep_ok ?S (s1\<lparr>sst := z\<rparr>)" using s1(4) sleep_ok_cong [of "s1\<lparr>sst := z\<rparr>" s1 ?S] by simp
  moreover have "wait_ok ?W (s1\<lparr>sst := z\<rparr>)"
  proof (rule wait_ok_sched [OF s1(3)])
    fix v cv assume v: "ctx (sst s1) v = Some cv" "tstate cv = TS_WAITING"
    then have "v \<noteq> t" "v \<noteq> me" using t1 r s1(5) me(3) by auto
    with z(5) [OF _ _ v(1)] v(2) show "\<exists>c'. ctx (sst (s1\<lparr>sst := z\<rparr>)) v = Some c' \<and> tstate c' = TS_WAITING" by auto
  qed simp_all
  ultimately show ?thesis using z(3,4) by (intro exI [of _ "s1\<lparr>sst := z\<rparr>"]) (simp add: current_thread_def)
qed

section \<open>Words in kernel memory\<close>

lemma of_bytes_to_bytes: "of_bytes (to_bytes n v) = take_bit (8 * n) v"
proof (induction n arbitrary: v)
  case (Suc n)
  let ?a = "take_bit (8 + 8 * n) v"
  have "ucast (ucast v :: u8) = take_bit 8 v" by (rule bit_word_eqI) (auto simp: bit_simps)
  moreover have "256 * x = push_bit 8 x" for x :: u64 by (simp add: push_bit_eq_mult)
  ultimately have "of_bytes (to_bytes (Suc n) v) = take_bit 8 v + push_bit 8 (take_bit (8 * n) (drop_bit 8 v))"
    by (simp only: of_bytes.simps to_bytes.simps Suc)
  also have "\<dots> = push_bit 8 (drop_bit 8 ?a) + take_bit 8 ?a" by (simp add: drop_bit_take_bit)
  also have "\<dots> = ?a" by (rule bits_ident)
  finally show ?case by simp
qed simp

lemma poke_other: "(\<And>i. i < length bs \<Longrightarrow> pa + of_nat i \<noteq> a) \<Longrightarrow> poke pa bs m a = m a"
proof (induction bs arbitrary: pa m)
  case (Cons b bs)
  have "pa \<noteq> a" using Cons.prems [of 0] by simp
  moreover have "pa + 1 + of_nat i \<noteq> a" if "i < length bs" for i using Cons.prems [of "Suc i"] that by (simp add: add.assoc)
  ultimately show ?case using Cons.IH [of "pa + 1"] by simp
qed simp

lemma peek_cong: "(\<And>i. i < n \<Longrightarrow> m (pa + of_nat i) = m' (pa + of_nat i)) \<Longrightarrow> peek pa n m = peek pa n m'"
proof (induction n arbitrary: pa)
  case (Suc n)
  have "m (pa + 1 + of_nat i) = m' (pa + 1 + of_nat i)" if "i < n" for i using Suc.prems [of "Suc i"] that by (simp add: add.assoc)
  then show ?case using Suc.IH [of "pa + 1"] Suc.prems [of 0] by simp
qed simp

lemma of_nat_neq: "i < 2 ^ 64 \<Longrightarrow> j < 2 ^ 64 \<Longrightarrow> i \<noteq> j \<Longrightarrow> (of_nat i :: u64) \<noteq> of_nat j"
  by (rule notI, drule arg_cong [where f = unat], simp)

lemma peek_poke: "length bs < 2 ^ 64 \<Longrightarrow> peek pa (length bs) (poke pa bs m) = bs"
proof (induction bs arbitrary: pa m)
  case (Cons b bs)
  have "pa + 1 + of_nat i \<noteq> pa" if "i < length bs" for i
    using of_nat_neq [of "Suc i" 0] that Cons.prems by (simp add: add.assoc)
  then have "poke (pa + 1) bs (m(pa := b)) pa = b" by (subst poke_other) auto
  then show ?case using Cons by simp
qed simp

lemma length_to_bytes [simp]: "length (to_bytes n v) = n"
  by (induction n arbitrary: v) auto

lemma kernel_word_store: "kernel_word va (kernel_store va (to_bytes 8 v) s) = v"
  using peek_poke [of "to_bytes 8 v" "virt_to_phys va" "pmem (vm s)"] of_bytes_to_bytes [of 8 v]
  by (simp add: kernel_word_def kernel_store_def take_bit_word_eq_self)

lemma kernel_word_other:
  assumes "\<And>i j. i < length bs \<Longrightarrow> j < 8 \<Longrightarrow> virt_to_phys va' + of_nat i \<noteq> virt_to_phys va + of_nat j"
  shows "kernel_word va (kernel_store va' bs s) = kernel_word va s"
  unfolding kernel_word_def kernel_store_def
  by (simp, intro arg_cong [where f = of_bytes] peek_cong poke_other) (rule assms)

lemma kernel_store_fields [simp]:
  "recycle_msg_buffer (kernel_store va bs s) = recycle_msg_buffer s"
  by (simp add: kernel_store_def)

lemma offsets_after:
  "get_producer_offset (set_producer_offset v s) = v" "get_consumer_offset (set_producer_offset v s) = get_consumer_offset s"
  "get_consumer_offset (set_consumer_offset v s) = v"
proof -
  have "of_nat i + 8 \<noteq> (of_nat j :: u64)" if "i < 8" "j < 8" for i j
    using of_nat_neq [of "i + 8" j] that by (simp add: algebra_simps)
  then have "kernel_word (recycle_msg_buffer s) (kernel_store (recycle_msg_buffer s + 8) (to_bytes 8 v) s) = kernel_word (recycle_msg_buffer s) s"
    by (intro kernel_word_other) (simp add: virt_to_phys_def algebra_simps)
  then show "get_consumer_offset (set_producer_offset v s) = get_consumer_offset s"
    by (simp add: get_consumer_offset_def set_producer_offset_def)
qed (simp_all add: get_producer_offset_def set_producer_offset_def get_consumer_offset_def set_consumer_offset_def kernel_word_store)

section \<open>The ring of messages\<close>

text \<open>The offsets of the unread messages, from the consumer to the producer.\<close>

definition offs :: "nat \<Rightarrow> nat \<Rightarrow> nat list" where
  "offs a b = map (\<lambda>i. a + 16 * i) [0..<(b - a) div 16]"

definition pending :: "nat \<Rightarrow> nat \<Rightarrow> nat list" where
  "pending p c = (if c \<le> p then offs c p else offs c 4096 @ offs 16 p)"

definition ring_pos :: "nat \<Rightarrow> bool" where
  "ring_pos x \<longleftrightarrow> 16 dvd x \<and> 16 \<le> x \<and> x \<le> 4096"

lemma offs_snoc:
  assumes "16 dvd a" "16 dvd b" "a \<le> b"
  shows "offs a (b + 16) = offs a b @ [b]"
proof -
  obtain k where k: "b = a + 16 * k" using assms by (metis dvd_diff_nat dvdE le_add_diff_inverse)
  have "(b + 16 - a) div 16 = Suc k" "(b - a) div 16 = k" unfolding k by simp_all
  then show ?thesis by (simp add: offs_def k)
qed

lemma offs_range: "x \<in> set (offs a b) \<Longrightarrow> a \<le> x \<and> x < b"
proof -
  have "a + 16 * i < b" if "i < (b - a) div 16" for i
  proof -
    have "16 * Suc i \<le> 16 * ((b - a) div 16)" using that by simp
    also have "\<dots> \<le> b - a" by simp
    finally show ?thesis by simp
  qed
  then show "x \<in> set (offs a b) \<Longrightarrow> a \<le> x \<and> x < b" by (auto simp: offs_def)
qed

lemma offs_empty [simp]: "offs a a = []"
  by (simp add: offs_def)

lemma length_offs [simp]: "length (offs a b) = (b - a) div 16"
  by (simp add: offs_def)

lemma pending_push:
  assumes "ring_pos p" "ring_pos c" "\<not> (p = 4096 \<and> c = 16)" "off = (if p = 4096 \<and> 16 < c then 16 else p)" "p = 4096 \<longrightarrow> 16 < c"
  shows "off \<notin> set (pending p c)" "off + 16 \<noteq> c \<Longrightarrow> pending (off + 16) c = pending p c @ [off]"
    "off + 16 = c \<Longrightarrow> pending (off + 16) c = [] \<and> length (pending p c) = 254"
proof -
  have d: "16 dvd p" "16 dvd c" "16 \<le> p" "16 \<le> c" "p \<le> 4096" "c \<le> 4096" using assms(1,2) by (auto simp: ring_pos_def)
  show "off \<notin> set (pending p c)"
  proof
    assume "off \<in> set (pending p c)"
    then show False using assms(3-5) d by (auto simp: pending_def split: if_splits dest!: offs_range)
  qed
  show "pending (off + 16) c = pending p c @ [off]" if "off + 16 \<noteq> c"
  proof (cases "p = 4096")
    case True
    then have "off = 16" "16 < c" "c \<noteq> 32" using assms(4,5) that by auto
    moreover have "c \<noteq> 32 \<Longrightarrow> 16 < c \<Longrightarrow> \<not> c \<le> 32" using d(2) by presburger
    moreover have "offs 16 32 = [16]" using offs_snoc [of 16 16] by simp
    ultimately show ?thesis using True d(6) by (simp add: pending_def)
  next
    case False
    then have o: "off = p" using assms(4) by auto
    show ?thesis
    proof (cases "c \<le> p")
      case True
      then show ?thesis using o d offs_snoc [of c p] by (simp add: pending_def)
    next
      case F: False
      then have "\<not> c \<le> p + 16" using d(1,2) that o by presburger
      then show ?thesis using F o d offs_snoc [of 16 p] by (simp add: pending_def)
    qed
  qed
  show "pending (off + 16) c = [] \<and> length (pending p c) = 254" if e: "off + 16 = c"
  proof (cases "p = 4096")
    case True
    then have "c = 32" using assms(4,5) e by auto
    then show ?thesis using True e by (simp add: pending_def)
  next
    case False
    then have o: "off = p" using assms(4) by auto
    obtain k where k: "p = 16 * k" using d(1) by blast
    have "k \<le> 255" "1 \<le> k" using d(3) False d(5) k by auto
    then have "(4096 - (p + 16)) div 16 + (p - 16) div 16 = 254"
    proof -
      have "4096 - (p + 16) = 16 * (255 - k)" "p - 16 = 16 * (k - 1)" using k \<open>k \<le> 255\<close> \<open>1 \<le> k\<close> by auto
      then show ?thesis using \<open>k \<le> 255\<close> \<open>1 \<le> k\<close> by simp
    qed
    then show ?thesis using e o by (auto simp: pending_def)
  qed
qed

text \<open>
  The recycle thread never gets past the end of the ring: there it is handed the address behind the last message, and
  after it the consumer is where it was.
\<close>

lemma consumer_stuck_at_end:
  assumes "get_consumer_offset s = END_OFFSET" "get_producer_offset s \<noteq> END_OFFSET"
  shows "\<exists>msg. retrieve_one_msg s = Some msg \<and> msg = recycle_msg_buffer s + END_OFFSET \<and> increase_consumer_offset msg s = Some s"
  using assms by (simp add: retrieve_one_msg_def increase_consumer_offset_def END_OFFSET_def add.commute)

text \<open>
  C38: the ring buffer of exit messages confuses full with empty.  A slot is refused only when the producer has reached the end and
  nothing has been read; otherwise the slot handed out holds no unread message and is appended to them, except that
  the slot before the consumer is handed out too: the offsets are equal afterwards, which the recycle thread takes
  for empty, and 254 messages that nobody has read are gone.
\<close>

theorem recycle_ring_loses_messages:
  assumes "get_producer_offset s = of_nat p" "get_consumer_offset s = of_nat c" "ring_pos p" "ring_pos c"
  shows "if p = 4096 \<and> c = 16 then get_free_slot_in_msg_buffer s = (0, s)
    else \<exists>off s'. get_free_slot_in_msg_buffer s = (of_nat off, s') \<and> ring_pos (off + 16) \<and> off \<notin> set (pending p c)
      \<and> get_producer_offset s' = of_nat (off + 16) \<and> get_consumer_offset s' = of_nat c
      \<and> (if off + 16 = c then retrieve_one_msg s' = None \<and> pending (off + 16) c = [] \<and> length (pending p c) = 254 else pending (off + 16) c = pending p c @ [off])"
proof -
  have d: "p \<le> 4096" "c \<le> 4096" "16 \<le> p" "16 \<le> c" "16 dvd p" using assms(3,4) by (auto simp: ring_pos_def)
  have cmp: "(of_nat p :: u64) \<ge> of_nat c \<longleftrightarrow> p \<ge> c" "(of_nat p :: u64) < of_nat c \<longleftrightarrow> p < c" "(of_nat p :: u64) < 4096 \<longleftrightarrow> p < 4096"
    "(of_nat p :: u64) = 4096 \<longleftrightarrow> p = 4096" "(of_nat c :: u64) > 16 \<longleftrightarrow> c > 16"
    using d by (simp_all add: word_le_nat_alt word_less_nat_alt word_unat_eq_iff)
  note g = get_free_slot_in_msg_buffer_def [of s, unfolded assms(1,2) END_OFFSET_def START_OFFSET_def MSG_SIZE_def cmp Let_def]
  show ?thesis
  proof (cases "p = 4096 \<and> c = 16")
    case True
    then show ?thesis by (simp add: g)
  next
    case False
    define off where "off = (if p = 4096 \<and> 16 < c then 16 else p)"
    have pc: "p = 4096 \<longrightarrow> 16 < c" using False d by auto
    note push = pending_push [OF assms(3,4) False off_def pc]
    have "off = (if p = 4096 then 16 else p)" using pc by (simp add: off_def)
    then have "get_free_slot_in_msg_buffer s = (of_nat off, set_producer_offset (of_nat (off + 16)) s)"
      using pc d by (cases "p = 4096"; cases "c \<le> p") (simp_all add: g)
    moreover have "ring_pos (off + 16)" using d pc by (auto simp: ring_pos_def off_def)
    moreover have "if off + 16 = c then retrieve_one_msg (set_producer_offset (of_nat (off + 16)) s) = None \<and> pending (off + 16) c = [] \<and> length (pending p c) = 254
      else pending (off + 16) c = pending p c @ [off]"
    proof (cases "off + 16 = c")
      case True
      then have "retrieve_one_msg (set_producer_offset (of_nat (off + 16)) s) = None"
        using assms(2) by (simp add: retrieve_one_msg_def offsets_after)
      with True push(3) show ?thesis by simp
    next
      case False
      with push(2) show ?thesis by simp
    qed
    ultimately show ?thesis using push(1) assms(2) False offsets_after(1,2) [of "of_nat (off + 16)" s]
      by (simp only: if_False) blast
  qed
qed

section \<open>The end of a process\<close>

lemma leave_ok:
  assumes e: "sst s = set_ctx me (c\<lparr>tstate := TS_EXIT\<rparr>) u" and q: "rr_ok u Q" and cpu: "cpu < PLAT_CPU_NUM" and c: "ctx u me = Some c" "tstate c = TS_RUNNING"
    and t: "Q cpu = t # rest" "ctx u t = Some ct" "kernel_stack_state ct = KS_FREE"
  shows "\<exists>y. do { s1 \<leftarrow> do_sched rr cpu (leave_thread cpu s); end_switch cpu s1 } = Some (s\<lparr>sst := y\<rparr>)
    \<and> rr_ok y (Q(cpu := rest)) \<and> current_threads y = (current_threads u)(cpu \<mapsto> t)"
proof -
  let ?x = "(set_ctx me (c\<lparr>tstate := TS_EXIT\<rparr>) u)\<lparr>current_threads := (current_threads u)(cpu := None)\<rparr>"
  have tm: "t \<noteq> me" using queuesD(2) [OF q cpu, of t] t c by auto
  have "rr_ok (set_ctx me (c\<lparr>tstate := TS_EXIT\<rparr>) u) Q" by (rule queues_ctx [OF q]) (use c in auto)
  then have x: "rr_ok ?x Q" by (rule queues_cong) simp_all
  have "find (runnable cpu ?x) (Q cpu) = Some t" using t tm by (simp add: runnable_def)
  from rr_choose_ok [OF x cpu this] obtain x1 where x1: "rr_sched_choose_thread cpu ?x = Some (t, x1)" "picked (\<lambda>cpu pr. cpu) PLAT_CPU_NUM ?x Q cpu t x1" by blast
  have "\<forall>u. current_threads ?x cpu = Some u \<longrightarrow> ctx ?x u \<noteq> None" by simp
  from switch_picked [OF x1(2) this] obtain y where y: "switch_to_thread cpu t x1 = Some y" "rr_ok y (Q(cpu := remove1 t (Q cpu)))"
    "current_threads y = (current_threads u)(cpu \<mapsto> t)" "prev_thread y t = NULL_THREAD" by auto
  have "rr_sched cpu ?x = Some y" using x1(1) y(1) by (simp add: rr_sched_def)
  moreover have "finish_switch cpu y = Some y" using y(3,4) by (simp add: finish_switch_def)
  ultimately show ?thesis using y(2,3) t(1)
    by (intro exI [of _ y]) (simp add: do_sched_def end_switch_def leave_thread_def rr_def e)
qed

text \<open>
  C37: the end of a process is never reported.  A thread that calls \<^verbatim>\<open>sys_exit_group\<close> in a process that has not called it before dies and
  the next thread of the CPU runs, but the process manager gets no message and no signal: the result of
  \<^verbatim>\<open>__sync_val_compare_and_swap\<close> is the old value, and the code sends the message when it is 1, not when it is 0.
\<close>

theorem first_exit_not_reported:
  assumes q: "rr_ok (sst s) Q" and cpu: "cpu < PLAT_CPU_NUM" and me: "current_thread cpu s = Some me" "ctx (sst s) me = Some c" "tstate c = TS_RUNNING"
    and g: "groups (cst s) (thread_group s me) = Some G" "notify_recycler G = 0"
    and t: "Q cpu = t # rest" "ctx (sst s) t = Some ct" "kernel_stack_state ct = KS_FREE"
  shows "\<exists>s'. sys_exit_group rr cpu exitcode s = Some s' \<and> current_thread cpu s' = Some t \<and> rr_ok (sst s') (Q(cpu := rest))
    \<and> groups (cst s') = (groups (cst s))(thread_group s me \<mapsto> G\<lparr>notify_recycler := 1\<rparr>)
    \<and> vm s' = vm s \<and> notifics s' = notifics s \<and> waiting s' = waiting s \<and> recycle_msg_head s' = recycle_msg_head s"
proof -
  let ?d = "(cst s)\<lparr>groups := (groups (cst s))(thread_group s me \<mapsto> G\<lparr>notify_recycler := 1\<rparr>)\<rparr>"
  let ?s = "s\<lparr>sst := set_ctx me (c\<lparr>tstate := TS_EXIT\<rparr>) (sst s), cst := ?d\<rparr>"
  have "sst ?s = set_ctx me (c\<lparr>tstate := TS_EXIT\<rparr>) (sst s)" by simp
  from leave_ok [OF this q cpu me(2,3) t] obtain y where
    y: "do { s1 \<leftarrow> do_sched rr cpu (leave_thread cpu ?s); end_switch cpu s1 } = Some (?s\<lparr>sst := y\<rparr>)" "rr_ok y (Q(cpu := rest))"
    "current_threads y = (current_threads (sst s))(cpu \<mapsto> t)" by auto
  have "sys_exit_group rr cpu exitcode s = do { s1 \<leftarrow> do_sched rr cpu (leave_thread cpu ?s); end_switch cpu s1 }"
    using me g by (simp add: sys_exit_group_def set_thread_state_def upd_ctx_def current_cap_group_def upd_group_def current_thread_def)
  then show ?thesis using y by (intro exI [of _ "?s\<lparr>sst := y\<rparr>"]) (simp add: current_thread_def)
qed

section \<open>A small system\<close>

text \<open>The machine of \<^const>\<open>small_notify\<close> with one group.\<close>

definition small_process :: pstate where
  "small_process = nstate.extend (small_notify\<lparr>cst := no_caps\<lparr>groups := [0 \<mapsto> \<lparr>slot_tab = blank_table, threads_lock = lock_init, thread_cnt = 1, badge = 9, notify_recycler = 0\<rparr>]\<rparr>\<rparr>)
     (pstate.fields (\<lambda>_. \<lparr>ipi_lock = lock_init, start = 0, finish = 0, args = replicate IPI_DATA_ARG_NUM 0\<rparr>) (\<lambda>_. 0) (\<lambda>_. HANDLE_KERNEL) (\<lambda>_. None) (\<lambda>_. 0)
       None 0 [] lock_init)"

lemma small_process_fields:
  "sst small_process = sst small_notify" "sleep_state small_process = sleep_state small_notify" "sleepers small_process = sleepers small_notify"
  "sleep_list_lock small_process = sleep_list_lock small_notify" "notifics small_process = notifics small_notify" "waiting small_process = waiting small_notify"
  "readings small_process = readings small_notify" "cntpct_el0 small_process = cntpct_el0 small_notify" "thread_group small_process = (\<lambda>_. 0)"
  "groups (cst small_process) 0 = Some \<lparr>slot_tab = blank_table, threads_lock = lock_init, thread_cnt = 1, badge = 9, notify_recycler = 0\<rparr>"
  "current_thread 0 small_process = Some 10" "recycle_msg_head small_process = []"
  by (simp_all add: small_process_def nstate.defs pstate.defs current_thread_def small_notify_def two_ready_ctx)

lemma small_process_ready:
  "ctx (sst small_process) 11 = Some ((init_thread_ctx 10 TYPE_USER NO_AFF)\<lparr>cpuid := 0, tstate := TS_READY\<rparr>)"
  "kernel_stack_state ((init_thread_ctx 10 TYPE_USER NO_AFF)\<lparr>cpuid := 0, tstate := TS_READY\<rparr>) = KS_FREE" "((\<lambda>_. [])(0 := [11, 12])) 0 = [11, 12]"
  by (simp_all add: small_process_fields small_notify_fields two_ready_ctx init_thread_ctx_def)

theorem timer_interrupt_correct_witness:
  "\<exists>s'. handle_irq rr 0 INT_SRC_TIMER3 small_process = Some s' \<and> rr_ok (sst s') ((\<lambda>_. [])(0 := [12, 13, 10])) \<and> current_thread 0 s' = Some 11"
proof -
  let ?c = "(init_thread_ctx 10 TYPE_USER NO_AFF)\<lparr>tstate := TS_RUNNING\<rparr>"
  note f = small_process_fields
  have s: "sleep_ok just_13 small_process" using small_notify_sleep sleep_ok_cong [of small_process small_notify] f by simp
  have w: "wait_ok just_13 small_process" by (rule wait_ok_sched [OF small_notify_wait]) (simp_all add: f)
  have q: "rr_ok (sst small_process) ((\<lambda>_. [])(0 := [11, 12]))" unfolding f by (rule small_notify_queues)
  have c: "ctx (sst small_process) 10 = Some ?c" "budget ?c = 1" "fit 0 ?c"
    using small_notify_running(3) by (simp_all add: f init_thread_ctx_def DEFAULT_BUDGET_def fit_def stays_def target_cpu_def MAX_PRIO_def)
  have "timer_ok just_13 13 small_process" by (simp add: timer_ok_def f small_notify_fields)
  then have t: "\<forall>t \<in> set (just_13 0). waits 0 0 t small_process \<and> timer_ok just_13 t small_process" using small_notify_running(6) by (simp add: waits_def f)
  have es: "[13] = filter (\<lambda>t. wakeup small_process t < cntpct_el0 small_process (readings small_process)) (just_13 0)" by (simp add: f small_notify_fields wakeup_def)
  from timer_interrupt_correct [OF s w q small_notify_running(1) t f(11) c(1) small_notify_running(4) c(2,3) small_process_ready(3,1,2) es]
  obtain s' where "handle_irq rr 0 INT_SRC_TIMER3 small_process = Some s'" "rr_ok (sst s') (((\<lambda>_. [])(0 := [11, 12]))(0 := [12] @ [13] @ [10]))" "current_thread 0 s' = Some 11"
    by (elim exE conjE) (rule that)
  then show ?thesis by (intro exI [of _ s']) simp
qed

theorem recycle_ring_loses_messages_witness:
  "\<exists>s s' :: pstate. get_producer_offset s = 32 \<and> get_consumer_offset s = 48 \<and> length (pending 32 48) = 254
     \<and> get_free_slot_in_msg_buffer s = (32, s') \<and> get_producer_offset s' = 48 \<and> get_consumer_offset s' = 48 \<and> retrieve_one_msg s' = None"
proof -
  let ?s = "set_producer_offset 32 (set_consumer_offset 48 small_process)"
  have p: "get_producer_offset ?s = of_nat 32" "get_consumer_offset ?s = of_nat 48" by (simp_all add: offsets_after)
  have r: "ring_pos 32" "ring_pos 48" by (simp_all add: ring_pos_def)
  from recycle_ring_loses_messages [OF p r] obtain off s' where o: "get_free_slot_in_msg_buffer ?s = (of_nat off, s')" "get_producer_offset s' = of_nat (off + 16)"
    "get_consumer_offset s' = of_nat 48" "if off + 16 = 48 then retrieve_one_msg s' = None \<and> pending (off + 16) 48 = [] \<and> length (pending 32 48) = 254 else pending (off + 16) 48 = pending 32 48 @ [off]" "ring_pos (off + 16)"
    by auto
  have "fst (get_free_slot_in_msg_buffer ?s) = 32"
    using p by (simp add: get_free_slot_in_msg_buffer_def END_OFFSET_def START_OFFSET_def)
  then have "off = 32" using o(1,5) by (auto simp: ring_pos_def word_unat_eq_iff)
  then show ?thesis using o p by (intro exI [of _ ?s] exI [of _ s']) simp
qed

theorem first_exit_not_reported_witness:
  "\<exists>s'. sys_exit_group rr 0 1 small_process = Some s' \<and> current_thread 0 s' = Some 11 \<and> notifics s' = notifics small_process \<and> recycle_msg_head s' = []"
proof -
  note f = small_process_fields
  have q: "rr_ok (sst small_process) ((\<lambda>_. [])(0 := [11, 12]))" unfolding f by (rule small_notify_queues)
  have c: "ctx (sst small_process) 10 = Some ((init_thread_ctx 10 TYPE_USER NO_AFF)\<lparr>tstate := TS_RUNNING\<rparr>)" using small_notify_running(3) by (simp add: f)
  have g: "groups (cst small_process) (thread_group small_process 10) = Some \<lparr>slot_tab = blank_table, threads_lock = lock_init, thread_cnt = 1, badge = 9, notify_recycler = 0\<rparr>"
    using f(9,10) by simp
  from first_exit_not_reported [OF q small_notify_running(1) f(11) c small_notify_running(4) g _ small_process_ready(3,1,2), of 1] f(12) show ?thesis by auto
qed

end
