(* ===== verification/Spec2Isabelle.thy ===== *)
theory Spec2Isabelle
  imports Prelude Ticket_Lock RW_Lock Linked_List Bitmap Buddy Slab Capability Cap_Invariant Cap_System Sched Sched_Inv Node_Tree Radix Page_Table
    Vmspace Vmspace_Fault Vmspace_Inv Kernel Memory Thread IPC Notification Process
begin

text \<open>
  Verification of the ChCore microkernel with FlexIPC (the directory \<^verbatim>\<open>kernel\<close> of the repository, for
  aarch64 on the Raspberry Pi 3).

  \<^bold>\<open>The program.\<close>  A process of this kernel is a capability group: a table of slots that point to kernel
  objects (threads, memory objects, address spaces, connections, notifications, interrupts, other groups).  A
  system call names its objects by slot numbers and takes a reference on each while it works.  Memory comes from
  a buddy allocator with slab caches above it; a memory object keeps its pages in a radix tree; an address space
  is a list of regions and a page table that the page fault handler fills.  Threads wait in ready queues of each
  CPU; a scheduler policy picks the next one.  A client calls a server by migrating to a handler thread on the
  same CPU, with a message in shared memory and with capabilities.  Notifications and sleep lists block and wake
  threads, and the timer interrupt drives both and the scheduler.  The process manager learns of the end
  of a process through a ring of messages in its own memory.

  \<^bold>\<open>How the code is modelled.\<close>  One definition stands for one function and has its name; a struct is a record,
  an enum a datatype, a C integer a word of its width where it can wrap or is used bitwise.  A function of the kernel that
  changes state takes it and returns it in \<open>option\<close>.  \<open>None\<close> means that the code does not return or that C
  leaves it undefined: a failed \<^verbatim>\<open>BUG_ON\<close>, a spin on a lock that nobody will release, an access through
  \<^verbatim>\<open>NULL\<close> or outside an array.  Error codes are ordinary results.  The operations of the components run one
  after the other, each taking and releasing the locks it takes in the source; the two kinds of locks are also verified as
  concurrent programs.  Intrusive lists lie on heaps of list nodes.

  \<^bold>\<open>The theories, from the bottom up.\<close>

  \<^item> \<open>Prelude\<close>: integer types, error numbers, \<^verbatim>\<open>BUG_ON\<close>, and the interface \<open>forward_simulation\<close>.
  \<^item> \<open>Ticket_Lock\<close> (\<^verbatim>\<open>arch/*/sync/ticket.c\<close>) and \<open>RW_Lock\<close> (\<^verbatim>\<open>arch/*/sync/rwlock.c\<close>): each operation alone, and the
    aarch64 code as a step relation with one step per memory access.  Shown: mutual exclusion, and simulation by a first-in first-out
    mutex and by a readers-writer specification, through \<open>forward_simulation\<close>.
  \<^item> \<open>Linked_List\<close> (\<^verbatim>\<open>include/common/list.h\<close>, \<^verbatim>\<open>hashtable.h\<close>): the contract \<open>intrusive_list\<close>, met by the code; every
    list of the other theories rests on it.  \<open>Bitmap\<close> (\<^verbatim>\<open>include/common/bitops.h\<close>): the search by words is the search by bits.
  \<^item> \<open>Buddy\<close> (\<^verbatim>\<open>mm/buddy.c\<close>): free and used blocks tile the zone and free buddies are merged; the contract \<open>page_allocator\<close>.
    \<open>Slab\<close> (\<^verbatim>\<open>mm/slab.c\<close>, \<^verbatim>\<open>mm/kmalloc.c\<close>, \<^verbatim>\<open>mm/mm.c\<close>): live objects never overlap.
  \<^item> \<open>Capability\<close> (\<^verbatim>\<open>object/cap_group.c\<close>, \<^verbatim>\<open>object/capability.c\<close>), \<open>Cap_Invariant\<close> and \<open>Cap_System\<close>: slot tables, bit maps, lists of
    copies and reference counts agree in every operation; the contract \<open>capability_space\<close>; type safety
    of every reachable state; what copying, moving, freeing and revoking do, on their error paths too.
  \<^item> \<open>Sched\<close> (\<^verbatim>\<open>sched/sched.c\<close>, \<^verbatim>\<open>policy_rr.c\<close>, \<^verbatim>\<open>policy_pbrr.c\<close>, \<^verbatim>\<open>arch/aarch64/sched/fpu.c\<close>) and \<open>Sched_Inv\<close>: the queues hold exactly the
    ready threads, for both policies by the contract \<open>ready_queues\<close>; progress of round robin; the values of the lazily switched registers.
  \<^item> \<open>Node_Tree\<close>, \<open>Radix\<close> (\<^verbatim>\<open>lib/radix.c\<close>) and \<open>Page_Table\<close> (\<^verbatim>\<open>arch/aarch64/mm/page_table.c\<close>): trees of arrays in a
    store; the radix tree is a map (contract \<open>key_store\<close>), the page table a partial function on pages.
  \<^item> \<open>Vmspace\<close> (\<^verbatim>\<open>mm/vmregion.c\<close>, \<^verbatim>\<open>mm/pgfault_handler.c\<close>), \<open>Vmspace_Fault\<close> and \<open>Vmspace_Inv\<close>: page table, regions and objects agree along
    every run of a state machine of creations, mappings and faults, and frames are not shared.
  \<^item> \<open>Kernel\<close> (\<^verbatim>\<open>arch/aarch64/mm/uaccess.c\<close>, \<^verbatim>\<open>irq/pgfault.c\<close>) joins the three states; \<open>Memory\<close> (\<^verbatim>\<open>object/memory.c\<close>) has the system calls on
    memory objects, \<^verbatim>\<open>mmap\<close>, \<^verbatim>\<open>mprotect\<close>, the heap and shared memory.
  \<^item> \<open>Thread\<close> (\<^verbatim>\<open>object/thread.c\<close>, \<^verbatim>\<open>sched/context.c\<close>) and \<open>IPC\<close> (\<^verbatim>\<open>ipc/connection.c\<close>): creation of threads; a call and its
    return, exclusion at the handler, delivery of messages and capabilities.
  \<^item> \<open>Notification\<close> (\<^verbatim>\<open>irq/timer.c\<close>, \<^verbatim>\<open>ipc/notification.c\<close>) and \<open>Process\<close> (\<^verbatim>\<open>arch/aarch64/irq\<close>, \<^verbatim>\<open>irq/ipi.c\<close>, \<^verbatim>\<open>object/irq.c\<close>, \<^verbatim>\<open>object/recycle.c\<close>):
    sleep lists, waiting and signalling, the timer interrupt with preemption, the end of threads and processes.

  The states of the upper theories are extensions of one record: \<open>kstate\<close>, then \<open>machine\<close>, then \<open>ipc_state\<close> or \<open>nstate\<close>, then \<open>pstate\<close>.
  The budget of a scheduling context is kept with its thread, and \<open>sched_cont\<close> records whose
  scheduling context a migrated thread runs on.

  \<^bold>\<open>Loops and bounds.\<close>  There is no fuel.  A loop with a measure is a function with a termination proof.  A walk over
  a linked structure, or a loop whose end depends on the state, is a \<open>partial_function\<close> whose value \<open>None\<close> is "does not
  end"; the lemmas about it show that it returns under the invariant (the scans of slabs and of free
  slots, the walks over ready queues, sleepers and copies of a capability, the loops over page tables and regions).  The
  lock theorems hold up to the number of threads that the width of the counters bears, \<open>2 ^ 32 - 1\<close> tickets and \<open>2 ^ 31 - 1\<close> readers.
  The numbers of CPUs, orders and priorities are those of the source.

  \<^bold>\<open>Parameters.\<close>  What the kernel reads from the hardware is part of the state or an argument: the readings of the
  counter, the interrupt source, the bytes of memory behind an allocated block, and how much memory the allocator can still provide to a
  component that is not verified together with it.

  \<^bold>\<open>What the code gets wrong.\<close>  Where the code does not do what it means to, the theorem states what it does: the handler lock
  that a refused call keeps, the write to a memory object that goes to the start of the page, the exit that is not reported, the ring that loses
  messages, and lemmas on the lock that a failed unmapping keeps, the slab that a stale header loses and the x86_64 reader lock.

  \<^bold>\<open>Not modelled.\<close>  The loading of ELF images and the first process, boot code and exception vectors, cache
  maintenance, printing, the table of system calls, the Hikey970 board, the x86_64 port but for its locks, kernel tests, and user
  space but for the reader of the exit messages: they are assembly, device access, third-party code, or
  dispatch to what is modelled.  Two operations on the same data do not interleave in the model outside the lock theories;
  the locks of the source order them.
\<close>

end
